(* ===== verification/Prelude.thy ===== *)
theory Prelude
  imports Main "HOL-Library.Word"
begin

text \<open>
  Shared vocabulary of the development: the machine integers of the C code, the ways a C
  program can go wrong (\<open>fault\<close>) with the sequencing of computations that may do so, and
  the generic list facts that the components share.
\<close>

unbundle bit_operations_syntax

section \<open>Machine integers\<close>

type_synonym u8 = "8 word"
type_synonym u16 = "16 word"
type_synonym u32 = "32 word"

section \<open>Faults\<close>

text \<open>
  What stops a run of the C code: an access outside an array or through a null pointer, a read
  of a variable that was never assigned, an overflow of signed arithmetic, a failed \<^verbatim>\<open>assert\<close>, and
  a call of \<^verbatim>\<open>exit\<close>. The first four are undefined behaviour, which the models make visible as a value.
\<close>

datatype fault = OutOfBounds | NullDeref | Uninitialised | Overflow | AssertFailed | ExitCall int

type_synonym 'a res = "fault + 'a"

definition rbind :: "'a res \<Rightarrow> ('a \<Rightarrow> 'b res) \<Rightarrow> 'b res" where
  "rbind r f = (case r of Inl e \<Rightarrow> Inl e | Inr x \<Rightarrow> f x)"

text \<open>Evaluation must not look at the second computation before the first has a value.\<close>

declare rbind_def [code_unfold]

lemma rbind_simps [simp]:
  "rbind (Inl e) f = Inl e"
  "rbind (Inr x) f = f x"
  by (simp_all add: rbind_def)

lemma rbind_Inr_iff: "rbind r f = Inr y \<longleftrightarrow> (\<exists>x. r = Inr x \<and> f x = Inr y)"
  by (cases r) auto

lemma rbind_InrE:
  assumes "rbind r f = Inr y"
  obtains x where "r = Inr x" and "f x = Inr y"
  using assms by (auto simp: rbind_Inr_iff)

lemma rbind_split:
  "P (rbind r f) \<longleftrightarrow> (\<forall>e. r = Inl e \<longrightarrow> P (Inl e)) \<and> (\<forall>x. r = Inr x \<longrightarrow> P (f x))"
  by (cases r) auto

text \<open>A \<^verbatim>\<open>for\<close> loop over a list of items whose body may fault.\<close>

fun rfold :: "('a \<Rightarrow> 's \<Rightarrow> 's res) \<Rightarrow> 'a list \<Rightarrow> 's \<Rightarrow> 's res" where
  "rfold f [] s = Inr s"
| "rfold f (x # xs) s = rbind (f x s) (rfold f xs)"

lemma rfold_append: "rfold f (xs @ ys) s = rbind (rfold f xs s) (rfold f ys)"
  by (induction xs arbitrary: s) (auto simp: rbind_def split: sum.splits)

text \<open>A loop that faults does so in one of its steps.\<close>

lemma rfold_Inl:
  "rfold f xs s = Inl x \<Longrightarrow> \<exists>i < length xs. \<exists>t. rfold f (take i xs) s = Inr t \<and> f (xs ! i) t = Inl x"
proof (induction xs arbitrary: s)
  case (Cons y xs)
  show ?case
  proof (cases "f y s")
    case (Inl z)
    with Cons.prems show ?thesis by (intro exI [of _ 0]) simp
  next
    case (Inr t)
    with Cons.prems have "rfold f xs t = Inl x" by simp
    from Cons.IH [OF this] obtain i u where "i < length xs" "rfold f (take i xs) t = Inr u" "f (xs ! i) u = Inl x" by blast
    with Inr show ?thesis by (intro exI [of _ "Suc i"]) simp
  qed
qed simp

text \<open>An invariant of the body is an invariant of the loop; likewise for absence of faults.\<close>

lemma rfold_inv:
  assumes "rfold f xs s = Inr t" and "P s"
    and "\<And>x s t. x \<in> set xs \<Longrightarrow> P s \<Longrightarrow> f x s = Inr t \<Longrightarrow> P t"
  shows "P t"
  using assms
proof (induction xs arbitrary: s)
  case (Cons x xs)
  from Cons.prems(1) obtain u where "f x s = Inr u" and "rfold f xs u = Inr t"
    by (auto simp: rbind_Inr_iff)
  with Cons show ?case by (metis list.set_intros)
qed simp

lemma rfold_total:
  assumes "P s" and "\<And>x s. x \<in> set xs \<Longrightarrow> P s \<Longrightarrow> \<exists>t. f x s = Inr t \<and> P t"
  shows "\<exists>t. rfold f xs s = Inr t \<and> P t"
  using assms
proof (induction xs arbitrary: s)
  case (Cons x xs)
  from Cons.prems obtain u where "f x s = Inr u" and "P u" by force
  with Cons show ?case by auto
qed simp

section \<open>Checked array access\<close>

definition arr_get :: "'a list \<Rightarrow> nat \<Rightarrow> 'a res" where
  "arr_get xs i = (if i < length xs then Inr (xs ! i) else Inl OutOfBounds)"

definition arr_set :: "'a list \<Rightarrow> nat \<Rightarrow> 'a \<Rightarrow> 'a list res" where
  "arr_set xs i x = (if i < length xs then Inr (xs[i := x]) else Inl OutOfBounds)"

lemma arr_get_Inr [simp]: "i < length xs \<Longrightarrow> arr_get xs i = Inr (xs ! i)"
  by (simp add: arr_get_def)

lemma arr_set_Inr [simp]: "i < length xs \<Longrightarrow> arr_set xs i x = Inr (xs[i := x])"
  by (simp add: arr_set_def)

lemma arr_get_eq_Inr_iff: "arr_get xs i = Inr y \<longleftrightarrow> i < length xs \<and> y = xs ! i"
  by (auto simp: arr_get_def)

section \<open>Lists\<close>

lemma nth_list_update_iff:
  "i < length xs \<Longrightarrow> xs[j := x] ! i = (if i = j then x else xs ! i)"
  by (simp add: nth_list_update)

lemma map_nth_upt_drop:
  "n \<le> length xs \<Longrightarrow> map (\<lambda>i. xs ! (n + i)) [0..<length xs - n] = drop n xs"
  by (intro nth_equalityI) auto

lemma find_upt_Some: "i < n \<Longrightarrow> p i \<Longrightarrow> (\<And>j. j < i \<Longrightarrow> \<not> p j) \<Longrightarrow> find p [0..<n] = Some i"
  by (auto simp: find_Some_iff intro!: exI [of _ i])

lemma find_upt_None_iff: "find p [0..<n] = None \<longleftrightarrow> (\<forall>j < n. \<not> p j)"
  by (auto simp: find_None_iff)

lemma foldl_map2:
  assumes "length xs = length ys"
    and "\<And>a b x y. g (h a b) (k x y) = h (g a x) (g b y)"
  shows "foldl g (h a b) (map2 k xs ys) = h (foldl g a xs) (foldl g b ys)"
  using assms by (induction xs ys arbitrary: a b rule: list_induct2) auto

end
