(* ===== verification/Frame.thy ===== *)
theory Frame
  imports Prelude
begin

text \<open>
  Frames of the simulated data link (\<^verbatim>\<open>tcp/src/common.h\<close>) and their CRC-8
  (\<^verbatim>\<open>tcp/src/util.c\<close>): the byte layout of the packed struct, the checksum computation, and the
  error detection it gives. The byte order of the 16-bit field is that of a little-endian host;
  no property depends on it.
\<close>

section \<open>The frame and its bytes\<close>

text \<open>The field \<^verbatim>\<open>length\<close> is \<open>flength\<close> here, and \<^verbatim>\<open>data\<close> is a list of \<open>FRAME_PAYLOAD_SIZE\<close> bytes.\<close>

definition FRAME_PAYLOAD_SIZE :: nat where "FRAME_PAYLOAD_SIZE = 56"
definition MAX_FRAME_SIZE :: nat where "MAX_FRAME_SIZE = 64"

record frame =
  remaining_msg_bytes :: u16
  dst_id :: u8
  src_id :: u8
  seq_num :: u8
  is_ack :: u8
  flength :: u8
  data :: "u8 list"
  checksum :: u8

definition wf_frame :: "frame \<Rightarrow> bool" where
  "wf_frame f \<longleftrightarrow> length (data f) = FRAME_PAYLOAD_SIZE"

definition convert_frame_to_char :: "frame \<Rightarrow> u8 list" where
  "convert_frame_to_char f =
     [ucast (remaining_msg_bytes f), ucast (drop_bit 8 (remaining_msg_bytes f)),
      dst_id f, src_id f, seq_num f, is_ack f, flength f] @ data f @ [checksum f]"

definition convert_char_to_frame :: "u8 list \<Rightarrow> frame" where
  "convert_char_to_frame b =
     \<lparr>remaining_msg_bytes = ucast (b ! 0) OR push_bit 8 (ucast (b ! 1)),
      dst_id = b ! 2, src_id = b ! 3, seq_num = b ! 4, is_ack = b ! 5, flength = b ! 6,
      data = take 56 (drop 7 b), checksum = b ! 63\<rparr>"

section \<open>CRC-8\<close>

text \<open>One round of the inner loop: shift bit \<open>j\<close> of \<open>byte\<close> in, reduce if a one was shifted out.\<close>

definition crc_bit :: "u8 \<Rightarrow> u8 \<Rightarrow> nat \<Rightarrow> u8" where
  "crc_bit byte remainder j =
     (if 0x80 AND remainder \<noteq> 0
      then ((push_bit 1 remainder) OR (drop_bit j byte AND 1)) XOR 0x07
      else (push_bit 1 remainder) OR (drop_bit j byte AND 1))"

definition crc_byte :: "u8 \<Rightarrow> u8 \<Rightarrow> u8" where
  "crc_byte remainder byte = foldl (crc_bit byte) remainder [7, 6, 5, 4, 3, 2, 1, 0]"

definition compute_crc8 :: "u8 list \<Rightarrow> u8" where
  "compute_crc8 buf = foldl crc_byte (buf ! 0) (map (\<lambda>i. buf ! i) [1..<64])"

definition set_checksum :: "frame \<Rightarrow> frame" where
  "set_checksum f =
     (let f = f\<lparr>checksum := 0\<rparr>; c = compute_crc8 (convert_frame_to_char f) in f\<lparr>checksum := c\<rparr>)"

definition frame_valid :: "frame \<Rightarrow> bool" where
  "frame_valid f \<longleftrightarrow> compute_crc8 (convert_frame_to_char f) = 0"

section \<open>The byte layout\<close>

lemma length_convert_frame_to_char:
  "wf_frame f \<Longrightarrow> length (convert_frame_to_char f) = MAX_FRAME_SIZE"
  by (simp add: wf_frame_def convert_frame_to_char_def FRAME_PAYLOAD_SIZE_def MAX_FRAME_SIZE_def)

lemma wf_convert_char_to_frame:
  "length b = MAX_FRAME_SIZE \<Longrightarrow> wf_frame (convert_char_to_frame b)"
  by (simp add: wf_frame_def convert_char_to_frame_def FRAME_PAYLOAD_SIZE_def MAX_FRAME_SIZE_def)

lemma u16_bytes_roundtrip:
  fixes x :: u16
  shows "ucast (ucast x :: u8) OR push_bit 8 (ucast (ucast (drop_bit 8 x) :: u8)) = x"
  by (rule bit_word_eqI) (auto simp: bit_simps)

lemma u16_bytes:
  fixes a b :: u8
  shows "ucast (ucast a OR push_bit 8 (ucast b) :: u16) = a"
    and "ucast (drop_bit 8 (ucast a OR push_bit 8 (ucast b) :: u16)) = b"
  by (rule bit_word_eqI, auto simp: bit_simps dest: bit_imp_le_length)+

lemma char_frame_roundtrip:
  assumes "wf_frame f"
  shows "convert_char_to_frame (convert_frame_to_char f) = f"
  using assms u16_bytes_roundtrip [of "remaining_msg_bytes f"]
  by (cases f) (simp add: wf_frame_def convert_char_to_frame_def convert_frame_to_char_def
      FRAME_PAYLOAD_SIZE_def nth_append)

lemma frame_char_roundtrip:
  assumes "length b = MAX_FRAME_SIZE"
  shows "convert_frame_to_char (convert_char_to_frame b) = b"
proof (rule nth_equalityI)
  show "length (convert_frame_to_char (convert_char_to_frame b)) = length b"
    using assms by (simp add: length_convert_frame_to_char wf_convert_char_to_frame)
  fix i
  assume "i < length (convert_frame_to_char (convert_char_to_frame b))"
  then have i: "i < 64"
    using assms by (simp add: length_convert_frame_to_char wf_convert_char_to_frame MAX_FRAME_SIZE_def)
  then consider "i \<in> {0, 1, 2, 3, 4, 5, 6}" | "7 \<le> i" "i < 63" | "i = 63" by fastforce
  then show "convert_frame_to_char (convert_char_to_frame b) ! i = b ! i"
    using assms
    by cases (auto simp: convert_char_to_frame_def convert_frame_to_char_def u16_bytes
        u16_bytes [simplified] MAX_FRAME_SIZE_def
        nth_append nth_Cons')
qed

lemma set_checksum_fields [simp]:
  "remaining_msg_bytes (set_checksum f) = remaining_msg_bytes f"
  "dst_id (set_checksum f) = dst_id f" "src_id (set_checksum f) = src_id f"
  "seq_num (set_checksum f) = seq_num f" "is_ack (set_checksum f) = is_ack f"
  "flength (set_checksum f) = flength f" "data (set_checksum f) = data f"
  "wf_frame (set_checksum f) = wf_frame f"
  by (simp_all add: set_checksum_def Let_def wf_frame_def)

section \<open>Linear check codes\<close>

text \<open>
  What the error detection needs of one step of the division register: it is linear, it
  loses no information, and a register of zero takes the next symbol over unchanged.
\<close>

locale linear_code =
  fixes step :: "'a::len word \<Rightarrow> 'a word \<Rightarrow> 'a word"
  assumes step_linear: "step (r XOR s) (x XOR y) = step r x XOR step s y"
    and step_inj: "step r 0 = 0 \<Longrightarrow> r = 0"
    and step_absorb: "step 0 x = x"
begin

lemma step_split: "step r x = step r 0 XOR x"
  using step_linear [of r 0 0 x] by (simp add: step_absorb)

text \<open>Appending the remainder of the message extended by zero makes the remainder zero.\<close>

lemma run_check: "foldl step 0 (xs @ [foldl step 0 (xs @ [0])]) = 0"
  using step_split [of "foldl step 0 xs" "step (foldl step 0 xs) 0"] by simp

lemma run_error:
  "foldl step (r XOR e) ys = foldl step r ys XOR foldl step e (replicate (length ys) 0)"
proof (induction ys arbitrary: r e)
  case (Cons y ys)
  show ?case using Cons.IH [of "step r y" "step e 0"] step_linear [of r e y 0] by simp
qed simp

lemma run_zeros: "e \<noteq> 0 \<Longrightarrow> foldl step e (replicate n 0) \<noteq> 0"
  by (induction n arbitrary: e) (use step_inj in auto)

text \<open>A change of a single symbol is always seen.\<close>

lemma run_detect:
  assumes ok: "foldl step 0 xs = 0" and i: "i < length xs" and e: "e \<noteq> 0"
  shows "foldl step 0 (xs[i := xs ! i XOR e]) \<noteq> 0"
proof -
  let ?r = "foldl step 0 (take i xs)" and ?ys = "drop (Suc i) xs"
  have xs: "xs = take i xs @ xs ! i # ?ys" using i by (simp add: id_take_nth_drop)
  have "step ?r (xs ! i XOR e) = step ?r (xs ! i) XOR e"
    using step_linear [of ?r 0 "xs ! i" e] by (simp add: step_absorb)
  moreover have "xs[i := xs ! i XOR e] = take i xs @ (xs ! i XOR e) # ?ys"
    using i by (simp add: upd_conv_take_nth_drop)
  ultimately have "foldl step 0 (xs[i := xs ! i XOR e]) =
      foldl step (step ?r (xs ! i)) ?ys XOR foldl step e (replicate (length ?ys) 0)"
    by (simp add: run_error)
  also have "foldl step (step ?r (xs ! i)) ?ys = 0"
    using ok by (subst (asm) xs) simp
  finally show ?thesis using run_zeros [OF e] by simp
qed

end

section \<open>CRC-8 is such a code\<close>

lemma u8_eqI:
  fixes a b :: u8
  assumes "\<And>n. n < 8 \<Longrightarrow> bit a n \<longleftrightarrow> bit b n"
  shows "a = b"
  using assms by (intro bit_word_eqI) simp

lemma bit_crc_bit:
  assumes "n < 8"
  shows "bit (crc_bit byte r j) n \<longleftrightarrow> (if n = 0 then bit byte j else bit r (n - 1)) \<noteq> (bit r 7 \<and> n < 3)"
proof -
  have top: "0x80 AND r = 0 \<longleftrightarrow> \<not> bit r 7"
    using and_exp_eq_0_iff_not_bit [of r 7] by (simp add: and.commute)
  have g: "bit (7 :: u8) n \<longleftrightarrow> n < 3"
    using assms bit_mask_iff [of 3 n, where 'a = u8] by (simp add: mask_eq_exp_minus_1)
  have p: "bit (push_bit 1 r) n \<longleftrightarrow> n \<noteq> 0 \<and> bit r (n - 1)"
    using assms bit_push_bit_iff [of 1 r n] by (cases n) auto
  have a: "bit (drop_bit j byte AND 1) n \<longleftrightarrow> n = 0 \<and> bit byte j"
    using bit_drop_bit_eq [of j byte] by (auto simp: bit_and_iff bit_1_iff)
  show ?thesis
    using p a g by (auto simp: crc_bit_def top bit_or_iff bit_xor_iff)
qed

lemma less_8_cases: "(n :: nat) < 8 \<longleftrightarrow> n \<in> {0, 1, 2, 3, 4, 5, 6, 7}"
  by auto

lemma crc_bit_linear: "crc_bit (x XOR y) (r XOR s) j = crc_bit x r j XOR crc_bit y s j"
  by (rule u8_eqI) (auto simp: bit_crc_bit bit_xor_iff)

lemma crc_bit_inj: "crc_bit 0 r j = 0 \<Longrightarrow> r = 0"
proof -
  assume z: "crc_bit 0 r j = 0"
  have b: "\<not> bit (crc_bit 0 r j) n" for n by (simp add: z)
  have "\<not> bit r 7" using b [of 0] by (simp add: bit_crc_bit)
  with b [of 1] b [of 2] b [of 3] b [of 4] b [of 5] b [of 6] b [of 7]
  have "\<forall>n \<in> {0, 1, 2, 3, 4, 5, 6, 7}. \<not> bit r n"
    by (simp add: bit_crc_bit)
  then show "r = 0" by (intro u8_eqI) (auto simp: less_8_cases)
qed

lemma crc_byte_0: "crc_byte 0 b = b"
  by (rule u8_eqI) (auto simp: crc_byte_def less_8_cases bit_crc_bit)

lemma crc_fold_linear:
  "foldl (crc_bit (x XOR y)) (r XOR s) js = foldl (crc_bit x) r js XOR foldl (crc_bit y) s js"
  by (induction js arbitrary: r s) (simp_all add: crc_bit_linear)

lemma crc_fold_inj: "foldl (crc_bit 0) r js = 0 \<Longrightarrow> r = 0"
  by (induction js arbitrary: r) (auto dest: crc_bit_inj)

interpretation crc8: linear_code crc_byte
proof unfold_locales
  fix r s x y :: u8
  show "crc_byte (r XOR s) (x XOR y) = crc_byte r x XOR crc_byte s y"
    unfolding crc_byte_def by (rule crc_fold_linear)
  show "r = 0" if "crc_byte r 0 = 0"
    using that unfolding crc_byte_def by (rule crc_fold_inj)
  show "crc_byte 0 x = x" by (rule crc_byte_0)
qed

section \<open>Evaluation\<close>

text \<open>
  To evaluate checksums inside the logic, the register is kept as its eight bits: a step of the
  register is a shift, the byte comes in at the end.
\<close>

fun num_bits :: "num \<Rightarrow> bool list" where
  "num_bits num.One = [True]"
| "num_bits (num.Bit0 n) = False # num_bits n"
| "num_bits (num.Bit1 n) = True # num_bits n"

definition int_bits :: "int \<Rightarrow> bool list" where
  "int_bits k = map (bit k) [0..<8]"

fun crc_shift :: "bool list \<Rightarrow> bool list" where
  "crc_shift [r0, r1, r2, r3, r4, r5, r6, r7] =
     (if r7 then [True, \<not> r0, \<not> r1, r2, r3, r4, r5, r6] else [False, r0, r1, r2, r3, r4, r5, r6])"
| "crc_shift r = r"

definition crc_bits :: "bool list \<Rightarrow> int \<Rightarrow> bool list" where
  "crc_bits r b = map2 (\<noteq>) (crc_shift (crc_shift (crc_shift (crc_shift (crc_shift (crc_shift (crc_shift (crc_shift r)))))))) (int_bits b)"

lemma num_bits_bit: "bit (numeral n :: int) i \<longleftrightarrow> i < length (num_bits n) \<and> num_bits n ! i"
  by (induction n arbitrary: i) (auto simp: bit_1_iff bit_numeral_rec nth_Cons split: nat.splits)

lemma int_bits_code [code]:
  "int_bits 0 = replicate 8 False"
  "int_bits (Int.Pos n) = take 8 (num_bits n @ replicate 8 False)"
  by (auto simp: int_bits_def num_bits_bit nth_append simp del: take_append
      split: if_splits intro!: nth_equalityI)

lemma upt_8: "[0..<8] = [0, 1, 2, 3, 4, 5, 6, 7 :: nat]"
  by (simp add: upt_rec)

lemma int_bits_uint: "int_bits (uint b) = map (bit b) [0..<8]" for b :: u8
  by (simp add: int_bits_def bit_uint_iff)

lemma bits_crc_bit: "int_bits (uint (crc_bit 0 r j)) = crc_shift (int_bits (uint r))"
  by (simp add: int_bits_uint upt_8 bit_crc_bit)

lemma bits_crc_byte: "int_bits (uint (crc_byte r b)) = crc_bits (int_bits (uint r)) (uint b)"
proof -
  have "int_bits (uint (crc_byte r 0)) = crc_shift (crc_shift (crc_shift (crc_shift (crc_shift (crc_shift (crc_shift (crc_shift (int_bits (uint r)))))))))"
    by (simp add: crc_byte_def bits_crc_bit del: crc_shift.simps)
  moreover have "int_bits (uint (x XOR y)) = map2 (\<noteq>) (int_bits (uint x)) (int_bits (uint y))" for x y :: u8
    by (simp add: int_bits_uint upt_8 bit_xor_iff)
  ultimately show ?thesis using crc8.step_split [of r b] by (simp add: crc_bits_def del: crc_shift.simps)
qed

lemma bits_horner: "word_of_int (horner_sum of_bool 2 (int_bits (uint b))) = b" for b :: u8
  using uint_bounded [of b] by (simp add: int_bits_def horner_sum_bit_eq_take_bit take_bit_int_eq_self)

lemma compute_crc8_code [code]:
  "compute_crc8 buf = word_of_int (horner_sum of_bool 2
     (foldl crc_bits (int_bits (uint (buf ! 0))) (map (\<lambda>i. uint (buf ! i)) [1..<64])))"
proof -
  have "int_bits (uint (foldl crc_byte r bs)) = foldl crc_bits (int_bits (uint r)) (map uint bs)" for r bs
    by (induction bs arbitrary: r) (simp_all add: bits_crc_byte)
  from this [of "buf ! 0" "map (\<lambda>i. buf ! i) [1..<64]"] bits_horner [of "compute_crc8 buf"] show ?thesis
    by (simp add: compute_crc8_def comp_def)
qed

section \<open>The checksum of a frame\<close>

lemma compute_crc8_fold:
  assumes "length b = MAX_FRAME_SIZE"
  shows "compute_crc8 b = foldl crc_byte 0 b"
proof -
  obtain x xs where b: "b = x # xs" using assms by (cases b) (auto simp: MAX_FRAME_SIZE_def)
  have "map (\<lambda>i. b ! i) [1..<64] = drop 1 b"
    using assms map_nth_upt_drop [of 1 b] by (auto simp: MAX_FRAME_SIZE_def intro!: nth_equalityI)
  then show ?thesis by (simp add: compute_crc8_def b crc_byte_0)
qed

lemma set_checksum_valid:
  assumes "wf_frame f"
  shows "frame_valid (set_checksum f)"
proof -
  define pre where "pre = butlast (convert_frame_to_char f)"
  have bytes: "convert_frame_to_char (f\<lparr>checksum := c\<rparr>) = pre @ [c]" for c
    by (simp add: pre_def convert_frame_to_char_def butlast_append)
  have len: "length (pre @ [c]) = MAX_FRAME_SIZE" for c
    using assms length_convert_frame_to_char [of "f\<lparr>checksum := c\<rparr>"] by (simp add: bytes wf_frame_def)
  show ?thesis
    using crc8.run_check [of pre] len
    by (simp add: frame_valid_def set_checksum_def Let_def bytes compute_crc8_fold del: foldl_append)
qed

lemma single_byte_error_detected:
  assumes "wf_frame f" and "frame_valid f" and "i < MAX_FRAME_SIZE" and "e \<noteq> 0"
  shows "\<not> frame_valid (convert_char_to_frame
      ((convert_frame_to_char f)[i := convert_frame_to_char f ! i XOR e]))"
proof -
  let ?b = "convert_frame_to_char f"
  have len: "length ?b = MAX_FRAME_SIZE" using assms(1) by (rule length_convert_frame_to_char)
  then have "foldl crc_byte 0 ?b = 0"
    using assms(2) by (simp add: frame_valid_def compute_crc8_fold)
  from crc8.run_detect [OF this _ assms(4), of i] len assms(3) show ?thesis
    by (simp add: frame_valid_def frame_char_roundtrip compute_crc8_fold)
qed

section \<open>Properties\<close>

definition example_frame :: frame where
  "example_frame = set_checksum \<lparr>remaining_msg_bytes = 300, dst_id = 1, src_id = 0, seq_num = 7, is_ack = 0,
     flength = 56, data = replicate 56 65, checksum = 0\<rparr>"

text \<open>
  C13: every frame that fills in its checksum passes the receiver's check, whatever its fields are,
  and a frame in which any one byte was then changed, the checksum included, does not.
\<close>

theorem checksum_detects_byte_error:
  assumes "wf_frame f" and "i < MAX_FRAME_SIZE" and "x \<noteq> 0"
  shows "frame_valid (set_checksum f) \<and>
    \<not> frame_valid (convert_char_to_frame
      ((convert_frame_to_char (set_checksum f))[i := convert_frame_to_char (set_checksum f) ! i XOR x]))"
  using assms single_byte_error_detected [of "set_checksum f"] set_checksum_valid by simp

theorem checksum_detects_byte_error_witness:
  "\<not> frame_valid (convert_char_to_frame
     ((convert_frame_to_char (set_checksum example_frame))[3 := convert_frame_to_char (set_checksum example_frame) ! 3 XOR 255]))"
  using checksum_detects_byte_error [of example_frame 3 255]
  by (simp add: example_frame_def MAX_FRAME_SIZE_def wf_frame_def FRAME_PAYLOAD_SIZE_def)

text \<open>
  C14: the byte layout loses nothing: the 64 bytes of a frame are read back as the same frame, and any
  64 bytes are the bytes of the frame they are read as.
\<close>

theorem frame_bytes_roundtrip:
  assumes "wf_frame f" and "length b = MAX_FRAME_SIZE"
  shows "convert_char_to_frame (convert_frame_to_char f) = f \<and> length (convert_frame_to_char f) = MAX_FRAME_SIZE \<and>
    convert_frame_to_char (convert_char_to_frame b) = b \<and> wf_frame (convert_char_to_frame b)"
  using assms char_frame_roundtrip frame_char_roundtrip length_convert_frame_to_char wf_convert_char_to_frame by blast

theorem frame_bytes_roundtrip_witness:
  "convert_char_to_frame (convert_frame_to_char example_frame) = example_frame \<and>
   convert_frame_to_char (convert_char_to_frame (replicate 64 9)) = replicate 64 9"
  using frame_bytes_roundtrip [of example_frame "replicate 64 9"]
  by (simp add: example_frame_def MAX_FRAME_SIZE_def wf_frame_def FRAME_PAYLOAD_SIZE_def)

end
