(* ===== verification/Util.thy ===== *)
theory Util
  imports Complex_Main Prelude
begin

text \<open>
  Small helpers of \<^verbatim>\<open>tcp/src/util.c\<close>: time values, sequence numbers on the circle modulo 256,
  minimum and maximum, and the index arithmetic of the circular queues.
\<close>

section \<open>Time values\<close>

record timeval =
  tv_sec :: int
  tv_usec :: int

definition timeval_usecdiff :: "timeval \<Rightarrow> timeval \<Rightarrow> int" where
  "timeval_usecdiff start_time finish_time =
     (let usec = (tv_sec finish_time - tv_sec start_time) * 1000000
      in usec + (tv_usec finish_time - tv_usec start_time))"

definition timeval_usecplus :: "timeval \<Rightarrow> int \<Rightarrow> timeval" where
  "timeval_usecplus curr_timeval usec =
     (let new_us = tv_usec curr_timeval + usec; new_s = tv_sec curr_timeval;
          (new_s, new_us) = (if new_us \<ge> 1000000 then (new_s + new_us div 1000000, new_us mod 1000000)
                             else (new_s, new_us))
      in curr_timeval\<lparr>tv_usec := new_us, tv_sec := new_s\<rparr>)"

text \<open>The time in microseconds, the measure that both functions are about.\<close>

definition usecs :: "timeval \<Rightarrow> int" where
  "usecs t = tv_sec t * 1000000 + tv_usec t"

definition normalised :: "timeval \<Rightarrow> bool" where
  "normalised t \<longleftrightarrow> 0 \<le> tv_usec t \<and> tv_usec t < 1000000"

lemma usecdiff_usecs: "timeval_usecdiff s f = usecs f - usecs s"
  by (simp add: timeval_usecdiff_def usecs_def Let_def algebra_simps)

lemma usecplus_usecs [simp]: "usecs (timeval_usecplus t u) = usecs t + u"
proof -
  have "(tv_usec t + u) div 1000000 * 1000000 + (tv_usec t + u) mod 1000000 = tv_usec t + u"
    by simp
  then show ?thesis
    by (simp add: timeval_usecplus_def usecs_def Let_def algebra_simps)
qed

lemma usecplus_normalised: "normalised t \<Longrightarrow> 0 \<le> u \<Longrightarrow> normalised (timeval_usecplus t u)"
  by (auto simp: timeval_usecplus_def normalised_def Let_def)

section \<open>Minimum and maximum\<close>

text \<open>\<^verbatim>\<open>max_double\<close> and \<^verbatim>\<open>min_double\<close> on the exact values of the doubles.\<close>

definition max_double :: "rat \<Rightarrow> rat \<Rightarrow> rat" where
  "max_double a b = (if a \<ge> b then a else b)"

definition min_double :: "rat \<Rightarrow> rat \<Rightarrow> rat" where
  "min_double a b = (if a \<le> b then a else b)"

lemma max_double_max: "max_double a b = max a b"
  by (simp add: max_double_def max_def)

section \<open>Sequence numbers\<close>

definition MAX_SEQ_NUM :: int where "MAX_SEQ_NUM = 255"

definition seq_num_diff :: "u8 \<Rightarrow> u8 \<Rightarrow> int" where
  "seq_num_diff x1 x2 =
     (let diff = uint x2 - uint x1
      in if diff > 127 then diff - (MAX_SEQ_NUM + 1)
         else if diff < -127 then diff + (MAX_SEQ_NUM + 1)
         else diff)"

lemma uint_u8_range: "0 \<le> uint (x :: u8)" "uint (x :: u8) < 256"
  using uint_bounded [of x] by auto

lemma u8_uintE:
  fixes x :: u8
  obtains a where "uint x = a" and "0 \<le> a" and "a < 256"
  using uint_u8_range by blast

lemma seq_num_diff_range: "-128 \<le> seq_num_diff x y \<and> seq_num_diff x y \<le> 128"
  by (rule u8_uintE [of x], rule u8_uintE [of y]) (simp add: seq_num_diff_def MAX_SEQ_NUM_def Let_def)

lemma seq_num_diff_antisym: "seq_num_diff x y = - seq_num_diff y x"
  by (simp add: seq_num_diff_def MAX_SEQ_NUM_def Let_def)

text \<open>The difference takes the first number to the second on the circle.\<close>

lemma seq_num_diff_reaches: "x + word_of_int (seq_num_diff x y) = y"
proof -
  have "(word_of_int 256 :: u8) = 0" by simp
  then show ?thesis
    by (simp add: seq_num_diff_def MAX_SEQ_NUM_def Let_def)
qed

lemma seq_num_diff_exact:
  assumes "\<bar>d\<bar> \<le> 127"
  shows "seq_num_diff x (x + word_of_int d) = d"
proof (rule u8_uintE [of x])
  fix a assume a: "uint x = a" "0 \<le> a" "a < 256"
  have "uint (x + word_of_int d) = (a + d) mod 256"
    by (simp add: uint_word_ariths uint_word_of_int mod_simps a)
  also have "\<dots> = (if a + d < 0 then a + d + 256 else if a + d \<ge> 256 then a + d - 256 else a + d)"
    using a assms mod_pos_pos_trivial [of "a + d" 256] mod_pos_pos_trivial [of "a + d + 256" 256]
      mod_pos_pos_trivial [of "a + d - 256" 256] mod_add_self2 [of "a + d" 256] minus_mod_self2 [of "a + d" 256]
    by (auto simp: abs_le_iff)
  finally show ?thesis
    using a assms by (auto simp: seq_num_diff_def MAX_SEQ_NUM_def Let_def)
qed

lemma seq_num_diff_nat:
  assumes "k \<le> 127"
  shows "seq_num_diff x (x + of_nat k) = int k"
  using seq_num_diff_exact [of "int k" x] assms by simp

lemma seq_num_diff_self [simp]: "seq_num_diff x x = 0"
  by (simp add: seq_num_diff_def)

section \<open>Circular queues\<close>

text \<open>
  The windows of all peers share one array, \<open>w\<close> entries for each: element \<open>i\<close> of the queue of
  peer \<open>q\<close>, whose first element is at offset \<open>s\<close>.
\<close>

definition cell :: "nat \<Rightarrow> nat \<Rightarrow> nat \<Rightarrow> nat \<Rightarrow> nat" where
  "cell w q s i = q * w + (s + i) mod w"

definition window :: "nat \<Rightarrow> 'a list \<Rightarrow> nat \<Rightarrow> nat \<Rightarrow> nat \<Rightarrow> 'a list" where
  "window w xs q s n = map (\<lambda>i. xs ! cell w q s i) [0..<n]"

lemma cell_less: "0 < w \<Longrightarrow> q < n \<Longrightarrow> cell w q s i < n * w"
proof -
  assume "0 < w" "q < n"
  then have "(s + i) mod w < w" by simp
  moreover have "Suc q * w \<le> n * w" using \<open>q < n\<close> by (intro mult_le_mono1) simp
  ultimately show ?thesis by (simp add: cell_def)
qed

lemma cell_eq_iff:
  assumes "0 < w"
  shows "cell w q s i = cell w r t j \<longleftrightarrow> q = r \<and> (s + i) mod w = (t + j) mod w"
proof -
  have "(q * w + a) div w = q" "(q * w + a) mod w = a" if "a < w" for q a
    using that by simp_all
  moreover have "(s + i) mod w < w" "(t + j) mod w < w" using assms by simp_all
  ultimately show ?thesis unfolding cell_def by metis
qed

lemma mod_offset_inj:
  fixes i j w s :: nat
  assumes "i < w" and "j < w"
  shows "(s + i) mod w = (s + j) mod w \<longleftrightarrow> i = j"
proof
  assume e: "(s + i) mod w = (s + j) mod w"
  have "i = j" if "i \<le> j" "(s + i) mod w = (s + j) mod w" "j < w" for i j
  proof -
    have "w dvd (s + j) - (s + i)" using that(2) by (metis mod_eq_dvd_iff_nat add_le_mono1 add.commute that(1))
    then have "w dvd j - i" by simp
    with that show ?thesis by (metis diff_is_0_eq dvd_imp_le le_antisym less_imp_diff_less not_le zero_less_diff)
  qed
  then show "i = j" using e assms by (metis nat_le_linear)
qed simp

lemma cell_inj: "i < w \<Longrightarrow> j < w \<Longrightarrow> cell w q s i = cell w q s j \<longleftrightarrow> i = j"
  by (simp add: cell_eq_iff mod_offset_inj)

lemma cell_other: "0 < w \<Longrightarrow> q \<noteq> r \<Longrightarrow> cell w q s i \<noteq> cell w r t j"
  by (simp add: cell_eq_iff)

lemma cell_shift: "cell w q ((s + m) mod w) i = cell w q s (m + i)"
  by (simp add: cell_def mod_add_left_eq add.assoc)

lemma cell_wrap: "cell w q s (i + w) = cell w q s i"
  by (simp add: cell_def flip: add.assoc)

text \<open>Every entry of a peer's block is some element of its queue of full length.\<close>

lemma cell_covers:
  assumes "s < w" and "k < w"
  shows "\<exists>i < w. cell w q s i = q * w + k"
proof (cases "s \<le> k")
  case True
  with assms show ?thesis by (intro exI [of _ "k - s"]) (auto simp: cell_def)
next
  case False
  then have "(s + (w + k - s)) mod w = k" using assms by simp
  with False assms show ?thesis by (intro exI [of _ "w + k - s"]) (auto simp: cell_def)
qed

lemma length_window [simp]: "length (window w xs q s n) = n"
  by (simp add: window_def)

lemma nth_window [simp]: "i < n \<Longrightarrow> window w xs q s n ! i = xs ! cell w q s i"
  by (simp add: window_def)

lemma window_cong:
  "(\<And>i. i < n \<Longrightarrow> xs ! cell w q s i = ys ! cell w q t i) \<Longrightarrow> window w xs q s n = window w ys q t n"
  by (simp add: window_def)

lemma window_update_other [simp]:
  "0 < w \<Longrightarrow> q \<noteq> r \<Longrightarrow> window w (xs[cell w q s i := x]) r t n = window w xs r t n"
  by (intro window_cong) (simp add: cell_other)

lemma window_append:
  assumes "n < w" and "cell w q s n < length xs"
  shows "window w (xs[cell w q s n := x]) q s (Suc n) = window w xs q s n @ [x]"
  using assms by (intro nth_equalityI) (auto simp: nth_append cell_inj less_Suc_eq)

lemma window_drop: "window w xs q ((s + m) mod w) (n - m) = drop m (window w xs q s n)"
  by (intro nth_equalityI) (auto simp: cell_shift)

lemma window_Suc: "window w xs q s (Suc n) = xs ! cell w q s 0 # window w xs q (Suc s mod w) n"
  using cell_shift [of w q s 1] by (intro nth_equalityI) (auto simp: nth_Cons')

section \<open>Properties\<close>

text \<open>
  C15: sequence numbers compare as the counts they stand for as long as these are at most 127 apart,
  across the wrap-around at 256.
\<close>

theorem seq_num_diff_counts:
  assumes "\<bar>int n - int m\<bar> \<le> 127"
  shows "seq_num_diff (of_nat m) (of_nat n) = int n - int m"
  using seq_num_diff_exact [OF assms, of "of_nat m"] by simp

theorem seq_num_diff_counts_witness: "seq_num_diff (of_nat 250) (of_nat 260) = 10"
  using seq_num_diff_counts [of 260 250] by simp

text \<open>
  Adding microseconds to a time moves it by exactly that much, keeps the microseconds below a
  million, and \<^verbatim>\<open>timeval_usecdiff\<close> measures the step back.
\<close>

theorem timeval_arith:
  assumes "normalised t" and "0 \<le> u"
  shows "normalised (timeval_usecplus t u) \<and> timeval_usecdiff t (timeval_usecplus t u) = u"
  using assms by (simp add: usecplus_normalised usecdiff_usecs)

theorem timeval_arith_witness:
  "timeval_usecdiff \<lparr>tv_sec = 3, tv_usec = 999999\<rparr> (timeval_usecplus \<lparr>tv_sec = 3, tv_usec = 999999\<rparr> 100000) = 100000"
  using timeval_arith [of "\<lparr>tv_sec = 3, tv_usec = 999999\<rparr>" 100000] by (simp add: normalised_def)

end
