(* ===== verification/Host.thy ===== *)
theory Host
  imports Frame Util
begin

text \<open>
  The state of a host (\<^verbatim>\<open>struct Host_t\<close> in \<^verbatim>\<open>tcp/src/common.h\<close>), its initialisation
  (\<^verbatim>\<open>tcp/src/host.c\<close>) and the circular queues that hold the send and receive windows
  (\<^verbatim>\<open>cq_*\<close> in \<^verbatim>\<open>tcp/src/util.c\<close>), with the two queue contracts they implement.

  Every per-peer array has one entry for each host, so an access for peer \<open>q\<close> is in bounds
  exactly if \<open>q < num_hosts\<close>; the handlers check it first (\<open>check_peer\<close>), the operations here
  presuppose it. The message queues are the lists of theory \<open>LinkedList\<close>.
\<close>

section \<open>Configuration and environment\<close>

text \<open>
  \<^verbatim>\<open>glb_sysconfig\<close> and \<^verbatim>\<open>glb_num_hosts\<close>, and what the code takes from outside:
  \<^item> \<open>dround\<close>, the rounding of the double arithmetic: each operation yields the rounded exact
    result (no operation of the code overflows or divides by zero);
  \<^item> \<open>clock h k\<close>, what the \<open>k\<close>-th \<^verbatim>\<open>gettimeofday\<close> on behalf of host \<open>h\<close> returns;
  \<^item> \<open>rand k\<close>, what the \<open>k\<close>-th call of \<^verbatim>\<open>rand\<close> returns;
  \<^item> \<open>uninit h k\<close>, the contents of the \<open>k\<close>-th frame that host \<open>h\<close> allocates with \<^verbatim>\<open>malloc\<close>,
    before any field is assigned.
\<close>

record env =
  window_size :: nat
  num_hosts :: nat
  recv_accept_rate :: int
  corrupt_prob :: rat
  host_send_cc_id :: nat
  host_recv_cc_id :: nat
  dround :: "rat \<Rightarrow> rat"
  clock :: "nat \<Rightarrow> nat \<Rightarrow> timeval"
  rand :: "nat \<Rightarrow> nat"
  uninit :: "nat \<Rightarrow> nat \<Rightarrow> frame"

section \<open>The host\<close>

record cmd =
  cmd_src_id :: u16
  cmd_dst_id :: u16
  message :: "u8 list"

record send_window_slot =
  sframe :: "frame option"
  timeout :: "timeval option"

datatype cc_state = cc_SS | cc_AIMD | cc_FRFT

record congestion_control =
  cwnd :: rat
  ssthresh :: rat
  dup_acks :: u8
  cstate :: cc_state

text \<open>The last two fields count the calls of \<^verbatim>\<open>gettimeofday\<close> and the calls of
  \<^verbatim>\<open>malloc(sizeof(Frame))\<close> whose result is not overwritten as a whole by \<^verbatim>\<open>memcpy\<close>.\<close>

record host =
  hid :: nat
  awaiting_ack :: bool
  active :: bool
  round_trip_num :: int
  csv_out :: bool
  input_cmdlist :: "cmd list"
  incoming_frames :: "frame list"
  buffered_outframes :: "frame list"
  outgoing_frames :: "frame list"
  send_window :: "send_window_slot list"
  latest_timeout :: timeval
  send_window_start :: "u8 list"
  send_window_length :: "u8 list"
  recv_window :: "frame option list"
  recv_window_start :: "u8 list"
  recv_lfr :: "u8 list"
  recv_msg :: "frame list list"
  curr_seq_num :: "u8 list"
  cc :: "congestion_control list"
  dup_acks_seq_num :: "u8 list"
  ticks :: nat
  mallocs :: nat

definition empty_slot :: send_window_slot where
  "empty_slot = \<lparr>sframe = None, timeout = None\<rparr>"

text \<open>
  The sizes \<^verbatim>\<open>window_size * glb_num_hosts\<close> are products of \<^verbatim>\<open>int\<close> in the code; \<open>init\<close> of \<open>Start\<close>, which
  starts the hosts, ends in a fault when they overflow, so that here they are numbers.
\<close>

definition init_host :: "env \<Rightarrow> nat \<Rightarrow> host" where
  "init_host e i =
     (let w = window_size e; n = num_hosts e in
      \<lparr>hid = i, awaiting_ack = False, active = False, round_trip_num = 0, csv_out = False,
       input_cmdlist = [], incoming_frames = [], buffered_outframes = [], outgoing_frames = [],
       send_window = replicate (w * n) empty_slot,
       latest_timeout = clock e i 0,
       send_window_start = replicate n 0, send_window_length = replicate n 0,
       recv_window = replicate (n * w) None, recv_window_start = replicate n 0,
       recv_lfr = replicate n 255, recv_msg = replicate n [],
       curr_seq_num = replicate n 0,
       cc = replicate n \<lparr>cwnd = 1, ssthresh = of_nat w, dup_acks = 0, cstate = cc_SS\<rparr>,
       dup_acks_seq_num = replicate n 255,
       ticks = 1, mallocs = 0\<rparr>)"

text \<open>The guard of every per-peer array access.\<close>

definition check_peer :: "env \<Rightarrow> nat \<Rightarrow> 'a res \<Rightarrow> 'a res" where
  "check_peer e q r = (if q < num_hosts e then r else Inl OutOfBounds)"

lemma check_peer_in [simp]: "q < num_hosts e \<Longrightarrow> check_peer e q r = r"
  by (simp add: check_peer_def)

lemma check_peer_Inr_iff: "check_peer e q r = Inr x \<longleftrightarrow> q < num_hosts e \<and> r = Inr x"
  by (simp add: check_peer_def)

text \<open>\<^verbatim>\<open>gettimeofday\<close> and \<^verbatim>\<open>malloc(sizeof(Frame))\<close>.\<close>

definition get_time :: "env \<Rightarrow> host \<Rightarrow> timeval \<times> host" where
  "get_time e h = (clock e (hid h) (ticks h), h\<lparr>ticks := Suc (ticks h)\<rparr>)"

definition malloc_frame :: "env \<Rightarrow> host \<Rightarrow> frame \<times> host" where
  "malloc_frame e h = (uninit e (hid h) (mallocs h), h\<lparr>mallocs := Suc (mallocs h)\<rparr>)"

section \<open>The circular queues\<close>

definition send_cell :: "env \<Rightarrow> host \<Rightarrow> nat \<Rightarrow> nat \<Rightarrow> nat" where
  "send_cell e h q i = cell (window_size e) q (unat (send_window_start h ! q)) i"

definition recv_cell :: "env \<Rightarrow> host \<Rightarrow> nat \<Rightarrow> nat \<Rightarrow> nat" where
  "recv_cell e h q i = cell (window_size e) q (unat (recv_window_start h ! q)) i"

definition cq_get_item_send :: "env \<Rightarrow> nat \<Rightarrow> nat \<Rightarrow> host \<Rightarrow> send_window_slot" where
  "cq_get_item_send e q i h = send_window h ! send_cell e h q i"

definition cq_set_item_send :: "env \<Rightarrow> nat \<Rightarrow> nat \<Rightarrow> send_window_slot \<Rightarrow> host \<Rightarrow> host" where
  \<comment> \<open>assignment through the pointer that \<^verbatim>\<open>cq_get_item_send\<close> returns\<close>
  "cq_set_item_send e q i s h = h\<lparr>send_window := (send_window h)[send_cell e h q i := s]\<rparr>"

definition cq_get_item_recv :: "env \<Rightarrow> nat \<Rightarrow> nat \<Rightarrow> host \<Rightarrow> frame option" where
  "cq_get_item_recv e q i h = recv_window h ! recv_cell e h q i"

definition cq_set_item_recv :: "env \<Rightarrow> nat \<Rightarrow> nat \<Rightarrow> frame option \<Rightarrow> host \<Rightarrow> host" where
  "cq_set_item_recv e q i f h = h\<lparr>recv_window := (recv_window h)[recv_cell e h q i := f]\<rparr>"

definition cq_get_length_send :: "nat \<Rightarrow> host \<Rightarrow> nat" where
  "cq_get_length_send q h = unat (send_window_length h ! q)"

definition cq_ndequeue_send :: "env \<Rightarrow> nat \<Rightarrow> nat \<Rightarrow> host \<Rightarrow> host" where
  "cq_ndequeue_send e q n h =
     (let n = (if n \<le> unat (send_window_length h ! q) then n else unat (send_window_length h ! q));
          h1 = fold (\<lambda>i. cq_set_item_send e q i empty_slot) [0..<n] h;
          start = (unat (send_window_start h ! q) + n) mod window_size e
      in h1\<lparr>send_window_length := (send_window_length h)[q := (send_window_length h ! q) - of_nat n],
            send_window_start := (send_window_start h)[q := of_nat start]\<rparr>)"

definition cq_ndequeue_recv :: "env \<Rightarrow> nat \<Rightarrow> nat \<Rightarrow> host \<Rightarrow> host" where
  "cq_ndequeue_recv e q n h =
     (let n = (if n \<le> window_size e then n else window_size e);
          h1 = fold (\<lambda>i. cq_set_item_recv e q i None) [0..<n] h;
          start = (unat (recv_window_start h ! q) + n) mod window_size e
      in h1\<lparr>recv_window_start := (recv_window_start h)[q := of_nat start]\<rparr>)"

definition cq_append_item_send :: "env \<Rightarrow> nat \<Rightarrow> frame \<Rightarrow> timeval option \<Rightarrow> host \<Rightarrow> host" where
  "cq_append_item_send e q f t h =
     (if unat (send_window_length h ! q) = window_size e then h
      else (cq_set_item_send e q (unat (send_window_length h ! q)) \<lparr>sframe = Some f, timeout = t\<rparr> h)
             \<lparr>send_window_length := (send_window_length h)[q := send_window_length h ! q + 1]\<rparr>)"

definition recv_frame_in_window :: "env \<Rightarrow> u8 \<Rightarrow> nat \<Rightarrow> host \<Rightarrow> bool" where
  "recv_frame_in_window e seq src h =
     (let buffer_idx = seq_num_diff (recv_lfr h ! src) seq
      in buffer_idx > 0 \<and> buffer_idx \<le> int (window_size e))"

section \<open>Well-formedness\<close>

text \<open>
  What \<^verbatim>\<open>run_config\<close> and the field widths ask of the configuration. A window of more than 127
  frames is accepted by \<^verbatim>\<open>run_config\<close> but not by the arithmetic of \<^verbatim>\<open>seq_num_diff\<close>.
\<close>

definition cfg_ok :: "env \<Rightarrow> bool" where
  "cfg_ok e \<longleftrightarrow> 0 < window_size e \<and> window_size e \<le> 127 \<and> 2 \<le> num_hosts e \<and> num_hosts e \<le> 256 \<and>
     host_send_cc_id e < num_hosts e \<and> host_recv_cc_id e < num_hosts e \<and>
     (\<forall>h k. wf_frame (uninit e h k))"

definition shape :: "env \<Rightarrow> host \<Rightarrow> bool" where
  "shape e h \<longleftrightarrow>
     length (send_window h) = num_hosts e * window_size e \<and>
     length (recv_window h) = num_hosts e * window_size e \<and>
     length (send_window_start h) = num_hosts e \<and> length (send_window_length h) = num_hosts e \<and>
     length (recv_window_start h) = num_hosts e \<and> length (recv_lfr h) = num_hosts e \<and>
     length (recv_msg h) = num_hosts e \<and> length (curr_seq_num h) = num_hosts e \<and>
     length (cc h) = num_hosts e \<and> length (dup_acks_seq_num h) = num_hosts e"

text \<open>The send queue of peer \<open>q\<close>: its slots, its contents, and when it is well formed.\<close>

definition send_slots :: "env \<Rightarrow> nat \<Rightarrow> host \<Rightarrow> send_window_slot list" where
  "send_slots e q h =
     window (window_size e) (send_window h) q (unat (send_window_start h ! q)) (cq_get_length_send q h)"

definition slot_item :: "send_window_slot \<Rightarrow> frame \<times> timeval option" where
  "slot_item s = (the (sframe s), timeout s)"

definition send_items :: "env \<Rightarrow> nat \<Rightarrow> host \<Rightarrow> (frame \<times> timeval option) list" where
  "send_items e q h = map slot_item (send_slots e q h)"

definition send_ok :: "env \<Rightarrow> nat \<Rightarrow> host \<Rightarrow> bool" where
  "send_ok e q h \<longleftrightarrow>
     cq_get_length_send q h \<le> window_size e \<and> unat (send_window_start h ! q) < window_size e \<and>
     (\<forall>i < window_size e. if i < cq_get_length_send q h then sframe (cq_get_item_send e q i h) \<noteq> None
                          else cq_get_item_send e q i h = empty_slot)"

text \<open>The receive queue of peer \<open>q\<close> always has \<open>window_size\<close> entries, some of them empty.\<close>

definition recv_items :: "env \<Rightarrow> nat \<Rightarrow> host \<Rightarrow> frame option list" where
  "recv_items e q h =
     window (window_size e) (recv_window h) q (unat (recv_window_start h ! q)) (window_size e)"

definition windows_ok :: "env \<Rightarrow> host \<Rightarrow> bool" where
  "windows_ok e h \<longleftrightarrow> cfg_ok e \<and> shape e h \<and> (\<forall>q < num_hosts e. send_ok e q h) \<and>
     (\<forall>q < num_hosts e. unat (recv_window_start h ! q) < window_size e)"

text \<open>The send queues depend on the three send arrays only, the receive queues on two arrays.\<close>

lemma send_queue_cong:
  assumes "send_window h' = send_window h" and "send_window_start h' = send_window_start h"
    and "send_window_length h' = send_window_length h"
  shows "send_ok e r h' = send_ok e r h" "send_items e r h' = send_items e r h"
    "cq_get_length_send r h' = cq_get_length_send r h" "cq_get_item_send e r i h' = cq_get_item_send e r i h"
  using assms by (simp_all add: send_ok_def send_items_def send_slots_def cq_get_item_send_def
      cq_get_length_send_def send_cell_def)

lemma recv_queue_cong:
  assumes "recv_window h' = recv_window h" and "recv_window_start h' = recv_window_start h"
  shows "recv_items e r h' = recv_items e r h" "cq_get_item_recv e r i h' = cq_get_item_recv e r i h"
  using assms by (simp_all add: recv_items_def cq_get_item_recv_def recv_cell_def)

section \<open>Cells\<close>

named_theorems host_simps

lemma send_cell_less [host_simps]:
  "windows_ok e h \<Longrightarrow> q < num_hosts e \<Longrightarrow> send_cell e h q i < length (send_window h)"
  by (simp add: windows_ok_def shape_def cfg_ok_def send_cell_def cell_less)

lemma recv_cell_less [host_simps]:
  "windows_ok e h \<Longrightarrow> q < num_hosts e \<Longrightarrow> recv_cell e h q i < length (recv_window h)"
  by (simp add: windows_ok_def shape_def cfg_ok_def recv_cell_def cell_less)

lemma send_items_nth:
  "i < cq_get_length_send q h \<Longrightarrow> send_items e q h ! i = slot_item (cq_get_item_send e q i h)"
  by (simp add: send_items_def send_slots_def cq_get_item_send_def send_cell_def)

lemma length_send_items [simp]: "length (send_items e q h) = cq_get_length_send q h"
  by (simp add: send_items_def send_slots_def)

lemma length_recv_items [simp]: "length (recv_items e q h) = window_size e"
  by (simp add: recv_items_def)

lemma recv_items_nth: "i < window_size e \<Longrightarrow> recv_items e q h ! i = cq_get_item_recv e q i h"
  by (simp add: recv_items_def cq_get_item_recv_def recv_cell_def)

lemma send_slots_in:
  "send_ok e q h \<Longrightarrow> i < cq_get_length_send q h \<Longrightarrow> sframe (cq_get_item_send e q i h) \<noteq> None"
  by (auto simp: send_ok_def)

lemma send_slots_out:
  "send_ok e q h \<Longrightarrow> cq_get_length_send q h \<le> i \<Longrightarrow> i < window_size e \<Longrightarrow>
    cq_get_item_send e q i h = empty_slot"
  by (auto simp: send_ok_def)

text \<open>A slot in the queue is determined by its contents.\<close>

lemma slot_of_item:
  assumes "send_ok e q h" and "i < cq_get_length_send q h"
  shows "cq_get_item_send e q i h =
    \<lparr>sframe = Some (fst (send_items e q h ! i)), timeout = snd (send_items e q h ! i)\<rparr>"
  using send_slots_in [OF assms] assms(2) by (auto simp: send_items_nth slot_item_def)

section \<open>The send window is a bounded queue for each peer\<close>

text \<open>
  The contract that the sender relies on. \<open>trim\<close> is its use for a cumulative
  acknowledgement: find the first element with a property and drop everything up to it.
\<close>

locale window_queue =
  fixes K :: "'k set" and cap :: nat and ok :: "'s \<Rightarrow> bool"
    and items :: "'k \<Rightarrow> 's \<Rightarrow> 'a list"
    and get :: "'k \<Rightarrow> nat \<Rightarrow> 's \<Rightarrow> 'a"
    and put :: "'k \<Rightarrow> 'a \<Rightarrow> 's \<Rightarrow> 's"
    and deq :: "'k \<Rightarrow> nat \<Rightarrow> 's \<Rightarrow> 's"
  assumes bounded: "ok s \<Longrightarrow> k \<in> K \<Longrightarrow> length (items k s) \<le> cap"
    and get_items: "ok s \<Longrightarrow> k \<in> K \<Longrightarrow> i < length (items k s) \<Longrightarrow> get k i s = items k s ! i"
    and put_items: "ok s \<Longrightarrow> k \<in> K \<Longrightarrow> length (items k s) < cap \<Longrightarrow> items k (put k x s) = items k s @ [x]"
    and put_full: "ok s \<Longrightarrow> k \<in> K \<Longrightarrow> length (items k s) = cap \<Longrightarrow> put k x s = s"
    and put_other: "ok s \<Longrightarrow> k \<in> K \<Longrightarrow> j \<in> K \<Longrightarrow> j \<noteq> k \<Longrightarrow> items j (put k x s) = items j s"
    and deq_items: "ok s \<Longrightarrow> k \<in> K \<Longrightarrow> items k (deq k n s) = drop n (items k s)"
    and deq_other: "ok s \<Longrightarrow> k \<in> K \<Longrightarrow> j \<in> K \<Longrightarrow> j \<noteq> k \<Longrightarrow> items j (deq k n s) = items j s"
    and ok_put: "ok s \<Longrightarrow> k \<in> K \<Longrightarrow> ok (put k x s)"
    and ok_deq: "ok s \<Longrightarrow> k \<in> K \<Longrightarrow> ok (deq k n s)"
begin

definition trim :: "('a \<Rightarrow> bool) \<Rightarrow> 'k \<Rightarrow> 's \<Rightarrow> 's" where
  "trim p k s = (case find (\<lambda>j. p (get k j s)) [0..<length (items k s)] of
     None \<Rightarrow> s | Some j \<Rightarrow> deq k (Suc j) s)"

lemma trim_items:
  assumes ok: "ok s" and k: "k \<in> K"
  shows "items k (trim p k s) =
    (if \<exists>x \<in> set (items k s). p x then tl (dropWhile (\<lambda>x. \<not> p x) (items k s)) else items k s)"
proof -
  let ?xs = "items k s"
  have find: "find (\<lambda>j. p (get k j s)) [0..<length ?xs] = find (\<lambda>j. p (?xs ! j)) [0..<length ?xs]"
    by (rule find_cong) (simp_all add: get_items [OF ok k])
  show ?thesis
  proof (cases "\<exists>x \<in> set ?xs. p x")
    case False
    then have "find (\<lambda>j. p (?xs ! j)) [0..<length ?xs] = None"
      by (auto simp: find_upt_None_iff)
    with False show ?thesis by (simp add: trim_def find)
  next
    case True
    then obtain ys x zs where xs: "?xs = ys @ x # zs" "p x" "\<forall>y \<in> set ys. \<not> p y"
      using split_list_first_prop [of ?xs p] by blast
    have "\<not> p (?xs ! i)" if "i < length ys" for i
      using that xs by (auto simp: nth_append)
    then have "find (\<lambda>j. p (?xs ! j)) [0..<length ?xs] = Some (length ys)"
      using xs by (intro find_upt_Some) auto
    then have "items k (trim p k s) = drop (Suc (length ys)) ?xs"
      by (simp add: trim_def find deq_items [OF ok k])
    also have "\<dots> = tl (dropWhile (\<lambda>x. \<not> p x) ?xs)"
      using xs by (simp add: dropWhile_append2)
    finally show ?thesis using True by simp
  qed
qed

lemma trim_other:
  "ok s \<Longrightarrow> k \<in> K \<Longrightarrow> j \<in> K \<Longrightarrow> j \<noteq> k \<Longrightarrow> items j (trim p k s) = items j s"
  by (simp add: trim_def deq_other split: option.splits)

lemma ok_trim: "ok s \<Longrightarrow> k \<in> K \<Longrightarrow> ok (trim p k s)"
  by (simp add: trim_def ok_deq split: option.splits)

lemma put_deq:
  assumes "ok s" and "k \<in> K" and "length (items k s) < cap" and "n \<le> length (items k s)"
  shows "items k (deq k n (put k x s)) = items k (put k x (deq k n s))"
  using assms by (simp add: put_items deq_items ok_put ok_deq)

end

section \<open>The operations on the send window\<close>

lemma set_item_send_fields [simp]:
  "send_window_start (cq_set_item_send e q i s h) = send_window_start h"
  "send_window_length (cq_set_item_send e q i s h) = send_window_length h"
  "cq_get_length_send r (cq_set_item_send e q i s h) = cq_get_length_send r h"
  "send_cell e (cq_set_item_send e q i s h) r j = send_cell e h r j"
  by (simp_all add: cq_set_item_send_def send_cell_def cq_get_length_send_def)

lemma get_set_item_send:
  assumes "windows_ok e h" and "q < num_hosts e" and "r < num_hosts e" and "i < window_size e" and "j < window_size e"
  shows "cq_get_item_send e r j (cq_set_item_send e q i s h) =
    (if r = q \<and> j = i then s else cq_get_item_send e r j h)"
proof -
  have "0 < window_size e" using assms(1) by (simp add: windows_ok_def cfg_ok_def)
  then have "send_cell e h r j = send_cell e h q i \<longleftrightarrow> r = q \<and> j = i"
    using assms(4,5) by (cases "r = q") (simp_all add: send_cell_def cell_inj cell_other)
  moreover have "cq_get_item_send e r j (cq_set_item_send e q i s h) =
      (send_window h)[send_cell e h q i := s] ! send_cell e h r j"
    by (simp add: cq_get_item_send_def) (simp add: cq_set_item_send_def)
  ultimately show ?thesis
    using send_cell_less [OF assms(1,2)] send_cell_less [OF assms(1,3)]
    by (cases "r = q \<and> j = i") (auto simp: cq_get_item_send_def nth_list_update_iff)
qed

lemma fold_clear_send:
  "\<exists>W. fold (\<lambda>i. cq_set_item_send e q i empty_slot) [0..<n] h = h\<lparr>send_window := W\<rparr> \<and>
     length W = length (send_window h) \<and>
     (\<forall>k < length W. W ! k = (if k \<in> send_cell e h q ` {..<n} then empty_slot else send_window h ! k))"
proof (induction n)
  case 0
  show ?case by (intro exI [of _ "send_window h"]) simp
next
  case (Suc n)
  then obtain W where W: "fold (\<lambda>i. cq_set_item_send e q i empty_slot) [0..<n] h = h\<lparr>send_window := W\<rparr>"
    "length W = length (send_window h)"
    "\<forall>k < length W. W ! k = (if k \<in> send_cell e h q ` {..<n} then empty_slot else send_window h ! k)"
    by blast
  have "fold (\<lambda>i. cq_set_item_send e q i empty_slot) [0..<Suc n] h =
      h\<lparr>send_window := W[send_cell e h q n := empty_slot]\<rparr>"
    using W(1) by (simp, simp add: cq_set_item_send_def send_cell_def)
  with W(2,3) show ?case
    by (intro exI [of _ "W[send_cell e h q n := empty_slot]"]) (auto simp: nth_list_update_iff lessThan_Suc)
qed

lemma unat_u8_small: "n < 256 \<Longrightarrow> unat (of_nat n :: u8) = n"
  by (simp add: unat_of_nat)

lemma cq_length_bound: "cq_get_length_send q h < 256"
  using unsigned_less [of "send_window_length h ! q"] by (simp add: cq_get_length_send_def)

lemma ndequeue_effect:
  assumes ok: "windows_ok e h" and q: "q < num_hosts e" and m: "m = min n (cq_get_length_send q h)"
  defines "h' \<equiv> cq_ndequeue_send e q n h"
  shows "cq_get_length_send q h' = cq_get_length_send q h - m"
    and "unat (send_window_start h' ! q) < window_size e"
    and "i < window_size e \<Longrightarrow> cq_get_item_send e q i h' =
      (if m + i < window_size e then cq_get_item_send e q (m + i) h else empty_slot)"
    and "\<And>r. r < num_hosts e \<Longrightarrow> r \<noteq> q \<Longrightarrow> cq_get_length_send r h' = cq_get_length_send r h \<and>
      send_window_start h' ! r = send_window_start h ! r \<and>
      (\<forall>i. cq_get_item_send e r i h' = cq_get_item_send e r i h)"
    and "\<exists>W L S. h' = h\<lparr>send_window := W, send_window_length := L, send_window_start := S\<rparr> \<and>
      length W = length (send_window h) \<and> length L = num_hosts e \<and> length S = num_hosts e"
proof -
  let ?w = "window_size e" and ?L = "cq_get_length_send q h"
  have w: "0 < ?w" "?w < 256" and sh: "shape e h" and sok: "send_ok e q h"
    using ok q by (auto simp: windows_ok_def cfg_ok_def)
  then have Lw: "?L \<le> ?w" by (simp add: send_ok_def)
  obtain W where W: "fold (\<lambda>i. cq_set_item_send e q i empty_slot) [0..<m] h = h\<lparr>send_window := W\<rparr>"
    "length W = length (send_window h)"
    "\<forall>k < length W. W ! k = (if k \<in> send_cell e h q ` {..<m} then empty_slot else send_window h ! k)"
    using fold_clear_send [of e q m h] by blast
  let ?start = "(unat (send_window_start h ! q) + m) mod ?w"
  have h': "h' = h\<lparr>send_window := W, send_window_length := (send_window_length h)[q := send_window_length h ! q - of_nat m],
      send_window_start := (send_window_start h)[q := of_nat ?start]\<rparr>"
    using W(1) m by (simp add: h'_def cq_ndequeue_send_def Let_def min_def cq_get_length_send_def)
  have st: "unat (of_nat ?start :: u8) = ?start" using w by (intro unat_u8_small) (meson less_trans mod_less_divisor)
  have len: "length (send_window_length h) = num_hosts e" "length (send_window_start h) = num_hosts e"
    using sh by (simp_all add: shape_def)
  have "m \<le> ?L" by (simp add: m)
  then have "unat (send_window_length h ! q - of_nat m) = ?L - m"
    using unat_u8_small [of m] cq_length_bound [of q h]
    by (subst unat_sub) (auto simp: cq_get_length_send_def word_le_nat_alt)
  then show "cq_get_length_send q h' = ?L - m"
    using q len by (simp add: h' cq_get_length_send_def)
  show "unat (send_window_start h' ! q) < ?w"
    using q len st w by (simp add: h')
  have cell': "send_cell e h' q i = send_cell e h q (m + i)" for i
    using q len st by (simp add: h' send_cell_def cell_shift)
  show "cq_get_item_send e q i h' = (if m + i < ?w then cq_get_item_send e q (m + i) h else empty_slot)"
    if i: "i < ?w"
  proof -
    have bound: "send_cell e h q (m + i) < length W" using send_cell_less [OF ok q] W(2) by simp
    have get: "cq_get_item_send e q i h' = W ! send_cell e h q (m + i)"
      unfolding cq_get_item_send_def cell' by (simp add: h')
    show ?thesis
    proof (cases "m + i < ?w")
      case True
      then have "send_cell e h q (m + i) \<notin> send_cell e h q ` {..<m}"
        using \<open>m \<le> ?L\<close> Lw by (auto simp: send_cell_def cell_inj)
      with True get W(3) bound show ?thesis by (simp add: cq_get_item_send_def)
    next
      case False
      have "cell ?w q s (m + i) = cell ?w q s (m + i - ?w)" for s
        using cell_wrap [of ?w q s "m + i - ?w"] False by simp
      then have "send_cell e h q (m + i) = send_cell e h q (m + i - ?w)"
        by (simp add: send_cell_def)
      moreover have "m + i - ?w < m" using i False by linarith
      ultimately have "send_cell e h q (m + i) \<in> send_cell e h q ` {..<m}" by blast
      with False get W(3) bound show ?thesis by simp
    qed
  qed
  show "cq_get_length_send r h' = cq_get_length_send r h \<and> send_window_start h' ! r = send_window_start h ! r \<and>
      (\<forall>i. cq_get_item_send e r i h' = cq_get_item_send e r i h)" if r: "r < num_hosts e" "r \<noteq> q" for r
  proof -
    have "send_cell e h r i \<notin> send_cell e h q ` {..<m}" for i
      using r w by (auto simp: send_cell_def cell_other)
    then show ?thesis
      using r W(2,3) send_cell_less [OF ok r(1)]
      by (simp add: h' cq_get_length_send_def cq_get_item_send_def send_cell_def)
  qed
  show "\<exists>W L S. h' = h\<lparr>send_window := W, send_window_length := L, send_window_start := S\<rparr> \<and>
      length W = length (send_window h) \<and> length L = num_hosts e \<and> length S = num_hosts e"
    unfolding h' using W(2) len
    by (intro exI [of _ W] exI [of _ "(send_window_length h)[q := send_window_length h ! q - of_nat m]"]
        exI [of _ "(send_window_start h)[q := of_nat ?start]"]) simp
qed

text \<open>Replacing the three send arrays keeps the host well formed if each queue is.\<close>

lemma windows_ok_send_update:
  assumes "windows_ok e h"
    and "\<exists>W L S. h' = h\<lparr>send_window := W, send_window_length := L, send_window_start := S\<rparr> \<and>
      length W = length (send_window h) \<and> length L = num_hosts e \<and> length S = num_hosts e"
    and "\<And>q. q < num_hosts e \<Longrightarrow> send_ok e q h'"
  shows "windows_ok e h'"
  using assms by (auto simp: windows_ok_def shape_def)

lemma send_ok_same:
  assumes "send_ok e r h" and "cq_get_length_send r h' = cq_get_length_send r h"
    and "send_window_start h' ! r = send_window_start h ! r"
    and "\<And>i. i < window_size e \<Longrightarrow> cq_get_item_send e r i h' = cq_get_item_send e r i h"
  shows "send_ok e r h'"
  using assms by (simp add: send_ok_def)

lemma send_items_same:
  assumes "send_ok e r h" and "cq_get_length_send r h' = cq_get_length_send r h"
    and "\<And>i. i < window_size e \<Longrightarrow> cq_get_item_send e r i h' = cq_get_item_send e r i h"
  shows "send_items e r h' = send_items e r h"
  using assms by (intro nth_equalityI) (auto simp: send_items_nth send_ok_def)

lemma ndequeue_windows_ok:
  assumes ok: "windows_ok e h" and q: "q < num_hosts e"
  shows "windows_ok e (cq_ndequeue_send e q n h)"
proof -
  define h' where "h' = cq_ndequeue_send e q n h"
  let ?m = "min n (cq_get_length_send q h)"
  note eff = ndequeue_effect [OF ok q, of ?m n, OF refl, folded h'_def]
  have sok: "send_ok e r h" if "r < num_hosts e" for r using ok that by (simp add: windows_ok_def)
  have "send_ok e r h'" if r: "r < num_hosts e" for r
  proof (cases "r = q")
    case True
    have "cq_get_length_send q h \<le> window_size e" using sok [OF q] by (simp add: send_ok_def)
    moreover from this have "if i < cq_get_length_send q h' then sframe (cq_get_item_send e q i h') \<noteq> None
        else cq_get_item_send e q i h' = empty_slot" if i: "i < window_size e" for i
      using eff(3) [OF i] eff(1) send_slots_in [OF sok [OF q], of "?m + i"]
        send_slots_out [OF sok [OF q], of "?m + i"] by auto
    ultimately show ?thesis
      using eff(1,2) True unfolding send_ok_def by auto
  next
    case False
    from eff(4) [OF r False] show ?thesis by (intro send_ok_same [OF sok [OF r]]) auto
  qed
  then show ?thesis
    using windows_ok_send_update [OF ok eff(5)] by (simp add: h'_def)
qed

lemma ndequeue_items:
  assumes ok: "windows_ok e h" and q: "q < num_hosts e"
  shows "send_items e q (cq_ndequeue_send e q n h) = drop n (send_items e q h)"
proof -
  define h' where "h' = cq_ndequeue_send e q n h"
  let ?m = "min n (cq_get_length_send q h)"
  note eff = ndequeue_effect [OF ok q, of ?m n, OF refl, folded h'_def]
  have Lw: "cq_get_length_send q h \<le> window_size e"
    using ok q by (simp add: windows_ok_def send_ok_def)
  have "send_items e q h' ! i = drop n (send_items e q h) ! i" if "i < cq_get_length_send q h'" for i
  proof -
    have i: "i < cq_get_length_send q h - ?m" using that eff(1) by simp
    then have "n + i < cq_get_length_send q h" "?m = n" by auto
    then show ?thesis
      using that eff(3) [of i] Lw by (simp add: send_items_nth)
  qed
  then show ?thesis
    using eff(1) by (intro nth_equalityI) (auto simp: h'_def)
qed

lemma append_effect:
  fixes f :: frame and t :: "timeval option"
  assumes ok: "windows_ok e h" and q: "q < num_hosts e" and room: "cq_get_length_send q h < window_size e"
  defines "h' \<equiv> cq_append_item_send e q f t h"
  shows "cq_get_length_send q h' = Suc (cq_get_length_send q h)"
    and "\<And>i. i < window_size e \<Longrightarrow> cq_get_item_send e q i h' =
      (if i = cq_get_length_send q h then \<lparr>sframe = Some f, timeout = t\<rparr> else cq_get_item_send e q i h)"
    and "\<And>r. r < num_hosts e \<Longrightarrow> r \<noteq> q \<Longrightarrow> cq_get_length_send r h' = cq_get_length_send r h \<and>
      (\<forall>i < window_size e. cq_get_item_send e r i h' = cq_get_item_send e r i h)"
    and "\<exists>W L S. h' = h\<lparr>send_window := W, send_window_length := L, send_window_start := S\<rparr> \<and>
      length W = length (send_window h) \<and> length L = num_hosts e \<and> length S = num_hosts e"
    and "send_window_start h' = send_window_start h"
proof -
  let ?L = "cq_get_length_send q h" and ?s = "\<lparr>sframe = Some f, timeout = t\<rparr>"
  have len: "length (send_window_length h) = num_hosts e" "length (send_window_start h) = num_hosts e"
    "window_size e < 256"
    using ok by (auto simp: windows_ok_def shape_def cfg_ok_def)
  have h': "h' = (cq_set_item_send e q ?L ?s h)\<lparr>send_window_length := (send_window_length h)[q := send_window_length h ! q + 1]\<rparr>"
    using room by (simp add: h'_def cq_append_item_send_def cq_get_length_send_def)
  have "unat (send_window_length h ! q + 1) = Suc ?L"
    using room len(3) unsigned_less [of "send_window_length h ! q"]
    by (subst unat_word_ariths) (simp add: cq_get_length_send_def)
  then show "cq_get_length_send q h' = Suc ?L"
    using q len by (simp add: h' cq_get_length_send_def)
  have get: "cq_get_item_send e r i h' = cq_get_item_send e r i (cq_set_item_send e q ?L ?s h)" for r i
    by (simp add: h' cq_get_item_send_def send_cell_def)
  show "cq_get_item_send e q i h' = (if i = ?L then ?s else cq_get_item_send e q i h)"
    if "i < window_size e" for i
    using get_set_item_send [OF ok q q room that, of ?s] by (simp add: get)
  show "cq_get_length_send r h' = cq_get_length_send r h \<and>
      (\<forall>i < window_size e. cq_get_item_send e r i h' = cq_get_item_send e r i h)"
    if "r < num_hosts e" "r \<noteq> q" for r
    using that get_set_item_send [OF ok q that(1) room, of _ ?s] len
    by (simp add: get) (simp add: h' cq_get_length_send_def)
  show "\<exists>W L S. h' = h\<lparr>send_window := W, send_window_length := L, send_window_start := S\<rparr> \<and>
      length W = length (send_window h) \<and> length L = num_hosts e \<and> length S = num_hosts e"
    unfolding h' cq_set_item_send_def using len
    by (intro exI [of _ "(send_window h)[send_cell e h q ?L := ?s]"]
        exI [of _ "(send_window_length h)[q := send_window_length h ! q + 1]"] exI [of _ "send_window_start h"]) simp
  show "send_window_start h' = send_window_start h" by (simp add: h')
qed

lemma append_windows_ok:
  assumes ok: "windows_ok e h" and q: "q < num_hosts e"
  shows "windows_ok e (cq_append_item_send e q f t h)"
proof (cases "cq_get_length_send q h < window_size e")
  case False
  then have "cq_append_item_send e q f t h = h"
    using ok q by (auto simp: windows_ok_def send_ok_def cq_append_item_send_def cq_get_length_send_def)
  with ok show ?thesis by simp
next
  case True
  define h' where "h' = cq_append_item_send e q f t h"
  note eff = append_effect [where f = f and t = t, OF ok q True, folded h'_def]
  have sok: "send_ok e r h" if "r < num_hosts e" for r using ok that by (simp add: windows_ok_def)
  have "send_ok e r h'" if r: "r < num_hosts e" for r
  proof (cases "r = q")
    case True
    have "if i < cq_get_length_send q h' then sframe (cq_get_item_send e q i h') \<noteq> None
        else cq_get_item_send e q i h' = empty_slot" if i: "i < window_size e" for i
      using eff(1) eff(2) [OF i] i send_slots_in [OF sok [OF q], of i]
        send_slots_out [OF sok [OF q], of i] by auto
    with sok [OF q] eff(1,5) True \<open>cq_get_length_send q h < window_size e\<close> show ?thesis
      by (simp add: send_ok_def)
  next
    case False
    from eff(3) [OF r False] eff(5) show ?thesis by (intro send_ok_same [OF sok [OF r]]) auto
  qed
  then show ?thesis using windows_ok_send_update [OF ok eff(4)] by (simp add: h'_def)
qed

lemma append_items:
  assumes ok: "windows_ok e h" and q: "q < num_hosts e" and room: "cq_get_length_send q h < window_size e"
  shows "send_items e q (cq_append_item_send e q f t h) = send_items e q h @ [(f, t)]"
proof -
  define h' where "h' = cq_append_item_send e q f t h"
  note eff = append_effect [where f = f and t = t, OF ok q room, folded h'_def]
  show ?thesis
    unfolding h'_def [symmetric]
    using eff(1,2) room
    by (intro nth_equalityI) (auto simp: send_items_nth nth_append slot_item_def less_Suc_eq)
qed

interpretation sw: window_queue "{..<num_hosts e}" "window_size e" "windows_ok e" "send_items e"
    "\<lambda>q i h. slot_item (cq_get_item_send e q i h)"
    "\<lambda>q x. cq_append_item_send e q (fst x) (snd x)" "cq_ndequeue_send e"
  for e
proof unfold_locales
  fix h :: host and k i j n :: nat and x :: "frame \<times> timeval option"
  assume ok: "windows_ok e h" and "k \<in> {..<num_hosts e}"
  then have k: "k < num_hosts e" by simp
  have sok: "send_ok e r h" if "r < num_hosts e" for r using ok that by (simp add: windows_ok_def)
  show bound: "length (send_items e k h) \<le> window_size e" using sok [OF k] by (simp add: send_ok_def)
  show "slot_item (cq_get_item_send e k i h) = send_items e k h ! i" if "i < length (send_items e k h)"
    using that by (simp add: send_items_nth)
  show "send_items e k (cq_append_item_send e k (fst x) (snd x) h) = send_items e k h @ [x]"
    if "length (send_items e k h) < window_size e"
    using that append_items [OF ok k] by simp
  show full: "(cq_append_item_send e k (fst x) (snd x) h) = h"
    if "length (send_items e k h) = window_size e"
    using that by (simp add: cq_append_item_send_def cq_get_length_send_def)
  show "send_items e k (cq_ndequeue_send e k n h) = drop n (send_items e k h)"
    by (rule ndequeue_items [OF ok k])
  show "windows_ok e (cq_append_item_send e k (fst x) (snd x) h)"
    using append_windows_ok [OF ok k] by simp
  show "windows_ok e (cq_ndequeue_send e k n h)" by (rule ndequeue_windows_ok [OF ok k])
  assume "j \<in> {..<num_hosts e}" and jk: "j \<noteq> k"
  then have j: "j < num_hosts e" by simp
  show "send_items e j (cq_append_item_send e k (fst x) (snd x) h) = send_items e j h"
  proof (cases "cq_get_length_send k h < window_size e")
    case True
    from append_effect(3) [OF ok k True j jk] show ?thesis
      by (intro send_items_same [OF sok [OF j]]) simp_all
  next
    case False
    with bound full show ?thesis by simp
  qed
  from ndequeue_effect(4) [OF ok k refl j jk]
  show "send_items e j (cq_ndequeue_send e k n h) = send_items e j h"
    by (intro send_items_same [OF sok [OF j]]) auto
qed

section \<open>The receive window is a reorder buffer for each peer\<close>

text \<open>
  The contract the receiver relies on: \<open>cap\<close> slots that are filled in any order and emptied
  from the front. \<open>advance\<close> takes the filled slots at the front out, at most \<open>n\<close> of them.
\<close>

locale reorder_buffer =
  fixes K :: "'k set" and cap :: nat and ok :: "'s \<Rightarrow> bool"
    and slots :: "'k \<Rightarrow> 's \<Rightarrow> 'a option list"
    and get :: "'k \<Rightarrow> nat \<Rightarrow> 's \<Rightarrow> 'a option"
    and put :: "'k \<Rightarrow> nat \<Rightarrow> 'a option \<Rightarrow> 's \<Rightarrow> 's"
    and shift :: "'k \<Rightarrow> 's \<Rightarrow> 's"
  assumes cap_pos: "ok s \<Longrightarrow> 0 < cap"
    and slots_length: "ok s \<Longrightarrow> k \<in> K \<Longrightarrow> length (slots k s) = cap"
    and get_slots: "ok s \<Longrightarrow> k \<in> K \<Longrightarrow> i < cap \<Longrightarrow> get k i s = slots k s ! i"
    and put_slots: "ok s \<Longrightarrow> k \<in> K \<Longrightarrow> i < cap \<Longrightarrow> slots k (put k i x s) = (slots k s)[i := x]"
    and put_other: "ok s \<Longrightarrow> k \<in> K \<Longrightarrow> j \<in> K \<Longrightarrow> j \<noteq> k \<Longrightarrow> slots j (put k i x s) = slots j s"
    and shift_slots: "ok s \<Longrightarrow> k \<in> K \<Longrightarrow> slots k (shift k s) = tl (slots k s) @ [None]"
    and shift_other: "ok s \<Longrightarrow> k \<in> K \<Longrightarrow> j \<in> K \<Longrightarrow> j \<noteq> k \<Longrightarrow> slots j (shift k s) = slots j s"
    and ok_put: "ok s \<Longrightarrow> k \<in> K \<Longrightarrow> ok (put k i x s)"
    and ok_shift: "ok s \<Longrightarrow> k \<in> K \<Longrightarrow> ok (shift k s)"
begin

fun advance :: "nat \<Rightarrow> 'k \<Rightarrow> 's \<Rightarrow> 'a list \<times> 's" where
  "advance 0 k s = ([], s)"
| "advance (Suc n) k s = (case get k 0 s of None \<Rightarrow> ([], s)
     | Some x \<Rightarrow> (let (xs, s) = advance n k (shift k s) in (x # xs, s)))"

text \<open>What \<open>advance\<close> takes out, and what it leaves.\<close>

fun filled :: "nat \<Rightarrow> 'a option list \<Rightarrow> 'a list" where
  "filled (Suc n) (Some x # xs) = x # filled n xs"
| "filled n xs = []"

lemma filled_length: "length (filled n xs) \<le> n \<and> length (filled n xs) \<le> length xs"
  by (induction n xs rule: filled.induct) auto

lemma filled_prefix: "map Some (filled n xs) = take (length (filled n xs)) xs"
  by (induction n xs rule: filled.induct) auto

lemma filled_maximal:
  "length (filled n xs) < n \<Longrightarrow> length (filled n xs) < length xs \<Longrightarrow> xs ! length (filled n xs) = None"
  by (induction n xs rule: filled.induct) (auto simp: nth_Cons' split: if_splits)

lemma filled_append: "n \<le> length xs \<Longrightarrow> filled n (xs @ ys) = filled n xs"
  by (induction n xs rule: filled.induct) (auto split: list.splits)

lemma slots_Cons:
  assumes "ok s" and "k \<in> K"
  obtains x xs where "slots k s = x # xs" and "length xs = cap - 1"
  using slots_length [OF assms] cap_pos [OF assms(1)] by (cases "slots k s") auto

lemma advance_slots:
  assumes "ok s" and "k \<in> K" and "n \<le> cap" and "advance n k s = (xs, s')"
  shows "xs = filled n (slots k s) \<and> ok s' \<and>
    slots k s' = drop (length xs) (slots k s) @ replicate (length xs) None \<and>
    (\<forall>j \<in> K. j \<noteq> k \<longrightarrow> slots j s' = slots j s)"
  using assms
proof (induction n arbitrary: s xs)
  case (Suc n)
  obtain x ys where sl: "slots k s = x # ys" and len: "length ys = cap - 1"
    using Suc.prems(1,2) by (rule slots_Cons)
  have get: "get k 0 s = x" using get_slots [OF Suc.prems(1,2) cap_pos [OF Suc.prems(1)]] sl by simp
  show ?case
  proof (cases x)
    case None
    then show ?thesis using Suc.prems get sl by auto
  next
    case (Some y)
    obtain zs where rec: "advance n k (shift k s) = (zs, s')" and xs: "xs = y # zs"
      using Suc.prems(4) get Some by (auto split: prod.splits)
    have sh: "slots k (shift k s) = ys @ [None]" using shift_slots [OF Suc.prems(1,2)] sl by simp
    have "n \<le> length ys" "n \<le> cap" using Suc.prems(3) len by auto
    with Suc.IH [OF ok_shift [OF Suc.prems(1,2)] Suc.prems(2) _ rec] sh
    have IH: "zs = filled n ys" "ok s'" "slots k s' = drop (length zs) (ys @ [None]) @ replicate (length zs) None"
      "\<forall>j \<in> K. j \<noteq> k \<longrightarrow> slots j s' = slots j (shift k s)"
      by (auto simp: filled_append)
    have "length zs \<le> length ys" using IH(1) filled_length [of n ys] by simp
    then have "slots k s' = drop (length xs) (slots k s) @ replicate (length xs) None"
      using IH(3) xs sl by (simp add: replicate_append_same)
    then show ?thesis
      using IH xs sl Some shift_other [OF Suc.prems(1,2)] by simp
  qed
qed simp

end

lemma recv_items_cell_cong:
  assumes "recv_window_start h' ! r = recv_window_start h ! r"
    and "\<And>i. recv_window h' ! recv_cell e h r i = recv_window h ! recv_cell e h r i"
  shows "recv_items e r h' = recv_items e r h"
  using assms by (simp add: recv_items_def recv_cell_def window_def)

lemma set_item_recv_send [simp]: "send_ok e r (cq_set_item_recv e q i x h) = send_ok e r h"
  by (rule send_queue_cong) (simp_all add: cq_set_item_recv_def)

lemma set_item_recv_ok: "windows_ok e h \<Longrightarrow> windows_ok e (cq_set_item_recv e q i x h)"
  by (simp add: windows_ok_def, simp add: shape_def cq_set_item_recv_def)

lemma windows_ok_pos: "windows_ok e h \<Longrightarrow> 0 < window_size e"
  by (simp add: windows_ok_def cfg_ok_def)

lemma set_item_recv_items:
  assumes ok: "windows_ok e h" and q: "q < num_hosts e" and i: "i < window_size e"
  shows "recv_items e q (cq_set_item_recv e q i x h) = (recv_items e q h)[i := x]"
proof (rule nth_equalityI)
  fix j
  assume "j < length (recv_items e q (cq_set_item_recv e q i x h))"
  then have j: "j < window_size e" by simp
  then have "recv_cell e h q i = recv_cell e h q j \<longleftrightarrow> i = j"
    using i by (simp add: recv_cell_def cell_inj)
  then show "recv_items e q (cq_set_item_recv e q i x h) ! j = (recv_items e q h)[i := x] ! j"
    using i j recv_cell_less [OF ok q]
    by (auto simp: recv_items_def nth_list_update_iff cq_set_item_recv_def recv_cell_def)
qed simp

lemma set_item_recv_other:
  assumes ok: "windows_ok e h" and "r \<noteq> q"
  shows "recv_items e r (cq_set_item_recv e q i x h) = recv_items e r h"
proof (rule recv_items_cell_cong)
  have "0 < window_size e" using ok by (simp add: windows_ok_def cfg_ok_def)
  then have "recv_cell e h q i \<noteq> recv_cell e h r j" for j
    using assms(2) by (simp add: recv_cell_def cell_other)
  then show "recv_window (cq_set_item_recv e q i x h) ! recv_cell e h r j = recv_window h ! recv_cell e h r j" for j
    by (simp add: cq_set_item_recv_def)
qed (simp add: cq_set_item_recv_def)

lemma ndequeue_recv_1:
  assumes "windows_ok e h"
  shows "cq_ndequeue_recv e q 1 h = (cq_set_item_recv e q 0 None h)
    \<lparr>recv_window_start := (recv_window_start h)[q := of_nat (Suc (unat (recv_window_start h ! q)) mod window_size e)]\<rparr>"
  using assms by (simp add: cq_ndequeue_recv_def windows_ok_def cfg_ok_def)

lemma ndequeue_recv_ok:
  assumes ok: "windows_ok e h" and q: "q < num_hosts e"
  shows "windows_ok e (cq_ndequeue_recv e q 1 h)"
proof -
  have w: "0 < window_size e" "window_size e < 256" using ok by (auto simp: windows_ok_def cfg_ok_def)
  then have "unat (of_nat (Suc (unat (recv_window_start h ! q)) mod window_size e) :: u8) < window_size e"
    by (subst unat_u8_small) (auto intro: less_trans [OF mod_less_divisor])
  moreover have "send_ok e r (cq_ndequeue_recv e q 1 h) = send_ok e r h" for r
    unfolding ndequeue_recv_1 [OF ok] by (rule send_queue_cong) (simp_all add: cq_set_item_recv_def)
  moreover have "shape e (cq_ndequeue_recv e q 1 h)" "length (recv_window_start h) = num_hosts e"
    unfolding ndequeue_recv_1 [OF ok] using ok by (auto simp: windows_ok_def shape_def cq_set_item_recv_def)
  moreover have "recv_window_start (cq_ndequeue_recv e q 1 h) =
      (recv_window_start h)[q := of_nat (Suc (unat (recv_window_start h ! q)) mod window_size e)]"
    unfolding ndequeue_recv_1 [OF ok] by simp
  ultimately show ?thesis
    using ok q by (simp add: windows_ok_def nth_list_update_iff)
qed

lemma ndequeue_recv_items:
  assumes ok: "windows_ok e h" and q: "q < num_hosts e"
  shows "recv_items e q (cq_ndequeue_recv e q 1 h) = tl (recv_items e q h) @ [None]"
proof -
  let ?w = "window_size e" and ?h0 = "cq_set_item_recv e q 0 None h" and ?s = "unat (recv_window_start h ! q)"
  have w: "0 < ?w" "?w < 256" using ok by (auto simp: windows_ok_def cfg_ok_def)
  have len: "length (recv_window_start h) = num_hosts e" using ok by (simp add: windows_ok_def shape_def)
  have st: "unat (of_nat (Suc ?s mod ?w) :: u8) = (?s + 1) mod ?w"
    using w by (subst unat_u8_small) (auto intro: less_trans [OF mod_less_divisor])
  have start0: "recv_window_start ?h0 = recv_window_start h" by (simp add: cq_set_item_recv_def)
  have set0: "window ?w (recv_window ?h0) q ?s ?w = (recv_items e q h)[0 := None]"
    using set_item_recv_items [OF ok q w(1), of None] by (simp add: recv_items_def start0)
  have "recv_items e q (cq_ndequeue_recv e q 1 h) ! i = (tl (recv_items e q h) @ [None]) ! i" if i: "i < ?w" for i
  proof -
    have "recv_items e q (cq_ndequeue_recv e q 1 h) ! i = recv_window ?h0 ! cell ?w q ?s (1 + i)"
      unfolding ndequeue_recv_1 [OF ok] using i q len st
      by (simp add: recv_items_def cell_shift start0 flip: One_nat_def)
    also have "\<dots> = (if 1 + i < ?w then window ?w (recv_window ?h0) q ?s ?w ! (1 + i)
        else window ?w (recv_window ?h0) q ?s ?w ! 0)"
    proof (cases "1 + i < ?w")
      case False
      then have "1 + i = 0 + ?w" using i by simp
      then show ?thesis using cell_wrap [of ?w q ?s 0] w by simp
    qed simp
    also have "\<dots> = (tl (recv_items e q h) @ [None]) ! i"
      unfolding set0 using i w by (auto simp: nth_append nth_tl)
    finally show ?thesis .
  qed
  then show ?thesis using w by (intro nth_equalityI) auto
qed

lemma ndequeue_recv_other:
  assumes ok: "windows_ok e h" and "r \<noteq> q"
  shows "recv_items e r (cq_ndequeue_recv e q 1 h) = recv_items e r h"
proof -
  have "recv_items e r (cq_ndequeue_recv e q 1 h) = recv_items e r (cq_set_item_recv e q 0 None h)"
    unfolding ndequeue_recv_1 [OF ok]
    using assms(2) by (intro recv_items_cell_cong) (simp_all add: cq_set_item_recv_def)
  with set_item_recv_other [OF assms] show ?thesis by simp
qed

interpretation rw: reorder_buffer "{..<num_hosts e}" "window_size e" "windows_ok e" "recv_items e"
    "cq_get_item_recv e" "cq_set_item_recv e" "\<lambda>q. cq_ndequeue_recv e q 1"
  for e
  by unfold_locales
    (auto simp: windows_ok_pos recv_items_nth set_item_recv_items set_item_recv_other set_item_recv_ok
      ndequeue_recv_items ndequeue_recv_other ndequeue_recv_ok simp del: One_nat_def)

section \<open>The initial host\<close>

lemma init_windows_ok: "cfg_ok e \<Longrightarrow> windows_ok e (init_host e i)"
proof -
  assume cfg: "cfg_ok e"
  then have w: "0 < window_size e" by (simp add: cfg_ok_def)
  have "cq_get_item_send e q j (init_host e i) = empty_slot" if "q < num_hosts e" for q j
    using cell_less [OF w that, of 0 j] that
    by (simp add: init_host_def Let_def cq_get_item_send_def send_cell_def mult.commute)
  then have "send_ok e q (init_host e i)" if "q < num_hosts e" for q
    using that w by (simp add: send_ok_def cq_get_length_send_def) (simp add: init_host_def Let_def)
  with cfg w show ?thesis
    by (simp add: windows_ok_def) (simp add: shape_def init_host_def Let_def)
qed

lemma init_queues:
  assumes "cfg_ok e" and "q < num_hosts e"
  shows "send_items e q (init_host e i) = []" "recv_items e q (init_host e i) = replicate (window_size e) None"
proof -
  have w: "0 < window_size e" using assms by (simp add: cfg_ok_def)
  show "send_items e q (init_host e i) = []"
    using assms by (simp add: init_host_def Let_def send_items_def send_slots_def cq_get_length_send_def window_def)
  show "recv_items e q (init_host e i) = replicate (window_size e) None"
    using assms cell_less [OF w assms(2)]
    by (intro nth_equalityI) (simp_all add: init_host_def Let_def recv_items_def)
qed

section \<open>A small configuration\<close>

text \<open>Two hosts, windows of two frames, a perfect channel; it is used to evaluate the model on examples.\<close>

definition blank_frame :: frame where
  "blank_frame = \<lparr>remaining_msg_bytes = 0, dst_id = 0, src_id = 0, seq_num = 0, is_ack = 0, flength = 0,
     data = replicate 56 0, checksum = 0\<rparr>"

definition small_env :: env where
  "small_env = \<lparr>window_size = 2, num_hosts = 2, recv_accept_rate = 10, corrupt_prob = 0, host_send_cc_id = 0,
     host_recv_cc_id = 1, dround = (\<lambda>x. x), clock = (\<lambda>_ _. \<lparr>tv_sec = 0, tv_usec = 0\<rparr>), rand = (\<lambda>_. 0),
     uninit = (\<lambda>_ _. blank_frame)\<rparr>"

lemma small_env_cfg: "cfg_ok small_env"
  by (simp add: cfg_ok_def small_env_def blank_frame_def wf_frame_def FRAME_PAYLOAD_SIZE_def)

end
