(* ===== verification/Receiver.thy ===== *)
theory Receiver
  imports Host
begin

text \<open>
  The receiving side of a host (\<^verbatim>\<open>tcp/src/receiver.c\<close>): reassembly of messages, the receive
  window, cumulative acknowledgements. Messages that are printed are returned in a list of byte
  strings; the other prints go to \<^verbatim>\<open>stderr\<close> and are left out.
\<close>

section \<open>Strings\<close>

text \<open>\<^verbatim>\<open>strncpy(dst, src, n)\<close>: the bytes written, at most up to a zero byte, then zeros.\<close>

definition strncpy_bytes :: "u8 list \<Rightarrow> nat \<Rightarrow> u8 list" where
  "strncpy_bytes src n =
     (let s = takeWhile (\<lambda>c. c \<noteq> 0) (take n src) in s @ replicate (n - length s) 0)"

text \<open>
  Reading the payload of a frame with \<^verbatim>\<open>strncpy(.., frame->data, frame->length)\<close>: past the end of
  \<^verbatim>\<open>data\<close> if the length says so and no zero byte comes first.
\<close>

definition copy_data :: "frame \<Rightarrow> u8 list res" where
  "copy_data f =
     (if unat (flength f) \<le> length (data f) \<or> 0 \<in> set (data f)
      then Inr (strncpy_bytes (data f) (unat (flength f))) else Inl OutOfBounds)"

text \<open>Printing with \<^verbatim>\<open>%s\<close>: the bytes before the first zero byte, which must be there.\<close>

definition print_string :: "u8 list \<Rightarrow> u8 list res" where
  "print_string s = (if 0 \<in> set s then Inr (takeWhile (\<lambda>c. c \<noteq> 0) s) else Inl OutOfBounds)"

section \<open>Reassembly\<close>

text \<open>
  \<open>reassemble_message\<close> looks for the first frame that ends a message, copies the payloads of the
  frames up to it one after the other, and removes them.
\<close>

fun first_message :: "frame list \<Rightarrow> frame list \<Rightarrow> (frame list \<times> frame list) option" where
  "first_message buffer [] = None"
| "first_message buffer (f # fs) =
     (if remaining_msg_bytes f = 0 then Some (buffer @ [f], fs) else first_message (buffer @ [f]) fs)"

fun copy_all :: "frame list \<Rightarrow> u8 list res" where
  "copy_all [] = Inr []"
| "copy_all (f # fs) = rbind (copy_data f) (\<lambda>b. rbind (copy_all fs) (\<lambda>bs. Inr (b @ bs)))"

definition reassemble_message :: "frame list \<Rightarrow> ((u8 list \<times> frame list) option) res" where
  "reassemble_message fs =
     (case first_message [] fs of None \<Rightarrow> Inr None
      | Some (buffer, rest) \<Rightarrow> rbind (copy_all buffer) (\<lambda>msg. Inr (Some (msg, rest))))"

lemma first_message_Some:
  "first_message buffer fs = Some (b, rest) \<Longrightarrow>
    \<exists>pre f. b = buffer @ pre @ [f] \<and> fs = pre @ f # rest \<and> remaining_msg_bytes f = 0 \<and>
      (\<forall>g \<in> set pre. remaining_msg_bytes g \<noteq> 0)"
proof (induction buffer fs rule: first_message.induct)
  case (2 buffer f fs)
  show ?case
  proof (cases "remaining_msg_bytes f = 0")
    case True
    with "2.prems" show ?thesis by (intro exI [of _ "[]"] exI [of _ f]) simp
  next
    case False
    with 2 obtain pre g where "b = (buffer @ [f]) @ pre @ [g]" "fs = pre @ g # rest"
      "remaining_msg_bytes g = 0" "\<forall>g \<in> set pre. remaining_msg_bytes g \<noteq> 0" by auto
    with False show ?thesis by (intro exI [of _ "f # pre"] exI [of _ g]) simp
  qed
qed simp

lemma first_message_None_iff: "first_message buffer fs = None \<longleftrightarrow> (\<forall>f \<in> set fs. remaining_msg_bytes f \<noteq> 0)"
  by (induction buffer fs rule: first_message.induct) auto

lemma first_message_run:
  "\<forall>g \<in> set pre. remaining_msg_bytes g \<noteq> 0 \<Longrightarrow> remaining_msg_bytes f = 0 \<Longrightarrow>
    first_message buffer (pre @ f # rest) = Some (buffer @ pre @ [f], rest)"
  by (induction pre arbitrary: buffer) auto

lemma reassemble_shorter:
  "reassemble_message fs = Inr (Some (msg, rest)) \<Longrightarrow> length rest < length fs"
  by (auto simp: reassemble_message_def rbind_Inr_iff split: option.splits dest!: first_message_Some)

text \<open>The loop \<^verbatim>\<open>do .. while (msg != NULL)\<close>: print messages until no complete one is left.\<close>

function deliver :: "frame list \<Rightarrow> u8 list list \<Rightarrow> (frame list \<times> u8 list list) res" where
  "deliver fs out =
     (case reassemble_message fs of Inl e \<Rightarrow> Inl e
      | Inr None \<Rightarrow> Inr (fs, out)
      | Inr (Some (msg, rest)) \<Rightarrow> rbind (print_string msg) (\<lambda>s. deliver rest (out @ [s])))"
  by pat_completeness auto
termination
  by (relation "measure (\<lambda>(fs, out). length fs)") (auto dest: reassemble_shorter)

declare deliver.simps [simp del]

section \<open>The receive window\<close>

text \<open>The loop that takes the frames at the front of the window over and counts them.\<close>

fun recv_advance :: "env \<Rightarrow> nat \<Rightarrow> nat \<Rightarrow> u8 \<Rightarrow> host \<Rightarrow> u8 \<times> host" where
  "recv_advance e src 0 ack h = (ack, h)"
| "recv_advance e src (Suc n) ack h =
     (case cq_get_item_recv e src 0 h of
        None \<Rightarrow> (ack, h)
      | Some f \<Rightarrow>
          let h = h\<lparr>recv_msg := (recv_msg h)[src := recv_msg h ! src @ [f]]\<rparr>;
              h = cq_ndequeue_recv e src 1 h;
              h = h\<lparr>recv_lfr := (recv_lfr h)[src := recv_lfr h ! src + 1]\<rparr>
          in recv_advance e src n (ack + 1) h)"

text \<open>
  The acknowledgement. The fields that are not assigned (\<^verbatim>\<open>remaining_msg_bytes\<close>, \<^verbatim>\<open>length\<close>,
  \<^verbatim>\<open>data\<close>) keep what \<^verbatim>\<open>malloc\<close> returned.
\<close>

definition make_ack :: "env \<Rightarrow> nat \<Rightarrow> u8 \<Rightarrow> host \<Rightarrow> frame \<times> host" where
  "make_ack e src ack_seq_num h =
     (let (f, h) = malloc_frame e h;
          f = f\<lparr>src_id := of_nat (hid h), dst_id := of_nat src, seq_num := ack_seq_num, is_ack := 1\<rparr>
      in (set_checksum f, h))"

definition send_ack :: "env \<Rightarrow> nat \<Rightarrow> u8 \<Rightarrow> host \<Rightarrow> (host \<times> u8 list list) res" where
  \<comment> \<open>the code from the label \<^verbatim>\<open>send_ack\<close> to the end of the loop body\<close>
  "send_ack e src ack_seq_num h =
     (let (f, h) = make_ack e src ack_seq_num h;
          h = h\<lparr>outgoing_frames := outgoing_frames h @ [f]\<rparr>
      in rbind (deliver (recv_msg h ! src) []) (\<lambda>(rest, out).
           Inr (h\<lparr>recv_msg := (recv_msg h)[src := rest]\<rparr>, out)))"

definition handle_incoming_frame :: "env \<Rightarrow> frame \<Rightarrow> host \<Rightarrow> (host \<times> u8 list list) res" where
  "handle_incoming_frame e inframe h =
     (if \<not> frame_valid inframe then Inr (h, [])
      else
        let src = unat (src_id inframe) in
        check_peer e src (
        let ack_seq_num = recv_lfr h ! src in
        if \<not> recv_frame_in_window e (seq_num inframe) src h then send_ack e src ack_seq_num h
        else
          let buffer_idx = nat (seq_num_diff (recv_lfr h ! src) (seq_num inframe) - 1);
              h = cq_set_item_recv e src buffer_idx (Some inframe) h;
              (ack_seq_num, h) = recv_advance e src (window_size e) ack_seq_num h
          in send_ack e src ack_seq_num h))"

text \<open>
  \<^verbatim>\<open>handle_incoming_frames\<close> drains the queue of incoming frames and collects what is printed, with
  the peer each message comes from, which the program does not print.
\<close>

definition handle_incoming_frames :: "env \<Rightarrow> host \<Rightarrow> (host \<times> (nat \<times> u8 list) list) res" where
  "handle_incoming_frames e h =
     rfold (\<lambda>f (h, out). rbind (handle_incoming_frame e f h) (\<lambda>(h, o1).
         Inr (h, out @ map (Pair (unat (src_id f))) o1)))
       (incoming_frames h) (h\<lparr>incoming_frames := []\<rparr>, [])"

text \<open>For evaluation the body of the loop has a name, so that it is not looked at without a frame.\<close>

definition incoming_step :: "env \<Rightarrow> frame \<Rightarrow> host \<times> (nat \<times> u8 list) list \<Rightarrow> (host \<times> (nat \<times> u8 list) list) res" where
  "incoming_step e f st = (case st of (h, out) \<Rightarrow> rbind (handle_incoming_frame e f h) (\<lambda>(h, o1).
     Inr (h, out @ map (Pair (unat (src_id f))) o1)))"

lemma handle_incoming_frames_code [code]:
  "handle_incoming_frames e h = rfold (incoming_step e) (incoming_frames h) (h\<lparr>incoming_frames := []\<rparr>, [])"
  by (simp add: handle_incoming_frames_def incoming_step_def [abs_def])

section \<open>The window loop takes the filled slots at the front\<close>

lemma ndequeue_recv_fields [simp]:
  "recv_msg (cq_ndequeue_recv e q 1 h) = recv_msg h" "recv_lfr (cq_ndequeue_recv e q 1 h) = recv_lfr h"
  "outgoing_frames (cq_ndequeue_recv e q 1 h) = outgoing_frames h" "hid (cq_ndequeue_recv e q 1 h) = hid h"
  by (simp_all add: cq_ndequeue_recv_def cq_set_item_recv_def Let_def)

lemma ndequeue_recv_update:
  "cq_ndequeue_recv e q 1 (h\<lparr>recv_msg := m, recv_lfr := l\<rparr>) = (cq_ndequeue_recv e q 1 h)\<lparr>recv_msg := m, recv_lfr := l\<rparr>"
  "cq_ndequeue_recv e q 1 (h\<lparr>recv_msg := m\<rparr>) = (cq_ndequeue_recv e q 1 h)\<lparr>recv_msg := m\<rparr>"
  by (rule host.equality; simp add: cq_ndequeue_recv_def cq_set_item_recv_def recv_cell_def Let_def)+

lemma recv_advance_log:
  assumes "src < length (recv_msg h)" and "src < length (recv_lfr h)"
  shows "recv_advance e src n ack h =
    (let (xs, h') = rw.advance e n src h
     in (ack + of_nat (length xs),
         h'\<lparr>recv_msg := (recv_msg h)[src := recv_msg h ! src @ xs],
            recv_lfr := (recv_lfr h)[src := recv_lfr h ! src + of_nat (length xs)]\<rparr>))"
  using assms
proof (induction n arbitrary: ack h)
  case (Suc n)
  have upd: "rw.advance e n src (h\<lparr>recv_msg := m, recv_lfr := l\<rparr>) =
      map_prod id (\<lambda>h. h\<lparr>recv_msg := m, recv_lfr := l\<rparr>) (rw.advance e n src h)" for n m l h
    by (induction n arbitrary: h)
      (auto simp: ndequeue_recv_update cq_get_item_recv_def recv_cell_def simp del: One_nat_def
        split: option.splits prod.splits)
  show ?case
  proof (cases "cq_get_item_recv e src 0 h")
    case None
    then show ?thesis by (simp del: One_nat_def)
  next
    case (Some f)
    let ?m = "(recv_msg h)[src := recv_msg h ! src @ [f]]" and ?l = "(recv_lfr h)[src := recv_lfr h ! src + 1]"
    let ?d = "cq_ndequeue_recv e src 1 h"
    have 1: "recv_advance e src (Suc n) ack h = recv_advance e src n (ack + 1) (?d\<lparr>recv_msg := ?m, recv_lfr := ?l\<rparr>)"
      using Some by (simp add: Let_def ndequeue_recv_update del: One_nat_def)
    show ?thesis
      unfolding 1 using Some Suc.prems
      by (simp del: One_nat_def, subst Suc.IH)
        (auto simp: upd add.assoc split: prod.splits simp del: One_nat_def)
  qed
qed (simp del: One_nat_def)


lemma advance_frame:
  "rw.advance e n q h = (xs, h') \<Longrightarrow> \<exists>W S. h' = h\<lparr>recv_window := W, recv_window_start := S\<rparr>"
proof (induction n arbitrary: h xs)
  case 0
  then show ?case
    by (intro exI [of _ "recv_window h"] exI [of _ "recv_window_start h"]) (simp del: One_nat_def)
next
  case (Suc n)
  show ?case
  proof (cases "cq_get_item_recv e q 0 h")
    case None
    with Suc.prems show ?thesis
      by (intro exI [of _ "recv_window h"] exI [of _ "recv_window_start h"]) (simp del: One_nat_def)
  next
    case (Some f)
    with Suc.prems obtain ys where rec: "rw.advance e n q (cq_ndequeue_recv e q 1 h) = (ys, h')"
      by (auto split: prod.splits simp del: One_nat_def)
    have "\<exists>V. fold (\<lambda>i. cq_set_item_recv e q i None) is h = h\<lparr>recv_window := V\<rparr>" for "is"
    proof (induction "is" rule: rev_induct)
      case Nil
      show ?case by (intro exI [of _ "recv_window h"]) simp
    qed (auto simp: cq_set_item_recv_def)
    then obtain V where V: "fold (\<lambda>i. cq_set_item_recv e q i None)
        [0..<if 1 \<le> window_size e then 1 else window_size e] h = h\<lparr>recv_window := V\<rparr>" by metis
    obtain T where "cq_ndequeue_recv e q 1 h = h\<lparr>recv_window := V, recv_window_start := T\<rparr>"
      unfolding cq_ndequeue_recv_def Let_def V by blast
    with Suc.IH [OF rec] show ?thesis by auto
  qed
qed

section \<open>The abstract receiver\<close>

text \<open>
  What a host knows of the frames of one peer: the last number accepted, what it holds of the
  next \<open>w\<close> numbers, and the accepted frames of the message that is still incomplete.
  A frame inside the window is stored, and the frames that are now consecutive are accepted.
\<close>

type_synonym rx = "u8 \<times> frame option list \<times> frame list"

definition rx_view :: "env \<Rightarrow> nat \<Rightarrow> host \<Rightarrow> rx" where
  "rx_view e q h = (recv_lfr h ! q, recv_items e q h, recv_msg h ! q)"

definition rx_accept :: "nat \<Rightarrow> frame \<Rightarrow> rx \<Rightarrow> rx" where
  "rx_accept w f = (\<lambda>(lfr, slots, msgs).
     let d = seq_num_diff lfr (seq_num f) in
     if 0 < d \<and> d \<le> int w then
       let slots = slots[nat (d - 1) := Some f];
           ready = map the (takeWhile (\<lambda>x. x \<noteq> None) slots)
       in (lfr + of_nat (length ready), drop (length ready) slots @ replicate (length ready) None, msgs @ ready)
     else (lfr, slots, msgs))"

lemma filled_takeWhile:
  "length xs \<le> n \<Longrightarrow> rw.filled n xs = map the (takeWhile (\<lambda>x. x \<noteq> None) xs)"
  by (induction n xs rule: rw.filled.induct) auto

lemma make_ack_spec:
  "make_ack e q a h = (f, h') \<longleftrightarrow> h' = h\<lparr>mallocs := Suc (mallocs h)\<rparr> \<and>
     f = set_checksum ((uninit e (hid h) (mallocs h))\<lparr>src_id := of_nat (hid h), dst_id := of_nat q,
       seq_num := a, is_ack := 1\<rparr>)"
  by (auto simp: make_ack_def malloc_frame_def Let_def)

text \<open>The acknowledgement is a valid frame to the sender that carries the number.\<close>

lemma make_ack_frame:
  assumes "cfg_ok e" and "make_ack e q a h = (f, h')"
  shows "frame_valid f" "wf_frame f" "is_ack f = 1" "seq_num f = a"
    "src_id f = of_nat (hid h)" "dst_id f = of_nat q"
proof -
  have "wf_frame ((uninit e (hid h) (mallocs h))\<lparr>src_id := of_nat (hid h), dst_id := of_nat q,
       seq_num := a, is_ack := 1\<rparr>)"
    using assms(1) by (simp add: cfg_ok_def wf_frame_def)
  with assms(2) show "frame_valid f" "wf_frame f" "is_ack f = 1" "seq_num f = a"
    "src_id f = of_nat (hid h)" "dst_id f = of_nat q"
    by (auto simp: make_ack_spec set_checksum_valid)
qed

lemma send_ack_spec:
  assumes "deliver (recv_msg h ! q) [] = Inr (rest, out)"
  shows "send_ack e q a h = Inr (h\<lparr>mallocs := Suc (mallocs h),
    outgoing_frames := outgoing_frames h @ [fst (make_ack e q a h)],
    recv_msg := (recv_msg h)[q := rest]\<rparr>, out)"
proof -
  obtain f h' where f: "make_ack e q a h = (f, h')" by force
  then have "h' = h\<lparr>mallocs := Suc (mallocs h)\<rparr>" by (simp add: make_ack_spec)
  with f assms show ?thesis by (simp add: send_ack_def)
qed


text \<open>What the handler changes: the receive side, the acknowledgement queued, one frame allocated.\<close>

definition recv_effect :: "host \<Rightarrow> host \<Rightarrow> frame \<Rightarrow> bool" where
  "recv_effect h h' ack \<longleftrightarrow> (\<exists>W S L M. h' = h\<lparr>recv_window := W, recv_window_start := S, recv_lfr := L,
     recv_msg := M, outgoing_frames := outgoing_frames h @ [ack], mallocs := Suc (mallocs h)\<rparr>)"

lemma recv_effectD:
  assumes "recv_effect h h' ack"
  shows "outgoing_frames h' = outgoing_frames h @ [ack]" "hid h' = hid h"
    "incoming_frames h' = incoming_frames h" "buffered_outframes h' = buffered_outframes h"
    "send_items e r h' = send_items e r h" "curr_seq_num h' = curr_seq_num h" "cc h' = cc h"
    "dup_acks_seq_num h' = dup_acks_seq_num h" "input_cmdlist h' = input_cmdlist h"
    "mallocs h' = Suc (mallocs h)"
  using assms by (auto simp: recv_effect_def intro!: send_queue_cong)

lemma windows_ok_recv_update:
  assumes "windows_ok e h" and "length M = num_hosts e"
  shows "length L = num_hosts e \<Longrightarrow> windows_ok e (h\<lparr>recv_msg := M, recv_lfr := L\<rparr>)"
    "windows_ok e (h\<lparr>mallocs := m, outgoing_frames := fs, recv_msg := M\<rparr>)"
proof -
  have "send_ok e r (h\<lparr>recv_msg := M, recv_lfr := L\<rparr>) = send_ok e r h"
    "send_ok e r (h\<lparr>mallocs := m, outgoing_frames := fs, recv_msg := M\<rparr>) = send_ok e r h" for r
    by (rule send_queue_cong; simp)+
  with assms show "length L = num_hosts e \<Longrightarrow> windows_ok e (h\<lparr>recv_msg := M, recv_lfr := L\<rparr>)"
    "windows_ok e (h\<lparr>mallocs := m, outgoing_frames := fs, recv_msg := M\<rparr>)"
    by (simp_all add: windows_ok_def shape_def)
qed

text \<open>A frame outside the receive window is only acknowledged; one inside it is stored and the window moves.\<close>

lemma frame_outside:
  assumes ok: "windows_ok e h" and valid: "frame_valid f" and q: "q = unat (src_id f)" "q < num_hosts e"
    and acc: "rx_accept (window_size e) f (rx_view e q h) = (lfr', slots', msgs')"
    and del: "deliver msgs' [] = Inr (rest, out)"
    and outside: "\<not> (0 < seq_num_diff (recv_lfr h ! q) (seq_num f) \<and> seq_num_diff (recv_lfr h ! q) (seq_num f) \<le> int (window_size e))"
  shows "\<exists>h' ack a. handle_incoming_frame e f h = Inr (h', out) \<and> windows_ok e h' \<and>
    rx_view e q h' = (lfr', slots', rest) \<and>
    (\<forall>r < num_hosts e. r \<noteq> q \<longrightarrow> rx_view e r h' = rx_view e r h) \<and>
    recv_effect h h' ack \<and> make_ack e q lfr' h = (ack, a)"
proof -
  let ?w = "window_size e" and ?d = "seq_num_diff (recv_lfr h ! q) (seq_num f)"
  have len: "length (recv_msg h) = num_hosts e" "length (recv_lfr h) = num_hosts e"
    using ok by (auto simp: windows_ok_def shape_def)
  have win: "recv_frame_in_window e (seq_num f) q h \<longleftrightarrow> 0 < ?d \<and> ?d \<le> int ?w"
    by (simp add: recv_frame_in_window_def Let_def)
  have eq: "lfr' = recv_lfr h ! q" "slots' = recv_items e q h" "msgs' = recv_msg h ! q"
    using acc outside by (auto simp: rx_accept_def rx_view_def Let_def)
  let ?h' = "h\<lparr>mallocs := Suc (mallocs h), outgoing_frames := outgoing_frames h @ [fst (make_ack e q lfr' h)],
    recv_msg := (recv_msg h)[q := rest]\<rparr>"
  have "handle_incoming_frame e f h = Inr (?h', out)"
    using valid q outside win send_ack_spec [of h q rest out e lfr'] del eq
    by (simp add: handle_incoming_frame_def check_peer_def Let_def)
  moreover have "windows_ok e ?h'"
    by (rule windows_ok_recv_update(2) [OF ok]) (simp add: len)
  moreover have "recv_effect h ?h' (fst (make_ack e q lfr' h))"
    unfolding recv_effect_def
    by (intro exI [of _ "recv_window h"] exI [of _ "recv_window_start h"] exI [of _ "recv_lfr h"]
        exI [of _ "(recv_msg h)[q := rest]"]) simp
  moreover have "recv_items e r ?h' = recv_items e r h" for r by (rule recv_queue_cong) simp_all
  ultimately show ?thesis
    using eq q len by (cases "make_ack e q lfr' h") (auto simp: rx_view_def)
qed

lemma frame_inside:
  assumes ok: "windows_ok e h" and valid: "frame_valid f" and q: "q = unat (src_id f)" "q < num_hosts e"
    and acc: "rx_accept (window_size e) f (rx_view e q h) = (lfr', slots', msgs')"
    and del: "deliver msgs' [] = Inr (rest, out)"
    and inside: "0 < seq_num_diff (recv_lfr h ! q) (seq_num f) \<and> seq_num_diff (recv_lfr h ! q) (seq_num f) \<le> int (window_size e)"
  shows "\<exists>h' ack a. handle_incoming_frame e f h = Inr (h', out) \<and> windows_ok e h' \<and>
    rx_view e q h' = (lfr', slots', rest) \<and>
    (\<forall>r < num_hosts e. r \<noteq> q \<longrightarrow> rx_view e r h' = rx_view e r h) \<and>
    recv_effect h h' ack \<and> make_ack e q lfr' h = (ack, a)"
proof -
  let ?w = "window_size e" and ?d = "seq_num_diff (recv_lfr h ! q) (seq_num f)"
  have len: "length (recv_msg h) = num_hosts e" "length (recv_lfr h) = num_hosts e"
    using ok by (auto simp: windows_ok_def shape_def)
  have win: "recv_frame_in_window e (seq_num f) q h \<longleftrightarrow> 0 < ?d \<and> ?d \<le> int ?w"
    by (simp add: recv_frame_in_window_def Let_def)
  let ?i = "nat (?d - 1)"
  let ?h1 = "cq_set_item_recv e q ?i (Some f) h"
  obtain xs h2 where adv: "rw.advance e ?w q ?h1 = (xs, h2)" by force
  have i: "?i < ?w" using inside by linarith
  have ok1: "windows_ok e ?h1" by (rule set_item_recv_ok [OF ok])
  from rw.advance_slots [OF ok1 _ order_refl adv] q
  have A: "xs = rw.filled ?w (recv_items e q ?h1)" "windows_ok e h2"
    "recv_items e q h2 = drop (length xs) (recv_items e q ?h1) @ replicate (length xs) None"
    "\<forall>r < num_hosts e. r \<noteq> q \<longrightarrow> recv_items e r h2 = recv_items e r ?h1"
    by auto
  have items1: "recv_items e q ?h1 = (recv_items e q h)[?i := Some f]"
    by (rule set_item_recv_items [OF ok q(2) i])
  have h1: "recv_msg ?h1 = recv_msg h" "recv_lfr ?h1 = recv_lfr h" by (simp_all add: cq_set_item_recv_def)
  have xs: "xs = map the (takeWhile (\<lambda>x. x \<noteq> None) ((recv_items e q h)[?i := Some f]))"
    using A(1) items1 by (simp add: filled_takeWhile)
  have eq: "lfr' = recv_lfr h ! q + of_nat (length xs)" "slots' = recv_items e q h2" "msgs' = recv_msg h ! q @ xs"
    using acc inside A(3) xs unfolding items1 by (auto simp: rx_accept_def rx_view_def Let_def)
  let ?M = "(recv_msg h)[q := msgs']" and ?L = "(recv_lfr h)[q := lfr']"
  define h3 where "h3 = h2\<lparr>recv_msg := ?M, recv_lfr := ?L\<rparr>"
  have adv3: "recv_advance e q ?w (recv_lfr h ! q) ?h1 = (lfr', h3)"
    using recv_advance_log [of q ?h1 e ?w "recv_lfr h ! q"] adv q(2) len
    by (simp add: h1 eq h3_def del: One_nat_def)
  obtain V S where h2: "h2 = ?h1\<lparr>recv_window := V, recv_window_start := S\<rparr>"
    using advance_frame [OF adv] by blast
  have h3: "h3 = h\<lparr>recv_window := V, recv_window_start := S, recv_msg := ?M, recv_lfr := ?L\<rparr>"
    by (simp add: h3_def h2 cq_set_item_recv_def)
  define ack where "ack = fst (make_ack e q lfr' h3)"
  have ack: "\<exists>a. make_ack e q lfr' h = (ack, a)"
    by (simp add: ack_def h3 make_ack_def malloc_frame_def Let_def)
  define h' where "h' = h3\<lparr>mallocs := Suc (mallocs h), outgoing_frames := outgoing_frames h @ [ack],
    recv_msg := (recv_msg h3)[q := rest]\<rparr>"
  have "send_ack e q lfr' h3 = Inr (h', out)"
    using send_ack_spec [of h3 q rest out e lfr'] del len q
    by (simp add: h'_def ack_def) (simp add: h3)
  then have run: "handle_incoming_frame e f h = Inr (h', out)"
    using valid q inside win adv3 by (simp add: handle_incoming_frame_def check_peer_def Let_def)
  have ok3: "windows_ok e h3" unfolding h3_def by (rule windows_ok_recv_update) (use A(2) len in auto)
  have ok': "windows_ok e h'"
    unfolding h'_def by (rule windows_ok_recv_update(2) [OF ok3]) (simp add: h3 len)
  have "recv_items e r h' = recv_items e r h2" for r
    by (rule recv_queue_cong) (simp_all add: h'_def h3_def)
  moreover have "recv_items e r ?h1 = recv_items e r h" if "r \<noteq> q" for r
    by (rule set_item_recv_other [OF ok that])
  moreover have "recv_msg h' = (recv_msg h)[q := rest]" "recv_lfr h' = ?L"
    by (simp_all add: h'_def h3)
  ultimately have view: "rx_view e q h' = (lfr', slots', rest)"
    "\<forall>r < num_hosts e. r \<noteq> q \<longrightarrow> rx_view e r h' = rx_view e r h"
    using q len eq A(4) by (auto simp: rx_view_def)
  have "recv_effect h h' ack"
    unfolding recv_effect_def h'_def h3
    by (intro exI [of _ V] exI [of _ S] exI [of _ ?L] exI [of _ "(recv_msg h)[q := rest]"]) simp
  with run ok' view ack show ?thesis by blast
qed

lemma handle_incoming_frame_spec:
  assumes ok: "windows_ok e h" and valid: "frame_valid f" and q: "q = unat (src_id f)" "q < num_hosts e"
    and acc: "rx_accept (window_size e) f (rx_view e q h) = (lfr', slots', msgs')"
    and del: "deliver msgs' [] = Inr (rest, out)"
  shows "\<exists>h' ack a. handle_incoming_frame e f h = Inr (h', out) \<and> windows_ok e h' \<and>
    rx_view e q h' = (lfr', slots', rest) \<and>
    (\<forall>r < num_hosts e. r \<noteq> q \<longrightarrow> rx_view e r h' = rx_view e r h) \<and>
    recv_effect h h' ack \<and> make_ack e q lfr' h = (ack, a)"
  using frame_outside [OF assms] frame_inside [OF assms] by blast


section \<open>Delivery of a stream of frames\<close>

text \<open>Delivering in two steps is delivering at once.\<close>

lemma first_message_append:
  "first_message b xs = Some (buf, rest) \<Longrightarrow> first_message b (xs @ ys) = Some (buf, rest @ ys)"
  by (induction b xs rule: first_message.induct) (auto split: if_splits)

lemma reassemble_append:
  "reassemble_message xs = Inr (Some (m, rest)) \<Longrightarrow> reassemble_message (xs @ ys) = Inr (Some (m, rest @ ys))"
  by (auto simp: reassemble_message_def rbind_Inr_iff first_message_append split: option.splits)

lemma deliver_append:
  "deliver xs out = Inr (rest, out1) \<Longrightarrow> deliver (xs @ ys) out = deliver (rest @ ys) out1"
proof (induction xs out rule: deliver.induct)
  case (1 xs out)
  show ?case
  proof (cases "reassemble_message xs")
    case (Inr r)
    show ?thesis
    proof (cases r)
      case None
      then show ?thesis using "1.prems" Inr by (simp add: deliver.simps [of xs])
    next
      case (Some p)
      obtain m fs where p: "p = (m, fs)" by (cases p)
      with "1.prems" Inr Some obtain s where s: "print_string m = Inr s" "deliver fs (out @ [s]) = Inr (rest, out1)"
        by (auto simp: deliver.simps [of xs] rbind_Inr_iff)
      have "reassemble_message (xs @ ys) = Inr (Some (m, fs @ ys))"
        using reassemble_append Inr Some p by simp
      with "1.IH" [OF Inr Some p [symmetric] s(2)] s(1) show ?thesis by (simp add: deliver.simps [of "xs @ ys"])
    qed
  qed (use "1.prems" in \<open>simp add: deliver.simps [of xs]\<close>)
qed

lemma deliver_out: "deliver xs out = (case deliver xs [] of Inl e \<Rightarrow> Inl e | Inr (rest, o1) \<Rightarrow> Inr (rest, out @ o1))"
proof -
  have "deliver xs (out @ out1) = (case deliver xs out1 of Inl e \<Rightarrow> Inl e | Inr (rest, o1) \<Rightarrow> Inr (rest, out @ o1))"
    for out1
  proof (induction xs out1 rule: deliver.induct)
    case (1 xs out1)
    show ?case
    proof (cases "reassemble_message xs")
      case (Inr r)
      show ?thesis
      proof (cases r)
        case (Some p)
        obtain m fs where p: "p = (m, fs)" by (cases p)
        show ?thesis
        proof (cases "print_string m")
          case (Inr s)
          from "1.IH" [OF \<open>reassemble_message xs = Inr r\<close> Some p [symmetric]] \<open>reassemble_message xs = Inr r\<close> Inr Some p
          show ?thesis by (simp add: deliver.simps [of xs])
        qed (use Inr Some p in \<open>simp add: deliver.simps [of xs]\<close>)
      qed (use Inr in \<open>simp add: deliver.simps [of xs]\<close>)
    qed (simp add: deliver.simps [of xs])
  qed
  from this [of "[]"] show ?thesis by simp
qed

text \<open>The frames of one message, and a stream of such groups.\<close>

definition carries :: "frame list \<Rightarrow> u8 list \<Rightarrow> bool" where
  "carries fs s \<longleftrightarrow> fs \<noteq> [] \<and> remaining_msg_bytes (last fs) = 0 \<and>
     (\<forall>f \<in> set (butlast fs). remaining_msg_bytes f \<noteq> 0) \<and> rbind (copy_all fs) print_string = Inr s"

lemma deliver_messages:
  assumes "list_all2 carries fss msgs" and "\<forall>f \<in> set part. remaining_msg_bytes f \<noteq> 0"
  shows "deliver (concat fss @ part) out = Inr (part, out @ msgs)"
  using assms(1)
proof (induction fss msgs arbitrary: out rule: list_all2_induct)
  case Nil
  have "reassemble_message part = Inr None"
    using assms(2) by (simp add: reassemble_message_def first_message_None_iff [THEN iffD2])
  then show ?case by (simp add: deliver.simps [of part])
next
  case (Cons fs fss s msgs)
  from Cons.hyps(1) obtain pre f where fs: "fs = pre @ [f]" "remaining_msg_bytes f = 0"
    "\<forall>g \<in> set pre. remaining_msg_bytes g \<noteq> 0"
    by (cases fs rule: rev_cases) (auto simp: carries_def)
  from Cons.hyps(1) obtain m where m: "copy_all fs = Inr m" "print_string m = Inr s"
    by (auto simp: carries_def rbind_Inr_iff)
  let ?all = "concat (fs # fss) @ part"
  have "first_message [] ?all = Some (fs, concat fss @ part)"
    using first_message_run [of pre f "[]" "concat fss @ part"] fs by simp
  then have "reassemble_message ?all = Inr (Some (m, concat fss @ part))"
    using m by (simp add: reassemble_message_def)
  with m(2) Cons.IH [of "out @ [s]"] show ?case by (simp add: deliver.simps [of "fs @ concat fss @ part"])
qed

section \<open>In-order acceptance\<close>

text \<open>
  \<open>sent\<close> is the stream of frames the peer has numbered so far, \<open>n\<close> of which were accepted.
\<close>

definition numbered :: "frame list \<Rightarrow> bool" where
  "numbered sent \<longleftrightarrow> (\<forall>n < length sent. seq_num (sent ! n) = of_nat n)"

definition rx_inv :: "nat \<Rightarrow> frame list \<Rightarrow> nat \<Rightarrow> rx \<Rightarrow> bool" where
  "rx_inv w sent n = (\<lambda>(lfr, slots, msgs).
     n \<le> length sent \<and> lfr = of_nat n - 1 \<and> length slots = w \<and> (0 < w \<longrightarrow> slots ! 0 = None) \<and>
     (\<forall>i < w. \<forall>f. slots ! i = Some f \<longrightarrow> n + i < length sent \<and> f = sent ! (n + i)) \<and>
     (\<exists>out. deliver (take n sent) [] = Inr (msgs, out)))"

lemma seq_num_diff_lfr:
  assumes "\<bar>int n + 1 - int k\<bar> \<le> 127"
  shows "seq_num_diff (of_nat k - 1) (of_nat n) = int n + 1 - int k"
proof -
  have "(of_nat n :: u8) = of_nat k - 1 + word_of_int (int n + 1 - int k)" by simp
  then show ?thesis using seq_num_diff_exact [OF assms, of "of_nat k - 1"] by metis
qed

lemma takeWhile_run: "\<forall>i < length (takeWhile p xs). p (xs ! i)"
  by (metis nth_mem set_takeWhileD takeWhile_nth)

lemma rx_accept_in_window:
  assumes inv: "rx_inv w sent k (lfr, slots, msgs)" and num: "numbered sent"
    and n: "k \<le> n" "n < k + w" "n < length sent" and w: "w \<le> 127"
    and acc: "rx_accept w (sent ! n) (lfr, slots, msgs) = (lfr', slots', msgs')"
  shows "\<exists>m. k \<le> m \<and> m \<le> length sent \<and> msgs' = msgs @ drop k (take m sent) \<and> lfr' = of_nat m - 1 \<and>
    length slots' = w \<and> slots' ! 0 = None \<and>
    (\<forall>i < w. \<forall>f. slots' ! i = Some f \<longrightarrow> m + i < length sent \<and> f = sent ! (m + i)) \<and> (n = k \<longrightarrow> k < m)"
proof -
  have slots: "length slots = w" "\<And>i f. i < w \<Longrightarrow> slots ! i = Some f \<Longrightarrow> k + i < length sent \<and> f = sent ! (k + i)"
    and lfr: "lfr = of_nat k - 1"
    using inv by (auto simp: rx_inv_def)
  have d: "seq_num_diff lfr (seq_num (sent ! n)) = int n + 1 - int k"
    using num n w lfr seq_num_diff_lfr [of n k] by (simp add: numbered_def)
  let ?s = "slots[n - k := Some (sent ! n)]"
  define ready where "ready = takeWhile (\<lambda>x. x \<noteq> None) ?s"
  let ?r = "length ready"
  have "nat (int n + 1 - int k - 1) = n - k" using n by simp
  then have res: "lfr' = lfr + of_nat ?r" "slots' = drop ?r ?s @ replicate ?r None" "msgs' = msgs @ map the ready"
    using acc d n by (auto simp: rx_accept_def ready_def Let_def)
  have s: "k + i < length sent \<and> f = sent ! (k + i)" if "i < w" "?s ! i = Some f" for i f
    using that slots n by (cases "i = n - k") (auto simp: nth_list_update)
  have r: "?r \<le> w" using slots(1) length_takeWhile_le [of _ ?s] by (simp add: ready_def)
  have got: "ready ! i = Some (sent ! (k + i)) \<and> k + i < length sent" if i: "i < ?r" for i
  proof -
    have "ready ! i = ?s ! i" using i by (simp add: ready_def takeWhile_nth)
    moreover have "?s ! i \<noteq> None" using takeWhile_run [of "\<lambda>x. x \<noteq> None" ?s] i by (simp add: ready_def)
    ultimately show ?thesis using s [of i] i r by auto
  qed
  have fin: "k + ?r \<le> length sent"
    using got [of "?r - 1"] inv by (cases "?r = 0") (auto simp: rx_inv_def)
  have "map the ready = drop k (take (k + ?r) sent)"
    using got fin by (intro nth_equalityI) auto
  moreover have "slots' ! i = (if i < w - ?r then ?s ! (?r + i) else None)" if "i < w" for i
    using that r slots(1) by (simp add: res nth_append)
  moreover have "?s ! ?r = None" if "?r < w"
    using nth_length_takeWhile [of "\<lambda>x. x \<noteq> None" ?s] that slots(1) by (simp add: ready_def)
  moreover have "0 < w" using n by simp
  moreover have "0 < ?r" if "n = k"
    using that slots(1) \<open>0 < w\<close> by (cases slots) (simp_all add: ready_def)
  ultimately show ?thesis
    using res lfr fin slots(1) r s
    by (intro exI [of _ "k + ?r"]) (auto simp: add.assoc)
qed


text \<open>A frame that was accepted before is recognised as old as long as it is not too old.\<close>

lemma rx_accept_old:
  assumes inv: "rx_inv w sent k (lfr, slots, msgs)" and num: "numbered sent"
    and n: "n < k" "k \<le> n + 128" "n < length sent"
  shows "rx_accept w (sent ! n) (lfr, slots, msgs) = (lfr, slots, msgs)"
proof -
  have "seq_num_diff lfr (seq_num (sent ! n)) = int n + 1 - int k"
    using inv num n seq_num_diff_lfr [of n k] by (simp add: rx_inv_def numbered_def)
  with n show ?thesis by (simp add: rx_accept_def)
qed

definition deliverable :: "frame list \<Rightarrow> bool" where
  "deliverable sent \<longleftrightarrow> (\<forall>m \<le> length sent. \<exists>rest out. deliver (take m sent) [] = Inr (rest, out))"

lemma deliver_resume:
  assumes "deliver (take k sent) [] = Inr (msgs, out0)" and "deliver (take m sent) [] = Inr (rest, out1)"
    and "k \<le> m"
  shows "\<exists>out. deliver (msgs @ drop k (take m sent)) [] = Inr (rest, out) \<and> out1 = out0 @ out"
proof -
  have "take m sent = take k sent @ drop k (take m sent)"
    using assms(3) by (metis append_take_drop_id min.absorb1 take_take)
  then have "deliver (msgs @ drop k (take m sent)) out0 = Inr (rest, out1)"
    using deliver_append [OF assms(1), of "drop k (take m sent)"] assms(2) by simp
  then show ?thesis
    by (subst (asm) deliver_out) (auto split: sum.splits prod.splits)
qed

lemma rx_accept_in_order:
  assumes inv: "rx_inv w sent k rx" and num: "numbered sent" and del: "deliverable sent"
    and n: "k \<le> n + 128" "n < k + w" "n < length sent" and w: "w \<le> 127"
  shows "\<exists>lfr' slots' msgs' rest out out0 m. rx_accept w (sent ! n) rx = (lfr', slots', msgs') \<and>
    deliver msgs' [] = Inr (rest, out) \<and> rx_inv w sent m (lfr', slots', rest) \<and>
    k \<le> m \<and> (n = k \<longrightarrow> k < m) \<and> lfr' = of_nat m - 1 \<and>
    deliver (take k sent) [] = Inr (snd (snd rx), out0) \<and> deliver (take m sent) [] = Inr (rest, out0 @ out)"
proof -
  obtain lfr slots msgs where rx: "rx = (lfr, slots, msgs)" by (cases rx)
  from inv rx obtain out0 where out0: "deliver (take k sent) [] = Inr (msgs, out0)" by (auto simp: rx_inv_def)
  show ?thesis
  proof (cases "n < k")
    case True
    from deliver_resume [OF out0 out0 order_refl]
    have "deliver msgs [] = Inr (msgs, [])" by auto
    moreover have "rx_accept w (sent ! n) rx = (lfr, slots, msgs)"
      using rx_accept_old [OF _ num True n(1,3)] inv rx by simp
    ultimately show ?thesis
      using inv out0 rx True
      by (intro exI [of _ lfr] exI [of _ slots] exI [of _ msgs] exI [of _ msgs] exI [of _ "[]"]
          exI [of _ out0] exI [of _ k]) (simp add: rx_inv_def)
  next
    case False
    obtain lfr' slots' msgs' where acc: "rx_accept w (sent ! n) rx = (lfr', slots', msgs')"
      by (cases "rx_accept w (sent ! n) rx") auto
    have "rx_inv w sent k (lfr, slots, msgs)" "k \<le> n" using inv rx False by simp_all
    from rx_accept_in_window [OF this(1) num this(2) n(2,3) w acc [unfolded rx]] obtain m where
      m: "k \<le> m" "m \<le> length sent" "msgs' = msgs @ drop k (take m sent)" "lfr' = of_nat m - 1"
      "length slots' = w" "slots' ! 0 = None" "n = k \<longrightarrow> k < m"
      "\<forall>i < w. \<forall>f. slots' ! i = Some f \<longrightarrow> m + i < length sent \<and> f = sent ! (m + i)"
      by blast
    from del m(2) obtain rest out1 where rest: "deliver (take m sent) [] = Inr (rest, out1)"
      by (auto simp: deliverable_def)
    from deliver_resume [OF out0 rest m(1)] m(3) obtain out where
      "deliver msgs' [] = Inr (rest, out)" "out1 = out0 @ out" by auto
    with acc m rest out0 rx show ?thesis
      by (intro exI [of _ lfr'] exI [of _ slots'] exI [of _ msgs'] exI [of _ rest] exI [of _ out]
          exI [of _ out0] exI [of _ m]) (auto simp: rx_inv_def)
  qed
qed

text \<open>The handler, one frame of the stream of peer \<open>q\<close> at a time.\<close>

lemma handle_incoming_frame_in_order:
  assumes ok: "windows_ok e h" and valid: "frame_valid (sent ! n)"
    and q: "q = unat (src_id (sent ! n))" "q < num_hosts e"
    and inv: "rx_inv (window_size e) sent k (rx_view e q h)" and num: "numbered sent" and del: "deliverable sent"
    and n: "k \<le> n + 128" "n < k + window_size e" "n < length sent"
  shows "\<exists>h' out m ack a out0 rest. handle_incoming_frame e (sent ! n) h = Inr (h', out) \<and> windows_ok e h' \<and>
    rx_inv (window_size e) sent m (rx_view e q h') \<and> k \<le> m \<and> (n = k \<longrightarrow> k < m) \<and>
    (\<forall>r < num_hosts e. r \<noteq> q \<longrightarrow> rx_view e r h' = rx_view e r h) \<and>
    recv_effect h h' ack \<and> make_ack e q (of_nat m - 1) h = (ack, a) \<and>
    deliver (take k sent) [] = Inr (recv_msg h ! q, out0) \<and> deliver (take m sent) [] = Inr (rest, out0 @ out)"
proof -
  have w: "window_size e \<le> 127" using ok by (simp add: windows_ok_def cfg_ok_def)
  from rx_accept_in_order [OF inv num del n w]
  obtain lfr' slots' msgs' rest out out0 m where A:
    "rx_accept (window_size e) (sent ! n) (rx_view e q h) = (lfr', slots', msgs')"
    "deliver msgs' [] = Inr (rest, out)" "rx_inv (window_size e) sent m (lfr', slots', rest)"
    "k \<le> m" "n = k \<longrightarrow> k < m" "lfr' = of_nat m - 1"
    "deliver (take k sent) [] = Inr (recv_msg h ! q, out0)" "deliver (take m sent) [] = Inr (rest, out0 @ out)"
    by (auto simp: rx_view_def)
  from handle_incoming_frame_spec [OF ok valid q A(1,2)] obtain h' ack a where
    "handle_incoming_frame e (sent ! n) h = Inr (h', out)" "windows_ok e h'"
    "rx_view e q h' = (lfr', slots', rest)" "\<forall>r < num_hosts e. r \<noteq> q \<longrightarrow> rx_view e r h' = rx_view e r h"
    "recv_effect h h' ack" "make_ack e q lfr' h = (ack, a)" by blast
  with A(3-8) show ?thesis
    by (intro exI [of _ h'] exI [of _ out] exI [of _ m] exI [of _ ack] exI [of _ a] exI [of _ out0]
        exI [of _ rest]) simp
qed

lemma handle_incoming_frame_corrupt: "\<not> frame_valid f \<Longrightarrow> handle_incoming_frame e f h = Inr (h, [])"
  by (simp add: handle_incoming_frame_def)

lemma init_rx_inv:
  assumes "cfg_ok e" and "q < num_hosts e"
  shows "rx_inv (window_size e) sent 0 (rx_view e q (init_host e i))"
proof -
  have "reassemble_message [] = Inr None" by (simp add: reassemble_message_def)
  then have "deliver [] [] = Inr ([], [])" by (simp add: deliver.simps [of "[]"])
  moreover have "recv_lfr (init_host e i) ! q = - 1" "recv_msg (init_host e i) ! q = []"
    using assms by (simp_all add: init_host_def Let_def)
  ultimately show ?thesis
    using init_queues(2) [OF assms] by (simp add: rx_inv_def rx_view_def)
qed

section \<open>Properties\<close>

text \<open>A data frame from host 0 to host 1 with the text \<open>hi\<close>, number 0, and host 1 before any frame arrived.\<close>

definition hi_frame :: frame where
  "hi_frame = set_checksum (blank_frame\<lparr>dst_id := 1, flength := 3, data := [104, 105] @ replicate 54 0\<rparr>)"

lemma hi_frame:
  "wf_frame hi_frame" "frame_valid hi_frame" "src_id hi_frame = 0" "seq_num hi_frame = 0"
  "remaining_msg_bytes hi_frame = 0"
  by (auto simp: hi_frame_def blank_frame_def wf_frame_def FRAME_PAYLOAD_SIZE_def intro!: set_checksum_valid)

lemma hi_deliver: "deliver [hi_frame] [] = Inr ([], [[104, 105]])" "deliver [] [] = Inr ([], [])"
  by code_simp+

lemma hi_stream: "numbered [hi_frame]" "deliverable [hi_frame]"
  using hi_frame(4) hi_deliver by (auto simp: numbered_def deliverable_def le_Suc_eq)

text \<open>
  C9: a valid frame takes a host through exactly the step of the abstract receiver \<open>rx_accept\<close>: a frame
  inside the window is stored at its place, the run of frames at the front of the window moves to the
  message buffer, complete messages are printed; the other peers are untouched, and the one
  acknowledgement carries the last number accepted in order.
\<close>

theorem receiver_refines:
  assumes "windows_ok e h" and "frame_valid f" and "q = unat (src_id f)" and "q < num_hosts e"
    and "rx_accept (window_size e) f (rx_view e q h) = (lfr', slots', msgs')" and "deliver msgs' [] = Inr (rest, out)"
  shows "\<exists>h' ack. handle_incoming_frame e f h = Inr (h', out) \<and> windows_ok e h' \<and>
    rx_view e q h' = (lfr', slots', rest) \<and> (\<forall>r < num_hosts e. r \<noteq> q \<longrightarrow> rx_view e r h' = rx_view e r h) \<and>
    outgoing_frames h' = outgoing_frames h @ [ack] \<and> frame_valid ack \<and> is_ack ack = 1 \<and> seq_num ack = lfr' \<and>
    dst_id ack = of_nat q \<and> src_id ack = of_nat (hid h)"
proof -
  from handle_incoming_frame_spec [OF assms] obtain h' ack a where
    r: "handle_incoming_frame e f h = Inr (h', out)" "windows_ok e h'" "rx_view e q h' = (lfr', slots', rest)"
      "\<forall>r < num_hosts e. r \<noteq> q \<longrightarrow> rx_view e r h' = rx_view e r h" "recv_effect h h' ack"
      "make_ack e q lfr' h = (ack, a)" by (elim exE conjE)
  have "cfg_ok e" using assms(1) by (simp add: windows_ok_def)
  from make_ack_frame [OF this r(6)] r recv_effectD(1) [OF r(5)] show ?thesis by blast
qed

theorem receiver_refines_witness:
  "\<exists>h'. handle_incoming_frame small_env hi_frame (init_host small_env 1) = Inr (h', [[104, 105]])"
proof -
  have "rx_accept (window_size small_env) hi_frame (rx_view small_env 0 (init_host small_env 1)) =
      (0, [None, None], [hi_frame])" by code_simp
  from receiver_refines [OF init_windows_ok [OF small_env_cfg] hi_frame(2) _ _ this hi_deliver(1)]
  show ?thesis using hi_frame(3) by (auto simp: small_env_def)
qed

text \<open>
  C10: selective repeat delivers in order. If a host has accepted \<open>k\<close> frames of a numbered stream and
  frame \<open>n\<close> of it arrives, at most 128 frames old and within the window, then the host has accepted some
  \<open>m \<ge> k\<close> frames, prints exactly the messages that frames \<open>k\<close> to \<open>m\<close> complete, and acknowledges \<open>m\<close>; the next
  expected frame always makes progress.
\<close>

theorem receiver_in_order:
  assumes "windows_ok e h" and "frame_valid (sent ! n)" and "q = unat (src_id (sent ! n))" and "q < num_hosts e"
    and "rx_inv (window_size e) sent k (rx_view e q h)" and "numbered sent" and "deliverable sent"
    and "k \<le> n + 128" and "n < k + window_size e" and "n < length sent"
  shows "\<exists>h' out m. handle_incoming_frame e (sent ! n) h = Inr (h', out) \<and>
    rx_inv (window_size e) sent m (rx_view e q h') \<and> k \<le> m \<and> (n = k \<longrightarrow> k < m) \<and>
    (\<exists>ack. outgoing_frames h' = outgoing_frames h @ [ack] \<and> seq_num ack = of_nat m - 1) \<and>
    (\<exists>out0 rest. deliver (take k sent) [] = Inr (recv_msg h ! q, out0) \<and> deliver (take m sent) [] = Inr (rest, out0 @ out))"
proof -
  from handle_incoming_frame_in_order [OF assms] obtain h' out m ack a out0 rest where
    r: "handle_incoming_frame e (sent ! n) h = Inr (h', out)" "windows_ok e h'"
      "rx_inv (window_size e) sent m (rx_view e q h')" "k \<le> m" "n = k \<longrightarrow> k < m"
      "\<forall>r < num_hosts e. r \<noteq> q \<longrightarrow> rx_view e r h' = rx_view e r h"
      "recv_effect h h' ack" "make_ack e q (of_nat m - 1) h = (ack, a)"
      "deliver (take k sent) [] = Inr (recv_msg h ! q, out0)" "deliver (take m sent) [] = Inr (rest, out0 @ out)"
    by (elim exE conjE)
  have "cfg_ok e" using assms(1) by (simp add: windows_ok_def)
  from make_ack_frame(4) [OF this r(8)] r recv_effectD(1) [OF r(7)] show ?thesis by blast
qed

theorem receiver_in_order_witness:
  "\<exists>h' out m. handle_incoming_frame small_env hi_frame (init_host small_env 1) = Inr (h', out) \<and>
     rx_inv 2 [hi_frame] m (rx_view small_env 0 h') \<and> 0 < m"
proof -
  have "rx_inv (window_size small_env) [hi_frame] 0 (rx_view small_env 0 (init_host small_env 1))"
    by (rule init_rx_inv [OF small_env_cfg]) (simp add: small_env_def)
  from receiver_in_order [OF init_windows_ok [OF small_env_cfg] _ _ _ this hi_stream, of 0] hi_frame(2,3)
  show ?thesis by (auto simp: small_env_def)
qed

text \<open>C11: a frame that the channel changed in one byte is dropped: nothing is printed, no acknowledgement is sent,
  and the state of the host is as before.\<close>

theorem damaged_frame_ignored:
  assumes "wf_frame f" and "frame_valid f" and "i < MAX_FRAME_SIZE" and "x \<noteq> 0"
  shows "handle_incoming_frame e (convert_char_to_frame
    ((convert_frame_to_char f)[i := convert_frame_to_char f ! i XOR x])) h = Inr (h, [])"
  using single_byte_error_detected [OF assms] by (rule handle_incoming_frame_corrupt)

theorem damaged_frame_ignored_witness:
  "handle_incoming_frame small_env (convert_char_to_frame
    ((convert_frame_to_char hi_frame)[7 := convert_frame_to_char hi_frame ! 7 XOR 255])) (init_host small_env 1) =
     Inr (init_host small_env 1, [])"
  by (rule damaged_frame_ignored [OF hi_frame(1,2)]) (simp_all add: MAX_FRAME_SIZE_def)

end
