(* ===== verification/LinkedList.thy ===== *)
theory LinkedList
  imports Prelude
begin

text \<open>
  The circular doubly linked list of \<^verbatim>\<open>tcp/src/util.c\<close> over an explicit heap, and its
  refinement to lists. Every message queue of the simulation (\<^verbatim>\<open>input_cmdlist_head\<close>,
  \<^verbatim>\<open>incoming_frames_head\<close>, \<^verbatim>\<open>buffered_outframes_head\<close>, \<^verbatim>\<open>outgoing_frames_head\<close>,
  \<^verbatim>\<open>recv_msg_head\<close>, the ports' \<^verbatim>\<open>buffer_queue_head\<close>) is such a list and is only touched
  through these operations, so the other theories model those queues as HOL lists.

  A heap maps addresses to nodes; address 0 is \<^verbatim>\<open>NULL\<close> and \<open>brk\<close> is the next address
  \<^verbatim>\<open>malloc\<close> returns. The field \<^verbatim>\<open>type\<close> is not modelled: \<^verbatim>\<open>ll_append_node\<close> never writes it.
\<close>

section \<open>Nodes and heap\<close>

record 'a llnode =
  ll_prev :: nat
  ll_next :: nat
  ll_value :: 'a

record 'a heap =
  cells :: "nat \<Rightarrow> 'a llnode option"
  brk :: nat

definition deref :: "'a heap \<Rightarrow> nat \<Rightarrow> 'a llnode res" where
  "deref h p = (case cells h p of None \<Rightarrow> Inl NullDeref | Some n \<Rightarrow> Inr n)"

definition store :: "'a heap \<Rightarrow> nat \<Rightarrow> 'a llnode \<Rightarrow> 'a heap" where
  "store h p n = h\<lparr>cells := (cells h)(p \<mapsto> n)\<rparr>"

definition set_next :: "'a heap \<Rightarrow> nat \<Rightarrow> nat \<Rightarrow> 'a heap res" where
  "set_next h p q = rbind (deref h p) (\<lambda>n. Inr (store h p (n\<lparr>ll_next := q\<rparr>)))"

definition set_prev :: "'a heap \<Rightarrow> nat \<Rightarrow> nat \<Rightarrow> 'a heap res" where
  "set_prev h p q = rbind (deref h p) (\<lambda>n. Inr (store h p (n\<lparr>ll_prev := q\<rparr>)))"

section \<open>The operations\<close>

text \<open>
  \<^verbatim>\<open>ll_get_length\<close> follows \<^verbatim>\<open>next\<close> until it is back at the head. On a list that is not a ring
  the loop need not end: \<open>None\<close>.
\<close>

partial_function (option) ll_count :: "'a heap \<Rightarrow> nat \<Rightarrow> nat \<Rightarrow> nat \<Rightarrow> nat res option" where
  "ll_count h head tmp count =
     (if tmp = head then Some (Inr count)
      else case deref h tmp of Inl e \<Rightarrow> Some (Inl e)
           | Inr n \<Rightarrow> ll_count h head (ll_next n) (Suc count))"

definition ll_get_length :: "'a heap \<Rightarrow> nat \<Rightarrow> nat res option" where
  "ll_get_length h head =
     (if head = 0 then Some (Inr 0)
      else case deref h head of Inl e \<Rightarrow> Some (Inl e)
           | Inr n \<Rightarrow> ll_count h head (ll_next n) 1)"

definition ll_peek_node :: "'a heap \<Rightarrow> nat \<Rightarrow> 'a option res" where
  "ll_peek_node h head =
     (if head = 0 then Inr None else rbind (deref h head) (\<lambda>n. Inr (Some (ll_value n))))"

text \<open>The head pointer is passed by reference: the operations return its new value.\<close>

definition ll_append_node :: "'a heap \<Rightarrow> nat \<Rightarrow> 'a \<Rightarrow> ('a heap \<times> nat) res" where
  "ll_append_node h head v =
     (let new_node = brk h;
          h = h\<lparr>cells := (cells h)(new_node \<mapsto> \<lparr>ll_prev = 0, ll_next = 0, ll_value = v\<rparr>), brk := Suc (brk h)\<rparr>
      in if head = 0
         then rbind (set_prev h new_node new_node) (\<lambda>h.
              rbind (set_next h new_node new_node) (\<lambda>h. Inr (h, new_node)))
         else rbind (deref h head) (\<lambda>n.
              let prev_last_node = ll_prev n in
              rbind (set_prev h head new_node) (\<lambda>h.
              rbind (set_next h prev_last_node new_node) (\<lambda>h.
              rbind (set_next h new_node head) (\<lambda>h.
              rbind (set_prev h new_node prev_last_node) (\<lambda>h. Inr (h, head)))))))"

text \<open>\<^verbatim>\<open>ll_pop_node\<close> returns the detached node (0 for an empty list) and the new head.\<close>

definition ll_pop_node :: "'a heap \<Rightarrow> nat \<Rightarrow> ('a heap \<times> nat \<times> nat) res" where
  "ll_pop_node h prev_head =
     (if prev_head = 0 then Inr (h, 0, 0)
      else rbind (deref h prev_head) (\<lambda>n.
        let last_node = ll_prev n; new_head = ll_next n in
        if last_node = prev_head
        then rbind (set_next h prev_head 0) (\<lambda>h.
             rbind (set_prev h prev_head 0) (\<lambda>h. Inr (h, 0, prev_head)))
        else rbind (set_next h last_node new_head) (\<lambda>h.
             rbind (set_prev h new_head last_node) (\<lambda>h.
             rbind (set_next h prev_head 0) (\<lambda>h.
             rbind (set_prev h prev_head 0) (\<lambda>h. Inr (h, new_head, prev_head)))))))"

section \<open>Rings\<close>

definition nxt :: "'a heap \<Rightarrow> nat \<Rightarrow> nat" where
  "nxt h p = (case cells h p of None \<Rightarrow> 0 | Some n \<Rightarrow> ll_next n)"

definition prv :: "'a heap \<Rightarrow> nat \<Rightarrow> nat" where
  "prv h p = (case cells h p of None \<Rightarrow> 0 | Some n \<Rightarrow> ll_prev n)"

definition vof :: "'a heap \<Rightarrow> nat \<Rightarrow> 'a" where
  "vof h p = ll_value (the (cells h p))"

text \<open>
  \<open>ring h ps\<close>: the nodes at \<open>ps\<close> form a circular doubly linked list, in this order. The
  successors of the nodes are the same list rotated by one, and the predecessors of the rotated
  list are the list.
\<close>

definition ring :: "'a heap \<Rightarrow> nat list \<Rightarrow> bool" where
  "ring h ps \<longleftrightarrow> distinct ps \<and> 0 \<notin> set ps \<and> (\<forall>p \<in> set ps. p < brk h \<and> cells h p \<noteq> None) \<and>
     map (nxt h) ps = rotate1 ps \<and> map (prv h) (rotate1 ps) = ps"

definition head_of :: "nat list \<Rightarrow> nat" where
  "head_of ps = (case ps of [] \<Rightarrow> 0 | p # _ \<Rightarrow> p)"

text \<open>
  \<open>agree_off A h h'\<close>: from \<open>h\<close> to \<open>h'\<close> no allocated node outside \<open>A\<close> changed, so a list that shares
  no node with \<open>A\<close> is as it was.
\<close>

definition agree_off :: "nat set \<Rightarrow> 'a heap \<Rightarrow> 'a heap \<Rightarrow> bool" where
  "agree_off A h h' \<longleftrightarrow> brk h \<le> brk h' \<and> (\<forall>p. p \<notin> A \<and> p < brk h \<longrightarrow> cells h' p = cells h p)"

text \<open>\<open>llist h head xs\<close>: \<open>head\<close> points to a ring whose values are \<open>xs\<close>.\<close>

definition llist :: "'a heap \<Rightarrow> nat \<Rightarrow> nat list \<Rightarrow> 'a list \<Rightarrow> bool" where
  "llist h head ps xs \<longleftrightarrow> ring h ps \<and> head = head_of ps \<and> xs = map (vof h) ps"

section \<open>Effects of the single writes\<close>

lemma store_simps [simp]:
  "brk (store h p n) = brk h"
  "cells (store h p n) = (cells h)(p \<mapsto> n)"
  "nxt (store h p n) = (nxt h)(p := ll_next n)"
  "prv (store h p n) = (prv h)(p := ll_prev n)"
  "vof (store h p n) = (vof h)(p := ll_value n)"
  by (auto simp: store_def nxt_def prv_def vof_def)

lemma heap_view:
  assumes "cells h p = Some n"
  shows "nxt h p = ll_next n" "prv h p = ll_prev n" "vof h p = ll_value n" "deref h p = Inr n"
  using assms by (simp_all add: nxt_def prv_def vof_def deref_def)

lemma set_next_ok:
  assumes "cells h p \<noteq> None"
  shows "\<exists>h'. set_next h p q = Inr h' \<and> brk h' = brk h \<and> nxt h' = (nxt h)(p := q) \<and>
    prv h' = prv h \<and> vof h' = vof h \<and> (\<forall>x. (cells h' x = None) = (cells h x = None)) \<and>
    (\<forall>x. x \<noteq> p \<longrightarrow> cells h' x = cells h x)"
  using assms by (auto simp: set_next_def heap_view fun_upd_idem_iff)

lemma set_prev_ok:
  assumes "cells h p \<noteq> None"
  shows "\<exists>h'. set_prev h p q = Inr h' \<and> brk h' = brk h \<and> nxt h' = nxt h \<and>
    prv h' = (prv h)(p := q) \<and> vof h' = vof h \<and> (\<forall>x. (cells h' x = None) = (cells h x = None)) \<and>
    (\<forall>x. x \<noteq> p \<longrightarrow> cells h' x = cells h x)"
  using assms by (auto simp: set_prev_def heap_view fun_upd_idem_iff)

section \<open>Facts about rings\<close>

lemma ring_Nil [simp]: "ring h []"
  by (simp add: ring_def)

lemma ring_rotate1: "ring h ps \<Longrightarrow> ring h (rotate1 ps)"
  by (auto simp: ring_def rotate1_map [symmetric])

lemma ring_rotate: "ring h ps \<Longrightarrow> ring h (rotate n ps)"
  by (induction n) (auto simp: ring_rotate1)

lemma ring_swap: "ring h (xs @ ys) \<Longrightarrow> ring h (ys @ xs)"
  using ring_rotate [of h "xs @ ys" "length xs"] by (simp add: rotate_append)

lemma ring_Cons_iff:
  "ring h (x # ys) \<longleftrightarrow> distinct (x # ys) \<and> 0 \<notin> set (x # ys) \<and>
     (\<forall>p \<in> set (x # ys). p < brk h \<and> cells h p \<noteq> None) \<and>
     map (nxt h) (x # ys) = ys @ [x] \<and> map (prv h) (ys @ [x]) = x # ys"
  by (simp add: ring_def)

lemma ring_prv_hd:
  assumes "ring h ps" and "ps \<noteq> []"
  shows "prv h (hd ps) = last ps"
proof -
  obtain x ys where ps: "ps = x # ys" using assms(2) by (cases ps) auto
  have "last (map (prv h) (ys @ [x])) = last (x # ys)"
    using assms(1) unfolding ps ring_Cons_iff by metis
  then show ?thesis by (simp add: ps)
qed

lemma ring_nxt_hd:
  assumes "ring h (x # y # ys)"
  shows "nxt h x = y"
  using assms by (simp add: ring_Cons_iff)

lemma ring_live: "ring h ps \<Longrightarrow> p \<in> set ps \<Longrightarrow> cells h p \<noteq> None \<and> p < brk h \<and> p \<noteq> 0"
  by (metis ring_def)

section \<open>Append\<close>

lemma ll_append_effect:
  assumes r: "ring h ps" and ne: "ps \<noteq> []"
  shows "\<exists>h'. ll_append_node h (hd ps) v = Inr (h', hd ps) \<and> brk h' = Suc (brk h) \<and>
     nxt h' = (nxt h)(last ps := brk h, brk h := hd ps) \<and>
     prv h' = (prv h)(hd ps := brk h, brk h := last ps) \<and>
     vof h' = (vof h)(brk h := v) \<and>
     (\<forall>p. cells h' p = None \<longleftrightarrow> p \<noteq> brk h \<and> cells h p = None) \<and>
     (\<forall>p. p \<notin> set ps \<and> p \<noteq> brk h \<longrightarrow> cells h' p = cells h p)"
proof -
  let ?a = "brk h" and ?x = "hd ps" and ?l = "last ps"
  define h0 where "h0 = h\<lparr>cells := (cells h)(?a \<mapsto> \<lparr>ll_prev = 0, ll_next = 0, ll_value = v\<rparr>), brk := Suc ?a\<rparr>"
  have x: "?x \<in> set ps" and l: "?l \<in> set ps" using ne by auto
  from ring_live [OF r x] have x': "cells h ?x \<noteq> None" "?x < ?a" "?x \<noteq> 0" by auto
  from ring_live [OF r l] have l': "cells h ?l \<noteq> None" "?l < ?a" "?l \<noteq> 0" by auto
  have h0: "cells h0 ?x \<noteq> None" "cells h0 ?l \<noteq> None" "cells h0 ?a \<noteq> None" "brk h0 = Suc ?a"
    "nxt h0 = (nxt h)(?a := 0)" "prv h0 = (prv h)(?a := 0)" "vof h0 = (vof h)(?a := v)"
    "\<forall>p. cells h0 p = None \<longleftrightarrow> p \<noteq> ?a \<and> cells h p = None"
    "\<forall>p. p \<noteq> ?a \<longrightarrow> cells h0 p = cells h p"
    using x' l' by (auto simp: h0_def nxt_def prv_def vof_def)
  obtain n where n: "deref h0 ?x = Inr n" "ll_prev n = ?l"
  proof -
    from h0(1) obtain m where m: "cells h0 ?x = Some m" by auto
    have "ll_prev m = ?l"
      using heap_view(2) [OF m] h0(6) x' ring_prv_hd [OF r ne] by simp
    with heap_view(4) [OF m] show thesis by (rule that)
  qed
  obtain h1 where h1: "set_prev h0 ?x ?a = Inr h1" "brk h1 = brk h0" "nxt h1 = nxt h0"
    "prv h1 = (prv h0)(?x := ?a)" "vof h1 = vof h0" "\<forall>p. (cells h1 p = None) = (cells h0 p = None)"
    "\<forall>p. p \<noteq> ?x \<longrightarrow> cells h1 p = cells h0 p"
    using set_prev_ok [OF h0(1)] by blast
  then have "cells h1 ?l \<noteq> None" using h0 by simp
  from set_next_ok [OF this, of ?a] obtain h2 where h2: "set_next h1 ?l ?a = Inr h2" "brk h2 = brk h1"
    "nxt h2 = (nxt h1)(?l := ?a)" "prv h2 = prv h1" "vof h2 = vof h1"
    "\<forall>p. (cells h2 p = None) = (cells h1 p = None)"
    "\<forall>p. p \<noteq> ?l \<longrightarrow> cells h2 p = cells h1 p" by blast
  then have "cells h2 ?a \<noteq> None" using h0 h1 by simp
  from set_next_ok [OF this, of ?x] obtain h3 where h3: "set_next h2 ?a ?x = Inr h3" "brk h3 = brk h2"
    "nxt h3 = (nxt h2)(?a := ?x)" "prv h3 = prv h2" "vof h3 = vof h2"
    "\<forall>p. (cells h3 p = None) = (cells h2 p = None)"
    "\<forall>p. p \<noteq> ?a \<longrightarrow> cells h3 p = cells h2 p" by blast
  then have "cells h3 ?a \<noteq> None" using h0 h1 h2 by simp
  from set_prev_ok [OF this, of ?l] obtain h4 where h4: "set_prev h3 ?a ?l = Inr h4" "brk h4 = brk h3"
    "nxt h4 = nxt h3" "prv h4 = (prv h3)(?a := ?l)" "vof h4 = vof h3"
    "\<forall>p. (cells h4 p = None) = (cells h3 p = None)"
    "\<forall>p. p \<noteq> ?a \<longrightarrow> cells h4 p = cells h3 p" by blast
  have "ll_append_node h ?x v = Inr (h4, ?x)"
    using x'(3) n h1(1) h2(1) h3(1) h4(1) by (simp add: ll_append_node_def Let_def flip: h0_def)
  moreover have "?x \<noteq> ?a" "?l \<noteq> ?a" using x' l' by auto
  moreover have "cells h4 p = cells h p" if "p \<notin> set ps" "p \<noteq> ?a" for p
    using that x l h0(9) h1(7) h2(7) h3(7) h4(7) by metis
  ultimately show ?thesis
    using h0(1-8) h1(1-6) h2(1-6) h3(1-6) h4(1-6)
    by (intro exI [of _ h4]) (auto simp: fun_eq_iff)
qed

lemma ring_append:
  assumes r: "ring h ps" and ne: "ps \<noteq> []"
    and n: "nxt h' = (nxt h)(last ps := brk h, brk h := hd ps)"
    and p: "prv h' = (prv h)(hd ps := brk h, brk h := last ps)"
    and c: "\<forall>p. cells h' p = None \<longleftrightarrow> p \<noteq> brk h \<and> cells h p = None"
    and b: "brk h' = Suc (brk h)"
  shows "ring h' (ps @ [brk h])"
proof -
  obtain x ys where ps: "ps = x # ys" using ne by (cases ps) auto
  obtain zs l where zs: "ps = zs @ [l]" using ne by (cases ps rule: rev_cases) auto
  have fresh: "brk h \<notin> set ps" using ring_live [OF r] by blast
  have dist: "distinct ps" and z: "0 \<notin> set ps" using r by (simp_all add: ring_def)
  have next_all: "map (nxt h) ps = ys @ [x]" using r ps by (simp add: ring_def)
  then have nx: "map (nxt h) zs = ys" by (simp add: zs)
  have "map (nxt h') zs = map (nxt h) zs"
    using dist fresh by (auto simp: zs n)
  then have 1: "map (nxt h') (ps @ [brk h]) = ys @ [brk h, x]"
    using nx fresh by (simp add: zs n) (simp add: ps flip: zs)
  have prev_all: "map (prv h) (ys @ [x]) = ps" using r ps by (simp add: ring_def)
  then have pv: "map (prv h) ys = zs" by (simp add: zs)
  have "map (prv h') ys = map (prv h) ys"
    using dist fresh by (auto simp: ps p)
  moreover have "prv h' (brk h) = l" by (simp add: p zs)
  moreover have "prv h' x = brk h" using fresh by (simp add: p ps)
  ultimately have 2: "map (prv h') (ys @ [brk h, x]) = ps @ [brk h]"
    using pv by (simp add: zs)
  have "0 < brk h" using ring_live [OF r, of x] ps by simp
  then have "q < brk h' \<and> cells h' q \<noteq> None \<and> q \<noteq> 0" if "q \<in> set (ps @ [brk h])" for q
  proof (cases "q = brk h")
    case True
    with \<open>0 < brk h\<close> show ?thesis using c [rule_format, of q] by (simp add: b)
  next
    case False
    with that have "q \<in> set ps" by simp
    from ring_live [OF r this] show ?thesis using c [rule_format, of q] by (simp add: b)
  qed
  moreover have "rotate1 (ps @ [brk h]) = ys @ [brk h, x]" by (simp add: ps)
  moreover have "distinct (ps @ [brk h])" using dist fresh by simp
  ultimately show ?thesis
    unfolding ring_def using 1 2 by (metis (no_types, lifting))
qed

theorem ll_append_llist:
  assumes "llist h head ps xs" and "0 < brk h"
  shows "\<exists>h' head'. ll_append_node h head v = Inr (h', head') \<and> 0 < brk h' \<and>
    llist h' head' (ps @ [brk h]) (xs @ [v]) \<and> agree_off (set ps) h h'"
proof (cases ps)
  case Nil
  let ?a = "brk h"
  define h0 where "h0 = h\<lparr>cells := (cells h)(?a \<mapsto> \<lparr>ll_prev = 0, ll_next = 0, ll_value = v\<rparr>), brk := Suc ?a\<rparr>"
  have "set_prev h0 ?a ?a = Inr (store h0 ?a \<lparr>ll_prev = ?a, ll_next = 0, ll_value = v\<rparr>)"
    by (simp add: set_prev_def deref_def h0_def)
  moreover have "set_next (store h0 ?a \<lparr>ll_prev = ?a, ll_next = 0, ll_value = v\<rparr>) ?a ?a
      = Inr (store h0 ?a \<lparr>ll_prev = ?a, ll_next = ?a, ll_value = v\<rparr>)" (is "_ = Inr ?h")
    by (simp add: set_next_def deref_def store_def h0_def)
  ultimately have "ll_append_node h head v = Inr (?h, ?a)"
    using assms Nil by (simp add: llist_def head_of_def ll_append_node_def Let_def flip: h0_def)
  moreover have "brk ?h = Suc ?a" by (simp add: h0_def)
  ultimately show ?thesis
    using assms Nil by (auto simp: llist_def head_of_def ring_def agree_off_def h0_def)
next
  case (Cons p ps')
  then have ne: "ps \<noteq> []" and hd: "head = hd ps" and r: "ring h ps"
    using assms by (auto simp: llist_def head_of_def)
  from ll_append_effect [OF r ne, of v] obtain h' where h':
    "ll_append_node h head v = Inr (h', head)" "brk h' = Suc (brk h)"
    "nxt h' = (nxt h)(last ps := brk h, brk h := hd ps)"
    "prv h' = (prv h)(hd ps := brk h, brk h := last ps)" "vof h' = (vof h)(brk h := v)"
    "\<forall>p. cells h' p = None \<longleftrightarrow> p \<noteq> brk h \<and> cells h p = None"
    "\<forall>p. p \<notin> set ps \<and> p \<noteq> brk h \<longrightarrow> cells h' p = cells h p"
    unfolding hd by blast
  have "ring h' (ps @ [brk h])" by (rule ring_append [OF r ne h'(3,4,6,2)])
  moreover have "map (vof h') ps = map (vof h) ps"
    using ring_live [OF r] by (auto simp: h'(5))
  ultimately have "llist h' head (ps @ [brk h]) (xs @ [v])"
    using assms(1) Cons h'(5) by (simp add: llist_def head_of_def)
  moreover have "agree_off (set ps) h h'" using h'(2,7) by (auto simp: agree_off_def)
  ultimately show ?thesis using h'(1,2) by auto
qed

section \<open>Pop\<close>

lemma ll_pop_effect:
  assumes r: "ring h ps" and ps: "ps = x # y # ys"
  shows "\<exists>h'. ll_pop_node h x = Inr (h', y, x) \<and> brk h' = brk h \<and>
     nxt h' = (nxt h)(last ps := y, x := 0) \<and> prv h' = (prv h)(y := last ps, x := 0) \<and>
     vof h' = vof h \<and> (\<forall>p. (cells h' p = None) = (cells h p = None)) \<and>
     (\<forall>p. p \<notin> set ps \<longrightarrow> cells h' p = cells h p)"
proof -
  let ?l = "last ps"
  have x: "cells h x \<noteq> None" "x \<noteq> 0" and y: "cells h y \<noteq> None" and l: "cells h ?l \<noteq> None"
    using ring_live [OF r] ps by auto
  have lx: "?l \<noteq> x" using r ps by (auto simp: ring_def)
  obtain n where n: "deref h x = Inr n" "ll_prev n = ?l" "ll_next n = y"
  proof -
    from x obtain m where m: "cells h x = Some m" by auto
    have "ll_prev m = ?l" "ll_next m = y"
      using heap_view(1,2) [OF m] ring_prv_hd [OF r] ring_nxt_hd r ps by (auto simp: ring_nxt_hd)
    with heap_view(4) [OF m] show thesis by (rule that)
  qed
  from set_next_ok [OF l, of y] obtain h1 where h1: "set_next h ?l y = Inr h1" "brk h1 = brk h"
    "nxt h1 = (nxt h)(?l := y)" "prv h1 = prv h" "vof h1 = vof h"
    "\<forall>p. (cells h1 p = None) = (cells h p = None)"
    "\<forall>p. p \<noteq> ?l \<longrightarrow> cells h1 p = cells h p" by blast
  then have "cells h1 y \<noteq> None" using y by simp
  from set_prev_ok [OF this, of ?l] obtain h2 where h2: "set_prev h1 y ?l = Inr h2" "brk h2 = brk h1"
    "nxt h2 = nxt h1" "prv h2 = (prv h1)(y := ?l)" "vof h2 = vof h1"
    "\<forall>p. (cells h2 p = None) = (cells h1 p = None)"
    "\<forall>p. p \<noteq> y \<longrightarrow> cells h2 p = cells h1 p" by blast
  then have "cells h2 x \<noteq> None" using x h1 by simp
  from set_next_ok [OF this, of 0] obtain h3 where h3: "set_next h2 x 0 = Inr h3" "brk h3 = brk h2"
    "nxt h3 = (nxt h2)(x := 0)" "prv h3 = prv h2" "vof h3 = vof h2"
    "\<forall>p. (cells h3 p = None) = (cells h2 p = None)"
    "\<forall>p. p \<noteq> x \<longrightarrow> cells h3 p = cells h2 p" by blast
  then have "cells h3 x \<noteq> None" using x h1 h2 by simp
  from set_prev_ok [OF this, of 0] obtain h4 where h4: "set_prev h3 x 0 = Inr h4" "brk h4 = brk h3"
    "nxt h4 = nxt h3" "prv h4 = (prv h3)(x := 0)" "vof h4 = vof h3"
    "\<forall>p. (cells h4 p = None) = (cells h3 p = None)"
    "\<forall>p. p \<noteq> x \<longrightarrow> cells h4 p = cells h3 p" by blast
  have "ll_pop_node h x = Inr (h4, y, x)"
    using x(2) n lx h1(1) h2(1) h3(1) h4(1) by (simp add: ll_pop_node_def Let_def)
  moreover have "?l \<in> set ps" "x \<in> set ps" "y \<in> set ps" using ps by auto
  then have "cells h4 p = cells h p" if "p \<notin> set ps" for p
    using that h1(7) h2(7) h3(7) h4(7) by metis
  ultimately show ?thesis
    using h1(1-6) h2(1-6) h3(1-6) h4(1-6) by (intro exI [of _ h4]) auto
qed

lemma ring_pop:
  assumes r: "ring h (x # y # ys)"
    and n: "nxt h' = (nxt h)(last (x # y # ys) := y, x := 0)"
    and p: "prv h' = (prv h)(y := last (x # y # ys), x := 0)"
    and c: "\<forall>p. (cells h' p = None) = (cells h p = None)" and b: "brk h' = brk h"
  shows "ring h' (y # ys)"
proof -
  obtain zs l where zs: "y # ys = zs @ [l]" by (cases "y # ys" rule: rev_cases) auto
  then have l: "last (x # y # ys) = l" by simp
  have dist: "distinct (x # y # ys)" and dist': "distinct (x # zs @ [l])"
    using r zs by (auto simp: ring_Cons_iff)
  have "map (nxt h) (y # ys) = ys @ [x]" using r by (simp add: ring_Cons_iff)
  then have "map (nxt h) zs = ys" by (simp add: zs)
  moreover note n' = n [unfolded l]
  moreover have "map (nxt h') zs = map (nxt h) zs" using dist' by (auto simp: n')
  ultimately have "map (nxt h') (zs @ [l]) = ys @ [y]"
    using dist' by (simp add: n')
  then have 1: "map (nxt h') (y # ys) = ys @ [y]" by (simp only: zs)
  have "map (prv h) (y # ys @ [x]) = x # y # ys" using r by (simp add: ring_Cons_iff)
  then have "map (prv h) (ys @ [x]) = zs @ [l]" by (simp add: zs)
  then have "map (prv h) ys = zs" by simp
  moreover have "map (prv h') ys = map (prv h) ys" using dist by (auto simp: p)
  ultimately have "map (prv h') (ys @ [y]) = zs @ [l]"
    using dist by (simp add: p [unfolded l])
  then have 2: "map (prv h') (ys @ [y]) = y # ys" by (simp only: zs)
  have "q < brk h' \<and> cells h' q \<noteq> None \<and> q \<noteq> 0" if "q \<in> set (y # ys)" for q
    using that ring_live [OF r, of q] c b by auto
  moreover have "distinct (y # ys)" using dist by simp
  ultimately show ?thesis
    unfolding ring_Cons_iff using 1 2 by (metis (no_types, lifting))
qed

text \<open>Popping the head: the queue loses its first element.\<close>

theorem ll_pop_llist:
  assumes "llist h head (p # ps) (v # xs)"
  shows "\<exists>h' head'. ll_pop_node h head = Inr (h', head', p) \<and> brk h' = brk h \<and>
    vof h' = vof h \<and> llist h' head' ps xs \<and> agree_off (set (p # ps)) h h' \<and>
    cells h' p \<noteq> None"
proof (cases ps)
  case Nil
  have hd: "head = p" and r: "ring h [p]" and xs: "xs = []"
    using assms Nil by (auto simp: llist_def head_of_def)
  then have "cells h p \<noteq> None" "p \<noteq> 0" by (simp_all add: ring_Cons_iff)
  then obtain n where n: "cells h p = Some n" by auto
  have "ll_prev n = p" using ring_prv_hd [OF r] heap_view(2) [OF n] by simp
  then have "ll_pop_node h head = Inr (store (store h p (n\<lparr>ll_next := 0\<rparr>)) p (n\<lparr>ll_next := 0, ll_prev := 0\<rparr>), 0, p)"
    (is "_ = Inr (?h, _, _)")
    using n \<open>p \<noteq> 0\<close> hd
    by (simp add: ll_pop_node_def deref_def set_next_def set_prev_def Let_def)
  moreover have "vof ?h = vof h" "brk ?h = brk h" using n by (auto simp: heap_view)
  moreover have "agree_off {p} h ?h" "cells ?h p \<noteq> None" by (auto simp: agree_off_def)
  ultimately show ?thesis using Nil xs by (auto simp: llist_def head_of_def)
next
  case (Cons q qs)
  have hd: "head = p" and r: "ring h (p # q # qs)" and xs: "xs = map (vof h) ps"
    using assms Cons by (auto simp: llist_def head_of_def)
  from ll_pop_effect [OF r refl] obtain h' where h': "ll_pop_node h p = Inr (h', q, p)" "brk h' = brk h"
    "nxt h' = (nxt h)(last (p # q # qs) := q, p := 0)" "prv h' = (prv h)(q := last (p # q # qs), p := 0)"
    "vof h' = vof h" "\<forall>p. (cells h' p = None) = (cells h p = None)"
    "\<forall>a. a \<notin> set (p # q # qs) \<longrightarrow> cells h' a = cells h a" by blast
  have "ring h' ps" using ring_pop [OF r h'(3,4,6,2)] Cons by simp
  moreover have "agree_off (set (p # ps)) h h'" using h'(2,7) Cons by (auto simp: agree_off_def)
  moreover have "cells h' p \<noteq> None" using h'(6) r by (simp add: ring_Cons_iff)
  ultimately show ?thesis using h'(1,2,5) hd xs Cons by (auto simp: llist_def head_of_def)
qed

text \<open>
  The scanning loops of the sender pop through a cursor \<open>c\<close> that is not the head
  (\<^verbatim>\<open>ll_pop_node(&node)\<close>): the ring seen from the head loses exactly that element, and the
  cursor moves to the next one, or round to the head when the popped element was the last.
\<close>

theorem ll_pop_cursor:
  assumes "llist h head (ps @ c # qs) (xs @ v # ys)" and "length ps = length xs" and "ps \<noteq> []"
  shows "\<exists>h'. ll_pop_node h c = Inr (h', head_of (qs @ ps), c) \<and> brk h' = brk h \<and>
    vof h' = vof h \<and> llist h' head (ps @ qs) (xs @ ys) \<and> agree_off (set (ps @ c # qs)) h h'"
proof -
  have r: "ring h (ps @ c # qs)" and hd: "head = head_of ps"
    and vs: "xs = map (vof h) ps" "v = vof h c" "ys = map (vof h) qs"
    using assms by (auto simp: llist_def head_of_def split: list.splits)
  from ring_swap [OF r] have "ring h (c # qs @ ps)" by simp
  then have "llist h c (c # qs @ ps) (v # ys @ xs)"
    using vs by (simp add: llist_def head_of_def)
  from ll_pop_llist [OF this] obtain h' where h': "ll_pop_node h c = Inr (h', head_of (qs @ ps), c)"
    "brk h' = brk h" "vof h' = vof h" "ring h' (qs @ ps)" "agree_off (set (c # qs @ ps)) h h'"
    by (auto simp: llist_def)
  from ring_swap [OF h'(4)] have "llist h' head (ps @ qs) (xs @ ys)"
    using hd vs h'(3) assms(3) by (auto simp: llist_def head_of_def split: list.splits)
  moreover have "set (c # qs @ ps) = set (ps @ c # qs)" by auto
  ultimately show ?thesis using h' by metis
qed

lemma llist_frame:
  assumes "llist h head ps xs" and "agree_off A h h'" and "set ps \<inter> A = {}"
  shows "llist h' head ps xs"
proof -
  have "cells h' p = cells h p \<and> p < brk h \<and> p < brk h' \<and> cells h p \<noteq> None" if "p \<in> set ps" for p
    using that assms ring_live [of h ps p] by (auto simp: llist_def agree_off_def)
  moreover from this have "map (nxt h') ps = map (nxt h) ps" "map (prv h') (rotate1 ps) = map (prv h) (rotate1 ps)"
    "map (vof h') ps = map (vof h) ps"
    by (auto simp: nxt_def prv_def vof_def)
  ultimately show ?thesis using assms(1) unfolding llist_def ring_def by metis
qed

section \<open>Length\<close>

lemma ll_count_ring:
  assumes "\<forall>p \<in> set qs. cells h p \<noteq> None \<and> p \<noteq> head"
    and "map (nxt h) qs = tl (qs @ [head])"
  shows "ll_count h head (hd (qs @ [head])) k = Some (Inr (k + length qs))"
  using assms
proof (induction qs arbitrary: k)
  case Nil
  then show ?case by (simp add: ll_count.simps)
next
  case (Cons q qs)
  then obtain n where n: "cells h q = Some n" by auto
  have "nxt h q = hd (qs @ [head])" "map (nxt h) qs = tl (qs @ [head])"
    using Cons.prems(2) by (cases qs, auto)+
  with Cons n show ?case
    by (simp add: ll_count.simps [of h head q] heap_view)
qed

theorem ll_get_length_llist:
  assumes "llist h head ps xs"
  shows "ll_get_length h head = Some (Inr (length xs))"
proof (cases ps)
  case Nil
  with assms show ?thesis by (simp add: llist_def head_of_def ll_get_length_def)
next
  case (Cons p qs)
  have r: "ring h (p # qs)" and hd: "head = p" and len: "length xs = Suc (length qs)"
    using assms Cons by (auto simp: llist_def head_of_def)
  obtain n where n: "cells h p = Some n" and p0: "p \<noteq> 0" using r by (auto simp: ring_Cons_iff)
  have "nxt h p = hd (qs @ [p])" "map (nxt h) qs = tl (qs @ [p])"
    using r by (cases qs, auto simp: ring_Cons_iff)+
  moreover have "\<forall>q \<in> set qs. cells h q \<noteq> None \<and> q \<noteq> p"
    using r by (auto simp: ring_Cons_iff)
  ultimately show ?thesis
    using ll_count_ring [of qs h p 1] n p0 hd len
    by (simp add: ll_get_length_def heap_view)
qed

section \<open>Draining loops\<close>

text \<open>
  The loop \<^verbatim>\<open>while (ll_get_length(q) > 0) { pop the head; handle its value }\<close> of
  \<^verbatim>\<open>handle_input_cmds\<close>, \<^verbatim>\<open>handle_incoming_frames\<close> and \<^verbatim>\<open>send_ack_frames\<close>, over any queue given by
  its length and its pop.
\<close>

partial_function (option) drain ::
  "('q \<Rightarrow> nat res option) \<Rightarrow> ('q \<Rightarrow> ('q \<times> 'a) res) \<Rightarrow> ('a \<Rightarrow> 's \<Rightarrow> 's res) \<Rightarrow> 'q \<Rightarrow> 's \<Rightarrow> ('q \<times> 's) res option"
where
  "drain len pop f q s =
     (case len q of None \<Rightarrow> None
      | Some r \<Rightarrow> (case r of Inl e \<Rightarrow> Some (Inl e)
        | Inr n \<Rightarrow> if n = 0 then Some (Inr (q, s))
          else (case pop q of Inl e \<Rightarrow> Some (Inl e)
                | Inr (q', v) \<Rightarrow> (case f v s of Inl e \<Rightarrow> Some (Inl e)
                                | Inr s' \<Rightarrow> drain len pop f q' s'))))"

text \<open>The contract of a first-in first-out queue: what its clients rely on.\<close>

locale fifo =
  fixes repr :: "'q \<Rightarrow> 'a list \<Rightarrow> bool"
    and len :: "'q \<Rightarrow> nat res option"
    and pop :: "'q \<Rightarrow> ('q \<times> 'a) res"
    and append :: "'q \<Rightarrow> 'a \<Rightarrow> 'q res"
  assumes len_repr: "repr q xs \<Longrightarrow> len q = Some (Inr (length xs))"
    and pop_repr: "repr q (v # xs) \<Longrightarrow> \<exists>q'. pop q = Inr (q', v) \<and> repr q' xs"
    and append_repr: "repr q xs \<Longrightarrow> \<exists>q'. append q v = Inr q' \<and> repr q' (xs @ [v])"
begin

lemma drain_rfold:
  assumes "repr q xs"
  shows "\<exists>r. drain len pop f q s = Some r \<and>
    (case r of Inl e \<Rightarrow> rfold f xs s = Inl e
     | Inr (q', s') \<Rightarrow> rfold f xs s = Inr s' \<and> repr q' [])"
  using assms
proof (induction xs arbitrary: q s)
  case Nil
  then show ?case using len_repr [OF Nil] by (simp add: drain.simps)
next
  case (Cons v xs)
  from pop_repr [OF Cons.prems] obtain q' where q': "pop q = Inr (q', v)" "repr q' xs" by blast
  have len: "len q = Some (Inr (Suc (length xs)))" using len_repr [OF Cons.prems] by simp
  show ?case
  proof (cases "f v s")
    case (Inl e)
    then show ?thesis using len q'(1) by (simp add: drain.simps [of len pop f q])
  next
    case (Inr s')
    then have "rfold f (v # xs) s = rfold f xs s'" by simp
    moreover have "drain len pop f q s = drain len pop f q' s'"
      using Inr len q'(1) by (simp add: drain.simps [of len pop f q])
    ultimately show ?thesis using Cons.IH [OF q'(2), of s'] by (simp only:)
  qed
qed

fun fill :: "'q \<Rightarrow> 'a list \<Rightarrow> 'q res" where
  "fill q [] = Inr q"
| "fill q (v # vs) = rbind (append q v) (\<lambda>q. fill q vs)"

lemma fill_repr: "repr q xs \<Longrightarrow> \<exists>q'. fill q vs = Inr q' \<and> repr q' (xs @ vs)"
proof (induction vs arbitrary: q xs)
  case (Cons v vs)
  from append_repr [OF Cons.prems] obtain q' where "append q v = Inr q'" "repr q' (xs @ [v])" by blast
  with Cons.IH [of q' "xs @ [v]"] show ?case by simp
qed simp

text \<open>First in, first out: what was appended is handled in the order of the appends.\<close>

lemma fill_drain:
  assumes "repr q []"
  shows "\<exists>q' q''. fill q vs = Inr q' \<and>
    drain len pop (\<lambda>v acc. Inr (acc @ [v])) q' [] = Some (Inr (q'', vs)) \<and> repr q'' []"
proof -
  have collect: "rfold (\<lambda>v acc. Inr (acc @ [v])) vs ws = Inr (ws @ vs)" for ws :: "'a list"
    by (induction vs arbitrary: ws) auto
  from fill_repr [OF assms] obtain q' where "fill q vs = Inr q'" "repr q' vs" by auto
  with drain_rfold [OF this(2), of "\<lambda>v acc. Inr (acc @ [v])" "[]"] collect [of "[]"]
  show ?thesis by (fastforce split: sum.splits prod.splits)
qed

end

text \<open>The queues of the program: a heap and a head pointer.\<close>

type_synonym 'a msgq = "'a heap \<times> nat"

definition q_repr :: "'a msgq \<Rightarrow> 'a list \<Rightarrow> bool" where
  "q_repr q xs \<longleftrightarrow> 0 < brk (fst q) \<and> (\<exists>ps. llist (fst q) (snd q) ps xs)"

definition q_len :: "'a msgq \<Rightarrow> nat res option" where
  "q_len q = ll_get_length (fst q) (snd q)"

text \<open>\<^verbatim>\<open>node = ll_pop_node(&q); v = node->value\<close>, as every caller uses it.\<close>

definition q_pop :: "'a msgq \<Rightarrow> ('a msgq \<times> 'a) res" where
  "q_pop q = rbind (ll_pop_node (fst q) (snd q)) (\<lambda>(h, head, node).
     rbind (deref h node) (\<lambda>n. Inr ((h, head), ll_value n)))"

definition q_append :: "'a msgq \<Rightarrow> 'a \<Rightarrow> 'a msgq res" where
  "q_append q v = ll_append_node (fst q) (snd q) v"

interpretation llq: fifo q_repr q_len q_pop q_append
proof unfold_locales
  fix q :: "'a msgq" and xs v
  show "q_len q = Some (Inr (length xs))" if "q_repr q xs"
    using that by (auto simp: q_repr_def q_len_def intro: ll_get_length_llist)
  show "\<exists>q'. q_append q v = Inr q' \<and> q_repr q' (xs @ [v])" if "q_repr q xs"
    using that ll_append_llist [of "fst q" "snd q" _ xs v] by (fastforce simp: q_repr_def q_append_def)
  show "\<exists>q'. q_pop q = Inr (q', v) \<and> q_repr q' xs" if q: "q_repr q (v # xs)"
  proof -
    from q obtain p ps where l: "llist (fst q) (snd q) (p # ps) (v # xs)" and b: "0 < brk (fst q)"
      by (auto simp: q_repr_def llist_def)
    from ll_pop_llist [OF l] obtain h' head' where h': "ll_pop_node (fst q) (snd q) = Inr (h', head', p)"
      "brk h' = brk (fst q)" "vof h' = vof (fst q)" "llist h' head' ps xs" "cells h' p \<noteq> None"
      by blast
    then obtain n where n: "cells h' p = Some n" by auto
    then have "ll_value n = v" using h'(3) l heap_view(3) [OF n] by (auto simp: llist_def)
    with n h' b show ?thesis by (auto simp: q_pop_def q_repr_def heap_view)
  qed
qed

section \<open>Scanning loops\<close>

text \<open>
  The loop of \<^verbatim>\<open>handle_incoming_acks\<close> and \<^verbatim>\<open>handle_outgoing_frames\<close> that visits each node once,
  unlinking some through the head pointer or the cursor and stepping over the others.
\<close>

fun ll_scan :: "('a \<Rightarrow> 's \<Rightarrow> (bool \<times> 's) res) \<Rightarrow> nat \<Rightarrow> 'a heap \<Rightarrow> nat \<Rightarrow> nat \<Rightarrow> 's \<Rightarrow> ('a heap \<times> nat \<times> 's) res" where
  "ll_scan d 0 h head node s = Inr (h, head, s)"
| "ll_scan d (Suc n) h head node s =
     rbind (deref h node) (\<lambda>nd.
     rbind (d (ll_value nd) s) (\<lambda>(unlink, s).
       if unlink then
         if node = head then rbind (ll_pop_node h head) (\<lambda>(h, head, _). ll_scan d n h head head s)
         else rbind (ll_pop_node h node) (\<lambda>(h, node, _). ll_scan d n h head node s)
       else ll_scan d n h head (ll_next nd) s))"

text \<open>The same loop on a list: it returns what stays.\<close>

fun scan :: "('a \<Rightarrow> 's \<Rightarrow> (bool \<times> 's) res) \<Rightarrow> 'a list \<Rightarrow> 's \<Rightarrow> ('a list \<times> 's) res" where
  "scan d [] s = Inr ([], s)"
| "scan d (v # vs) s =
     rbind (d v s) (\<lambda>(unlink, s).
     rbind (scan d vs s) (\<lambda>(kept, s). Inr (if unlink then kept else v # kept, s)))"

lemma ll_scan_llist:
  assumes "llist h head (ps @ qs) (xs @ ys)" and "length ps = length xs" and "node = head_of (qs @ ps)"
  shows "case scan d ys s of Inl e \<Rightarrow> ll_scan d (length ys) h head node s = Inl e
     | Inr (kept, s') \<Rightarrow> \<exists>h' head' ps'. ll_scan d (length ys) h head node s = Inr (h', head', s') \<and>
         llist h' head' ps' (xs @ kept)"
  using assms
proof (induction ys arbitrary: h head ps qs xs node s)
  case Nil
  then show ?case by auto
next
  case (Cons y ys)
  from Cons.prems obtain q qs' where qs: "qs = q # qs'" 
    by (cases qs) (auto simp: llist_def dest: arg_cong [where f = length])
  have node: "node = q" using Cons.prems(3) qs by (simp add: head_of_def)
  have r: "ring h (ps @ q # qs')" and val: "y = vof h q" and hd: "head = head_of (ps @ q # qs')"
    and vals: "xs = map (vof h) ps" "ys = map (vof h) qs'"
    using Cons.prems(1,2) qs by (auto simp: llist_def)
  then obtain nd where nd: "cells h q = Some nd" using ring_live [OF r, of q] by auto
  have y: "ll_value nd = y" using nd val by (simp add: heap_view)
  have "ring h (q # qs' @ ps)" using ring_swap [OF r] by simp
  then have "map (nxt h) (q # qs' @ ps) = (qs' @ ps) @ [q]" by (simp add: ring_Cons_iff)
  then have "nxt h q = hd ((qs' @ ps) @ [q])" by (metis list.sel(1) list.simps(9))
  then have nx: "ll_next nd = head_of (qs' @ ps @ [q])"
    using nd by (cases "qs' @ ps @ [q]") (simp_all add: head_of_def heap_view)
  show ?case
  proof (cases "d y s")
    case (Inl e)
    then show ?thesis using nd y node by (simp add: heap_view)
  next
    case (Inr r1)
    obtain unlink s1 where r1: "r1 = (unlink, s1)" by (cases r1)
    consider (keep) "\<not> unlink" | (head) unlink "ps = []" | (mid) unlink "ps \<noteq> []" by blast
    then show ?thesis
    proof cases
      case keep
      have "llist h head ((ps @ [q]) @ qs') ((xs @ [y]) @ ys)"
        using Cons.prems(1) qs by simp
      from Cons.IH [OF this _ nx, of s1] Cons.prems(2) keep Inr r1 nd y node show ?thesis
        by (auto simp: heap_view split: sum.splits)
    next
      case head
      have "llist h head (q # qs') (y # ys)" "head = q" and xs: "xs = []"
        using Cons.prems head qs hd by (auto simp: head_of_def)
      from ll_pop_llist [OF this(1)] obtain h' head' where h': "ll_pop_node h head = Inr (h', head', q)"
        "llist h' head' qs' ys" by blast
      have "llist h' head' ([] @ qs') ([] @ ys)" using h'(2) by simp
      moreover have "head' = head_of (qs' @ [])" using h'(2) by (simp add: llist_def)
      ultimately show ?thesis
        using Cons.IH [of h' head' "[]" qs' "[]" head' s1] head Inr r1 nd y node h'(1) \<open>head = q\<close> xs
        by (auto simp: heap_view split: sum.splits)
    next
      case mid
      have "llist h head (ps @ q # qs') (xs @ y # ys)" using Cons.prems(1) qs by simp
      from ll_pop_cursor [OF this Cons.prems(2) mid(2)] obtain h' where
        h': "ll_pop_node h q = Inr (h', head_of (qs' @ ps), q)" "llist h' head (ps @ qs') (xs @ ys)" by blast
      have "q \<noteq> head" using r mid hd by (cases ps) (auto simp: ring_def head_of_def)
      with Cons.IH [OF h'(2) Cons.prems(2) refl, of s1] mid Inr r1 nd y node h'(1) show ?thesis
        by (auto simp: heap_view split: sum.splits)
    qed
  qed
qed

section \<open>Properties\<close>

definition empty_heap :: "nat heap" where
  "empty_heap = \<lparr>cells = \<lambda>_. None, brk = 1\<rparr>"

definition list_7 :: "nat heap \<times> nat" where
  "list_7 = (\<lparr>cells = [1 \<mapsto> \<lparr>ll_prev = 1, ll_next = 1, ll_value = 7\<rparr>], brk = 2\<rparr>, 1)"

lemma list_7: "llist (fst list_7) (snd list_7) [1] [7]"
  by (simp add: list_7_def llist_def ring_def head_of_def nxt_def prv_def vof_def)

text \<open>
  C16: the linked list implements a queue on the heap. Appending adds the value at the end, popping
  takes the first one, the length is the number of values; neither faults, and neither touches a
  list that shares no node with this one.
\<close>

theorem linked_list_queue:
  assumes "llist h head ps (x # xs)" and "0 < brk h" and "llist h other qs ys" and "set qs \<inter> set ps = {}"
  shows "ll_get_length h head = Some (Inr (length xs + 1)) \<and>
    (\<exists>h' head' ps'. ll_append_node h head v = Inr (h', head') \<and> llist h' head' ps' (x # xs @ [v]) \<and> llist h' other qs ys) \<and>
    (\<exists>h' head' ps' node. ll_pop_node h head = Inr (h', head', node) \<and> vof h' node = x \<and> llist h' head' ps' xs \<and>
      llist h' other qs ys)"
proof (intro conjI)
  show "ll_get_length h head = Some (Inr (length xs + 1))" using ll_get_length_llist [OF assms(1)] by simp
  from ll_append_llist [OF assms(1,2), of v] obtain h' head' where
    "ll_append_node h head v = Inr (h', head')" "llist h' head' (ps @ [brk h]) (x # xs @ [v])" "agree_off (set ps) h h'"
    by auto
  with llist_frame [OF assms(3) _ assms(4)]
  show "\<exists>h' head' ps'. ll_append_node h head v = Inr (h', head') \<and> llist h' head' ps' (x # xs @ [v]) \<and> llist h' other qs ys"
    by blast
  obtain p ps' where ps: "ps = p # ps'" using assms(1) by (cases ps) (auto simp: llist_def)
  from ll_pop_llist [OF assms(1) [unfolded ps]] obtain h' head' where
    "ll_pop_node h head = Inr (h', head', p)" "vof h' = vof h" "llist h' head' ps' xs" "agree_off (set ps) h h'"
    unfolding ps by blast
  moreover have "vof h p = x" using assms(1) ps by (simp add: llist_def)
  ultimately show "\<exists>h' head' ps' node. ll_pop_node h head = Inr (h', head', node) \<and> vof h' node = x \<and>
      llist h' head' ps' xs \<and> llist h' other qs ys"
    using llist_frame [OF assms(3) _ assms(4)] by (metis (no_types))
qed

theorem linked_list_queue_witness:
  "ll_get_length (fst list_7) (snd list_7) = Some (Inr 1)"
  using linked_list_queue [OF list_7, of 0 "[]" "[]" 8]
  by (simp add: list_7_def llist_def head_of_def)

text \<open>
  The loops that walk a queue and unlink nodes on the way (\<^verbatim>\<open>handle_incoming_acks\<close>,
  \<^verbatim>\<open>handle_outgoing_frames\<close>) visit each value once, in order, and keep exactly the values the body
  does not take, whatever pointers they follow on the heap.
\<close>

theorem linked_list_scan:
  assumes "llist h head ps xs" and "scan d xs s = Inr (kept, s')"
  shows "\<exists>h' head' ps'. ll_scan d (length xs) h head head s = Inr (h', head', s') \<and> llist h' head' ps' kept"
  using ll_scan_llist [of h head "[]" ps "[]" xs head d s] assms by (simp add: llist_def)

theorem linked_list_scan_witness:
  "\<exists>h' head' ps'. ll_scan (\<lambda>v n. Inr (v = 7, n + v)) 1 (fst list_7) (snd list_7) (snd list_7) 0 = Inr (h', head', 7) \<and>
     llist h' head' ps' []"
  using linked_list_scan [OF list_7, of "\<lambda>v n. Inr (v = 7, n + v)" 0 "[]" 7] by simp

text \<open>
  A queue of the program, filled one value at a time and then drained by the loop of
  \<^verbatim>\<open>handle_incoming_frames\<close>, yields the values in the order they were appended, and ends up empty.
\<close>

theorem queue_first_in_first_out:
  assumes "q_repr q []"
  shows "\<exists>q' q''. rfold (\<lambda>v q. q_append q v) vs q = Inr q' \<and>
    drain q_len q_pop (\<lambda>v acc. Inr (acc @ [v])) q' [] = Some (Inr (q'', vs)) \<and> q_repr q'' []"
proof -
  have "llq.fill q vs = rfold (\<lambda>v q. q_append q v) vs q"
    by (induction vs arbitrary: q) (simp_all add: rbind_def split: sum.splits)
  with llq.fill_drain [OF assms, of vs] show ?thesis by simp
qed

theorem queue_first_in_first_out_witness:
  "\<exists>q' q''. rfold (\<lambda>v q. q_append q v) [3, 1, 2] (empty_heap, 0) = Inr q' \<and>
    drain q_len q_pop (\<lambda>v acc. Inr (acc @ [v])) q' [] = Some (Inr (q'', [3, 1, 2]))"
  using queue_first_in_first_out [of "(empty_heap, 0)" "[3, 1, 2]"]
  by (auto simp: q_repr_def empty_heap_def llist_def head_of_def)

end
