(* ===== verification/Sender.thy ===== *)
theory Sender
  imports Receiver LinkedList
begin

text \<open>
  The sending side of a host (\<^verbatim>\<open>tcp/src/sender.c\<close>, \<^verbatim>\<open>retransmit_frame\<close> in \<^verbatim>\<open>tcp/src/util.c\<close>):
  fragmentation, the send window, cumulative acknowledgements, timeouts and congestion control.
  What goes to \<^verbatim>\<open>stderr\<close> is left out; what goes to the diagnostics file is returned.
\<close>

definition TIMEOUT_INTERVAL_USEC :: int where "TIMEOUT_INTERVAL_USEC = 100000"

section \<open>Timeouts\<close>

text \<open>The earliest timeout in the windows of the other hosts.\<close>

definition earlier :: "timeval option \<Rightarrow> timeval option \<Rightarrow> timeval option" where
  "earlier next_timeout t =
     (case t of None \<Rightarrow> next_timeout
      | Some t \<Rightarrow> (case next_timeout of None \<Rightarrow> Some t
          | Some u \<Rightarrow> if timeval_usecdiff u t < 0 then Some t else Some u))"

definition host_get_next_expiring_timeval :: "env \<Rightarrow> host \<Rightarrow> timeval option" where
  "host_get_next_expiring_timeval e h =
     fold (\<lambda>recv_id nt. if recv_id = hid h then nt
         else fold (\<lambda>i nt. earlier nt (timeout (cq_get_item_send e recv_id i h)))
           [0..<cq_get_length_send recv_id h] nt)
       [0..<num_hosts e] None"

text \<open>The start of a handler that sets timeouts: not before the latest timeout given so far.\<close>

definition not_before_latest :: "timeval \<Rightarrow> host \<Rightarrow> timeval" where
  "not_before_latest curr_timeval h =
     (if timeval_usecdiff curr_timeval (latest_timeout h) > 0 then latest_timeout h else curr_timeval)"

text \<open>
  \<^verbatim>\<open>retransmit_frame\<close>. The pointer \<^verbatim>\<open>slot\<close> is that of the frame with the number, or of the last one
  of the window if there is none; it was never assigned if the window is empty.
\<close>

definition find_slot :: "env \<Rightarrow> nat \<Rightarrow> u8 \<Rightarrow> host \<Rightarrow> nat option" where
  "find_slot e dst seq h =
     find (\<lambda>i. seq_num (the (sframe (cq_get_item_send e dst i h))) = seq) [0..<cq_get_length_send dst h]"

definition set_timeout :: "env \<Rightarrow> nat \<Rightarrow> nat \<Rightarrow> timeval option \<Rightarrow> host \<Rightarrow> host" where
  "set_timeout e q i t h = cq_set_item_send e q i ((cq_get_item_send e q i h)\<lparr>timeout := t\<rparr>) h"

definition retransmit_frame :: "env \<Rightarrow> nat \<Rightarrow> u8 \<Rightarrow> host \<Rightarrow> host res" where
  "retransmit_frame e dst seq h =
     (let (curr_timeval, h) = get_time e h;
          curr_timeval = not_before_latest curr_timeval h;
          (found_frame, i) = (case find_slot e dst seq h of Some i \<Rightarrow> (True, i)
                              | None \<Rightarrow> (False, cq_get_length_send dst h - 1))
      in if cq_get_length_send dst h = 0 then Inl Uninitialised
         else
           let slot = cq_get_item_send e dst i h;
               h = (if found_frame then h\<lparr>outgoing_frames := outgoing_frames h @ [the (sframe slot)]\<rparr> else h);
               next_timeout = timeval_usecplus curr_timeval TIMEOUT_INTERVAL_USEC;
               h = h\<lparr>latest_timeout := timeval_usecplus curr_timeval 10000\<rparr>
           in Inr (set_timeout e dst i (Some next_timeout) h))"

section \<open>Acknowledgements\<close>

definition upd_cc :: "nat \<Rightarrow> (congestion_control \<Rightarrow> congestion_control) \<Rightarrow> host \<Rightarrow> host" where
  "upd_cc q f h = h\<lparr>cc := (cc h)[q := f (cc h ! q)]\<rparr>"

text \<open>The counters of the handler, one per peer each.\<close>

record ack_stats =
  num_acks_received :: "u8 list"
  num_dup_acks_for_this_rtt :: "u8 list"

text \<open>The first part: duplicate acknowledgements are counted, a new number resets the count.\<close>

definition update_dup_acks :: "env \<Rightarrow> nat \<Rightarrow> u8 \<Rightarrow> host \<times> ack_stats \<Rightarrow> host \<times> ack_stats" where
  "update_dup_acks e src seq = (\<lambda>(h, st).
     if seq_num_diff (dup_acks_seq_num h ! src) seq > 0 then
       (upd_cc src (\<lambda>c. c\<lparr>dup_acks := 0\<rparr>) (h\<lparr>dup_acks_seq_num := (dup_acks_seq_num h)[src := seq]\<rparr>),
        st\<lparr>num_dup_acks_for_this_rtt := (num_dup_acks_for_this_rtt st)[src := 0]\<rparr>)
     else if dup_acks_seq_num h ! src = seq then
       (upd_cc src (\<lambda>c. let c = c\<lparr>dup_acks := dup_acks c + 1\<rparr>
                        in if cstate c = cc_FRFT then c\<lparr>cwnd := dround e (cwnd c + 1)\<rparr> else c) h,
        st\<lparr>num_dup_acks_for_this_rtt :=
          (num_dup_acks_for_this_rtt st)[src := num_dup_acks_for_this_rtt st ! src + 1]\<rparr>)
     else (h, st))"

text \<open>The second part, on the congestion control state alone; the flag says whether to retransmit.\<close>

definition cc_on_ack :: "env \<Rightarrow> congestion_control \<Rightarrow> congestion_control \<times> bool" where
  "cc_on_ack e c =
     (if cstate c = cc_SS then
        let c = c\<lparr>cwnd := dround e (cwnd c + 1)\<rparr>
        in (if cwnd c > ssthresh c then c\<lparr>cstate := cc_AIMD\<rparr> else c, False)
      else if cstate c = cc_AIMD \<and> dup_acks c = 0 then
        (c\<lparr>cwnd := dround e (cwnd c + dround e (1 / cwnd c))\<rparr>, False)
      else if cstate c = cc_FRFT \<and> dup_acks c = 0 then
        (c\<lparr>cstate := cc_AIMD, cwnd := ssthresh c\<rparr>, False)
      else if dup_acks c = 3 \<and> cstate c \<noteq> cc_FRFT then
        let c = c\<lparr>cstate := cc_FRFT, ssthresh := dround e (cwnd c / 2)\<rparr>;
            c = c\<lparr>ssthresh := max_double (ssthresh c) 2\<rparr>
        in (c\<lparr>cwnd := dround e (ssthresh c + 3)\<rparr>, True)
      else (c, False))"

definition update_cc :: "env \<Rightarrow> nat \<Rightarrow> u8 \<Rightarrow> host \<Rightarrow> host res" where
  "update_cc e src seq h =
     (let (c, fast_retransmit) = cc_on_ack e (cc h ! src); h = h\<lparr>cc := (cc h)[src := c]\<rparr>
      in if fast_retransmit then retransmit_frame e src (seq + 1) h else Inr h)"

text \<open>The third part: everything up to the acknowledged frame leaves the window.\<close>

definition window_on_ack :: "env \<Rightarrow> nat \<Rightarrow> u8 \<Rightarrow> host \<Rightarrow> host" where
  "window_on_ack e src seq h =
     (if cq_get_length_send src h = 0 \<or>
         seq_num_diff (seq_num (the (sframe (cq_get_item_send e src 0 h)))) seq < 0 then h
      else case find_slot e src seq h of None \<Rightarrow> h | Some j \<Rightarrow> cq_ndequeue_send e src (j + 1) h)"

text \<open>One turn of the loop: whether the frame leaves the queue, and the new state.\<close>

definition on_incoming :: "env \<Rightarrow> frame \<Rightarrow> host \<times> ack_stats \<Rightarrow> (bool \<times> host \<times> ack_stats) res" where
  "on_incoming e f = (\<lambda>(h, st).
     if \<not> frame_valid f then Inr (True, h, st)
     else if is_ack f = 0 then Inr (False, h, st)
     else
       let seq = seq_num f; src = unat (src_id f) in
       check_peer e src (
       let st = st\<lparr>num_acks_received := (num_acks_received st)[src := num_acks_received st ! src + 1]\<rparr>;
           (h, st) = update_dup_acks e src seq (h, st)
       in rbind (update_cc e src seq h) (\<lambda>h. Inr (True, window_on_ack e src seq h, st))))"

text \<open>The records of the diagnostics file; the second kind is written by the switch.\<close>

datatype diag = Diag_acks int u8 u8 | Diag_row cc_state rat rat u8 u8 nat nat

definition handle_incoming_acks :: "env \<Rightarrow> host \<Rightarrow> (host \<times> diag list) res" where
  "handle_incoming_acks e h =
     (let st = \<lparr>num_acks_received = replicate (num_hosts e) 0,
                num_dup_acks_for_this_rtt = replicate (num_hosts e) 0\<rparr>
      in rbind (scan (on_incoming e) (incoming_frames h) (h, st)) (\<lambda>(kept, h, st).
           let h = h\<lparr>incoming_frames := kept\<rparr>; r = host_recv_cc_id e in
           if hid h = host_send_cc_id e then
             check_peer e r (Inr (h, [Diag_acks (round_trip_num h) (num_acks_received st ! r)
                                        (num_dup_acks_for_this_rtt st ! r)]))
           else Inr (h, [])))"

section \<open>Fragmentation\<close>

text \<open>
  One fragment: the bytes from \<open>start\<close> to \<open>end\<close> of the terminated message \<open>str\<close> in a fresh frame.
\<close>

definition make_fragment :: "env \<Rightarrow> cmd \<Rightarrow> u8 list \<Rightarrow> nat \<Rightarrow> nat \<Rightarrow> host \<Rightarrow> (frame \<times> host) res" where
  "make_fragment e c str start fin h =
     (let msg_length = length str;
          (f, h) = malloc_frame e h;
          d = strncpy_bytes (drop start str) (fin - start) @ drop (fin - start) (data f);
          d = (if fin = msg_length then d[fin - start - 1 := 0] else d);
          f = f\<lparr>data := d, flength := of_nat (fin - start), remaining_msg_bytes := of_nat (msg_length - fin),
                src_id := ucast (cmd_src_id c), dst_id := ucast (cmd_dst_id c), is_ack := 0\<rparr>;
          dst = unat (dst_id f)
      in check_peer e dst (
         let f = f\<lparr>seq_num := curr_seq_num h ! dst\<rparr>;
             h = h\<lparr>curr_seq_num := (curr_seq_num h)[dst := curr_seq_num h ! dst + 1]\<rparr>
         in Inr (set_checksum f, h)))"

function fragment :: "env \<Rightarrow> cmd \<Rightarrow> u8 list \<Rightarrow> nat \<Rightarrow> host \<Rightarrow> host res" where
  "fragment e c str start h =
     (if start < length str then
        let fin = start + FRAME_PAYLOAD_SIZE; fin = (if fin > length str then length str else fin)
        in rbind (make_fragment e c str start fin h) (\<lambda>(f, h).
             fragment e c str fin (h\<lparr>buffered_outframes := buffered_outframes h @ [f]\<rparr>))
      else Inr h)"
  by pat_completeness auto
termination
  by (relation "measure (\<lambda>(e, c, str, start, h). length str - start)")
    (auto simp: FRAME_PAYLOAD_SIZE_def)

declare fragment.simps [simp del]

text \<open>The bytes of the message that \<^verbatim>\<open>strlen\<close> sees, and the terminator.\<close>

definition c_string :: "u8 list \<Rightarrow> u8 list" where
  "c_string s = takeWhile (\<lambda>b. b \<noteq> 0) s @ [0]"

definition handle_input_cmds :: "env \<Rightarrow> host \<Rightarrow> host res" where
  "handle_input_cmds e h =
     rfold (\<lambda>c h. fragment e c (c_string (message c)) 0 h) (input_cmdlist h) (h\<lparr>input_cmdlist := []\<rparr>)"

section \<open>Timed out frames\<close>

definition expired :: "env \<Rightarrow> timeval \<Rightarrow> nat \<Rightarrow> nat \<Rightarrow> host \<Rightarrow> bool" where
  "expired e curr_timeval q j h =
     (case timeout (cq_get_item_send e q j h) of None \<Rightarrow> False
      | Some t \<Rightarrow> timeval_usecdiff curr_timeval t \<le> 0)"

definition clear_timeouts :: "env \<Rightarrow> nat \<Rightarrow> host \<Rightarrow> host" where
  "clear_timeouts e q h =
     fold (\<lambda>i. set_timeout e q i None) [0..<cq_get_length_send q h] h"

definition timeout_peer :: "env \<Rightarrow> timeval \<Rightarrow> nat \<Rightarrow> host \<Rightarrow> host" where
  "timeout_peer e curr_timeval q h =
     (if q = hid h then h
      else if \<exists>j \<in> {..<cq_get_length_send q h}. expired e curr_timeval q j h then
        upd_cc q (\<lambda>c. c\<lparr>cstate := cc_SS, ssthresh := dround e (cwnd c / 2), cwnd := 1\<rparr>) (clear_timeouts e q h)
      else h)"

lemma timeout_peer_code [code]:
  "timeout_peer e curr_timeval q h =
     (if q = hid h then h
      else if list_ex (\<lambda>j. expired e curr_timeval q j h) [0..<cq_get_length_send q h] then
        upd_cc q (\<lambda>c. c\<lparr>cstate := cc_SS, ssthresh := dround e (cwnd c / 2), cwnd := 1\<rparr>) (clear_timeouts e q h)
      else h)"
  by (auto simp: timeout_peer_def list_ex_iff)

definition handle_timedout_frames :: "env \<Rightarrow> timeval \<Rightarrow> host \<Rightarrow> host" where
  "handle_timedout_frames e curr_timeval h = fold (timeout_peer e curr_timeval) [0..<num_hosts e] h"

section \<open>Outgoing frames\<close>

text \<open>The conversion of a double to \<^verbatim>\<open>int\<close>.\<close>

definition trunc_int :: "rat \<Rightarrow> int" where
  "trunc_int x = (if x < 0 then \<lceil>x\<rceil> else \<lfloor>x\<rfloor>)"

definition resend_slot :: "env \<Rightarrow> nat \<Rightarrow> nat \<Rightarrow> host \<times> int list \<Rightarrow> (host \<times> int list) res" where
  "resend_slot e q i = (\<lambda>(h, fpr).
     let slot = cq_get_item_send e q i h in
     if timeout slot = None \<and> fpr ! q > 0 then
       rbind (retransmit_frame e q (seq_num (the (sframe slot))) h) (\<lambda>h. Inr (h, fpr[q := fpr ! q - 1]))
     else Inr (h, fpr))"

definition resend_peer :: "env \<Rightarrow> nat \<Rightarrow> host \<times> int list \<Rightarrow> (host \<times> int list) res" where
  "resend_peer e q = (\<lambda>(h, fpr).
     if q = hid h then Inr (h, fpr)
     else rfold (resend_slot e q) [0..<cq_get_length_send q h] (h, fpr))"

definition send_new :: "env \<Rightarrow> timeval \<Rightarrow> frame \<Rightarrow> host \<times> int list \<times> int \<Rightarrow> (bool \<times> host \<times> int list \<times> int) res" where
  "send_new e curr_timeval f = (\<lambda>(h, fpr, additional_ts).
     let dst = unat (dst_id f) in
     check_peer e dst (
     if cq_get_length_send dst h = window_size e \<or> fpr ! dst = 0 then Inr (False, h, fpr, additional_ts)
     else
       let fpr = fpr[dst := fpr ! dst - 1];
           h = h\<lparr>outgoing_frames := outgoing_frames h @ [f]\<rparr>;
           next_timeout = timeval_usecplus curr_timeval (TIMEOUT_INTERVAL_USEC + additional_ts);
           h = cq_append_item_send e dst f (Some next_timeout) h
       in Inr (True, h, fpr, additional_ts + 10000)))"

definition handle_outgoing_frames :: "env \<Rightarrow> timeval \<Rightarrow> host \<Rightarrow> host res" where
  "handle_outgoing_frames e curr_timeval h =
     (let curr_timeval = not_before_latest curr_timeval h;
          fpr = map (\<lambda>c. trunc_int (cwnd c)) (cc h)
      in rbind (rfold (resend_peer e) [0..<num_hosts e] (h, fpr)) (\<lambda>(h, fpr).
         rbind (scan (send_new e curr_timeval) (buffered_outframes h) (h, fpr, 0)) (\<lambda>(kept, h, fpr, additional_ts).
           Inr (h\<lparr>buffered_outframes := kept,
                  latest_timeout := timeval_usecplus curr_timeval additional_ts\<rparr>))))"

section \<open>One host's turn\<close>

text \<open>What the body of the loop of \<^verbatim>\<open>run_senders\<close> does for a host that is woken up.\<close>

definition sender_work :: "env \<Rightarrow> timeval \<Rightarrow> host \<Rightarrow> (host \<times> diag list) res" where
  "sender_work e curr_timeval h =
     rbind (handle_input_cmds e h) (\<lambda>h.
     rbind (handle_incoming_acks e h) (\<lambda>(h, d).
     rbind (handle_outgoing_frames e curr_timeval (handle_timedout_frames e curr_timeval h)) (\<lambda>h.
     Inr (h, d))))"

definition awakened :: "env \<Rightarrow> timeval \<Rightarrow> host \<Rightarrow> bool" where
  "awakened e curr_timeval h \<longleftrightarrow>
     input_cmdlist h \<noteq> [] \<or> incoming_frames h \<noteq> [] \<or>
     (case host_get_next_expiring_timeval e h of None \<Rightarrow> False
      | Some t \<Rightarrow> timeval_usecdiff curr_timeval t \<le> 0)"

definition set_activity :: "host \<Rightarrow> host" where
  "set_activity h =
     (let h = (if \<exists>s \<in> set (send_window h). sframe s \<noteq> None then h\<lparr>awaiting_ack := True\<rparr> else h)
      in if awaiting_ack h \<or> buffered_outframes h \<noteq> [] then h\<lparr>active := True\<rparr> else h)"

definition run_sender :: "env \<Rightarrow> host \<Rightarrow> (host \<times> diag list) res" where
  \<comment> \<open>the body of the loop of \<^verbatim>\<open>run_senders\<close>\<close>
  "run_sender e h =
     (let (curr_timeval, h) = get_time e h;
          wake = awakened e curr_timeval h;
          h = h\<lparr>awaiting_ack := False, active := False, csv_out := False\<rparr>
      in rbind
          (if wake then
             sender_work e curr_timeval (h\<lparr>round_trip_num := round_trip_num h + 1, csv_out := True\<rparr>)
           else Inr (h, []))
          (\<lambda>(h, d). Inr (set_activity h, d)))"

section \<open>Fragments carry their message\<close>

lemma strncpy_bytes_take:
  assumes "n \<le> length src" and "\<forall>i < n - 1. src ! i \<noteq> 0"
  shows "strncpy_bytes src n = take n src"
proof (cases "0 \<in> set (take n src)")
  case False
  then have all: "takeWhile (\<lambda>c. c \<noteq> 0) (take n src) = take n src" by auto
  show ?thesis unfolding strncpy_bytes_def Let_def all using assms(1) by simp
next
  case True
  then obtain i where i: "i < n" "take n src ! i = 0" using assms(1) by (auto simp: in_set_conv_nth)
  then have "i = n - 1" using assms(2) by (metis Suc_diff_1 less_Suc_eq less_imp_Suc_add nth_take zero_less_Suc)
  then have t: "take n src = take (n - 1) src @ [0]"
    using i assms(1) take_Suc_conv_app_nth [of "n - 1" src] by (cases n) auto
  have "0 \<notin> set (take (n - 1) src)" using assms by (auto simp: in_set_conv_nth)
  then have "takeWhile (\<lambda>c. c \<noteq> 0) (take n src) = take (n - 1) src"
    unfolding t by (auto simp: takeWhile_append)
  then show ?thesis using i(1) assms(1) by (simp add: strncpy_bytes_def Let_def t)
qed

lemma length_strncpy_bytes [simp]: "length (strncpy_bytes src n) = n"
proof -
  have "length (takeWhile (\<lambda>c. c \<noteq> 0) (take n src)) \<le> n"
    using length_takeWhile_le [of _ "take n src"] by (simp add: le_trans)
  then show ?thesis by (simp add: strncpy_bytes_def Let_def)
qed

text \<open>The fields of a fragment.\<close>

definition fragment_of :: "cmd \<Rightarrow> u8 list \<Rightarrow> nat \<Rightarrow> nat \<Rightarrow> u8 \<Rightarrow> frame \<Rightarrow> bool" where
  "fragment_of c str start fin sn f \<longleftrightarrow>
     frame_valid f \<and> wf_frame f \<and> is_ack f = 0 \<and> src_id f = ucast (cmd_src_id c) \<and>
     dst_id f = ucast (cmd_dst_id c) \<and> seq_num f = sn \<and> unat (flength f) = fin - start \<and>
     remaining_msg_bytes f = of_nat (length str - fin) \<and>
     copy_data f = Inr (take (fin - start) (drop start str))"

definition one_nul :: "u8 list \<Rightarrow> bool" where
  "one_nul str \<longleftrightarrow> str \<noteq> [] \<and> last str = 0 \<and> (\<forall>i < length str - 1. str ! i \<noteq> 0)"

lemma one_nul_c_string: "one_nul (c_string s)"
  using nth_mem set_takeWhileD by (fastforce simp: one_nul_def c_string_def nth_append)

lemma make_fragment_spec:
  assumes cfg: "cfg_ok e" and str: "one_nul str" and fin: "start < fin" "fin \<le> length str"
    "fin \<le> start + FRAME_PAYLOAD_SIZE"
    and dst: "dst = unat (ucast (cmd_dst_id c) :: u8)" "dst < num_hosts e"
  shows "\<exists>f. make_fragment e c str start fin h = Inr (f, h\<lparr>mallocs := Suc (mallocs h),
      curr_seq_num := (curr_seq_num h)[dst := curr_seq_num h ! dst + 1]\<rparr>) \<and>
    fragment_of c str start fin (curr_seq_num h ! dst) f"
proof -
  let ?n = "fin - start" and ?g = "uninit e (hid h) (mallocs h)"
  have g: "length (data ?g) = 56" using cfg by (simp add: cfg_ok_def wf_frame_def FRAME_PAYLOAD_SIZE_def)
  have n: "0 < ?n" "?n \<le> 56" "?n \<le> length (drop start str)"
    using fin by (auto simp: FRAME_PAYLOAD_SIZE_def)
  have nz: "\<forall>i < ?n - 1. drop start str ! i \<noteq> 0" using str fin by (simp add: one_nul_def)
  define d0 where "d0 = strncpy_bytes (drop start str) ?n @ drop ?n (data ?g)"
  define d where "d = (if fin = length str then d0[?n - 1 := 0] else d0)"
  have d0: "take ?n d0 = take ?n (drop start str)" "length d0 = 56"
    using strncpy_bytes_take [OF n(3) nz] g n by (simp_all add: d0_def)
  have "d0 ! (?n - 1) = 0" if "fin = length str"
  proof -
    have "d0 ! (?n - 1) = take ?n d0 ! (?n - 1)" using n by simp
    also have "\<dots> = last str"
      unfolding d0(1) using that fin str by (cases str rule: rev_cases) (auto simp: nth_append)
    finally show ?thesis using str by (simp add: one_nul_def)
  qed
  then have "d = d0" by (metis d_def list_update_id)
  then have d: "length d = 56" "take ?n d = take ?n (drop start str)" using d0 by simp_all
  have "\<forall>i < ?n - 1. d ! i \<noteq> 0"
  proof (intro allI impI)
    fix i assume i: "i < ?n - 1"
    then have "d ! i = take ?n d ! i" by simp
    also have "\<dots> = drop start str ! i" unfolding d(2) using i by (intro nth_take) simp
    finally show "d ! i \<noteq> 0" using nz i by simp
  qed
  then have cp: "strncpy_bytes d ?n = take ?n (drop start str)"
    using strncpy_bytes_take [of ?n d] d n by simp
  have len: "unat (of_nat ?n :: u8) = ?n" using n by (intro unat_u8_small) simp
  define f where "f = ?g\<lparr>data := d, flength := of_nat ?n, remaining_msg_bytes := of_nat (length str - fin),
     src_id := ucast (cmd_src_id c), dst_id := ucast (cmd_dst_id c), is_ack := 0, seq_num := curr_seq_num h ! dst\<rparr>"
  have wf: "wf_frame f" using d by (simp add: f_def wf_frame_def FRAME_PAYLOAD_SIZE_def)
  have "make_fragment e c str start fin h = Inr (set_checksum f, h\<lparr>mallocs := Suc (mallocs h),
      curr_seq_num := (curr_seq_num h)[dst := curr_seq_num h ! dst + 1]\<rparr>)"
    using dst by (simp add: make_fragment_def malloc_frame_def Let_def f_def d0_def d_def)
  moreover have "fragment_of c str start fin (curr_seq_num h ! dst) (set_checksum f)"
    unfolding fragment_of_def using set_checksum_valid [OF wf] wf len cp d n
    by (simp add: copy_data_def) (simp add: f_def len cp)
  ultimately show ?thesis by blast
qed

text \<open>What \<^verbatim>\<open>handle_input_cmds\<close> appends for one command: the groups of a stream.\<close>

fun fragments_of :: "cmd \<Rightarrow> u8 list \<Rightarrow> nat \<Rightarrow> u8 \<Rightarrow> frame list \<Rightarrow> bool" where
  "fragments_of c str start sn [] \<longleftrightarrow> length str \<le> start"
| "fragments_of c str start sn (f # fs) \<longleftrightarrow> start < length str \<and>
     (let fin = min (start + FRAME_PAYLOAD_SIZE) (length str)
      in fragment_of c str start fin sn f \<and> fragments_of c str fin (sn + 1) fs)"

lemma fragment_spec:
  assumes "cfg_ok e" and "one_nul str" and "dst = unat (ucast (cmd_dst_id c) :: u8)" "dst < num_hosts e"
    and "length (curr_seq_num h) = num_hosts e"
  shows "\<exists>fs. fragment e c str start h = Inr (h\<lparr>mallocs := mallocs h + length fs,
      curr_seq_num := (curr_seq_num h)[dst := curr_seq_num h ! dst + of_nat (length fs)],
      buffered_outframes := buffered_outframes h @ fs\<rparr>) \<and>
    fragments_of c str start (curr_seq_num h ! dst) fs"
  using assms(5)
proof (induction "length str - start" arbitrary: start h rule: less_induct)
  case less
  show ?case
  proof (cases "start < length str")
    case False
    then show ?thesis by (intro exI [of _ "[]"]) (simp add: fragment.simps [of e c str start])
  next
    case True
    let ?fin = "min (start + FRAME_PAYLOAD_SIZE) (length str)"
    have fin: "start < ?fin" "?fin \<le> length str" "?fin \<le> start + FRAME_PAYLOAD_SIZE"
      using True by (auto simp: FRAME_PAYLOAD_SIZE_def)
    from make_fragment_spec [OF assms(1,2) fin assms(3,4), of h] obtain f where
      f: "make_fragment e c str start ?fin h = Inr (f, h\<lparr>mallocs := Suc (mallocs h),
        curr_seq_num := (curr_seq_num h)[dst := curr_seq_num h ! dst + 1]\<rparr>)"
      "fragment_of c str start ?fin (curr_seq_num h ! dst) f" by blast
    let ?h1 = "h\<lparr>mallocs := Suc (mallocs h), curr_seq_num := (curr_seq_num h)[dst := curr_seq_num h ! dst + 1],
      buffered_outframes := buffered_outframes h @ [f]\<rparr>"
    have "length str - ?fin < length str - start" using fin True by linarith
    from less.hyps [OF this, of ?h1] less.prems obtain fs where
      fs: "fragment e c str ?fin ?h1 = Inr (?h1\<lparr>mallocs := mallocs ?h1 + length fs,
        curr_seq_num := (curr_seq_num ?h1)[dst := curr_seq_num ?h1 ! dst + of_nat (length fs)],
        buffered_outframes := buffered_outframes ?h1 @ fs\<rparr>)"
      "fragments_of c str ?fin (curr_seq_num ?h1 ! dst) fs" by auto
    have m: "(if length str < start + FRAME_PAYLOAD_SIZE then length str else start + FRAME_PAYLOAD_SIZE) = ?fin"
      by (simp add: min_def)
    have "fragment e c str start h = fragment e c str ?fin ?h1"
      using True f(1) by (simp add: fragment.simps [of e c str start] m)
    then show ?thesis
      using fs f(2) True less.prems assms(4)
      by (intro exI [of _ "f # fs"]) (simp add: add.assoc)
  qed
qed

lemma fragments_of_carry:
  assumes "fragments_of c str start sn fs" and "start \<le> length str" and "length str \<le> 65536"
  shows "copy_all fs = Inr (drop start str) \<and>
    (start < length str \<longrightarrow> fs \<noteq> [] \<and> remaining_msg_bytes (last fs) = 0 \<and>
      (\<forall>f \<in> set (butlast fs). remaining_msg_bytes f \<noteq> 0))"
  using assms
proof (induction fs arbitrary: start sn)
  case (Cons f fs)
  let ?fin = "min (start + FRAME_PAYLOAD_SIZE) (length str)"
  have f: "copy_data f = Inr (take (?fin - start) (drop start str))"
    "remaining_msg_bytes f = of_nat (length str - ?fin)" "fragments_of c str ?fin (sn + 1) fs" "start < length str"
    using Cons.prems(1) by (auto simp: fragment_of_def Let_def)
  note IH = Cons.IH [OF f(3) _ Cons.prems(3)]
  have "drop start str = take (?fin - start) (drop start str) @ drop ?fin str"
    using append_take_drop_id [of "?fin - start" "drop start str"] f(4) by (simp add: FRAME_PAYLOAD_SIZE_def)
  then have cp: "copy_all (f # fs) = Inr (drop start str)" using f(1) IH by simp
  have r: "unat (remaining_msg_bytes f) = length str - ?fin"
  proof -
    have "length str - ?fin < 65536" using f(4) Cons.prems(3) by (simp add: FRAME_PAYLOAD_SIZE_def)
    then show ?thesis unfolding f(2) by (simp add: unat_of_nat del: of_nat_diff)
  qed
  show ?case
  proof (cases "?fin < length str")
    case True
    then have "remaining_msg_bytes f \<noteq> 0" using r by (metis unat_0 zero_less_diff less_irrefl)
    then show ?thesis using cp IH True by auto
  next
    case False
    then have "fs = []" "remaining_msg_bytes f = 0"
      using f(3) r by (cases fs, simp_all add: unat_eq_zero Let_def)
    then show ?thesis using cp by simp
  qed
qed simp

text \<open>A message of at most 65535 bytes is carried by its fragments; longer ones are not.\<close>

lemma fragments_carry_message:
  assumes "fragments_of c (c_string s) 0 sn fs" and "length (c_string s) \<le> 65536"
  shows "carries fs (takeWhile (\<lambda>b. b \<noteq> 0) s)"
proof -
  have "0 < length (c_string s)" by (simp add: c_string_def)
  with fragments_of_carry [OF assms(1) _ assms(2)]
  have fs: "copy_all fs = Inr (c_string s)" "fs \<noteq> []" "remaining_msg_bytes (last fs) = 0"
    "\<forall>f \<in> set (butlast fs). remaining_msg_bytes f \<noteq> 0" by auto
  have "print_string (c_string s) = Inr (takeWhile (\<lambda>b. b \<noteq> 0) s)"
    unfolding print_string_def c_string_def by (subst takeWhile_append2) (auto dest: set_takeWhileD)
  with fs show ?thesis by (simp add: carries_def)
qed

lemma fragments_of_nth:
  "fragments_of c str start sn fs \<Longrightarrow> i < length fs \<Longrightarrow>
    seq_num (fs ! i) = sn + of_nat i \<and> dst_id (fs ! i) = ucast (cmd_dst_id c) \<and>
    src_id (fs ! i) = ucast (cmd_src_id c) \<and> is_ack (fs ! i) = 0 \<and> frame_valid (fs ! i) \<and> wf_frame (fs ! i)"
proof (induction fs arbitrary: start sn i)
  case (Cons f fs)
  then show ?case by (cases i) (auto simp: fragment_of_def Let_def add.assoc)
qed simp

section \<open>Streams\<close>

text \<open>
  What a host has numbered for peer \<open>q\<close>: well-formed data frames with consecutive numbers, which
  are the fragments of the messages \<open>msgs\<close> one after the other.
\<close>

definition data_frame :: "nat \<Rightarrow> nat \<Rightarrow> frame \<Rightarrow> bool" where
  "data_frame i q f \<longleftrightarrow> frame_valid f \<and> wf_frame f \<and> is_ack f = 0 \<and> src_id f = of_nat i \<and> dst_id f = of_nat q"

definition stream :: "nat \<Rightarrow> nat \<Rightarrow> frame list \<Rightarrow> bool" where
  "stream i q sent \<longleftrightarrow> numbered sent \<and> (\<forall>f \<in> set sent. data_frame i q f)"

definition groups :: "frame list \<Rightarrow> u8 list list \<Rightarrow> bool" where
  "groups sent msgs \<longleftrightarrow> (\<exists>fss. sent = concat fss \<and> list_all2 carries fss msgs)"

lemma groups_Nil [simp]: "groups [] []"
  unfolding groups_def by (intro exI [of _ "[]"]) simp

lemma groups_snoc: "groups sent msgs \<Longrightarrow> carries fs m \<Longrightarrow> groups (sent @ fs) (msgs @ [m])"
  unfolding groups_def by (metis concat_append concat.simps append_Nil2 list_all2_appendI list_all2_Cons list_all2_Nil)

text \<open>Each prefix of a stream delivers a prefix of the messages.\<close>

lemma groups_prefix:
  assumes "list_all2 carries fss msgs" and "m \<le> length (concat fss)"
  shows "\<exists>j part. j \<le> length msgs \<and> take m (concat fss) = concat (take j fss) @ part \<and>
    (\<forall>f \<in> set part. remaining_msg_bytes f \<noteq> 0)"
  using assms
proof (induction fss msgs arbitrary: m rule: list_all2_induct)
  case (Cons fs fss s msgs)
  show ?case
  proof (cases "m < length fs")
    case True
    have "fs \<noteq> []" "\<forall>f \<in> set (butlast fs). remaining_msg_bytes f \<noteq> 0"
      using Cons.hyps(1) by (auto simp: carries_def)
    moreover have "take m fs = take m (butlast fs)" using True by (cases fs rule: rev_cases) simp_all
    ultimately show ?thesis
      using True by (intro exI [of _ 0] exI [of _ "take m fs"]) (auto dest: in_set_takeD)
  next
    case False
    with Cons.prems have "m - length fs \<le> length (concat fss)" by simp
    from Cons.IH [OF this] obtain j part where "j \<le> length msgs"
      "take (m - length fs) (concat fss) = concat (take j fss) @ part"
      "\<forall>f \<in> set part. remaining_msg_bytes f \<noteq> 0" by blast
    with False show ?thesis by (intro exI [of _ "Suc j"] exI [of _ part]) simp
  qed
qed simp

lemma groups_deliver:
  assumes "groups sent msgs" and "m \<le> length sent"
  shows "\<exists>j part. j \<le> length msgs \<and> deliver (take m sent) [] = Inr (part, take j msgs)"
proof -
  from assms(1) obtain fss where fss: "sent = concat fss" "list_all2 carries fss msgs"
    by (auto simp: groups_def)
  from groups_prefix [OF fss(2), of m] assms(2) fss(1) obtain j part where
    j: "j \<le> length msgs" "take m sent = concat (take j fss) @ part" "\<forall>f \<in> set part. remaining_msg_bytes f \<noteq> 0"
    by auto
  have "list_all2 carries (take j fss) (take j msgs)" using fss(2) by (rule list_all2_takeI)
  from deliver_messages [OF this j(3), of "[]"] j show ?thesis by auto
qed

lemma groups_deliverable: "groups sent msgs \<Longrightarrow> deliverable sent"
  unfolding deliverable_def using groups_deliver by blast

text \<open>A whole stream delivers all its messages.\<close>

lemma groups_deliver_all:
  assumes "groups sent msgs"
  shows "deliver sent [] = Inr ([], msgs)"
proof -
  from assms obtain fss where "sent = concat fss" "list_all2 carries fss msgs" by (auto simp: groups_def)
  with deliver_messages [of fss msgs "[]" "[]"] show ?thesis by simp
qed

section \<open>The invariant of the sending side\<close>

text \<open>The frames for peer \<open>q\<close> that are not acknowledged yet: those in the window, then those waiting.\<close>

definition pending :: "env \<Rightarrow> nat \<Rightarrow> host \<Rightarrow> frame list" where
  "pending e q h = map fst (send_items e q h) @ filter (\<lambda>f. unat (dst_id f) = q) (buffered_outframes h)"

definition tx_inv :: "env \<Rightarrow> (nat \<Rightarrow> frame list) \<Rightarrow> (nat \<Rightarrow> nat) \<Rightarrow> host \<Rightarrow> bool" where
  "tx_inv e sent base h \<longleftrightarrow> windows_ok e h \<and> hid h < num_hosts e \<and>
     (\<forall>f \<in> set (buffered_outframes h). unat (dst_id f) < num_hosts e) \<and>
     (\<forall>q < num_hosts e. stream (hid h) q (sent q) \<and> base q \<le> length (sent q) \<and>
        curr_seq_num h ! q = of_nat (length (sent q)) \<and> pending e q h = drop (base q) (sent q))"

lemma windows_ok_cong:
  assumes "send_window h' = send_window h" "send_window_start h' = send_window_start h"
    "send_window_length h' = send_window_length h" "recv_window h' = recv_window h"
    "recv_window_start h' = recv_window_start h" "length (recv_lfr h') = length (recv_lfr h)"
    "length (recv_msg h') = length (recv_msg h)" "length (curr_seq_num h') = length (curr_seq_num h)"
    "length (cc h') = length (cc h)" "length (dup_acks_seq_num h') = length (dup_acks_seq_num h)"
  shows "windows_ok e h' = windows_ok e h"
  using assms send_queue_cong(1) [OF assms(1-3)] by (simp add: windows_ok_def shape_def)

lemma tx_inv_init:
  assumes "cfg_ok e" and "i < num_hosts e"
  shows "tx_inv e (\<lambda>_. []) (\<lambda>_. 0) (init_host e i)"
  using assms init_windows_ok [OF assms(1), of i] init_queues(1) [OF assms(1)]
  by (simp add: tx_inv_def pending_def stream_def numbered_def) (simp add: init_host_def Let_def)

definition cmd_ok :: "env \<Rightarrow> nat \<Rightarrow> cmd \<Rightarrow> bool" where
  "cmd_ok e i c \<longleftrightarrow> unat (cmd_src_id c) = i \<and> unat (cmd_dst_id c) < num_hosts e \<and>
     length (c_string (message c)) \<le> 65536"

definition text_of :: "cmd \<Rightarrow> u8 list" where
  "text_of c = takeWhile (\<lambda>b. b \<noteq> 0) (message c)"

lemma numbered_append:
  "numbered xs \<Longrightarrow> (\<And>i. i < length ys \<Longrightarrow> seq_num (ys ! i) = of_nat (length xs + i)) \<Longrightarrow> numbered (xs @ ys)"
  by (auto simp: numbered_def nth_append)

lemma ucast_id_u16:
  fixes x :: u16
  assumes "unat x < 256"
  shows "ucast x = (of_nat (unat x) :: u8)" "unat (ucast x :: u8) = unat x"
proof -
  show u: "ucast x = (of_nat (unat x) :: u8)" by simp
  show "unat (ucast x :: u8) = unat x" unfolding u using assms by (rule unat_u8_small)
qed

lemma fragment_tx_inv:
  assumes inv: "tx_inv e sent base h" and c: "cmd_ok e (hid h) c"
    and msgs: "groups (sent (unat (cmd_dst_id c))) ms"
  shows "\<exists>h' fs m C. fragment e c (c_string (message c)) 0 h = Inr h' \<and>
    tx_inv e (sent(unat (cmd_dst_id c) := sent (unat (cmd_dst_id c)) @ fs)) base h' \<and>
    groups (sent (unat (cmd_dst_id c)) @ fs) (ms @ [text_of c]) \<and>
    h' = h\<lparr>mallocs := m, curr_seq_num := C, buffered_outframes := buffered_outframes h @ fs\<rparr>"
proof -
  let ?d = "unat (cmd_dst_id c)"
  have cfg: "cfg_ok e" and wok: "windows_ok e h" using inv by (simp_all add: tx_inv_def windows_ok_def)
  have n: "num_hosts e \<le> 256" using cfg by (simp add: cfg_ok_def)
  have d: "?d < num_hosts e" "unat (ucast (cmd_dst_id c) :: u8) = ?d" and
    ids: "ucast (cmd_dst_id c) = (of_nat ?d :: u8)" "ucast (cmd_src_id c) = (of_nat (hid h) :: u8)"
    using c inv n ucast_id_u16 [of "cmd_dst_id c"] ucast_id_u16 [of "cmd_src_id c"]
    by (auto simp: cmd_ok_def tx_inv_def)
  have len: "length (curr_seq_num h) = num_hosts e" using wok by (simp add: windows_ok_def shape_def)
  from fragment_spec [OF cfg one_nul_c_string d(2) [symmetric] d(1) len, of "message c" 0] obtain fs where
    fs: "fragment e c (c_string (message c)) 0 h = Inr (h\<lparr>mallocs := mallocs h + length fs,
      curr_seq_num := (curr_seq_num h)[?d := curr_seq_num h ! ?d + of_nat (length fs)],
      buffered_outframes := buffered_outframes h @ fs\<rparr>)"
    "fragments_of c (c_string (message c)) 0 (curr_seq_num h ! ?d) fs" by blast
  define h' where "h' = h\<lparr>mallocs := mallocs h + length fs,
      curr_seq_num := (curr_seq_num h)[?d := curr_seq_num h ! ?d + of_nat (length fs)],
      buffered_outframes := buffered_outframes h @ fs\<rparr>"
  have cs: "curr_seq_num h ! ?d = of_nat (length (sent ?d))" using inv d(1) by (simp add: tx_inv_def)
  have df: "data_frame (hid h) ?d (fs ! i) \<and> seq_num (fs ! i) = of_nat (length (sent ?d) + i)"
    if "i < length fs" for i
    unfolding data_frame_def ids [symmetric] of_nat_add cs [symmetric]
    using fragments_of_nth [OF fs(2) that] by blast
  then have dfs: "\<forall>f \<in> set fs. data_frame (hid h) ?d f" by (metis in_set_conv_nth)
  have "numbered (sent ?d @ fs)"
    using inv d(1) df by (intro numbered_append) (auto simp: tx_inv_def stream_def)
  then have st: "stream (hid h) ?d (sent ?d @ fs)"
    using inv d(1) dfs by (auto simp: tx_inv_def stream_def)
  have ud: "\<forall>f \<in> set fs. unat (dst_id f) = ?d"
    using dfs d(2) unfolding data_frame_def ids(1) [symmetric] by simp
  have ok': "windows_ok e h'"
    unfolding h'_def using wok by (subst windows_ok_cong [of _ h]) simp_all
  have items: "send_items e q h' = send_items e q h" for q
    unfolding h'_def by (rule send_queue_cong) simp_all
  have pend: "pending e q h' = (if q = ?d then pending e q h @ fs else pending e q h)" for q
  proof -
    have "filter (\<lambda>f. unat (dst_id f) = q) fs = (if q = ?d then fs else [])"
      using ud by (auto simp: filter_id_conv filter_empty_conv)
    moreover have "buffered_outframes h' = buffered_outframes h @ fs" by (simp add: h'_def)
    ultimately show ?thesis unfolding pending_def items by (cases "q = ?d") simp_all
  qed
  have "tx_inv e (sent(?d := sent ?d @ fs)) base h'"
    unfolding tx_inv_def
    using ok' inv st pend ud d(1) cs len by (auto simp: tx_inv_def h'_def)
  moreover have "carries fs (text_of c)"
    using fragments_carry_message [OF fs(2)] c by (simp add: cmd_ok_def text_of_def)
  ultimately show ?thesis
    using fs(1) groups_snoc [OF msgs] unfolding h'_def by blast
qed

section \<open>Properties\<close>

text \<open>
  C8: cutting a message into frames and putting it together again gives the message: for any text of
  at most 65535 bytes the fragments are queued behind the older frames, numbered consecutively, each
  with a valid checksum, and the receiver's reassembly of them prints the text up to its terminator.
\<close>

theorem fragments_reassemble:
  assumes "cfg_ok e" and "unat (ucast (cmd_dst_id c) :: u8) < num_hosts e" and "length (curr_seq_num h) = num_hosts e"
    and "length (takeWhile (\<lambda>b. b \<noteq> 0) (message c)) < 65536"
  shows "\<exists>h' fs. fragment e c (c_string (message c)) 0 h = Inr h' \<and>
    buffered_outframes h' = buffered_outframes h @ fs \<and> deliver fs [] = Inr ([], [takeWhile (\<lambda>b. b \<noteq> 0) (message c)]) \<and>
    curr_seq_num h' ! unat (ucast (cmd_dst_id c) :: u8) = curr_seq_num h ! unat (ucast (cmd_dst_id c) :: u8) + of_nat (length fs)"
proof -
  define dst where "dst = unat (ucast (cmd_dst_id c) :: u8)"
  have d: "dst < num_hosts e" using assms(2) by (simp add: dst_def)
  from fragment_spec [OF assms(1) one_nul_c_string dst_def d assms(3), of "message c" 0] obtain fs where
    fs: "fragment e c (c_string (message c)) 0 h = Inr (h\<lparr>mallocs := mallocs h + length fs,
      curr_seq_num := (curr_seq_num h)[dst := curr_seq_num h ! dst + of_nat (length fs)],
      buffered_outframes := buffered_outframes h @ fs\<rparr>)"
    "fragments_of c (c_string (message c)) 0 (curr_seq_num h ! dst) fs" by blast
  have "length (c_string (message c)) \<le> 65536" using assms(4) by (simp add: c_string_def)
  from fragments_carry_message [OF fs(2) this] have "carries fs (takeWhile (\<lambda>b. b \<noteq> 0) (message c))" .
  then have "deliver fs [] = Inr ([], [takeWhile (\<lambda>b. b \<noteq> 0) (message c)])"
    using deliver_messages [of "[fs]" "[takeWhile (\<lambda>b. b \<noteq> 0) (message c)]" "[]" "[]"] by simp
  then show ?thesis using fs(1) d assms(3) unfolding dst_def by auto
qed

theorem fragments_reassemble_witness:
  "\<exists>h' fs. fragment small_env \<lparr>cmd_src_id = 0, cmd_dst_id = 1, message = replicate 100 65\<rparr>
      (c_string (replicate 100 65)) 0 (init_host small_env 0) = Inr h' \<and>
    buffered_outframes h' = fs \<and> deliver fs [] = Inr ([], [replicate 100 65])"
  using fragments_reassemble [OF small_env_cfg, of "\<lparr>cmd_src_id = 0, cmd_dst_id = 1, message = replicate 100 65\<rparr>"
      "init_host small_env 0"]
  by (auto simp: small_env_def init_host_def)

end
