(* ===== verification/SenderInvariant.thy ===== *)
theory SenderInvariant
  imports Sender
begin

text \<open>
  The steps of the sending side keep its invariant: new commands extend the streams, an
  acknowledgement drops a prefix of what is pending, and timeouts, retransmissions and the filling
  of the window leave what is pending as it is.
\<close>

section \<open>Commands\<close>

definition texts_for :: "nat \<Rightarrow> cmd list \<Rightarrow> u8 list list" where
  "texts_for q cs = map text_of (filter (\<lambda>c. unat (cmd_dst_id c) = q) cs)"

lemma texts_for_simps [simp]:
  "texts_for q [] = []"
  "texts_for q (c # cs) = (if unat (cmd_dst_id c) = q then text_of c # texts_for q cs else texts_for q cs)"
  by (simp_all add: texts_for_def)

lemma fragments_tx_inv:
  assumes "tx_inv e sent base h" and "\<forall>c \<in> set cs. cmd_ok e (hid h) c" and "\<forall>q. groups (sent q) (ms q)"
  shows "\<exists>h' sent' m C B. rfold (\<lambda>c h. fragment e c (c_string (message c)) 0 h) cs h = Inr h' \<and>
    tx_inv e sent' base h' \<and> (\<forall>q. groups (sent' q) (ms q @ texts_for q cs)) \<and>
    (\<forall>q. \<exists>new. sent' q = sent q @ new) \<and>
    h' = h\<lparr>mallocs := m, curr_seq_num := C, buffered_outframes := B\<rparr>"
  using assms
proof (induction cs arbitrary: h sent ms)
  case Nil
  then show ?case
    by (intro exI [of _ h] exI [of _ sent] exI [of _ "mallocs h"] exI [of _ "curr_seq_num h"]
        exI [of _ "buffered_outframes h"]) simp
next
  case (Cons c cs)
  let ?d = "unat (cmd_dst_id c)"
  from fragment_tx_inv [OF Cons.prems(1), of c "ms ?d"] Cons.prems(2,3) obtain h1 fs m C where
    h1: "fragment e c (c_string (message c)) 0 h = Inr h1"
    "tx_inv e (sent(?d := sent ?d @ fs)) base h1" "groups (sent ?d @ fs) (ms ?d @ [text_of c])"
    "h1 = h\<lparr>mallocs := m, curr_seq_num := C, buffered_outframes := buffered_outframes h @ fs\<rparr>" by auto
  let ?sent = "sent(?d := sent ?d @ fs)" and ?ms = "ms(?d := ms ?d @ [text_of c])"
  have "\<forall>q. groups (?sent q) (?ms q)" using h1(3) Cons.prems(3) by simp
  moreover have "\<forall>c \<in> set cs. cmd_ok e (hid h1) c" using Cons.prems(2) h1(4) by simp
  ultimately obtain h' sent' m' C' B' where h':
    "rfold (\<lambda>c h. fragment e c (c_string (message c)) 0 h) cs h1 = Inr h'" "tx_inv e sent' base h'"
    "\<forall>q. groups (sent' q) (?ms q @ texts_for q cs)" "\<forall>q. \<exists>new. sent' q = ?sent q @ new"
    "h' = h1\<lparr>mallocs := m', curr_seq_num := C', buffered_outframes := B'\<rparr>"
    using Cons.IH [OF h1(2), of ?ms] by blast
  have "\<forall>q. groups (sent' q) (ms q @ texts_for q (c # cs))"
    using h'(3) by (metis (no_types, lifting) append_Cons append_Nil append_assoc fun_upd_apply texts_for_simps(2))
  moreover have "\<forall>q. \<exists>new. sent' q = sent q @ new"
    using h'(4) by (metis append_assoc fun_upd_apply)
  ultimately show ?case
    using h1(1,4) h'(1,2,5)
    by (intro exI [of _ h'] exI [of _ sent'] exI [of _ m'] exI [of _ C'] exI [of _ B']) simp
qed

lemma tx_inv_cong:
  assumes "windows_ok e h' = windows_ok e h" and "hid h' = hid h"
    and "buffered_outframes h' = buffered_outframes h" and "curr_seq_num h' = curr_seq_num h"
    and "\<And>q. q < num_hosts e \<Longrightarrow> map fst (send_items e q h') = map fst (send_items e q h)"
  shows "tx_inv e sent base h' = tx_inv e sent base h"
  using assms by (simp add: tx_inv_def pending_def)

lemma tx_inv_fields [simp]:
  "tx_inv e sent base (h\<lparr>input_cmdlist := cs\<rparr>) = tx_inv e sent base h"
  "tx_inv e sent base (h\<lparr>incoming_frames := fs\<rparr>) = tx_inv e sent base h"
  "tx_inv e sent base (h\<lparr>outgoing_frames := fs\<rparr>) = tx_inv e sent base h"
  "tx_inv e sent base (h\<lparr>latest_timeout := t\<rparr>) = tx_inv e sent base h"
  "tx_inv e sent base (h\<lparr>ticks := n\<rparr>) = tx_inv e sent base h"
  "tx_inv e sent base (h\<lparr>awaiting_ack := b\<rparr>) = tx_inv e sent base h"
  "tx_inv e sent base (h\<lparr>active := b\<rparr>) = tx_inv e sent base h"
  "tx_inv e sent base (h\<lparr>csv_out := b\<rparr>) = tx_inv e sent base h"
  "tx_inv e sent base (h\<lparr>round_trip_num := k\<rparr>) = tx_inv e sent base h"
  by (rule tx_inv_cong; (intro windows_ok_cong arg_cong [where f = "map fst"] send_queue_cong)?; simp)+

lemma length_send_fields [simp]:
  "cq_get_length_send q (h\<lparr>incoming_frames := fs\<rparr>) = cq_get_length_send q h"
  "cq_get_length_send q (h\<lparr>outgoing_frames := fs\<rparr>) = cq_get_length_send q h"
  "cq_get_length_send q (h\<lparr>ticks := n\<rparr>) = cq_get_length_send q h"
  "cq_get_length_send q (h\<lparr>awaiting_ack := b\<rparr>) = cq_get_length_send q h"
  "cq_get_length_send q (h\<lparr>active := b\<rparr>) = cq_get_length_send q h"
  "cq_get_length_send q (h\<lparr>csv_out := b\<rparr>) = cq_get_length_send q h"
  "cq_get_length_send q (h\<lparr>round_trip_num := k\<rparr>) = cq_get_length_send q h"
  by (simp_all add: cq_get_length_send_def)

lemma rx_view_cong:
  assumes "recv_window h' = recv_window h" and "recv_window_start h' = recv_window_start h"
    and "recv_lfr h' = recv_lfr h" and "recv_msg h' = recv_msg h"
  shows "rx_view e q h' = rx_view e q h"
  using recv_queue_cong(1) [OF assms(1,2)] assms(3,4) by (simp add: rx_view_def)

lemma handle_input_cmds_tx_inv:
  assumes "tx_inv e sent base h" and "\<forall>c \<in> set (input_cmdlist h). cmd_ok e (hid h) c"
    and "\<forall>q. groups (sent q) (ms q)"
  shows "\<exists>h' sent' m C B. handle_input_cmds e h = Inr h' \<and> tx_inv e sent' base h' \<and>
    (\<forall>q. groups (sent' q) (ms q @ texts_for q (input_cmdlist h))) \<and> (\<forall>q. \<exists>new. sent' q = sent q @ new) \<and>
    h' = h\<lparr>input_cmdlist := [], mallocs := m, curr_seq_num := C, buffered_outframes := B\<rparr>"
  using fragments_tx_inv [of e sent base "h\<lparr>input_cmdlist := []\<rparr>" "input_cmdlist h" ms] assms
  by (simp add: handle_input_cmds_def)

section \<open>Timeouts in the window\<close>

lemma set_timeout_fields [simp]:
  "send_window_start (set_timeout e q i t h) = send_window_start h"
  "send_window_length (set_timeout e q i t h) = send_window_length h"
  "cq_get_length_send r (set_timeout e q i t h) = cq_get_length_send r h"
  by (simp_all add: set_timeout_def)

lemma set_timeout_items:
  assumes ok: "windows_ok e h" and q: "q < num_hosts e" and i: "i < cq_get_length_send q h"
  shows "windows_ok e (set_timeout e q i t h)"
    and "send_items e q (set_timeout e q i t h) = (send_items e q h)[i := (fst (send_items e q h ! i), t)]"
    and "r < num_hosts e \<Longrightarrow> r \<noteq> q \<Longrightarrow> send_items e r (set_timeout e q i t h) = send_items e r h"
    and "\<exists>W. set_timeout e q i t h = h\<lparr>send_window := W\<rparr>"
proof -
  let ?h' = "set_timeout e q i t h" and ?s = "(cq_get_item_send e q i h)\<lparr>timeout := t\<rparr>"
  have sok: "send_ok e r h" if "r < num_hosts e" for r using ok that by (simp add: windows_ok_def)
  have iw: "i < window_size e" using i sok [OF q] by (simp add: send_ok_def)
  have get: "cq_get_item_send e r j ?h' = (if r = q \<and> j = i then ?s else cq_get_item_send e r j h)"
    if "r < num_hosts e" "j < window_size e" for r j
    using get_set_item_send [OF ok q that(1) iw that(2)] by (simp add: set_timeout_def)
  have "send_ok e r ?h'" if r: "r < num_hosts e" for r
  proof -
    have "if j < cq_get_length_send r h then sframe (cq_get_item_send e r j ?h') \<noteq> None
        else cq_get_item_send e r j ?h' = empty_slot" if j: "j < window_size e" for j
      using get [OF r j] send_slots_in [OF sok [OF r], of j] send_slots_out [OF sok [OF r] _ j] i by auto
    with sok [OF r] show ?thesis by (simp add: send_ok_def)
  qed
  then show "windows_ok e ?h'"
    using ok by (simp add: windows_ok_def) (simp add: shape_def set_timeout_def cq_set_item_send_def)
  show "send_items e q ?h' = (send_items e q h)[i := (fst (send_items e q h ! i), t)]"
    using get [OF q] i sok [OF q]
    by (intro nth_equalityI) (auto simp: send_items_nth nth_list_update slot_item_def send_ok_def)
  show "send_items e r ?h' = send_items e r h" if "r < num_hosts e" "r \<noteq> q"
    using get [OF that(1)] that(2) by (intro send_items_same [OF sok [OF that(1)]]) simp_all
  show "\<exists>W. ?h' = h\<lparr>send_window := W\<rparr>" by (auto simp: set_timeout_def cq_set_item_send_def)
qed

text \<open>
  What the timers may change: the timeouts in the windows, the latest timeout, the clock, the
  congestion control and the queue of outgoing frames, to which frames of the windows may be added.
\<close>

definition timer_effect :: "env \<Rightarrow> host \<Rightarrow> host \<Rightarrow> frame list \<Rightarrow> bool" where
  "timer_effect e h h' out \<longleftrightarrow> windows_ok e h' \<and>
     (\<forall>q < num_hosts e. map fst (send_items e q h') = map fst (send_items e q h)) \<and>
     (\<exists>W t n C. h' = h\<lparr>send_window := W, latest_timeout := t, ticks := n, cc := C,
        outgoing_frames := outgoing_frames h @ out\<rparr>)"

lemma timer_effect_refl: "windows_ok e h \<Longrightarrow> timer_effect e h h []"
  unfolding timer_effect_def
  by (intro conjI exI [of _ "send_window h"] exI [of _ "latest_timeout h"] exI [of _ "ticks h"]
      exI [of _ "cc h"]) simp_all

lemma timer_effect_trans:
  "timer_effect e h h1 out1 \<Longrightarrow> timer_effect e h1 h2 out2 \<Longrightarrow> timer_effect e h h2 (out1 @ out2)"
proof -
  assume A: "timer_effect e h h1 out1" and B: "timer_effect e h1 h2 out2"
  from A obtain W t n C where h1: "h1 = h\<lparr>send_window := W, latest_timeout := t, ticks := n, cc := C,
      outgoing_frames := outgoing_frames h @ out1\<rparr>" by (auto simp: timer_effect_def)
  from B obtain W' t' n' C' where "h2 = h1\<lparr>send_window := W', latest_timeout := t', ticks := n', cc := C',
      outgoing_frames := outgoing_frames h1 @ out2\<rparr>" by (auto simp: timer_effect_def)
  then have "h2 = h\<lparr>send_window := W', latest_timeout := t', ticks := n', cc := C',
      outgoing_frames := outgoing_frames h @ out1 @ out2\<rparr>" by (simp add: h1)
  with A B show ?thesis unfolding timer_effect_def by (metis (no_types, lifting))
qed

lemma timer_effect_tx_inv: "timer_effect e h h' out \<Longrightarrow> tx_inv e sent base h \<Longrightarrow> tx_inv e sent base h'"
  by (subst tx_inv_cong [of e h' h]) (auto simp: timer_effect_def tx_inv_def)

lemma timer_effect_length:
  "timer_effect e h h' out \<Longrightarrow> cq_get_length_send q h' = cq_get_length_send q h"
  by (auto simp: timer_effect_def cq_get_length_send_def)

lemma set_timeout_effect:
  assumes "windows_ok e h" and "q < num_hosts e" and "i < cq_get_length_send q h"
  shows "timer_effect e h (set_timeout e q i t h) []"
proof -
  note st = set_timeout_items [where t = t, OF assms]
  have "map fst (send_items e r (set_timeout e q i t h)) = map fst (send_items e r h)" if "r < num_hosts e" for r
  proof (cases "r = q")
    case True
    have "map fst ((send_items e q h)[i := (fst (send_items e q h ! i), t)]) = map fst (send_items e q h)"
      using assms(3) by (metis fst_conv length_map length_send_items list_update_id map_update nth_map)
    with True st(2) show ?thesis by simp
  next
    case False
    with st(3) that show ?thesis by simp
  qed
  moreover obtain W where "set_timeout e q i t h = h\<lparr>send_window := W\<rparr>" using st(4) by blast
  ultimately show ?thesis
    unfolding timer_effect_def using st(1)
    by (intro conjI exI [of _ W] exI [of _ "latest_timeout h"] exI [of _ "ticks h"]
      exI [of _ "cc h"]) auto
qed

lemma timer_effect_cong:
  assumes "timer_effect e h h1 out" and "\<exists>t n fs C. h2 = h1\<lparr>latest_timeout := t, ticks := n, cc := C,
      outgoing_frames := outgoing_frames h1 @ fs\<rparr> \<and> out2 = out @ fs \<and> length C = length (cc h1)"
  shows "timer_effect e h h2 out2"
proof -
  from assms(2) obtain t n fs C where h2: "h2 = h1\<lparr>latest_timeout := t, ticks := n, cc := C,
      outgoing_frames := outgoing_frames h1 @ fs\<rparr>" "out2 = out @ fs" "length C = length (cc h1)" by blast
  have "windows_ok e h2" using assms(1) h2 by (subst windows_ok_cong [of h2 h1]) (simp_all add: timer_effect_def)
  moreover have "send_items e q h2 = send_items e q h1" for q using h2 by (intro send_queue_cong) simp_all
  moreover from assms(1) obtain W t' n' C' where "h1 = h\<lparr>send_window := W, latest_timeout := t', ticks := n',
      cc := C', outgoing_frames := outgoing_frames h @ out\<rparr>" by (auto simp: timer_effect_def)
  then have "h2 = h\<lparr>send_window := W, latest_timeout := t, ticks := n, cc := C,
      outgoing_frames := outgoing_frames h @ out2\<rparr>" using h2 by simp
  ultimately show ?thesis
    using assms(1) unfolding timer_effect_def by (metis (no_types, lifting))
qed

section \<open>Retransmission\<close>

lemma find_slot_items:
  "find_slot e q seq h = find (\<lambda>j. seq_num (fst (send_items e q h ! j)) = seq) [0..<cq_get_length_send q h]"
  unfolding find_slot_def by (rule find_cong) (simp_all add: send_items_nth slot_item_def)

lemma retransmit_empty: "cq_get_length_send q h = 0 \<Longrightarrow> retransmit_frame e q seq h = Inl Uninitialised"
  by (simp add: retransmit_frame_def Let_def get_time_def cq_get_length_send_def split: option.split)

lemma retransmit_spec:
  assumes ok: "windows_ok e h" and q: "q < num_hosts e" and ne: "0 < cq_get_length_send q h"
  shows "\<exists>h' t i out. retransmit_frame e q seq h = Inr h' \<and> timer_effect e h h' out \<and> cc h' = cc h \<and>
    (case find_slot e q seq h of Some j \<Rightarrow> i = j \<and> out = [fst (send_items e q h ! j)]
     | None \<Rightarrow> i = cq_get_length_send q h - 1 \<and> out = []) \<and>
    send_items e q h' = (send_items e q h)[i := (fst (send_items e q h ! i), Some t)]"
proof -
  define i where "i = (case find_slot e q seq h of Some j \<Rightarrow> j | None \<Rightarrow> cq_get_length_send q h - 1)"
  define out where "out = (case find_slot e q seq h of Some j \<Rightarrow> [fst (send_items e q h ! j)] | None \<Rightarrow> [])"
  have fi: "j < cq_get_length_send q h" if "find_slot e q seq h = Some j" for j
    using that by (auto simp: find_slot_def find_Some_iff)
  then have i: "i < cq_get_length_send q h" using ne by (simp add: i_def split: option.split)
  have sok: "send_ok e q h" using ok q by (simp add: windows_ok_def)
  define h1 where "h1 = h\<lparr>ticks := Suc (ticks h)\<rparr>"
  define now where "now = not_before_latest (clock e (hid h) (ticks h)) h1"
  define t where "t = timeval_usecplus now TIMEOUT_INTERVAL_USEC"
  define h2 where "h2 = h1\<lparr>outgoing_frames := outgoing_frames h @ out, latest_timeout := timeval_usecplus now 10000\<rparr>"
  have same: "cq_get_length_send q h1 = cq_get_length_send q h" "find_slot e q seq h1 = find_slot e q seq h"
    "cq_get_item_send e q j h1 = cq_get_item_send e q j h" for j
    by (simp_all add: h1_def cq_get_length_send_def find_slot_def cq_get_item_send_def send_cell_def)
  have run: "retransmit_frame e q seq h = Inr (set_timeout e q i (Some t) h2)"
  proof (cases "find_slot e q seq h")
    case None
    then have "h2 = h1\<lparr>latest_timeout := timeval_usecplus now 10000\<rparr>" "i = cq_get_length_send q h - 1"
      by (simp_all add: h2_def h1_def out_def i_def)
    with None ne same show ?thesis
      by (simp add: retransmit_frame_def get_time_def flip: h1_def) (simp add: Let_def t_def now_def)
  next
    case (Some j)
    then have "h2 = h1\<lparr>outgoing_frames := outgoing_frames h1 @ [the (sframe (cq_get_item_send e q j h1))],
        latest_timeout := timeval_usecplus now 10000\<rparr>" "i = j"
      using send_items_nth [OF fi [OF Some]] same
      by (simp_all add: h2_def h1_def out_def i_def slot_item_def)
    with Some ne same show ?thesis
      by (simp add: retransmit_frame_def get_time_def flip: h1_def) (simp add: Let_def t_def now_def)
  qed
  have len2: "cq_get_length_send q h2 = cq_get_length_send q h" and it2: "send_items e r h2 = send_items e r h" for r
    unfolding h2_def h1_def by (rule send_queue_cong, simp_all)+
  have eff2: "timer_effect e h h2 out"
    by (rule timer_effect_cong [OF timer_effect_refl [OF ok]], intro exI [of _ "timeval_usecplus now 10000"]
        exI [of _ "Suc (ticks h)"] exI [of _ out] exI [of _ "cc h"]) (simp add: h2_def h1_def)
  have eff: "timer_effect e h (set_timeout e q i (Some t) h2) out"
    using timer_effect_trans [OF eff2 set_timeout_effect [of e h2 q i "Some t"]] eff2 q i len2
    by (simp add: timer_effect_def)
  have "send_items e q (set_timeout e q i (Some t) h2) = (send_items e q h)[i := (fst (send_items e q h ! i), Some t)]"
    using set_timeout_items(2) [of e h2 q i "Some t"] eff2 q i len2 by (simp add: timer_effect_def it2)
  moreover have "cc (set_timeout e q i (Some t) h2) = cc h"
    by (simp add: set_timeout_def cq_set_item_send_def h2_def h1_def)
  ultimately show ?thesis
    using run eff by (intro exI [of _ "set_timeout e q i (Some t) h2"] exI [of _ t] exI [of _ i] exI [of _ out])
      (simp add: i_def out_def split: option.split)
qed

lemma retransmit_other:
  assumes "retransmit_frame e q seq h = Inr h'" and ok: "windows_ok e h" and q: "q < num_hosts e"
    and "r < num_hosts e" "r \<noteq> q"
  shows "send_items e r h' = send_items e r h"
proof -
  have ne: "0 < cq_get_length_send q h" using assms(1) retransmit_empty [of q h e seq] by fastforce
  obtain i t hh where h': "h' = set_timeout e q i t hh" "i < cq_get_length_send q h"
    "send_window hh = send_window h" "send_window_start hh = send_window_start h"
    "send_window_length hh = send_window_length h"
  proof (cases "find_slot e q seq (h\<lparr>ticks := Suc (ticks h)\<rparr>)")
    case None
    with assms(1) that ne show ?thesis
      by (auto simp: retransmit_frame_def get_time_def Let_def cq_get_length_send_def split: if_splits)
  next
    case (Some j)
    then have "j < cq_get_length_send q h" by (auto simp: find_slot_def find_Some_iff cq_get_length_send_def)
    with Some assms(1) that ne show ?thesis
      by (auto simp: retransmit_frame_def get_time_def Let_def cq_get_length_send_def split: if_splits)
  qed
  note qc = send_queue_cong [OF h'(3-5)]
  have len: "length (send_window hh) = length (send_window h)" by (simp add: h'(3))
  have get: "cq_get_item_send e r j h' = cq_get_item_send e r j h" if "j < window_size e" for j
  proof -
    have "send_cell e hh q i \<noteq> send_cell e hh r j"
      using assms(5) windows_ok_pos [OF ok] by (auto simp: send_cell_def cell_other)
    then show ?thesis
      unfolding qc(4) [symmetric, of _ r]
      by (simp add: h'(1) set_timeout_def cq_get_item_send_def) (simp add: cq_set_item_send_def)
  qed
  have "send_ok e r h" using ok assms(4) by (simp add: windows_ok_def)
  then show ?thesis
    using get h'(1) qc(3) by (intro send_items_same) simp_all
qed

section \<open>Expired timeouts\<close>

definition timed_out :: "env \<Rightarrow> timeval \<Rightarrow> nat \<Rightarrow> host \<Rightarrow> bool" where
  "timed_out e now q h \<longleftrightarrow> q \<noteq> hid h \<and>
     (\<exists>i < cq_get_length_send q h. \<exists>t. snd (send_items e q h ! i) = Some t \<and> usecs t \<le> usecs now)"

lemma timed_out_expired:
  "timed_out e now q h \<longleftrightarrow> q \<noteq> hid h \<and> (\<exists>j \<in> {..<cq_get_length_send q h}. expired e now q j h)"
proof -
  have "expired e now q j h \<longleftrightarrow> (\<exists>t. timeout (cq_get_item_send e q j h) = Some t \<and> usecs t \<le> usecs now)" for j
    by (auto simp: expired_def usecdiff_usecs split: option.splits)
  then show ?thesis
    by (simp add: timed_out_def send_items_nth slot_item_def Bex_def cong: conj_cong)
qed

lemma clear_timeouts_spec:
  assumes ok: "windows_ok e h" and q: "q < num_hosts e"
  shows "timer_effect e h (clear_timeouts e q h) []" (is ?A)
    and "send_items e q (clear_timeouts e q h) = map (\<lambda>x. (fst x, None)) (send_items e q h)" (is ?B)
    and "\<forall>r < num_hosts e. r \<noteq> q \<longrightarrow> send_items e r (clear_timeouts e q h) = send_items e r h" (is ?C)
    and "cc (clear_timeouts e q h) = cc h" (is ?D)
proof -
  have "let h' = fold (\<lambda>i. set_timeout e q i None) [0..<k] h in timer_effect e h h' [] \<and> cc h' = cc h \<and>
    (\<forall>i < cq_get_length_send q h. send_items e q h' ! i =
      (if i < k then (fst (send_items e q h ! i), None) else send_items e q h ! i)) \<and>
    (\<forall>r < num_hosts e. r \<noteq> q \<longrightarrow> send_items e r h' = send_items e r h)"
    if "k \<le> cq_get_length_send q h" for k
    using that
  proof (induction k)
    case 0
    then show ?case using timer_effect_refl [OF ok] by simp
  next
    case (Suc k)
    define h1 where "h1 = fold (\<lambda>i. set_timeout e q i None) [0..<k] h"
    from Suc have h1: "timer_effect e h h1 []" "cc h1 = cc h"
      "\<forall>i < cq_get_length_send q h. send_items e q h1 ! i =
        (if i < k then (fst (send_items e q h ! i), None) else send_items e q h ! i)"
      "\<forall>r < num_hosts e. r \<noteq> q \<longrightarrow> send_items e r h1 = send_items e r h"
      by (simp_all add: h1_def Let_def)
    have len: "cq_get_length_send q h1 = cq_get_length_send q h" by (rule timer_effect_length [OF h1(1)])
    have ok1: "windows_ok e h1" and k: "k < cq_get_length_send q h1"
      using h1(1) Suc.prems len by (simp_all add: timer_effect_def)
    note st = set_timeout_items [where t = None, OF ok1 q k]
    have "timer_effect e h (set_timeout e q k None h1) []"
      using timer_effect_trans [OF h1(1) set_timeout_effect [OF ok1 q k]] by simp
    moreover have "cc (set_timeout e q k None h1) = cc h"
      using h1(2) by (simp add: set_timeout_def cq_set_item_send_def)
    moreover have "send_items e q (set_timeout e q k None h1) ! i =
        (if i < Suc k then (fst (send_items e q h ! i), None) else send_items e q h ! i)"
      if "i < cq_get_length_send q h" for i
      using st(2) h1(3) that k len by (auto simp: nth_list_update less_Suc_eq)
    moreover have "\<forall>r < num_hosts e. r \<noteq> q \<longrightarrow> send_items e r (set_timeout e q k None h1) = send_items e r h"
      using st(3) h1(4) by simp
    ultimately show ?case by (simp add: h1_def [symmetric])
  qed
  from this [OF order_refl] show ?A ?C ?D ?B
    by (auto simp: clear_timeouts_def [symmetric] Let_def timer_effect_length intro: nth_equalityI)
qed

lemma upd_cc_effect:
  assumes "timer_effect e h h1 []"
  shows "timer_effect e h (upd_cc q f h1) []" "send_items e r (upd_cc q f h1) = send_items e r h1"
proof -
  show "timer_effect e h (upd_cc q f h1) []"
    by (rule timer_effect_cong [OF assms], intro exI [of _ "latest_timeout h1"] exI [of _ "ticks h1"] exI [of _ "[]"]
        exI [of _ "(cc h1)[q := f (cc h1 ! q)]"]) (simp add: upd_cc_def)
  show "send_items e r (upd_cc q f h1) = send_items e r h1"
    by (rule send_queue_cong) (simp_all add: upd_cc_def)
qed

definition cc_timeout :: "env \<Rightarrow> congestion_control \<Rightarrow> congestion_control" where
  "cc_timeout e c = c\<lparr>cstate := cc_SS, ssthresh := dround e (cwnd c / 2), cwnd := 1\<rparr>"

lemma timeout_peer_spec:
  assumes ok: "windows_ok e h" and q: "q < num_hosts e"
  shows "timer_effect e h (timeout_peer e now q h) []"
    and "send_items e q (timeout_peer e now q h) =
      (if timed_out e now q h then map (\<lambda>x. (fst x, None)) (send_items e q h) else send_items e q h)"
    and "cc (timeout_peer e now q h) = (if timed_out e now q h then (cc h)[q := cc_timeout e (cc h ! q)] else cc h)"
    and "\<forall>r < num_hosts e. r \<noteq> q \<longrightarrow> send_items e r (timeout_peer e now q h) = send_items e r h"
proof -
  note cl = clear_timeouts_spec [OF ok q] upd_cc_effect [OF clear_timeouts_spec(1) [OF ok q]]
  have "timeout_peer e now q h = (if timed_out e now q h then upd_cc q (cc_timeout e) (clear_timeouts e q h) else h)"
    by (auto simp: timeout_peer_def timed_out_expired cc_timeout_def [abs_def])
  then show "timer_effect e h (timeout_peer e now q h) []"
    "send_items e q (timeout_peer e now q h) =
      (if timed_out e now q h then map (\<lambda>x. (fst x, None)) (send_items e q h) else send_items e q h)"
    "cc (timeout_peer e now q h) = (if timed_out e now q h then (cc h)[q := cc_timeout e (cc h ! q)] else cc h)"
    "\<forall>r < num_hosts e. r \<noteq> q \<longrightarrow> send_items e r (timeout_peer e now q h) = send_items e r h"
    using cl timer_effect_refl [OF ok] by (auto simp: upd_cc_def)
qed

lemma timed_out_cong:
  "timer_effect e h h' out \<Longrightarrow> send_items e q h' = send_items e q h \<Longrightarrow> timed_out e now q h' = timed_out e now q h"
  by (auto simp: timed_out_def timer_effect_length) (auto simp: timer_effect_def)

lemma handle_timedout_spec:
  assumes ok: "windows_ok e h"
  shows "timer_effect e h (handle_timedout_frames e now h) [] \<and>
    (\<forall>q < num_hosts e.
      send_items e q (handle_timedout_frames e now h) =
        (if timed_out e now q h then map (\<lambda>x. (fst x, None)) (send_items e q h) else send_items e q h) \<and>
      cc (handle_timedout_frames e now h) ! q =
        (if timed_out e now q h then cc_timeout e (cc h ! q) else cc h ! q))"
proof -
  have "let h' = fold (timeout_peer e now) [0..<k] h in timer_effect e h h' [] \<and>
    (\<forall>q < num_hosts e.
      send_items e q h' = (if q < k \<and> timed_out e now q h then map (\<lambda>x. (fst x, None)) (send_items e q h)
        else send_items e q h) \<and>
      cc h' ! q = (if q < k \<and> timed_out e now q h then cc_timeout e (cc h ! q) else cc h ! q))"
    if "k \<le> num_hosts e" for k
    using that
  proof (induction k)
    case 0
    then show ?case using timer_effect_refl [OF ok] by simp
  next
    case (Suc k)
    define h1 where "h1 = fold (timeout_peer e now) [0..<k] h"
    have h1: "timer_effect e h h1 []" "\<And>q. q < num_hosts e \<Longrightarrow> send_items e q h1 =
        (if q < k \<and> timed_out e now q h then map (\<lambda>x. (fst x, None)) (send_items e q h) else send_items e q h)"
      "\<And>q. q < num_hosts e \<Longrightarrow> cc h1 ! q =
        (if q < k \<and> timed_out e now q h then cc_timeout e (cc h ! q) else cc h ! q)"
      using Suc by (simp_all add: h1_def Let_def)
    have ok1: "windows_ok e h1" using h1(1) by (simp add: timer_effect_def)
    have k: "k < num_hosts e" using Suc.prems by simp
    have len: "length (cc h1) = num_hosts e" using ok1 by (simp add: windows_ok_def shape_def)
    have to: "timed_out e now k h1 = timed_out e now k h"
      using h1(2) [OF k] by (intro timed_out_cong [OF h1(1)]) simp
    note sp = timeout_peer_spec [OF ok1 k, of now, unfolded to]
    have "timer_effect e h (timeout_peer e now k h1) []"
      using timer_effect_trans [OF h1(1) sp(1)] by simp
    moreover have "send_items e q (timeout_peer e now k h1) =
        (if q < Suc k \<and> timed_out e now q h then map (\<lambda>x. (fst x, None)) (send_items e q h) else send_items e q h)"
      "cc (timeout_peer e now k h1) ! q =
        (if q < Suc k \<and> timed_out e now q h then cc_timeout e (cc h ! q) else cc h ! q)"
      if q: "q < num_hosts e" for q
      using sp(2-4) h1(2,3) [OF q] h1(2,3) [OF k] q len k
      by (cases "q = k"; simp add: less_Suc_eq nth_list_update)+
    ultimately show ?case by (simp add: h1_def [symmetric])
  qed
  from this [OF order_refl] show ?thesis
    by (simp add: handle_timedout_frames_def [symmetric] Let_def)
qed

section \<open>Resending\<close>

text \<open>The frames of a window that have no timeout, oldest first.\<close>

definition unscheduled :: "(frame \<times> timeval option) list \<Rightarrow> frame list" where
  "unscheduled items = map fst (filter (\<lambda>x. snd x = None) items)"

lemma unscheduled_simps [simp]:
  "unscheduled [] = []"
  "unscheduled (xs @ ys) = unscheduled xs @ unscheduled ys"
  "unscheduled [x] = (if snd x = None then [fst x] else [])"
  by (simp_all add: unscheduled_def)

lemma unscheduled_subset: "set (unscheduled items) \<subseteq> fst ` set items"
  by (auto simp: unscheduled_def)

definition distinct_seq :: "env \<Rightarrow> nat \<Rightarrow> host \<Rightarrow> bool" where
  "distinct_seq e q h \<longleftrightarrow> distinct (map (seq_num \<circ> fst) (send_items e q h))"

lemma find_slot_distinct:
  assumes "distinct_seq e q h" and "i < cq_get_length_send q h"
  shows "find_slot e q (seq_num (fst (send_items e q h ! i))) h = Some i"
  unfolding find_slot_items
  using assms by (intro find_upt_Some) (auto simp: distinct_seq_def distinct_conv_nth)

lemma map_fst_nth:
  "map fst xs = map fst ys \<Longrightarrow> i < length ys \<Longrightarrow> fst (xs ! i) = fst (ys ! i)"
  by (metis length_map nth_map)

lemma resend_slot_simps:
  "\<not> (timeout (cq_get_item_send e q i h) = None \<and> fpr ! q > 0) \<Longrightarrow> resend_slot e q i (h, fpr) = Inr (h, fpr)"
  "timeout (cq_get_item_send e q i h) = None \<Longrightarrow> fpr ! q > 0 \<Longrightarrow> resend_slot e q i (h, fpr) =
    rbind (retransmit_frame e q (seq_num (the (sframe (cq_get_item_send e q i h)))) h)
      (\<lambda>h. Inr (h, fpr[q := fpr ! q - 1]))"
  by (auto simp: resend_slot_def Let_def)

lemma resend_run:
  assumes ok: "windows_ok e h" and q: "q < num_hosts e" "q < length fpr" and d: "distinct_seq e q h"
    and pos: "0 \<le> fpr ! q" and k: "k \<le> cq_get_length_send q h"
  shows "\<exists>h' out. rfold (resend_slot e q) [0..<k] (h, fpr) = Inr (h', fpr[q := fpr ! q - int (length out)]) \<and>
    timer_effect e h h' out \<and> cc h' = cc h \<and>
    out = take (nat (fpr ! q)) (unscheduled (take k (send_items e q h))) \<and>
    drop k (send_items e q h') = drop k (send_items e q h)"
  using k
proof (induction k)
  case 0
  show ?case using timer_effect_refl [OF ok] by (intro exI [of _ h] exI [of _ "[]"]) simp
next
  case (Suc k)
  then obtain h1 out where h1:
    "rfold (resend_slot e q) [0..<k] (h, fpr) = Inr (h1, fpr[q := fpr ! q - int (length out)])"
    "timer_effect e h h1 out" "cc h1 = cc h" "out = take (nat (fpr ! q)) (unscheduled (take k (send_items e q h)))"
    "drop k (send_items e q h1) = drop k (send_items e q h)" by auto
  have len: "cq_get_length_send q h1 = cq_get_length_send q h" by (rule timer_effect_length [OF h1(2)])
  have ok1: "windows_ok e h1" and fsts: "map fst (send_items e q h1) = map fst (send_items e q h)"
    using h1(2) q by (auto simp: timer_effect_def)
  let ?x = "send_items e q h ! k"
  have k: "k < cq_get_length_send q h" using Suc.prems by simp
  have x: "send_items e q h1 ! k = ?x" and dropS: "drop (Suc k) (send_items e q h1) = drop (Suc k) (send_items e q h)"
    using h1(5) k len by (metis Cons_nth_drop_Suc length_send_items list.inject)+
  have tk: "take (Suc k) (send_items e q h) = take k (send_items e q h) @ [?x]"
    using k by (simp add: take_Suc_conv_app_nth)
  have ol: "length out = min (nat (fpr ! q)) (length (unscheduled (take k (send_items e q h))))"
    using h1(4) by simp
  have slot: "slot_item (cq_get_item_send e q k h1) = ?x" using k len x by (simp add: send_items_nth)
  then have slot': "timeout (cq_get_item_send e q k h1) = snd ?x" "the (sframe (cq_get_item_send e q k h1)) = fst ?x"
    by (simp_all add: slot_item_def flip: slot)
  show ?case
  proof (cases "snd ?x = None \<and> 0 < fpr ! q - int (length out)")
    case False
    then have "rfold (resend_slot e q) [0..<Suc k] (h, fpr) = Inr (h1, fpr[q := fpr ! q - int (length out)])"
      using h1(1) q slot' by (simp add: rfold_append resend_slot_simps)
    moreover have "out = take (nat (fpr ! q)) (unscheduled (take (Suc k) (send_items e q h)))"
      using False h1(4) ol pos by (auto simp: tk)
    ultimately show ?thesis using h1 dropS by blast
  next
    case True
    have "distinct_seq e q h1" using d fsts by (metis distinct_seq_def map_map)
    then have fs: "find_slot e q (seq_num (fst ?x)) h1 = Some k"
      using find_slot_distinct [of e q h1 k] k len x by simp
    from retransmit_spec [OF ok1 q(1), of "seq_num (fst ?x)"] k len obtain h2 t where
      h2: "retransmit_frame e q (seq_num (fst ?x)) h1 = Inr h2" "timer_effect e h1 h2 [fst ?x]" "cc h2 = cc h1"
        "send_items e q h2 = (send_items e q h1)[k := (fst ?x, Some t)]"
      using fs x by auto
    have "rfold (resend_slot e q) [0..<Suc k] (h, fpr) = Inr (h2, fpr[q := fpr ! q - int (length (out @ [fst ?x]))])"
      using h1(1) q slot' True h2(1) by (simp add: rfold_append resend_slot_simps algebra_simps)
    moreover have "timer_effect e h h2 (out @ [fst ?x])" by (rule timer_effect_trans [OF h1(2) h2(2)])
    moreover have "int (length out) < fpr ! q" using True by simp
    then have "length out < nat (fpr ! q)" by linarith
    then have "out @ [fst ?x] = take (nat (fpr ! q)) (unscheduled (take (Suc k) (send_items e q h)))"
      using True h1(4) ol by (simp add: tk)
    moreover have "drop (Suc k) (send_items e q h2) = drop (Suc k) (send_items e q h)"
      using h2(4) dropS by simp
    ultimately show ?thesis using h1(3) h2(3) by auto
  qed
qed

text \<open>All peers, one after the other.\<close>

definition resends :: "env \<Rightarrow> int list \<Rightarrow> host \<Rightarrow> nat \<Rightarrow> frame list" where
  "resends e fpr h q = (if q = hid h then [] else take (nat (fpr ! q)) (unscheduled (send_items e q h)))"

lemma timer_effect_hid: "timer_effect e h h' out \<Longrightarrow> hid h' = hid h"
  by (auto simp: timer_effect_def)

lemma resend_other:
  assumes "rfold (resend_slot e q) is (h, fpr) = Inr (h', fpr')" and "windows_ok e h" and "q < num_hosts e"
    and "\<forall>i \<in> set is. i < cq_get_length_send q h" and "r < num_hosts e" and "r \<noteq> q"
  shows "send_items e r h' = send_items e r h"
  using assms
proof (induction "is" arbitrary: h fpr)
  case (Cons i "is")
  let ?seq = "seq_num (the (sframe (cq_get_item_send e q i h)))"
  show ?case
  proof (cases "timeout (cq_get_item_send e q i h) = None \<and> fpr ! q > 0")
    case False
    then have "rfold (resend_slot e q) is (h, fpr) = Inr (h', fpr')"
      using Cons.prems(1) resend_slot_simps(1) [OF False] by simp
    with Cons show ?thesis by simp
  next
    case True
    with Cons.prems(1) obtain h1 where h1: "retransmit_frame e q ?seq h = Inr h1"
      "rfold (resend_slot e q) is (h1, fpr[q := fpr ! q - 1]) = Inr (h', fpr')"
      by (auto simp: resend_slot_simps rbind_Inr_iff)
    from retransmit_spec [OF Cons.prems(2,3), of ?seq] Cons.prems(4) h1(1) obtain out where
      eff: "timer_effect e h h1 out" by auto
    have "send_items e r h1 = send_items e r h"
      by (rule retransmit_other [OF h1(1) Cons.prems(2,3,5,6)])
    moreover have "windows_ok e h1" using eff by (simp add: timer_effect_def)
    ultimately show ?thesis
      using Cons.IH [OF h1(2)] Cons.prems timer_effect_length [OF eff] by simp
  qed
qed simp

lemma resend_peer_simps:
  "q = hid h \<Longrightarrow> resend_peer e q (h, fpr) = Inr (h, fpr)"
  "q \<noteq> hid h \<Longrightarrow> resend_peer e q (h, fpr) = rfold (resend_slot e q) [0..<cq_get_length_send q h] (h, fpr)"
  by (simp_all add: resend_peer_def)

lemma resend_all:
  assumes ok: "windows_ok e h" and len: "length fpr = num_hosts e" and pos: "\<forall>q < num_hosts e. 0 \<le> fpr ! q"
    and d: "\<forall>q < num_hosts e. distinct_seq e q h" and k: "k \<le> num_hosts e"
  shows "\<exists>h' fpr'. rfold (resend_peer e) [0..<k] (h, fpr) = Inr (h', fpr') \<and>
    timer_effect e h h' (concat (map (resends e fpr h) [0..<k])) \<and> cc h' = cc h \<and> length fpr' = num_hosts e \<and>
    (\<forall>q < num_hosts e. fpr' ! q = fpr ! q - (if q < k then int (length (resends e fpr h q)) else 0)) \<and>
    (\<forall>q < num_hosts e. k \<le> q \<longrightarrow> send_items e q h' = send_items e q h)"
  using k
proof (induction k)
  case 0
  show ?case using timer_effect_refl [OF ok] len by (intro exI [of _ h] exI [of _ fpr]) simp
next
  case (Suc k)
  then obtain h1 fpr1 where h1: "rfold (resend_peer e) [0..<k] (h, fpr) = Inr (h1, fpr1)"
    "timer_effect e h h1 (concat (map (resends e fpr h) [0..<k]))" "cc h1 = cc h" "length fpr1 = num_hosts e"
    "\<forall>q < num_hosts e. fpr1 ! q = fpr ! q - (if q < k then int (length (resends e fpr h q)) else 0)"
    "\<forall>q < num_hosts e. k \<le> q \<longrightarrow> send_items e q h1 = send_items e q h" by auto
  have k: "k < num_hosts e" using Suc.prems by simp
  have hid: "hid h1 = hid h" by (rule timer_effect_hid [OF h1(2)])
  have ok1: "windows_ok e h1" using h1(2) by (simp add: timer_effect_def)
  have items: "send_items e k h1 = send_items e k h" and f1: "fpr1 ! k = fpr ! k" using h1(5,6) k by auto
  show ?case
  proof (cases "k = hid h")
    case True
    then have "resends e fpr h k = []" by (simp add: resends_def)
    with True h1 hid show ?thesis
      by (intro exI [of _ h1] exI [of _ fpr1]) (simp add: rfold_append resend_peer_simps less_Suc_eq)
  next
    case False
    have "distinct_seq e k h1" using d k items by (simp add: distinct_seq_def)
    from resend_run [OF ok1 k _ this _ order_refl, of fpr1] h1(4) pos k f1 obtain h2 out where
      h2: "rfold (resend_slot e k) [0..<cq_get_length_send k h1] (h1, fpr1) =
          Inr (h2, fpr1[k := fpr1 ! k - int (length out)])"
        "timer_effect e h1 h2 out" "cc h2 = cc h1"
        "out = take (nat (fpr1 ! k)) (unscheduled (take (cq_get_length_send k h1) (send_items e k h1)))"
      by fastforce
    have "out = resends e fpr h k"
      unfolding h2(4) items resends_def f1 using False timer_effect_length [OF h1(2)] by simp
    note h2 = h2(1-3) [unfolded this]
    have other: "send_items e q h2 = send_items e q h1" if "q < num_hosts e" "q \<noteq> k" for q
      by (rule resend_other [OF h2(1) ok1 k _ that]) simp
    let ?fpr2 = "fpr1[k := fpr1 ! k - int (length (resends e fpr h k))]"
    have "rfold (resend_peer e) [0..<Suc k] (h, fpr) = Inr (h2, ?fpr2)"
      using h1(1) h2(1) False hid by (simp add: rfold_append resend_peer_simps)
    moreover have "timer_effect e h h2 (concat (map (resends e fpr h) [0..<Suc k]))"
      using timer_effect_trans [OF h1(2) h2(2)] by simp
    moreover have "\<forall>q < num_hosts e. ?fpr2 ! q = fpr ! q - (if q < Suc k then int (length (resends e fpr h q)) else 0)"
      using h1(4,5) k by (simp add: nth_list_update less_Suc_eq)
    moreover have "\<forall>q < num_hosts e. Suc k \<le> q \<longrightarrow> send_items e q h2 = send_items e q h"
      using other h1(6) by simp
    ultimately show ?thesis using h1(3,4) h2(3) by (intro exI [of _ h2] exI [of _ ?fpr2]) simp
  qed
qed

section \<open>New frames\<close>

definition for_peer :: "nat \<Rightarrow> frame list \<Rightarrow> frame list" where
  "for_peer q = filter (\<lambda>f. unat (dst_id f) = q)"

lemma for_peer_simps [simp]:
  "for_peer q [] = []"
  "for_peer q (f # fs) = (if unat (dst_id f) = q then f # for_peer q fs else for_peer q fs)"
  "for_peer q (fs @ gs) = for_peer q fs @ for_peer q gs"
  by (simp_all add: for_peer_def)

definition quota :: "env \<Rightarrow> int list \<Rightarrow> host \<Rightarrow> nat \<Rightarrow> nat" where
  "quota e fpr h q = min (nat (fpr ! q)) (window_size e - cq_get_length_send q h)"

text \<open>What filling the windows may change.\<close>

definition fill_effect :: "env \<Rightarrow> host \<Rightarrow> host \<Rightarrow> frame list \<Rightarrow> bool" where
  "fill_effect e h h' out \<longleftrightarrow> windows_ok e h' \<and>
     (\<exists>W S L. h' = h\<lparr>send_window := W, send_window_start := S, send_window_length := L,
        outgoing_frames := outgoing_frames h @ out\<rparr>)"

lemma fill_effect_trans:
  assumes "fill_effect e h h1 out1" and "fill_effect e h1 h2 out2"
  shows "fill_effect e h h2 (out1 @ out2)"
proof -
  from assms(1) obtain W S L where h1: "h1 = h\<lparr>send_window := W, send_window_start := S, send_window_length := L,
      outgoing_frames := outgoing_frames h @ out1\<rparr>" by (auto simp: fill_effect_def)
  from assms(2) obtain W' S' L' where "h2 = h1\<lparr>send_window := W', send_window_start := S', send_window_length := L',
      outgoing_frames := outgoing_frames h1 @ out2\<rparr>" by (auto simp: fill_effect_def)
  with h1 assms(2) show ?thesis
    unfolding fill_effect_def by (intro conjI exI [of _ W'] exI [of _ S'] exI [of _ L']) simp_all
qed

text \<open>
  For peer \<open>q\<close>: the first \<open>n\<close> of the waiting frames \<open>fs\<close> go out and to the end of the window, with
  a timeout each; the others stay.
\<close>

definition fill_peer :: "env \<Rightarrow> nat \<Rightarrow> nat \<Rightarrow> frame list \<Rightarrow> host \<Rightarrow> host \<Rightarrow> frame list \<Rightarrow> frame list \<Rightarrow> bool" where
  "fill_peer e q n fs h h' out kept \<longleftrightarrow>
     for_peer q out = take n (for_peer q fs) \<and> for_peer q kept = drop n (for_peer q fs) \<and>
     (\<exists>ts. send_items e q h' = send_items e q h @ zip (take n (for_peer q fs)) ts \<and>
        length ts = min n (length (for_peer q fs)) \<and> None \<notin> set ts)"

lemma send_new_step:
  fixes t :: timeval and f :: frame
  assumes ok: "windows_ok e h" and q: "q = unat (dst_id f)" "q < num_hosts e"
    and room: "cq_get_length_send q h < window_size e"
  defines "h1 \<equiv> cq_append_item_send e q f (Some t) (h\<lparr>outgoing_frames := outgoing_frames h @ [f]\<rparr>)"
  shows "fill_effect e h h1 [f]" and "send_items e q h1 = send_items e q h @ [(f, Some t)]"
    and "r < num_hosts e \<Longrightarrow> r \<noteq> q \<Longrightarrow> send_items e r h1 = send_items e r h"
proof -
  let ?h0 = "h\<lparr>outgoing_frames := outgoing_frames h @ [f]\<rparr>"
  have ok0: "windows_ok e ?h0" using ok by (subst windows_ok_cong [of _ h]) simp_all
  have it0: "send_items e r ?h0 = send_items e r h" and len0: "cq_get_length_send q ?h0 = cq_get_length_send q h" for r
    by (rule send_queue_cong; simp)+
  have room0: "cq_get_length_send q ?h0 < window_size e" using room len0 by simp
  note eff = append_effect [where f = f and t = "Some t", OF ok0 q(2) room0]
  have "windows_ok e h1" unfolding h1_def by (rule append_windows_ok [OF ok0 q(2)])
  moreover from eff(4) obtain W L S where "h1 = ?h0\<lparr>send_window := W, send_window_length := L, send_window_start := S\<rparr>"
    by (auto simp: h1_def)
  ultimately show "fill_effect e h h1 [f]"
    unfolding fill_effect_def by (intro conjI exI [of _ W] exI [of _ S] exI [of _ L]) simp_all
  show "send_items e q h1 = send_items e q h @ [(f, Some t)]"
    using append_items [OF ok0 q(2) room0, of f "Some t"] it0 by (simp add: h1_def)
  show "send_items e r h1 = send_items e r h" if "r < num_hosts e" "r \<noteq> q"
    using sw.put_other [OF ok0, of q r "(f, Some t)"] q that it0 by (simp add: h1_def)
qed

text \<open>A frame that stays in the buffer, one for another peer, and one that is sent.\<close>

lemma fill_peer_kept:
  "fill_peer e q n fs h h' out kept \<Longrightarrow> q \<noteq> unat (dst_id f) \<or> n = 0 \<Longrightarrow> fill_peer e q n (f # fs) h h' out (f # kept)"
  by (cases "q = unat (dst_id f)") (simp_all add: fill_peer_def)

lemma fill_peer_other:
  assumes "fill_peer e q n fs h1 h' out kept" and "q \<noteq> unat (dst_id f)" and "send_items e q h1 = send_items e q h"
  shows "fill_peer e q n (f # fs) h h' (f # out) kept"
  using assms by (simp add: fill_peer_def)

lemma fill_peer_sent:
  assumes f: "fill_peer e q n fs h1 h' out kept" and q: "q = unat (dst_id f)"
    and it: "send_items e q h1 = send_items e q h @ [(f, Some t)]"
  shows "fill_peer e q (Suc n) (f # fs) h h' (f # out) kept"
proof -
  from f [unfolded fill_peer_def] obtain us where
    us: "send_items e q h' = send_items e q h1 @ zip (take n (for_peer q fs)) us"
    "length us = min n (length (for_peer q fs))" "None \<notin> set us" by blast
  have "send_items e q h' = send_items e q h @ zip (take (Suc n) (for_peer q (f # fs))) (Some t # us)"
    "length (Some t # us) = min (Suc n) (length (for_peer q (f # fs)))" "None \<notin> set (Some t # us)"
    using us it q by simp_all
  moreover have "for_peer q (f # out) = take (Suc n) (for_peer q (f # fs))" "for_peer q kept = drop (Suc n) (for_peer q (f # fs))"
    using f q by (simp_all add: fill_peer_def)
  ultimately show ?thesis unfolding fill_peer_def by blast
qed

lemma scan_send_new:
  assumes "windows_ok e h" and "length fpr = num_hosts e" and "\<forall>q < num_hosts e. 0 \<le> fpr ! q"
    and "\<forall>f \<in> set fs. unat (dst_id f) < num_hosts e"
  shows "\<exists>kept h' fpr' ts' out. scan (send_new e now) fs (h, fpr, ts) = Inr (kept, h', fpr', ts') \<and>
    fill_effect e h h' out \<and> set kept \<subseteq> set fs \<and>
    (\<forall>q < num_hosts e. fill_peer e q (quota e fpr h q) fs h h' out kept) \<and>
    set out \<subseteq> set fs"
  using assms
proof (induction fs arbitrary: h fpr ts)
  case Nil
  have "fill_effect e h h []"
    unfolding fill_effect_def using Nil.prems(1)
    by (intro conjI exI [of _ "send_window h"] exI [of _ "send_window_start h"] exI [of _ "send_window_length h"]) simp_all
  then show ?case
    by (intro exI [of _ "[]"] exI [of _ h] exI [of _ fpr] exI [of _ ts] exI [of _ "[]"]) (simp add: fill_peer_def)
next
  case (Cons f fs)
  let ?d = "unat (dst_id f)"
  have d: "?d < num_hosts e" using Cons.prems(4) by simp
  have lw: "cq_get_length_send ?d h \<le> window_size e"
    using Cons.prems(1) d by (simp add: windows_ok_def send_ok_def)
  show ?case
  proof (cases "cq_get_length_send ?d h = window_size e \<or> fpr ! ?d = 0")
    case True
    then have step: "send_new e now f (h, fpr, ts) = Inr (False, h, fpr, ts)"
      using d by (simp add: send_new_def Let_def)
    have q0: "quota e fpr h ?d = 0" using True by (auto simp: quota_def)
    have fs: "\<forall>f \<in> set fs. unat (dst_id f) < num_hosts e" using Cons.prems(4) by simp
    from Cons.IH [OF Cons.prems(1-3) fs, of ts] obtain kept h' fpr' ts' out where
      IH: "scan (send_new e now) fs (h, fpr, ts) = Inr (kept, h', fpr', ts')" "fill_effect e h h' out"
        "set kept \<subseteq> set fs" "set out \<subseteq> set fs"
        "\<forall>q < num_hosts e. fill_peer e q (quota e fpr h q) fs h h' out kept" by blast
    have "fill_peer e q (quota e fpr h q) (f # fs) h h' out (f # kept)" if "q < num_hosts e" for q
      using IH(5) [rule_format, OF that] q0 by (intro fill_peer_kept) auto
    with IH(1-4) step show ?thesis
      by - (rule exI [of _ "f # kept"], rule exI [of _ h'], rule exI [of _ fpr'],
          rule exI [of _ ts'], rule exI [of _ out], auto)
  next
    case False
    then have room: "cq_get_length_send ?d h < window_size e" and fd: "0 < fpr ! ?d"
      using lw Cons.prems(3) d by (auto simp: le_less)
    define t where "t = timeval_usecplus now (TIMEOUT_INTERVAL_USEC + ts)"
    define h1 where "h1 = cq_append_item_send e ?d f (Some t) (h\<lparr>outgoing_frames := outgoing_frames h @ [f]\<rparr>)"
    let ?fpr1 = "fpr[?d := fpr ! ?d - 1]"
    have step: "send_new e now f (h, fpr, ts) = Inr (True, h1, ?fpr1, ts + 10000)"
      using d False by (simp add: send_new_def Let_def h1_def t_def)
    note sn = send_new_step [where t = t, OF Cons.prems(1) refl d room, folded h1_def]
    have ok1: "windows_ok e h1" using sn(1) by (simp add: fill_effect_def)
    have len: "cq_get_length_send q h1 = cq_get_length_send q h + (if q = ?d then 1 else 0)" if "q < num_hosts e" for q
      using sn(2) sn(3) [OF that] length_send_items [of e q h1] by (cases "q = ?d") simp_all
    have quota: "quota e ?fpr1 h1 q = (if q = ?d then quota e fpr h q - 1 else quota e fpr h q)"
      "q = ?d \<Longrightarrow> 0 < quota e fpr h q" if "q < num_hosts e" for q
      using len [OF that] fd room Cons.prems(2) that by (auto simp: quota_def nat_diff_distrib min_def)
    have "\<forall>q < num_hosts e. 0 \<le> ?fpr1 ! q" using Cons.prems(2,3) fd d by (simp add: nth_list_update)
    moreover have "\<forall>f \<in> set fs. unat (dst_id f) < num_hosts e" "length ?fpr1 = num_hosts e"
      using Cons.prems(2,4) by simp_all
    ultimately obtain kept h' fpr' ts' out where
      IH: "scan (send_new e now) fs (h1, ?fpr1, ts + 10000) = Inr (kept, h', fpr', ts')" "fill_effect e h1 h' out"
        "set kept \<subseteq> set fs" "set out \<subseteq> set fs"
        "\<And>q. q < num_hosts e \<Longrightarrow> fill_peer e q (quota e ?fpr1 h1 q) fs h1 h' out kept"
      using Cons.IH [OF ok1, of ?fpr1 "ts + 10000"] by metis
    have eff: "fill_effect e h h' (f # out)" using fill_effect_trans [OF sn(1) IH(2)] by simp
    have "fill_peer e q (quota e fpr h q) (f # fs) h h' (f # out) kept" if q: "q < num_hosts e" for q
    proof (cases "q = ?d")
      case False
      then show ?thesis using fill_peer_other [OF IH(5) [OF q] False sn(3) [OF q False]] quota(1) [OF q] by simp
    next
      case True
      obtain n where n: "quota e fpr h q = Suc n" "quota e ?fpr1 h1 q = n"
        using quota [OF q] True by (cases "quota e fpr h q") auto
      show ?thesis using fill_peer_sent [OF IH(5) [OF q, unfolded n(2)] True] sn(2) True n(1) by simp
    qed
    with IH(1,3,4) step eff show ?thesis
      by - (rule exI [of _ kept], rule exI [of _ h'], rule exI [of _ fpr'], rule exI [of _ ts'],
          rule exI [of _ "f # out"], auto)
  qed
qed

section \<open>One turn of sending\<close>

lemma tx_window:
  assumes "tx_inv e sent base h" and "q < num_hosts e"
  shows "map fst (send_items e q h) = take (cq_get_length_send q h) (drop (base q) (sent q))"
    "cq_get_length_send q h \<le> window_size e" "base q + cq_get_length_send q h \<le> length (sent q)"
    "base q \<le> length (sent q)" "numbered (sent q)" "window_size e \<le> 127"
proof -
  have p: "map fst (send_items e q h) @ for_peer q (buffered_outframes h) = drop (base q) (sent q)"
    and "base q \<le> length (sent q)"
    using assms by (simp_all add: tx_inv_def pending_def for_peer_def)
  from p show w: "map fst (send_items e q h) = take (cq_get_length_send q h) (drop (base q) (sent q))"
    by (metis append_eq_conv_conj length_map length_send_items)
  show "cq_get_length_send q h \<le> window_size e" "base q \<le> length (sent q)" "numbered (sent q)" "window_size e \<le> 127"
    using assms by (auto simp: tx_inv_def windows_ok_def send_ok_def stream_def cfg_ok_def)
  from arg_cong [OF p, where f = length] \<open>base q \<le> length (sent q)\<close>
  show "base q + cq_get_length_send q h \<le> length (sent q)" by simp
qed

lemma tx_item:
  assumes "tx_inv e sent base h" and "q < num_hosts e" and "i < cq_get_length_send q h"
  shows "fst (send_items e q h ! i) = sent q ! (base q + i)" "seq_num (sent q ! (base q + i)) = of_nat (base q + i)"
proof -
  note w = tx_window [OF assms(1,2)]
  from arg_cong [OF w(1), where f = "\<lambda>xs. xs ! i"] assms(3) w(3)
  show "fst (send_items e q h ! i) = sent q ! (base q + i)" by simp
  from w(3,5) assms(3) show "seq_num (sent q ! (base q + i)) = of_nat (base q + i)"
    by (simp add: numbered_def)
qed

lemma of_nat_u8_inj: "i < 256 \<Longrightarrow> j < 256 \<Longrightarrow> (of_nat (b + i) :: u8) = of_nat (b + j) \<longleftrightarrow> i = j"
  using unat_u8_small by (metis add_left_cancel of_nat_add)

lemma tx_distinct:
  assumes "tx_inv e sent base h" and "q < num_hosts e"
  shows "distinct_seq e q h"
proof -
  note w = tx_window [OF assms]
  show ?thesis
    unfolding distinct_seq_def distinct_conv_nth
    using tx_item [OF assms] w(2,6) of_nat_u8_inj by (auto simp del: of_nat_add)
qed

lemma data_frame_dst: "data_frame i q f \<Longrightarrow> q < 256 \<Longrightarrow> unat (dst_id f) = q"
  by (simp add: data_frame_def unat_u8_small)

lemma tx_sent_dst:
  assumes "tx_inv e sent base h" and "q < num_hosts e" and "f \<in> set (sent q)"
  shows "unat (dst_id f) = q"
proof (rule data_frame_dst)
  show "data_frame (hid h) q f" using assms by (auto simp: tx_inv_def stream_def)
  show "q < 256" using assms by (auto simp: tx_inv_def windows_ok_def cfg_ok_def)
qed

lemma for_peer_same: "\<forall>f \<in> set fs. unat (dst_id f) = r \<Longrightarrow> for_peer q fs = (if q = r then fs else [])"
  by (auto simp: for_peer_def filter_id_conv filter_empty_conv)

lemma for_peer_concat:
  assumes "\<And>r f. r < k \<Longrightarrow> f \<in> set (g r) \<Longrightarrow> unat (dst_id f) = r"
  shows "for_peer q (concat (map g [0..<k])) = (if q < k then g q else [])"
  using assms
proof (induction k)
  case (Suc k)
  then show ?case using for_peer_same [of "g k" k q] by (auto simp: less_Suc_eq)
qed simp

text \<open>The number of frames that the congestion window of peer \<open>q\<close> allows.\<close>

definition allowance :: "host \<Rightarrow> nat \<Rightarrow> nat" where
  "allowance h q = nat \<lfloor>cwnd (cc h ! q)\<rfloor>"

lemma handle_outgoing_tx_inv:
  assumes inv: "tx_inv e sent base h" and cw: "\<forall>q < num_hosts e. 1 \<le> cwnd (cc h ! q)"
  shows "\<exists>h' out. handle_outgoing_frames e now h = Inr h' \<and> tx_inv e sent base h' \<and>
    (\<exists>W S L t n B. h' = h\<lparr>send_window := W, send_window_start := S, send_window_length := L, latest_timeout := t,
      ticks := n, outgoing_frames := outgoing_frames h @ out, buffered_outframes := B\<rparr>) \<and>
    (\<forall>f \<in> set out. unat (dst_id f) < num_hosts e) \<and>
    (\<forall>q < num_hosts e. let re = (if q = hid h then [] else take (allowance h q) (unscheduled (send_items e q h)));
        n = min (allowance h q - length re) (window_size e - cq_get_length_send q h)
      in for_peer q out = re @ take n (for_peer q (buffered_outframes h)) \<and>
         for_peer q (buffered_outframes h') = drop n (for_peer q (buffered_outframes h)))"
proof -
  have ok: "windows_ok e h" and hid: "hid h < num_hosts e" using inv by (simp_all add: tx_inv_def)
  have lcc: "length (cc h) = num_hosts e" using ok by (simp add: windows_ok_def shape_def)
  define fpr where "fpr = map (\<lambda>c. trunc_int (cwnd c)) (cc h)"
  define now1 where "now1 = not_before_latest now h"
  have fpr: "length fpr = num_hosts e" "\<And>q. q < num_hosts e \<Longrightarrow> nat (fpr ! q) = allowance h q"
    "\<forall>q < num_hosts e. 0 \<le> fpr ! q"
    using cw lcc by (auto simp: fpr_def trunc_int_def allowance_def intro: order_trans)
  from resend_all [OF ok fpr(1,3) _ order_refl] tx_distinct [OF inv] obtain h1 fpr1 where
    h1: "rfold (resend_peer e) [0..<num_hosts e] (h, fpr) = Inr (h1, fpr1)"
      "timer_effect e h h1 (concat (map (resends e fpr h) [0..<num_hosts e]))" "cc h1 = cc h" "length fpr1 = num_hosts e"
      "\<forall>q < num_hosts e. fpr1 ! q = fpr ! q - int (length (resends e fpr h q))"
    by auto
  define out1 where "out1 = concat (map (resends e fpr h) [0..<num_hosts e])"
  have inv1: "tx_inv e sent base h1" by (rule timer_effect_tx_inv [OF h1(2) inv])
  have ok1: "windows_ok e h1" using inv1 by (simp add: tx_inv_def)
  have re: "resends e fpr h q = (if q = hid h then [] else take (allowance h q) (unscheduled (send_items e q h)))"
    "length (resends e fpr h q) \<le> allowance h q" if "q < num_hosts e" for q
    using fpr(2) [OF that] by (simp_all add: resends_def)
  have buf1: "buffered_outframes h1 = buffered_outframes h" using h1(2) by (auto simp: timer_effect_def)
  have "0 \<le> fpr1 ! q" "nat (fpr1 ! q) = allowance h q - length (resends e fpr h q)" if "q < num_hosts e" for q
  proof -
    have "fpr ! q = int (allowance h q)" using fpr(2) [OF that] fpr(3) that by (metis int_nat_eq)
    then show "0 \<le> fpr1 ! q" "nat (fpr1 ! q) = allowance h q - length (resends e fpr h q)"
      using h1(5) that re(2) [OF that] by (simp_all add: nat_diff_distrib)
  qed
  then have f1: "\<forall>q < num_hosts e. 0 \<le> fpr1 ! q"
    "\<And>q. q < num_hosts e \<Longrightarrow> quota e fpr1 h1 q =
      min (allowance h q - length (resends e fpr h q)) (window_size e - cq_get_length_send q h)"
    by (simp_all add: quota_def timer_effect_length [OF h1(2)])
  have "\<forall>f \<in> set (buffered_outframes h). unat (dst_id f) < num_hosts e" using inv by (simp add: tx_inv_def)
  from scan_send_new [OF ok1 h1(4) f1(1) this, of now1 0] obtain kept h2 fpr2 ts out2 where
    h2: "scan (send_new e now1) (buffered_outframes h) (h1, fpr1, 0) = Inr (kept, h2, fpr2, ts)"
      "fill_effect e h1 h2 out2" "set kept \<subseteq> set (buffered_outframes h)"
      "\<forall>q < num_hosts e. fill_peer e q (quota e fpr1 h1 q) (buffered_outframes h) h1 h2 out2 kept"
      "set out2 \<subseteq> set (buffered_outframes h)" by blast
  define h' where "h' = h2\<lparr>buffered_outframes := kept, latest_timeout := timeval_usecplus now1 ts\<rparr>"
  have run: "handle_outgoing_frames e now h = Inr h'"
    using h1(1) h2(1) buf1 by (simp add: handle_outgoing_frames_def Let_def h'_def now1_def fpr_def)
  obtain W t n C where e1: "h1 = h\<lparr>send_window := W, latest_timeout := t, ticks := n, cc := C,
      outgoing_frames := outgoing_frames h @ out1\<rparr>" using h1(2) by (auto simp: timer_effect_def out1_def)
  then have "C = cc h" using h1(3) by simp
  obtain W' S L where e2: "h2 = h1\<lparr>send_window := W', send_window_start := S, send_window_length := L,
      outgoing_frames := outgoing_frames h1 @ out2\<rparr>" using h2(2) by (auto simp: fill_effect_def)
  have h': "h' = h\<lparr>send_window := W', send_window_start := S, send_window_length := L,
      latest_timeout := timeval_usecplus now1 ts, ticks := n, outgoing_frames := outgoing_frames h @ out1 @ out2,
      buffered_outframes := kept\<rparr>"
    by (simp add: h'_def e2 e1 \<open>C = cc h\<close>)
  have items: "send_items e q h' = send_items e q h2" for q
    unfolding h'_def by (rule send_queue_cong) simp_all
  have ok': "windows_ok e h'"
    unfolding h'_def using h2(2) by (subst windows_ok_cong [of _ h2]) (simp_all add: fill_effect_def)
  have pend: "pending e q h' = pending e q h1" if q: "q < num_hosts e" for q
  proof -
    from h2(4) q obtain us where us: "send_items e q h2 = send_items e q h1 @
        zip (take (quota e fpr1 h1 q) (for_peer q (buffered_outframes h))) us"
      "length us = min (quota e fpr1 h1 q) (length (for_peer q (buffered_outframes h)))"
      "for_peer q kept = drop (quota e fpr1 h1 q) (for_peer q (buffered_outframes h))"
      unfolding fill_peer_def by blast
    then show ?thesis
      by (simp add: pending_def items buf1 flip: for_peer_def) (simp add: h' flip: for_peer_def)
  qed
  have "tx_inv e sent base h'"
    using inv1 ok' pend h2(3) hid unfolding tx_inv_def by (auto simp: h' e1)
  moreover have "unat (dst_id f) = r" if "r < num_hosts e" "f \<in> set (resends e fpr h r)" for r f
  proof (rule tx_sent_dst [OF inv that(1)])
    have "f \<in> set (map fst (send_items e r h))"
      using that(2) unscheduled_subset [of "send_items e r h"] by (auto simp: resends_def split: if_splits dest: in_set_takeD)
    then show "f \<in> set (sent r)"
      using tx_window(1) [OF inv that(1)] by (auto dest: in_set_takeD in_set_dropD)
  qed
  note dst = this
  have "for_peer q out1 = resends e fpr h q" if "q < num_hosts e" for q
    unfolding out1_def using for_peer_concat [OF dst] that by simp
  moreover have "\<forall>f \<in> set (out1 @ out2). unat (dst_id f) < num_hosts e"
    using dst h2(5) inv by (auto simp: out1_def tx_inv_def)
  moreover have "\<exists>W S L t n B. h' = h\<lparr>send_window := W, send_window_start := S, send_window_length := L,
      latest_timeout := t, ticks := n, outgoing_frames := outgoing_frames h @ out1 @ out2, buffered_outframes := B\<rparr>"
    unfolding h' by (rule exI [of _ W'], rule exI [of _ S], rule exI [of _ L],
        rule exI [of _ "timeval_usecplus now1 ts"], rule exI [of _ n], rule exI [of _ kept]) (rule refl)
  moreover have "buffered_outframes h' = kept" by (simp add: h')
  ultimately show ?thesis
    using run h2(4) f1(2) re(1)
    by - (rule exI [of _ h'], rule exI [of _ "out1 @ out2"], simp add: fill_peer_def Let_def)
qed

section \<open>Properties\<close>

text \<open>
  C17: a retransmission. With an empty window the code reads a pointer it never set; otherwise it sends the frame
  with the given number again, or nothing if there is none, and gives the slot it ended on (in the
  second case the last one) a new timeout; no other slot and no frame of the window changes.
\<close>

theorem retransmit_effect:
  assumes "windows_ok e h" and "q < num_hosts e"
  shows "if cq_get_length_send q h = 0 then retransmit_frame e q seq h = Inl Uninitialised
    else \<exists>h' t i out. retransmit_frame e q seq h = Inr h' \<and> outgoing_frames h' = outgoing_frames h @ out \<and>
      (case find_slot e q seq h of Some j \<Rightarrow> i = j \<and> out = [fst (send_items e q h ! j)]
       | None \<Rightarrow> i = cq_get_length_send q h - 1 \<and> out = []) \<and>
      send_items e q h' = (send_items e q h)[i := (fst (send_items e q h ! i), Some t)]"
proof (cases "cq_get_length_send q h = 0")
  case True
  then show ?thesis using retransmit_empty by simp
next
  case False
  with retransmit_spec [OF assms, of seq] show ?thesis by (fastforce simp: timer_effect_def)
qed

theorem retransmit_effect_witness: "retransmit_frame small_env 1 0 (init_host small_env 0) = Inl Uninitialised"
  using retransmit_effect [OF init_windows_ok [OF small_env_cfg], of 1 0 0]
  by (simp add: small_env_def cq_get_length_send_def init_host_def)

text \<open>
  The timeout handler. A peer whose window holds a frame that is due falls back to slow start with
  a window of one frame and half of the old window as threshold, and all its frames become due for
  retransmission; the other peers, the frames in the windows and the outgoing queue are untouched.
\<close>

theorem timeouts_effect:
  assumes "windows_ok e h" and "q < num_hosts e"
  shows "let h' = handle_timedout_frames e now h in windows_ok e h' \<and> outgoing_frames h' = outgoing_frames h \<and>
    (if q \<noteq> hid h \<and> (\<exists>x \<in> set (send_items e q h). \<exists>t. snd x = Some t \<and> usecs t \<le> usecs now)
     then send_items e q h' = map (\<lambda>x. (fst x, None)) (send_items e q h) \<and>
       cc h' ! q = (cc h ! q)\<lparr>cstate := cc_SS, ssthresh := dround e (cwnd (cc h ! q) / 2), cwnd := 1\<rparr>
     else send_items e q h' = send_items e q h \<and> cc h' ! q = cc h ! q)"
proof -
  have "timed_out e now q h \<longleftrightarrow> q \<noteq> hid h \<and> (\<exists>x \<in> set (send_items e q h). \<exists>t. snd x = Some t \<and> usecs t \<le> usecs now)"
    unfolding timed_out_def by (metis in_set_conv_nth length_send_items)
  with handle_timedout_spec [OF assms(1), of now] assms(2) show ?thesis
    by (auto simp: Let_def timer_effect_def cc_timeout_def)
qed

theorem timeouts_effect_witness:
  "cc (handle_timedout_frames small_env \<lparr>tv_sec = 9, tv_usec = 0\<rparr> (init_host small_env 0)) ! 1 = cc (init_host small_env 0) ! 1"
  using timeouts_effect [OF init_windows_ok [OF small_env_cfg, of 0], where q = 1 and now = "\<lparr>tv_sec = 9, tv_usec = 0\<rparr>"]
  by (simp add: Let_def small_env_def send_items_def send_slots_def window_def cq_get_length_send_def init_host_def)

lemma take_room: "length xs \<le> a \<Longrightarrow> length (xs @ take (min (a - length xs) m) ys) \<le> a"
  by simp

text \<open>
  C18: the outgoing handler sends, to each peer, first the window's frames that are due, then new
  frames in the order they were queued, together at most \<open>\<lfloor>cwnd\<rfloor>\<close> and never more than the window has
  room for; what it does not send stays queued in the same order.
\<close>

theorem outgoing_bounded_fifo:
  assumes "tx_inv e sent base h" and "\<forall>r < num_hosts e. 1 \<le> cwnd (cc h ! r)" and "q < num_hosts e"
  shows "\<exists>h' out. handle_outgoing_frames e now h = Inr h' \<and> outgoing_frames h' = outgoing_frames h @ out \<and>
    (let due = (if q = hid h then [] else take (nat \<lfloor>cwnd (cc h ! q)\<rfloor>) (unscheduled (send_items e q h)));
         n = min (nat \<lfloor>cwnd (cc h ! q)\<rfloor> - length due) (window_size e - cq_get_length_send q h)
     in for_peer q out = due @ take n (for_peer q (buffered_outframes h)) \<and>
        for_peer q (buffered_outframes h') = drop n (for_peer q (buffered_outframes h)) \<and>
        length (for_peer q out) \<le> nat \<lfloor>cwnd (cc h ! q)\<rfloor>)"
proof -
  from handle_outgoing_tx_inv [OF assms(1,2), of now] obtain h' out W S L t n B where
    r: "handle_outgoing_frames e now h = Inr h'"
      "h' = h\<lparr>send_window := W, send_window_start := S, send_window_length := L, latest_timeout := t,
        ticks := n, outgoing_frames := outgoing_frames h @ out, buffered_outframes := B\<rparr>"
      "let re = (if q = hid h then [] else take (allowance h q) (unscheduled (send_items e q h)));
        n = min (allowance h q - length re) (window_size e - cq_get_length_send q h)
      in for_peer q out = re @ take n (for_peer q (buffered_outframes h)) \<and>
         for_peer q (buffered_outframes h') = drop n (for_peer q (buffered_outframes h))"
    using assms(3) by blast
  have "outgoing_frames h' = outgoing_frames h @ out" by (simp add: r(2))
  moreover have "length (if q = hid h then [] else take (allowance h q) (unscheduled (send_items e q h))) \<le> allowance h q"
    by simp
  ultimately show ?thesis
    using r(1,3) take_room unfolding Let_def allowance_def by (metis (no_types, lifting))
qed

theorem outgoing_bounded_fifo_witness:
  "\<exists>h' out. handle_outgoing_frames small_env \<lparr>tv_sec = 0, tv_usec = 0\<rparr> (init_host small_env 0) = Inr h' \<and>
     outgoing_frames h' = out \<and> length (for_peer 1 out) \<le> 1"
proof -
  have inv: "tx_inv small_env (\<lambda>_. []) (\<lambda>_. 0) (init_host small_env 0)"
    by (rule tx_inv_init [OF small_env_cfg]) (simp add: small_env_def)
  have c: "\<forall>r < num_hosts small_env. cwnd (cc (init_host small_env 0) ! r) = 1"
    by (simp add: init_host_def small_env_def)
  have n: "num_hosts small_env = 2" by (simp add: small_env_def)
  from outgoing_bounded_fifo [OF inv, of 1 "\<lparr>tv_sec = 0, tv_usec = 0\<rparr>"] c n show ?thesis
    by (auto simp: Let_def init_host_def)
qed

end
