(* ===== verification/Acks.thy ===== *)
theory Acks
  imports SenderInvariant
begin

text \<open>
  Acknowledgements and congestion control of \<^verbatim>\<open>handle_incoming_acks\<close>: a cumulative
  acknowledgement drops the prefix of the window up to the acknowledged frame, the congestion
  window stays at one frame at least, and the one way in which the handler can fail.
\<close>

section \<open>Congestion control\<close>

text \<open>What the proofs use of the rounding of doubles.\<close>

definition rounding_ok :: "env \<Rightarrow> bool" where
  "rounding_ok e \<longleftrightarrow> (\<forall>x y. x \<le> y \<longrightarrow> dround e x \<le> dround e y) \<and> dround e 0 = 0 \<and>
     (\<forall>k :: nat. k \<le> 8 \<longrightarrow> dround e (of_nat k) = of_nat k) \<and> (\<forall>x. dround e (dround e x) = dround e x)"

definition cc_inv :: "congestion_control \<Rightarrow> bool" where
  "cc_inv c \<longleftrightarrow> 1 \<le> cwnd c \<and> (cstate c = cc_FRFT \<longrightarrow> 2 \<le> ssthresh c)"

text \<open>The effect of \<open>update_dup_acks\<close> on the congestion control of the peer.\<close>

definition dup_cc :: "env \<Rightarrow> u8 \<Rightarrow> u8 \<Rightarrow> congestion_control \<Rightarrow> congestion_control" where
  "dup_cc e latest seq c =
     (if seq_num_diff latest seq > 0 then c\<lparr>dup_acks := 0\<rparr>
      else if latest = seq then
        (let c = c\<lparr>dup_acks := dup_acks c + 1\<rparr>
         in if cstate c = cc_FRFT then c\<lparr>cwnd := dround e (cwnd c + 1)\<rparr> else c)
      else c)"

lemma dround_ge_1: "rounding_ok e \<Longrightarrow> 1 \<le> x \<Longrightarrow> 1 \<le> dround e x"
proof -
  assume r: "rounding_ok e" and "1 \<le> x"
  then have "dround e 1 \<le> dround e x" by (simp add: rounding_ok_def)
  moreover have "dround e (of_nat 1) = of_nat 1" using r unfolding rounding_ok_def by (metis one_le_numeral)
  ultimately show ?thesis by simp
qed

lemma dround_ge_0: "rounding_ok e \<Longrightarrow> 0 \<le> x \<Longrightarrow> 0 \<le> dround e x"
  unfolding rounding_ok_def by metis

lemma dup_cc_inv: "rounding_ok e \<Longrightarrow> cc_inv c \<Longrightarrow> cc_inv (dup_cc e latest seq c)"
  using dround_ge_1 [of e "cwnd c + 1"] by (auto simp: dup_cc_def cc_inv_def Let_def)

lemma cc_on_ack_inv:
  assumes r: "rounding_ok e" and c: "cc_inv c" and run: "cc_on_ack e c = (c', fr)"
  shows "cc_inv c'"
proof -
  have "1 \<le> dround e (cwnd c + 1)" using c by (intro dround_ge_1 [OF r]) (simp add: cc_inv_def)
  moreover have "0 \<le> dround e (1 / cwnd c)" using c by (intro dround_ge_0 [OF r]) (simp add: cc_inv_def)
  then have "1 \<le> dround e (cwnd c + dround e (1 / cwnd c))"
    using c by (intro dround_ge_1 [OF r]) (simp add: cc_inv_def)
  moreover have "1 \<le> dround e (max_double x 2 + 3)" for x
    by (intro dround_ge_1 [OF r]) (simp add: max_double_max)
  ultimately show ?thesis
    using c run by (auto simp: cc_on_ack_def cc_inv_def Let_def max_double_max split: if_splits)
qed

lemma cc_timeout_inv: "cc_inv (cc_timeout e c)"
  by (simp add: cc_inv_def cc_timeout_def)

text \<open>A fast retransmission happens on the third duplicate in congestion avoidance, and only then.\<close>

lemma fast_retransmit_iff: "snd (cc_on_ack e c) \<longleftrightarrow> cstate c = cc_AIMD \<and> dup_acks c = 3"
  by (cases "cstate c") (auto simp: cc_on_ack_def Let_def)

section \<open>Cumulative acknowledgements\<close>

text \<open>The window holds consecutive numbers.\<close>

definition consecutive :: "env \<Rightarrow> nat \<Rightarrow> host \<Rightarrow> bool" where
  "consecutive e q h \<longleftrightarrow>
     (\<forall>i < cq_get_length_send q h. seq_num (fst (send_items e q h ! i)) = seq_num (fst (send_items e q h ! 0)) + of_nat i)"

lemma tx_consecutive:
  assumes "tx_inv e sent base h" and "q < num_hosts e"
  shows "consecutive e q h"
proof -
  have "seq_num (fst (send_items e q h ! i)) = of_nat (base q) + of_nat i" if "i < cq_get_length_send q h" for i
    using tx_item [OF assms that] by simp
  moreover from this [of 0] have "0 < cq_get_length_send q h \<Longrightarrow> seq_num (fst (send_items e q h ! 0)) = of_nat (base q)"
    by simp
  ultimately show ?thesis unfolding consecutive_def by (metis gr_implies_not0 not_gr_zero)
qed

text \<open>The test for an old number is redundant: such a number is not in the window.\<close>

lemma seq_num_diff_add:
  assumes "k \<le> 127"
  shows "0 \<le> seq_num_diff x (x + of_nat k)"
  using seq_num_diff_nat [OF assms, of x] by simp

lemma window_on_ack_trim:
  assumes ok: "windows_ok e h" and q: "q < num_hosts e" and cons: "consecutive e q h"
  shows "window_on_ack e q seq h = sw.trim e (\<lambda>x. seq_num (fst x) = seq) q h"
proof -
  let ?items = "send_items e q h"
  have get: "slot_item (cq_get_item_send e q i h) = ?items ! i" if "i < cq_get_length_send q h" for i
    using that by (simp add: send_items_nth)
  have trim: "sw.trim e (\<lambda>x. seq_num (fst x) = seq) q h =
      (case find_slot e q seq h of None \<Rightarrow> h | Some j \<Rightarrow> cq_ndequeue_send e q (Suc j) h)"
    unfolding sw.trim_def find_slot_def by (simp add: slot_item_def)
  show ?thesis
  proof (cases "cq_get_length_send q h = 0 \<or>
      seq_num_diff (seq_num (the (sframe (cq_get_item_send e q 0 h)))) seq < 0")
    case True
    have "seq_num (fst (?items ! i)) \<noteq> seq" if i: "i < cq_get_length_send q h" for i
    proof
      assume e: "seq_num (fst (?items ! i)) = seq"
      have "i \<le> 127" using ok q i by (auto simp: windows_ok_def cfg_ok_def send_ok_def)
      moreover have "seq = seq_num (the (sframe (cq_get_item_send e q 0 h))) + of_nat i"
      proof -
        have "fst (?items ! 0) = the (sframe (cq_get_item_send e q 0 h))"
          using get [of 0] i by (metis fst_conv slot_item_def gr_zeroI less_nat_zero_code)
        then show ?thesis using cons i e unfolding consecutive_def by metis
      qed
      ultimately show False
        using True i seq_num_diff_add [of i "seq_num (the (sframe (cq_get_item_send e q 0 h)))"] by auto
    qed
    then have "find_slot e q seq h = None" by (simp add: find_slot_items find_upt_None_iff)
    with True trim show ?thesis by (simp add: window_on_ack_def)
  next
    case False
    with trim show ?thesis by (simp add: window_on_ack_def split: option.split)
  qed
qed

text \<open>The new base of the stream after an acknowledgement of number \<open>seq\<close>.\<close>

definition ack_base :: "nat \<Rightarrow> nat \<Rightarrow> u8 \<Rightarrow> nat" where
  "ack_base b len seq = (case find (\<lambda>j. of_nat (b + j) = seq) [0..<len] of None \<Rightarrow> b | Some j \<Rightarrow> b + j + 1)"

lemma ack_base_bounds: "b \<le> ack_base b len seq" "ack_base b len seq \<le> b + len"
  by (auto simp: ack_base_def find_Some_iff split: option.split)

text \<open>If the number says that \<open>k\<close> frames have arrived, these are the frames that leave.\<close>

lemma ack_base_cumulative:
  assumes "len \<le> 127" and "k \<le> b + len" and "b \<le> k + 128"
  shows "ack_base b len (of_nat k - 1) = max b k"
proof (cases "b < k")
  case True
  have "(of_nat (b + j) :: u8) = of_nat k - 1 \<longleftrightarrow> j = k - 1 - b" if "j < len" for j
  proof -
    have "(of_nat k - 1 :: u8) = of_nat (b + (k - 1 - b))" using True by (simp add: of_nat_diff)
    then show ?thesis using of_nat_u8_inj [of j "k - 1 - b" b] that assms True by auto
  qed
  then have "find (\<lambda>j. of_nat (b + j) = (of_nat k - 1 :: u8)) [0..<len] = Some (k - 1 - b)"
    using True assms by (intro find_upt_Some) auto
  with True show ?thesis by (simp add: ack_base_def)
next
  case False
  have "(of_nat (b + j) :: u8) \<noteq> of_nat k - 1" if "j < len" for j
  proof
    assume "(of_nat (b + j) :: u8) = of_nat k - 1"
    then have "(of_nat (b + j + 1 - k) :: u8) = 0" using False by (simp add: of_nat_diff)
    then have "unat (of_nat (b + j + 1 - k) :: u8) = 0" by simp
    moreover have "b + j + 1 - k < 256" "0 < b + j + 1 - k" using that assms False by auto
    ultimately show False using unat_u8_small [of "b + j + 1 - k"] by linarith
  qed
  then have "find (\<lambda>j. of_nat (b + j) = (of_nat k - 1 :: u8)) [0..<len] = None"
    by (simp add: find_upt_None_iff)
  with False show ?thesis by (simp add: ack_base_def)
qed

lemma drop_fun_upd: "r \<noteq> q \<Longrightarrow> (f(q := x)) r = f r"
  by simp

lemma trim_tx_inv:
  fixes seq :: u8
  assumes inv: "tx_inv e sent base h" and q: "q < num_hosts e"
  defines "h' \<equiv> sw.trim e (\<lambda>x. seq_num (fst x) = seq) q h"
  shows "tx_inv e sent (base(q := ack_base (base q) (cq_get_length_send q h) seq)) h'"
    and "\<exists>W S L. h' = h\<lparr>send_window := W, send_window_start := S, send_window_length := L\<rparr>"
    and "\<And>r. r < num_hosts e \<Longrightarrow> r \<noteq> q \<Longrightarrow> send_items e r h' = send_items e r h"
proof -
  let ?items = "send_items e q h" and ?len = "cq_get_length_send q h"
  have ok: "windows_ok e h" using inv by (simp add: tx_inv_def)
  have fs: "find_slot e q seq h = find (\<lambda>j. of_nat (base q + j) = seq) [0..<?len]"
    unfolding find_slot_items by (rule find_cong) (use tx_item [OF inv q] in auto)
  have h': "h' = (case find (\<lambda>j. of_nat (base q + j) = seq) [0..<?len] of None \<Rightarrow> h
      | Some j \<Rightarrow> cq_ndequeue_send e q (Suc j) h)"
    unfolding fs [symmetric] h'_def sw.trim_def find_slot_def by (simp add: slot_item_def)
  show same: "\<exists>W S L. h' = h\<lparr>send_window := W, send_window_start := S, send_window_length := L\<rparr>"
  proof (cases "find (\<lambda>j. of_nat (base q + j) = seq) [0..<?len]")
    case None
    then show ?thesis
      unfolding h' by - (rule exI [of _ "send_window h"], rule exI [of _ "send_window_start h"],
        rule exI [of _ "send_window_length h"], simp)
  next
    case (Some j)
    from ndequeue_effect(5) [OF ok q refl, of "Suc j"] obtain W L S where
      "cq_ndequeue_send e q (Suc j) h = h\<lparr>send_window := W, send_window_length := L, send_window_start := S\<rparr>" by blast
    with Some show ?thesis
      unfolding h' by - (rule exI [of _ W], rule exI [of _ S], rule exI [of _ L], simp)
  qed
  show other: "send_items e r h' = send_items e r h" if "r < num_hosts e" "r \<noteq> q" for r
    unfolding h'_def using sw.trim_other [OF ok, of q r] q that by simp
  have ok': "windows_ok e h'" unfolding h'_def using sw.ok_trim [OF ok] q by simp
  have items: "send_items e q h' = drop (ack_base (base q) ?len seq - base q) ?items"
    unfolding h' ack_base_def using ndequeue_items [OF ok q] by (simp split: option.split)
  obtain W S L where hh: "h' = h\<lparr>send_window := W, send_window_start := S, send_window_length := L\<rparr>"
    using same by blast
  have "pending e q h' = drop (ack_base (base q) ?len seq - base q) (pending e q h)"
    using ack_base_bounds [of "base q" ?len seq]
    by (simp add: pending_def items drop_map) (simp add: hh)
  then have "pending e q h' = drop (ack_base (base q) ?len seq) (sent q)"
    using inv q ack_base_bounds(1) [of "base q" ?len seq] by (simp add: tx_inv_def)
  moreover have "pending e r h' = pending e r h" if "r < num_hosts e" "r \<noteq> q" for r
    using other [OF that] by (simp add: pending_def) (simp add: hh)
  moreover have "ack_base (base q) ?len seq \<le> length (sent q)"
    using ack_base_bounds(2) [of "base q" ?len seq] tx_window(3) [OF inv q] by simp
  ultimately show "tx_inv e sent (base(q := ack_base (base q) ?len seq)) h'"
    using inv ok' unfolding tx_inv_def by (auto simp: hh)
qed

section \<open>One acknowledgement\<close>

definition ack_effect :: "env \<Rightarrow> host \<Rightarrow> host \<Rightarrow> frame list \<Rightarrow> bool" where
  "ack_effect e h h' out \<longleftrightarrow> (\<exists>W S L t n C D. h' = h\<lparr>send_window := W, send_window_start := S,
     send_window_length := L, latest_timeout := t, ticks := n, cc := C, dup_acks_seq_num := D,
     outgoing_frames := outgoing_frames h @ out\<rparr>)"

lemma ack_effectI:
  assumes "hid h' = hid h" "awaiting_ack h' = awaiting_ack h" "active h' = active h" "round_trip_num h' = round_trip_num h"
    "csv_out h' = csv_out h" "input_cmdlist h' = input_cmdlist h" "incoming_frames h' = incoming_frames h"
    "buffered_outframes h' = buffered_outframes h" "recv_window h' = recv_window h"
    "recv_window_start h' = recv_window_start h" "recv_lfr h' = recv_lfr h" "recv_msg h' = recv_msg h"
    "curr_seq_num h' = curr_seq_num h" "mallocs h' = mallocs h" "outgoing_frames h' = outgoing_frames h @ out"
  shows "ack_effect e h h' out"
  unfolding ack_effect_def
  by (intro exI [of _ "send_window h'"] exI [of _ "send_window_start h'"] exI [of _ "send_window_length h'"]
      exI [of _ "latest_timeout h'"] exI [of _ "ticks h'"] exI [of _ "cc h'"] exI [of _ "dup_acks_seq_num h'"])
    (cases h; cases h'; use assms in simp)

lemma ack_effect_refl: "ack_effect e h h []"
  by (rule ack_effectI) simp_all

lemma ack_effect_trans:
  assumes "ack_effect e h h1 out1" and "ack_effect e h1 h2 out2"
  shows "ack_effect e h h2 (out1 @ out2)"
proof -
  from assms(1) obtain W S L t n C D where h1: "h1 = h\<lparr>send_window := W, send_window_start := S,
     send_window_length := L, latest_timeout := t, ticks := n, cc := C, dup_acks_seq_num := D,
     outgoing_frames := outgoing_frames h @ out1\<rparr>" unfolding ack_effect_def by blast
  from assms(2) obtain W S L t n C D where h2: "h2 = h1\<lparr>send_window := W, send_window_start := S,
     send_window_length := L, latest_timeout := t, ticks := n, cc := C, dup_acks_seq_num := D,
     outgoing_frames := outgoing_frames h1 @ out2\<rparr>" unfolding ack_effect_def by blast
  show ?thesis by (rule ack_effectI) (simp_all add: h2 h1)
qed

lemma ack_effect_fields:
  assumes "ack_effect e h h' out"
  shows "hid h' = hid h" "buffered_outframes h' = buffered_outframes h" "incoming_frames h' = incoming_frames h"
    "input_cmdlist h' = input_cmdlist h" "outgoing_frames h' = outgoing_frames h @ out"
    "rx_view e q h' = rx_view e q h" "curr_seq_num h' = curr_seq_num h" "mallocs h' = mallocs h"
    "recv_window_start h' = recv_window_start h" "awaiting_ack h' = awaiting_ack h" "active h' = active h"
proof -
  from assms obtain W S L t n C D where h': "h' = h\<lparr>send_window := W, send_window_start := S,
     send_window_length := L, latest_timeout := t, ticks := n, cc := C, dup_acks_seq_num := D,
     outgoing_frames := outgoing_frames h @ out\<rparr>" unfolding ack_effect_def by blast
  show "hid h' = hid h" "buffered_outframes h' = buffered_outframes h" "incoming_frames h' = incoming_frames h"
    "input_cmdlist h' = input_cmdlist h" "outgoing_frames h' = outgoing_frames h @ out"
    "curr_seq_num h' = curr_seq_num h" "mallocs h' = mallocs h" "recv_window_start h' = recv_window_start h"
    "awaiting_ack h' = awaiting_ack h" "active h' = active h"
    by (simp_all add: h')
  have "recv_items e q h' = recv_items e q h" by (rule recv_queue_cong) (simp_all add: h')
  then show "rx_view e q h' = rx_view e q h" by (simp add: rx_view_def) (simp add: h')
qed

text \<open>The congestion control that an acknowledgement of number \<open>seq\<close> leads to.\<close>

definition cc_step :: "env \<Rightarrow> u8 \<Rightarrow> nat \<Rightarrow> host \<Rightarrow> congestion_control \<times> bool" where
  "cc_step e seq q h = cc_on_ack e (dup_cc e (dup_acks_seq_num h ! q) seq (cc h ! q))"

lemma update_dup_acks_spec:
  assumes "windows_ok e h" and "q < num_hosts e"
  shows "\<exists>h1 st1 D. update_dup_acks e q seq (h, st) = (h1, st1) \<and>
    h1 = h\<lparr>cc := (cc h)[q := dup_cc e (dup_acks_seq_num h ! q) seq (cc h ! q)], dup_acks_seq_num := D\<rparr> \<and>
    length D = num_hosts e"
proof -
  let ?D = "if seq_num_diff (dup_acks_seq_num h ! q) seq > 0 then (dup_acks_seq_num h)[q := seq] else dup_acks_seq_num h"
  have "fst (update_dup_acks e q seq (h, st)) =
      h\<lparr>cc := (cc h)[q := dup_cc e (dup_acks_seq_num h ! q) seq (cc h ! q)], dup_acks_seq_num := ?D\<rparr>"
    by (auto simp: update_dup_acks_def upd_cc_def dup_cc_def Let_def)
  moreover have "length ?D = num_hosts e" using assms by (simp add: windows_ok_def shape_def)
  ultimately show ?thesis
    by - (rule exI, rule exI [of _ "snd (update_dup_acks e q seq (h, st))"], rule exI [of _ ?D], intro conjI,
        subst prod.collapse [symmetric], rule refl, simp_all)
qed

text \<open>Everything that one acknowledgement does, or the way it fails.\<close>

definition on_ack :: "env \<Rightarrow> frame \<Rightarrow> nat \<Rightarrow> host \<times> ack_stats \<Rightarrow> (bool \<times> host \<times> ack_stats) res \<Rightarrow> bool" where
  "on_ack e f q = (\<lambda>(h, st) r.
     if snd (cc_step e (seq_num f) q h) \<and> cq_get_length_send q h = 0 then r = Inl Uninitialised
     else \<exists>h' st' out. r = Inr (True, h', st') \<and> ack_effect e h h' out \<and>
       cc h' = (cc h)[q := fst (cc_step e (seq_num f) q h)] \<and>
       set out \<subseteq> fst ` set (send_items e q h) \<and> (\<not> snd (cc_step e (seq_num f) q h) \<longrightarrow> out = []))"

text \<open>The retransmission that congestion control may ask for.\<close>

lemma retransmit_asked:
  assumes inv: "tx_inv e sent base h" and q: "q < num_hosts e"
  shows "if fr \<and> cq_get_length_send q h = 0 then (if fr then retransmit_frame e q seq h else Inr h) = Inl Uninitialised
    else \<exists>h' out. (if fr then retransmit_frame e q seq h else Inr h) = Inr h' \<and> ack_effect e h h' out \<and> cc h' = cc h \<and>
      set out \<subseteq> fst ` set (send_items e q h) \<and> (\<not> fr \<longrightarrow> out = []) \<and> tx_inv e sent base h' \<and>
      cq_get_length_send q h' = cq_get_length_send q h \<and>
      (\<forall>r < num_hosts e. r \<noteq> q \<longrightarrow> send_items e r h' = send_items e r h)"
proof (cases "fr \<and> cq_get_length_send q h \<noteq> 0")
  case False
  then show ?thesis using inv ack_effect_refl [of e h] retransmit_empty [of q h] by auto
next
  case True
  have ok: "windows_ok e h" using inv by (simp add: tx_inv_def)
  from retransmit_spec [OF ok q, of seq] True obtain h' i out where
    r': "retransmit_frame e q seq h = Inr h'" "timer_effect e h h' out" "cc h' = cc h"
      "case find_slot e q seq h of Some j \<Rightarrow> i = j \<and> out = [fst (send_items e q h ! j)]
       | None \<Rightarrow> i = cq_get_length_send q h - 1 \<and> out = []" by blast
  have "j < cq_get_length_send q h" if "find_slot e q seq h = Some j" for j
    using that by (auto simp: find_slot_def find_Some_iff)
  then have "set out \<subseteq> fst ` set (send_items e q h)"
    using r'(4) nth_mem [of _ "send_items e q h"] by (auto split: option.splits)
  moreover obtain W t n C where h': "h' = h\<lparr>send_window := W, latest_timeout := t, ticks := n, cc := C,
    outgoing_frames := outgoing_frames h @ out\<rparr>" using r'(2) unfolding timer_effect_def by blast
  have "ack_effect e h h' out" by (rule ack_effectI) (simp_all add: h')
  ultimately show ?thesis
    using True r'(1,3) retransmit_other [OF r'(1) ok q] timer_effect_tx_inv [OF r'(2) inv] timer_effect_length [OF r'(2)]
    by auto
qed

lemma on_incoming_ack:
  assumes inv: "tx_inv e sent base h" and f: "frame_valid f" "is_ack f \<noteq> 0"
    and q: "q = unat (src_id f)" "q < num_hosts e"
  shows "on_ack e f q (h, st) (on_incoming e f (h, st))"
    and "on_incoming e f (h, st) = Inr (b, h', st') \<Longrightarrow>
      tx_inv e sent (base(q := ack_base (base q) (cq_get_length_send q h) (seq_num f))) h' \<and>
      (\<forall>r < num_hosts e. r \<noteq> q \<longrightarrow> send_items e r h' = send_items e r h)"
proof -
  let ?seq = "seq_num f"
  have ok: "windows_ok e h" using inv by (simp add: tx_inv_def)
  define st0 where "st0 = st\<lparr>num_acks_received := (num_acks_received st)[q := num_acks_received st ! q + 1]\<rparr>"
  from update_dup_acks_spec [OF ok q(2), of ?seq st0] obtain h1 st1 D where
    h1: "update_dup_acks e q ?seq (h, st0) = (h1, st1)" "length D = num_hosts e"
      "h1 = h\<lparr>cc := (cc h)[q := dup_cc e (dup_acks_seq_num h ! q) ?seq (cc h ! q)], dup_acks_seq_num := D\<rparr>"
    by blast
  have lcc: "length (cc h) = num_hosts e" using ok by (simp add: windows_ok_def shape_def)
  obtain c fr where cf: "cc_step e ?seq q h = (c, fr)" by force
  then have cf1: "cc_on_ack e (cc h1 ! q) = (c, fr)" using lcc q by (simp add: h1(3) cc_step_def)
  define h2 where "h2 = h1\<lparr>cc := (cc h1)[q := c]\<rparr>"
  have h2: "h2 = h\<lparr>cc := (cc h)[q := c], dup_acks_seq_num := D\<rparr>" by (simp add: h2_def h1(3))
  have len2: "cq_get_length_send q h2 = cq_get_length_send q h" and it2: "send_items e r h2 = send_items e r h" for r
    unfolding h2 by (rule send_queue_cong; simp)+
  have ok2: "windows_ok e h2"
    unfolding h2 using ok h1(2) by (subst windows_ok_cong [of _ h]) (simp_all add: windows_ok_def shape_def)
  have inv2: "tx_inv e sent base h2"
    using inv ok2 ok by (subst tx_inv_cong [of e h2 h]) (simp_all add: it2, simp_all add: h2)
  have step: "on_incoming e f (h, st) = rbind (if fr then retransmit_frame e q (?seq + 1) h2 else Inr h2)
      (\<lambda>h. Inr (True, window_on_ack e q ?seq h, st1))"
    using f q(2) h1(1) cf1 unfolding on_incoming_def q(1) [symmetric] Let_def
    by (simp add: update_cc_def h2_def flip: st0_def)
  have eff2: "ack_effect e h h2 []"
    by (rule ack_effectI) (simp_all add: h2)
  have "if fr \<and> cq_get_length_send q h = 0 then on_incoming e f (h, st) = Inl Uninitialised
    else \<exists>h3 out. on_incoming e f (h, st) = Inr (True, window_on_ack e q ?seq h3, st1) \<and> ack_effect e h h3 out \<and>
      cc h3 = cc h2 \<and> set out \<subseteq> fst ` set (send_items e q h) \<and> (\<not> fr \<longrightarrow> out = []) \<and>
      tx_inv e sent base h3 \<and> cq_get_length_send q h3 = cq_get_length_send q h \<and>
      (\<forall>r < num_hosts e. r \<noteq> q \<longrightarrow> send_items e r h3 = send_items e r h)"
    using retransmit_asked [OF inv2 q(2), of fr "?seq + 1"] ack_effect_trans [OF eff2] step len2 it2
    by (auto split: if_splits) blast+
  then consider "fr" "cq_get_length_send q h = 0" "on_incoming e f (h, st) = Inl Uninitialised"
    | h3 out where "\<not> (fr \<and> cq_get_length_send q h = 0)"
      "on_incoming e f (h, st) = Inr (True, window_on_ack e q ?seq h3, st1)" "ack_effect e h h3 out"
      "cc h3 = cc h2" "set out \<subseteq> fst ` set (send_items e q h)" "\<not> fr \<longrightarrow> out = []" "tx_inv e sent base h3"
      "cq_get_length_send q h3 = cq_get_length_send q h"
      "\<forall>r < num_hosts e. r \<noteq> q \<longrightarrow> send_items e r h3 = send_items e r h"
    by (auto split: if_splits)
  note cases = this
  have win: "window_on_ack e q ?seq h3 = sw.trim e (\<lambda>x. seq_num (fst x) = ?seq) q h3"
    if "tx_inv e sent base h3" for h3
    by (rule window_on_ack_trim [OF _ q(2) tx_consecutive [OF that q(2)]]) (use that in \<open>simp add: tx_inv_def\<close>)
  show "on_ack e f q (h, st) (on_incoming e f (h, st))"
  proof (cases rule: cases)
    case 1
    then show ?thesis by (simp add: on_ack_def cf)
  next
    case (2 h3 out)
    let ?h4 = "window_on_ack e q ?seq h3"
    obtain W S L where h4: "?h4 = h3\<lparr>send_window := W, send_window_start := S, send_window_length := L\<rparr>"
      using trim_tx_inv(2) [OF 2(7) q(2)] win [OF 2(7)] by metis
    have "ack_effect e h3 ?h4 []"
      by (rule ack_effectI) (simp_all add: h4)
    from ack_effect_trans [OF 2(3) this] have "ack_effect e h ?h4 out" by simp
    moreover have "cc ?h4 = (cc h)[q := c]" using 2(4) by (simp add: h4) (simp add: h2)
    ultimately show ?thesis using 2(1,2,5,6) by (auto simp: on_ack_def cf)
  qed
  assume "on_incoming e f (h, st) = Inr (b, h', st')"
  then show "tx_inv e sent (base(q := ack_base (base q) (cq_get_length_send q h) ?seq)) h' \<and>
      (\<forall>r < num_hosts e. r \<noteq> q \<longrightarrow> send_items e r h' = send_items e r h)"
  proof (cases rule: cases)
    case (2 h3 out)
    then have "h' = sw.trim e (\<lambda>x. seq_num (fst x) = ?seq) q h3"
      using \<open>on_incoming e f (h, st) = Inr (b, h', st')\<close> win [OF 2(7)] by simp
    with trim_tx_inv [where seq = ?seq, OF 2(7) q(2)] 2(8,9) show ?thesis by simp
  qed simp
qed

section \<open>All acknowledgements\<close>

text \<open>The frames in flight: those of the windows, by their position in the streams.\<close>

definition in_flight :: "env \<Rightarrow> (nat \<Rightarrow> frame list) \<Rightarrow> (nat \<Rightarrow> nat) \<Rightarrow> host \<Rightarrow> frame set" where
  "in_flight e sent base h =
     {sent q ! n |q n. q < num_hosts e \<and> base q \<le> n \<and> n < base q + cq_get_length_send q h}"

text \<open>An acknowledgement from a peer that has accepted \<open>k\<close> frames, at most \<open>N\<close> and at least \<open>b\<close>.\<close>

definition acks_count :: "env \<Rightarrow> (nat \<Rightarrow> nat) \<Rightarrow> (nat \<Rightarrow> nat) \<Rightarrow> frame \<Rightarrow> nat \<Rightarrow> bool" where
  "acks_count e b N f k \<longleftrightarrow> unat (src_id f) < num_hosts e \<and> b (unat (src_id f)) \<le> k \<and> k \<le> N (unat (src_id f)) \<and>
     seq_num f = of_nat k - 1"

definition is_valid_ack :: "frame \<Rightarrow> bool" where
  "is_valid_ack f \<longleftrightarrow> frame_valid f \<and> is_ack f \<noteq> 0"

lemma in_flight_items:
  assumes "tx_inv e sent base h" and "q < num_hosts e" and "f \<in> fst ` set (send_items e q h)"
  shows "f \<in> in_flight e sent base h"
proof -
  from assms(3) obtain i where i: "i < cq_get_length_send q h" "f = fst (send_items e q h ! i)"
    by (metis imageE in_set_conv_nth length_send_items)
  then have "f = sent q ! (base q + i)" using tx_item(1) [OF assms(1,2)] by simp
  then show ?thesis using i(1) assms(2) unfolding in_flight_def by force
qed

lemma in_flight_later:
  assumes "\<And>q. q < num_hosts e \<Longrightarrow> base q \<le> base' q \<and>
      base' q + cq_get_length_send q h' = base q + cq_get_length_send q h"
  shows "in_flight e sent base' h' \<subseteq> in_flight e sent base h"
  unfolding in_flight_def using assms by (fastforce intro: order_trans)

lemma on_incoming_other: "\<not> is_valid_ack f \<Longrightarrow> on_incoming e f (h, st) = Inr (\<not> frame_valid f, h, st)"
  by (auto simp: on_incoming_def is_valid_ack_def)

text \<open>The end of a window in its stream moves only when frames are taken from the buffer.\<close>

lemma window_end:
  assumes "tx_inv e sent base h" and "tx_inv e sent base' h'" and "buffered_outframes h' = buffered_outframes h"
    and "q < num_hosts e"
  shows "base' q + cq_get_length_send q h' = base q + cq_get_length_send q h"
proof -
  have p: "pending e q h' = drop (base' q) (sent q)" "pending e q h = drop (base q) (sent q)"
    "base q \<le> length (sent q)" "base' q \<le> length (sent q)" using assms by (auto simp: tx_inv_def)
  let ?n = "length (filter (\<lambda>f. unat (dst_id f) = q) (buffered_outframes h))"
  have "cq_get_length_send q h' + ?n = length (sent q) - base' q" "cq_get_length_send q h + ?n = length (sent q) - base q"
    using p(1,2) [THEN arg_cong [where f = length]] assms(3) by (simp_all add: pending_def)
  with p(3,4) show ?thesis by simp
qed

lemma cc_step_inv: "rounding_ok e \<Longrightarrow> cc_inv (cc h ! q) \<Longrightarrow> cc_inv (fst (cc_step e seq q h))"
  by (cases "cc_step e seq q h") (simp add: cc_step_def cc_on_ack_inv [OF _ dup_cc_inv])

text \<open>One acknowledgement: the window moves to what it counts, unless it is already there.\<close>

lemma one_ack:
  assumes inv: "tx_inv e sent base h" and "rounding_ok e" and ccs: "\<forall>q < num_hosts e. cc_inv (cc h ! q)"
    and range: "\<forall>q < num_hosts e. b q \<le> base q \<and> base q \<le> N q \<and> N q \<le> b q + 127 \<and> N q \<le> base q + cq_get_length_send q h"
    and f: "is_valid_ack f" "acks_count e b N f k" and s: "on_incoming e f (h, st) = Inr (del, h1, st1)"
  shows "\<exists>base1 out. del \<and> tx_inv e sent base1 h1 \<and> ack_effect e h h1 out \<and> set out \<subseteq> in_flight e sent base h \<and>
    (\<forall>r < num_hosts e. cc_inv (cc h1 ! r)) \<and>
    (\<forall>r < num_hosts e. base r \<le> base1 r \<and> base1 r \<le> N r \<and>
      base1 r + cq_get_length_send r h1 = base r + cq_get_length_send r h) \<and>
    (\<forall>k'. acks_count e b N f k' \<longrightarrow> k' \<le> base1 (unat (src_id f)))"
proof -
  define q where "q = unat (src_id f)"
  let ?len = "cq_get_length_send q h"
  let ?b1 = "base(q := ack_base (base q) ?len (seq_num f))"
  have v: "frame_valid f" "is_ack f \<noteq> 0" using f(1) by (simp_all add: is_valid_ack_def)
  have q: "q < num_hosts e" using f(2) by (simp add: acks_count_def q_def)
  note oi = on_incoming_ack [OF inv v q_def q, of st]
  from oi(1) s obtain out where o: "del" "ack_effect e h h1 out"
    "cc h1 = (cc h)[q := fst (cc_step e (seq_num f) q h)]" "set out \<subseteq> fst ` set (send_items e q h)"
    by (auto simp: on_ack_def split: if_splits)
  have inv1: "tx_inv e sent ?b1 h1" using oi(2) [OF s] by blast
  have bounds: "b q \<le> base q" "base q \<le> N q" "N q \<le> b q + 127" "N q \<le> base q + ?len" "?len \<le> 127"
    using range q tx_window(2,6) [OF inv q] by auto
  have bk: "ack_base (base q) ?len (seq_num f) = max (base q) k'" if "acks_count e b N f k'" for k'
  proof -
    have "b q \<le> k'" "k' \<le> N q" "seq_num f = of_nat k' - 1"
      using that unfolding acks_count_def q_def [symmetric] by auto
    then show ?thesis using ack_base_cumulative [of ?len k' "base q"] bounds by simp
  qed
  have "length (cc h) = num_hosts e" using inv by (simp add: tx_inv_def windows_ok_def shape_def)
  then have "\<forall>r < num_hosts e. cc_inv (cc h1 ! r)"
    using ccs q cc_step_inv [OF assms(2), of h q "seq_num f"] by (simp add: o(3) nth_list_update)
  moreover have "\<forall>r < num_hosts e. base r \<le> ?b1 r \<and> ?b1 r \<le> N r" using range bk [OF f(2)] f(2) by (auto simp: acks_count_def q_def)
  moreover have "\<forall>r < num_hosts e. ?b1 r + cq_get_length_send r h1 = base r + cq_get_length_send r h"
    using window_end [OF inv inv1 ack_effect_fields(2) [OF o(2)]] by blast
  moreover have "set out \<subseteq> in_flight e sent base h" using in_flight_items [OF inv q] o(4) by blast
  moreover have "\<forall>k'. acks_count e b N f k' \<longrightarrow> k' \<le> ?b1 (unat (src_id f))" using bk by (simp flip: q_def)
  ultimately show ?thesis using o(1,2) inv1 by (intro exI [of _ ?b1] exI [of _ out]) blast
qed

lemma scan_acks:
  assumes "tx_inv e sent base h" and "rounding_ok e" and "\<forall>q < num_hosts e. cc_inv (cc h ! q)"
    and "\<forall>q < num_hosts e. b q \<le> base q \<and> base q \<le> N q \<and> N q \<le> b q + 127 \<and> N q \<le> base q + cq_get_length_send q h"
    and "\<forall>f \<in> set fs. is_valid_ack f \<longrightarrow> (\<exists>k. acks_count e b N f k)"
    and "scan (on_incoming e) fs (h, st) = Inr (kept, h', st')"
  shows "\<exists>base' out. tx_inv e sent base' h' \<and> ack_effect e h h' out \<and>
    kept = filter (\<lambda>f. frame_valid f \<and> is_ack f = 0) fs \<and> (\<forall>q < num_hosts e. cc_inv (cc h' ! q)) \<and>
    (\<forall>q < num_hosts e. base q \<le> base' q \<and> base' q \<le> N q \<and>
      base' q + cq_get_length_send q h' = base q + cq_get_length_send q h) \<and>
    (\<forall>f \<in> set fs. \<forall>k. is_valid_ack f \<longrightarrow> acks_count e b N f k \<longrightarrow> k \<le> base' (unat (src_id f))) \<and>
    set out \<subseteq> in_flight e sent base h"
  using assms
proof (induction fs arbitrary: base h st kept)
  case Nil
  with Nil ack_effect_refl [of e h] show ?case by (intro exI [of _ base] exI [of _ "[]"]) auto
next
  case (Cons f fs)
  have fs: "\<forall>f \<in> set fs. is_valid_ack f \<longrightarrow> (\<exists>k. acks_count e b N f k)" using Cons.prems(5) by simp
  from Cons.prems(6) obtain del h1 st1 kept' where s: "on_incoming e f (h, st) = Inr (del, h1, st1)"
    "scan (on_incoming e) fs (h1, st1) = Inr (kept', h', st')" "kept = (if del then kept' else f # kept')"
    by (auto simp: rbind_Inr_iff)
  show ?case
  proof (cases "is_valid_ack f")
    case False
    then have same: "h1 = h" "del \<longleftrightarrow> \<not> frame_valid f" using s(1) on_incoming_other [OF False] by auto
    from Cons.IH [OF Cons.prems(1-4) fs s(2) [unfolded same(1)]] same(2) s(3) False show ?thesis
      by (elim exE conjE, intro exI conjI) (assumption | auto simp: is_valid_ack_def)+
  next
    case True
    then obtain k where k: "acks_count e b N f k" using Cons.prems(5) by auto
    from one_ack [OF Cons.prems(1-4) True k s(1)] obtain base1 out1 where
      1: "del" "tx_inv e sent base1 h1" "ack_effect e h h1 out1" "set out1 \<subseteq> in_flight e sent base h"
        "\<forall>r < num_hosts e. cc_inv (cc h1 ! r)"
        "\<forall>r < num_hosts e. base r \<le> base1 r \<and> base1 r \<le> N r \<and>
          base1 r + cq_get_length_send r h1 = base r + cq_get_length_send r h"
        "\<forall>k'. acks_count e b N f k' \<longrightarrow> k' \<le> base1 (unat (src_id f))" by (elim exE conjE)
    have "\<forall>r < num_hosts e. b r \<le> base1 r \<and> base1 r \<le> N r \<and> N r \<le> b r + 127 \<and> N r \<le> base1 r + cq_get_length_send r h1"
      using Cons.prems(4) 1(6) by (auto intro: order_trans)
    from Cons.IH [OF 1(2) Cons.prems(2) 1(5) this fs s(2)] obtain base' out where
      IH: "tx_inv e sent base' h'" "ack_effect e h1 h' out"
        "kept' = filter (\<lambda>f. frame_valid f \<and> is_ack f = 0) fs" "\<forall>q < num_hosts e. cc_inv (cc h' ! q)"
        "\<forall>q < num_hosts e. base1 q \<le> base' q \<and> base' q \<le> N q \<and>
          base' q + cq_get_length_send q h' = base1 q + cq_get_length_send q h1"
        "\<forall>f \<in> set fs. \<forall>k. is_valid_ack f \<longrightarrow> acks_count e b N f k \<longrightarrow> k \<le> base' (unat (src_id f))"
        "set out \<subseteq> in_flight e sent base1 h1" by (elim exE conjE)
    have "in_flight e sent base1 h1 \<subseteq> in_flight e sent base h" by (rule in_flight_later) (use 1(6) in blast)
    then have "set (out1 @ out) \<subseteq> in_flight e sent base h" using 1(4) IH(7) by auto
    moreover have "kept = filter (\<lambda>f. frame_valid f \<and> is_ack f = 0) (f # fs)"
      using s(3) 1(1) IH(3) True by (simp add: is_valid_ack_def)
    moreover have "\<forall>r < num_hosts e. base r \<le> base' r \<and> base' r \<le> N r \<and>
        base' r + cq_get_length_send r h' = base r + cq_get_length_send r h"
      using IH(5) 1(6) by (metis order_trans)
    moreover have "\<forall>f' \<in> set (f # fs). \<forall>k. is_valid_ack f' \<longrightarrow> acks_count e b N f' k \<longrightarrow> k \<le> base' (unat (src_id f'))"
      using IH(5,6) 1(7) by (auto simp: acks_count_def intro: order_trans)
    ultimately show ?thesis using IH(1,4) ack_effect_trans [OF 1(3) IH(2)] by blast
  qed
qed

section \<open>One turn of the sender\<close>

text \<open>The frames at the positions from \<open>lo\<close> up to \<open>hi\<close> of the streams.\<close>

definition sendable :: "env \<Rightarrow> (nat \<Rightarrow> frame list) \<Rightarrow> (nat \<Rightarrow> nat) \<Rightarrow> (nat \<Rightarrow> nat) \<Rightarrow> frame set" where
  "sendable e sent lo hi = {sent q ! n |q n. q < num_hosts e \<and> lo q \<le> n \<and> n < hi q}"

text \<open>The end of the window of peer \<open>q\<close> in its stream.\<close>

definition win_end :: "(nat \<Rightarrow> nat) \<Rightarrow> host \<Rightarrow> nat \<Rightarrow> nat" where
  "win_end base h q = base q + cq_get_length_send q h"

lemma in_flight_sendable:
  assumes "\<And>q. q < num_hosts e \<Longrightarrow> lo q \<le> base q \<and> win_end base h q \<le> hi q"
  shows "in_flight e sent base h \<subseteq> sendable e sent lo hi"
proof
  fix f assume "f \<in> in_flight e sent base h"
  then obtain q n where q: "f = sent q ! n" "q < num_hosts e" "base q \<le> n" "n < win_end base h q"
    by (auto simp: in_flight_def win_end_def)
  with assms [OF q(2)] show "f \<in> sendable e sent lo hi"
    unfolding sendable_def by (intro CollectI exI [of _ q] exI [of _ n]) auto
qed

text \<open>What a turn of one host, with a clock reading \<open>now\<close>, leaves.\<close>

definition turn_effect :: "env \<Rightarrow> host \<Rightarrow> host \<Rightarrow> frame list \<Rightarrow> bool" where
  "turn_effect e h h' out \<longleftrightarrow> outgoing_frames h' = outgoing_frames h @ out \<and> hid h' = hid h \<and>
     input_cmdlist h' = [] \<and> incoming_frames h' = filter (\<lambda>f. frame_valid f \<and> is_ack f = 0) (incoming_frames h) \<and>
     awaiting_ack h' = awaiting_ack h \<and> active h' = active h \<and> (\<forall>q. rx_view e q h' = rx_view e q h)"

lemma outgoing_inv:
  assumes inv: "tx_inv e sent base h" and cw: "\<forall>q < num_hosts e. cc_inv (cc h ! q)"
  shows "\<exists>h' out. handle_outgoing_frames e now h = Inr h' \<and> tx_inv e sent base h' \<and> cc h' = cc h \<and>
    (\<forall>q < num_hosts e. cq_get_length_send q h \<le> cq_get_length_send q h') \<and>
    outgoing_frames h' = outgoing_frames h @ out \<and> set out \<subseteq> in_flight e sent base h' \<and>
    hid h' = hid h \<and> input_cmdlist h' = input_cmdlist h \<and> incoming_frames h' = incoming_frames h \<and>
    awaiting_ack h' = awaiting_ack h \<and> active h' = active h \<and> (\<forall>q. rx_view e q h' = rx_view e q h)"
proof -
  have "\<forall>q < num_hosts e. 1 \<le> cwnd (cc h ! q)" using cw by (simp add: cc_inv_def)
  from handle_outgoing_tx_inv [OF inv this, of now] obtain h' out W S L t n B where
    h': "handle_outgoing_frames e now h = Inr h'" "tx_inv e sent base h'"
      "h' = h\<lparr>send_window := W, send_window_start := S, send_window_length := L, latest_timeout := t,
        ticks := n, outgoing_frames := outgoing_frames h @ out, buffered_outframes := B\<rparr>"
      "\<forall>f \<in> set out. unat (dst_id f) < num_hosts e"
    and peer: "\<forall>q < num_hosts e. let re = (if q = hid h then [] else take (allowance h q) (unscheduled (send_items e q h)));
        n = min (allowance h q - length re) (window_size e - cq_get_length_send q h)
      in for_peer q out = re @ take n (for_peer q (buffered_outframes h)) \<and>
         for_peer q (buffered_outframes h') = drop n (for_peer q (buffered_outframes h))" by blast
  have wt: "\<exists>re m. set re \<subseteq> fst ` set (send_items e q h) \<and> for_peer q out = re @ take m (for_peer q (buffered_outframes h)) \<and>
      map fst (send_items e q h') = map fst (send_items e q h) @ take m (for_peer q (buffered_outframes h))"
    if q: "q < num_hosts e" for q
  proof -
    define re where "re = (if q = hid h then [] else take (allowance h q) (unscheduled (send_items e q h)))"
    define m where "m = min (allowance h q - length re) (window_size e - cq_get_length_send q h)"
    have p: "for_peer q out = re @ take m (for_peer q (buffered_outframes h))"
      "for_peer q (buffered_outframes h') = drop m (for_peer q (buffered_outframes h))"
      using peer q by (simp_all add: re_def m_def Let_def)
    have "map fst (send_items e q h) @ for_peer q (buffered_outframes h) =
        map fst (send_items e q h') @ for_peer q (buffered_outframes h')"
      using inv h'(2) q by (simp add: tx_inv_def pending_def for_peer_def)
    then have "map fst (send_items e q h) @ take m (for_peer q (buffered_outframes h)) = map fst (send_items e q h')"
      unfolding p(2) by (metis append_assoc append_same_eq append_take_drop_id)
    moreover have "set re \<subseteq> fst ` set (send_items e q h)"
      using unscheduled_subset [of "send_items e q h"] by (auto simp: re_def dest: in_set_takeD)
    ultimately show ?thesis using p(1) by metis
  qed
  have out: "f \<in> in_flight e sent base h'" if f: "f \<in> set out" for f
  proof -
    define q where "q = unat (dst_id f)"
    then have q: "q < num_hosts e" using h'(4) f by simp
    have "f \<in> set (for_peer q out)" using f by (simp add: for_peer_def q_def)
    from wt [OF q] obtain re m where w: "set re \<subseteq> fst ` set (send_items e q h)"
      "for_peer q out = re @ take m (for_peer q (buffered_outframes h))"
      "map fst (send_items e q h') = map fst (send_items e q h) @ take m (for_peer q (buffered_outframes h))" by blast
    have "f \<in> set (map fst (send_items e q h'))"
      unfolding w(3) using \<open>f \<in> set (for_peer q out)\<close> w(1) unfolding w(2) by auto
    then show ?thesis using in_flight_items [OF h'(2) q] by simp
  qed
  have len: "cq_get_length_send q h \<le> cq_get_length_send q h'" if "q < num_hosts e" for q
    using wt [OF that] by (metis length_append length_map length_send_items le_add1)
  have "rx_view e q h' = rx_view e q h" for q by (rule rx_view_cong) (simp_all add: h'(3))
  with out len h'(1,2) show ?thesis
    by - (rule exI [of _ h'], rule exI [of _ out], auto simp: h'(3))
qed

lemma sender_work_inv:
  assumes inv: "tx_inv e sent base h" and r: "rounding_ok e" and cci: "\<forall>q < num_hosts e. cc_inv (cc h ! q)"
    and lim: "\<forall>q < num_hosts e. base q \<le> N q \<and> N q \<le> base q + cq_get_length_send q h"
    and acks: "\<forall>f \<in> set (incoming_frames h). is_valid_ack f \<longrightarrow> (\<exists>k. acks_count e base N f k)"
    and cmds: "\<forall>c \<in> set (input_cmdlist h). cmd_ok e (hid h) c" and gr: "\<forall>q. groups (sent q) (ms q)"
    and run: "sender_work e now h = Inr (h', d)"
  shows "\<exists>sent' base' out. tx_inv e sent' base' h' \<and> (\<forall>q < num_hosts e. cc_inv (cc h' ! q)) \<and>
    (\<forall>q < num_hosts e. base q \<le> base' q \<and> base' q \<le> N q \<and> win_end base h q \<le> win_end base' h' q) \<and>
    (\<forall>q. groups (sent' q) (ms q @ texts_for q (input_cmdlist h))) \<and> (\<forall>q. \<exists>new. sent' q = sent q @ new) \<and>
    turn_effect e h h' out \<and> set out \<subseteq> sendable e sent' base (win_end base' h')"
proof -
  from handle_input_cmds_tx_inv [OF inv cmds gr] obtain h1 sent' m C B where
    h1: "handle_input_cmds e h = Inr h1" "tx_inv e sent' base h1"
      "\<forall>q. groups (sent' q) (ms q @ texts_for q (input_cmdlist h))" "\<forall>q. \<exists>new. sent' q = sent q @ new"
      "h1 = h\<lparr>input_cmdlist := [], mallocs := m, curr_seq_num := C, buffered_outframes := B\<rparr>" by blast
  have len1: "cq_get_length_send q h1 = cq_get_length_send q h" for q by (simp add: h1(5) cq_get_length_send_def)
  have v1: "rx_view e q h1 = rx_view e q h" for q by (rule rx_view_cong) (simp_all add: h1(5))
  from run h1(1) obtain h2 where a: "handle_incoming_acks e h1 = Inr (h2, d)"
    and o: "handle_outgoing_frames e now (handle_timedout_frames e now h2) = Inr h'"
    by (auto simp: sender_work_def rbind_Inr_iff)
  from a obtain kept h2' st st0 where sc: "scan (on_incoming e) (incoming_frames h1) (h1, st0) = Inr (kept, h2', st)"
    and h2: "h2 = h2'\<lparr>incoming_frames := kept\<rparr>"
    by (auto simp: handle_incoming_acks_def Let_def rbind_Inr_iff check_peer_def split: if_splits)
  have "\<forall>q < num_hosts e. base q \<le> base q \<and> base q \<le> N q \<and> N q \<le> base q + 127 \<and> N q \<le> base q + cq_get_length_send q h1"
    using lim tx_window(2,6) [OF inv] by (fastforce simp: len1)
  note pre1 = this
  have pre2: "\<forall>q < num_hosts e. cc_inv (cc h1 ! q)" using cci by (simp add: h1(5))
  have pre3: "\<forall>f \<in> set (incoming_frames h1). is_valid_ack f \<longrightarrow> (\<exists>k. acks_count e base N f k)"
    using acks by (simp add: h1(5))
  from scan_acks [OF h1(2) r pre2 pre1 pre3 sc] obtain base' out1 where s:
    "tx_inv e sent' base' h2'" "ack_effect e h1 h2' out1"
      "kept = filter (\<lambda>f. frame_valid f \<and> is_ack f = 0) (incoming_frames h1)" "\<forall>q < num_hosts e. cc_inv (cc h2' ! q)"
      "\<forall>q < num_hosts e. base q \<le> base' q \<and> base' q \<le> N q \<and>
        base' q + cq_get_length_send q h2' = base q + cq_get_length_send q h1"
      "set out1 \<subseteq> in_flight e sent' base h1"
    by (elim exE conjE)
  have inv2: "tx_inv e sent' base' h2" and len2: "cq_get_length_send q h2 = cq_get_length_send q h2'" for q
    using s(1) by (simp_all add: h2)
  then have ok2: "windows_ok e h2" by (simp add: tx_inv_def)
  define h3 where "h3 = handle_timedout_frames e now h2"
  note ht = handle_timedout_spec [OF ok2, of now, folded h3_def]
  have inv3: "tx_inv e sent' base' h3" using ht timer_effect_tx_inv [OF _ inv2] by blast
  have len3: "cq_get_length_send q h3 = cq_get_length_send q h2" for q using ht timer_effect_length by blast
  have cc3: "\<forall>q < num_hosts e. cc_inv (cc h3 ! q)"
    using ht s(4) cc_timeout_inv by (simp add: h2)
  from ht obtain W t n C3 where h3: "h3 = h2\<lparr>send_window := W, latest_timeout := t, ticks := n, cc := C3\<rparr>"
    by (auto simp: timer_effect_def)
  have v3: "rx_view e q h3 = rx_view e q h2" for q by (rule rx_view_cong) (simp_all add: h3)
  have v2: "rx_view e q h2 = rx_view e q h2'" for q by (rule rx_view_cong) (simp_all add: h2)
  note ef = ack_effect_fields [OF s(2)]
  from outgoing_inv [OF inv3 cc3, of now] o obtain out2 where
    h': "tx_inv e sent' base' h'" "cc h' = cc h3"
      "\<forall>q < num_hosts e. cq_get_length_send q h3 \<le> cq_get_length_send q h'"
      "outgoing_frames h' = outgoing_frames h3 @ out2" "set out2 \<subseteq> in_flight e sent' base' h'"
      "hid h' = hid h3" "input_cmdlist h' = input_cmdlist h3" "incoming_frames h' = incoming_frames h3"
      "awaiting_ack h' = awaiting_ack h3" "active h' = active h3" "\<forall>q. rx_view e q h' = rx_view e q h3"
    unfolding h3_def [symmetric] by auto
  have "turn_effect e h h' (out1 @ out2)"
    unfolding turn_effect_def using h'(4,6-11) v1 v2 v3 ef(6) s(3)
    by (simp add: h3 h2 ef(1,4,5,10,11)) (simp add: h1(5))
  moreover have ends: "win_end base h q \<le> win_end base' h' q" "win_end base h1 q = win_end base h q"
    "base q \<le> base' q \<and> base' q \<le> N q" if q: "q < num_hosts e" for q
  proof -
    have "win_end base h q = base' q + cq_get_length_send q h3" using s(5) q len1 len2 len3 by (simp add: win_end_def)
    also have "\<dots> \<le> win_end base' h' q" using h'(3) q by (simp add: win_end_def)
    finally show "win_end base h q \<le> win_end base' h' q" .
    show "win_end base h1 q = win_end base h q" by (simp add: win_end_def len1)
    show "base q \<le> base' q \<and> base' q \<le> N q" using s(5) q by simp
  qed
  moreover have "set (out1 @ out2) \<subseteq> sendable e sent' base (win_end base' h')"
    using in_flight_sendable [of e base base h1 "win_end base' h'" sent']
      in_flight_sendable [of e base base' h' "win_end base' h'" sent'] ends s(6) h'(5) by auto
  moreover have "\<forall>q < num_hosts e. cc_inv (cc h' ! q)" using cc3 h'(2) by simp
  ultimately show ?thesis using h'(1) h1(3,4) by blast
qed

text \<open>The only fault of a turn is the unassigned pointer of \<^verbatim>\<open>retransmit_frame\<close>.\<close>

lemma scan_acks_fault:
  assumes "tx_inv e sent base h" and "\<forall>f \<in> set fs. is_valid_ack f \<longrightarrow> unat (src_id f) < num_hosts e"
    and "scan (on_incoming e) fs (h, st) = Inl x"
  shows "x = Uninitialised"
  using assms
proof (induction fs arbitrary: base h st)
  case (Cons f fs)
  have fs: "\<forall>f \<in> set fs. is_valid_ack f \<longrightarrow> unat (src_id f) < num_hosts e" using Cons.prems(2) by simp
  show ?case
  proof (cases "on_incoming e f (h, st)")
    case (Inl y)
    then have "is_valid_ack f" using on_incoming_other [of f e h st] by (cases "is_valid_ack f") auto
    then have "y = Uninitialised"
      using on_incoming_ack(1) [OF Cons.prems(1) _ _ refl, of f st] Cons.prems(2) Inl
      by (auto simp: is_valid_ack_def on_ack_def split: if_splits)
    with Inl Cons.prems(3) show ?thesis by simp
  next
    case (Inr r)
    obtain del h1 st1 where r: "r = (del, h1, st1)" by (cases r)
    have "\<exists>base'. tx_inv e sent base' h1"
    proof (cases "is_valid_ack f")
      case True
      then show ?thesis
        using on_incoming_ack(2) [OF Cons.prems(1) _ _ refl, of f st] Cons.prems(2) Inr r
        by (auto simp: is_valid_ack_def)
    next
      case False
      then show ?thesis using on_incoming_other [OF False, of e h st] Inr r Cons.prems(1) by auto
    qed
    then obtain base' where "tx_inv e sent base' h1" by blast
    moreover have "scan (on_incoming e) fs (h1, st1) = Inl x"
      using Cons.prems(3) Inr r by (cases "scan (on_incoming e) fs (h1, st1)") auto
    ultimately show ?thesis using Cons.IH fs by blast
  qed
qed simp

lemma sender_work_fault:
  assumes inv: "tx_inv e sent base h" and r: "rounding_ok e" and cci: "\<forall>q < num_hosts e. cc_inv (cc h ! q)"
    and lim: "\<forall>q < num_hosts e. base q \<le> N q \<and> N q \<le> base q + cq_get_length_send q h"
    and acks: "\<forall>f \<in> set (incoming_frames h). is_valid_ack f \<longrightarrow> (\<exists>k. acks_count e base N f k)"
    and cmds: "\<forall>c \<in> set (input_cmdlist h). cmd_ok e (hid h) c" and gr: "\<forall>q. groups (sent q) (ms q)"
    and run: "sender_work e now h = Inl x"
  shows "x = Uninitialised"
proof -
  from handle_input_cmds_tx_inv [OF inv cmds gr] obtain h1 sent' m C B where
    h1: "handle_input_cmds e h = Inr h1" "tx_inv e sent' base h1"
      "h1 = h\<lparr>input_cmdlist := [], mallocs := m, curr_seq_num := C, buffered_outframes := B\<rparr>" by blast
  have r_ok: "host_recv_cc_id e < num_hosts e" using inv by (simp add: tx_inv_def windows_ok_def cfg_ok_def)
  let ?st = "\<lparr>num_acks_received = replicate (num_hosts e) 0, num_dup_acks_for_this_rtt = replicate (num_hosts e) 0\<rparr>"
  show ?thesis
  proof (cases "scan (on_incoming e) (incoming_frames h1) (h1, ?st)")
    case (Inl y)
    have "\<forall>f \<in> set (incoming_frames h1). is_valid_ack f \<longrightarrow> unat (src_id f) < num_hosts e"
      using acks by (auto simp: h1(3) acks_count_def)
    from scan_acks_fault [OF h1(2) this Inl] Inl run h1(1) show ?thesis
      by (simp add: sender_work_def handle_incoming_acks_def)
  next
    case (Inr t)
    obtain kept h2' st where t: "t = (kept, h2', st)" by (cases t)
    define h2 where "h2 = h2'\<lparr>incoming_frames := kept\<rparr>"
    obtain d where a: "handle_incoming_acks e h1 = Inr (h2, d)"
      using Inr t r_ok by (cases "hid h2 = host_send_cc_id e") (auto simp: handle_incoming_acks_def h2_def Let_def)
    have pre: "\<forall>q < num_hosts e. base q \<le> base q \<and> base q \<le> N q \<and> N q \<le> base q + 127 \<and>
        N q \<le> base q + cq_get_length_send q h1"
      using lim tx_window(2,6) [OF inv] by (fastforce simp: h1(3) cq_get_length_send_def)
    have pre2: "\<forall>q < num_hosts e. cc_inv (cc h1 ! q)" using cci by (simp add: h1(3))
    have pre3: "\<forall>f \<in> set (incoming_frames h1). is_valid_ack f \<longrightarrow> (\<exists>k. acks_count e base N f k)"
      using acks by (simp add: h1(3))
    from scan_acks [OF h1(2) r pre2 pre pre3 Inr [unfolded t]] obtain base' where
      s: "tx_inv e sent' base' h2'" "\<forall>q < num_hosts e. cc_inv (cc h2' ! q)" by blast
    have inv2: "tx_inv e sent' base' h2" using s(1) by (simp add: h2_def)
    then have ok2: "windows_ok e h2" by (simp add: tx_inv_def)
    note ht = handle_timedout_spec [OF ok2, of now]
    have inv3: "tx_inv e sent' base' (handle_timedout_frames e now h2)" using ht timer_effect_tx_inv [OF _ inv2] by blast
    have cc3: "\<forall>q < num_hosts e. cc_inv (cc (handle_timedout_frames e now h2) ! q)"
      using ht s(2) cc_timeout_inv by (simp add: h2_def)
    from outgoing_inv [OF inv3 cc3, of now] obtain h' where
      "handle_outgoing_frames e now (handle_timedout_frames e now h2) = Inr h'" by blast
    with run h1(1) a show ?thesis by (simp add: sender_work_def)
  qed
qed

section \<open>The turn as a whole\<close>

lemma set_activity_fields [simp]:
  "outgoing_frames (set_activity h) = outgoing_frames h" "hid (set_activity h) = hid h"
  "input_cmdlist (set_activity h) = input_cmdlist h" "incoming_frames (set_activity h) = incoming_frames h"
  "cc (set_activity h) = cc h" "cq_get_length_send q (set_activity h) = cq_get_length_send q h"
  "tx_inv e sent base (set_activity h) = tx_inv e sent base h" "rx_view e q (set_activity h) = rx_view e q h"
  "pending e q (set_activity h) = pending e q h"
proof -
  have eq: "\<exists>a b. set_activity h = h\<lparr>awaiting_ack := a, active := b\<rparr>"
    by (cases "\<exists>s \<in> set (send_window h). sframe s \<noteq> None"; cases "buffered_outframes h = []"; cases "awaiting_ack h")
      (simp_all add: set_activity_def Let_def,
       (rule exI [of _ "awaiting_ack h"] exI [of _ True], rule exI [of _ "active h"] exI [of _ True], simp)+)
  then obtain a b where sa: "set_activity h = h\<lparr>awaiting_ack := a, active := b\<rparr>" by blast
  show "outgoing_frames (set_activity h) = outgoing_frames h" "hid (set_activity h) = hid h"
    "input_cmdlist (set_activity h) = input_cmdlist h" "incoming_frames (set_activity h) = incoming_frames h"
    "cc (set_activity h) = cc h" "cq_get_length_send q (set_activity h) = cq_get_length_send q h"
    "tx_inv e sent base (set_activity h) = tx_inv e sent base h"
    by (simp_all add: sa)
  show "rx_view e q (set_activity h) = rx_view e q h" by (rule rx_view_cong) (simp_all add: sa)
  have "send_items e q (set_activity h) = send_items e q h" by (rule send_queue_cong) (simp_all add: sa)
  then show "pending e q (set_activity h) = pending e q h" by (simp add: pending_def) (simp add: sa)
qed

text \<open>A host that is not active has nothing left to send or to be acknowledged.\<close>

lemma inactive_pending:
  assumes "windows_ok e h" and "\<not> active (set_activity h)" and "q < num_hosts e"
  shows "pending e q h = []"
proof -
  have no: "\<forall>s \<in> set (send_window h). sframe s = None" and buf: "buffered_outframes h = []"
    using assms(2) by (auto simp: set_activity_def Let_def split: if_splits)
  have "cq_get_length_send q h = 0"
  proof (rule ccontr)
    assume "cq_get_length_send q h \<noteq> 0"
    then have "sframe (cq_get_item_send e q 0 h) \<noteq> None"
      using assms(1,3) send_slots_in [of e q h 0] by (simp add: windows_ok_def)
    moreover have "cq_get_item_send e q 0 h \<in> set (send_window h)"
      using send_cell_less [OF assms(1,3)] by (simp add: cq_get_item_send_def)
    ultimately show False using no by auto
  qed
  then have "send_items e q h = []" by (metis length_0_conv length_send_items)
  then show ?thesis using buf by (simp add: pending_def)
qed

lemma run_sender_inv:
  assumes inv: "tx_inv e sent base h" and r: "rounding_ok e" and cci: "\<forall>q < num_hosts e. cc_inv (cc h ! q)"
    and lim: "\<forall>q < num_hosts e. base q \<le> N q \<and> N q \<le> base q + cq_get_length_send q h"
    and acks: "\<forall>f \<in> set (incoming_frames h). is_valid_ack f \<longrightarrow> (\<exists>k. acks_count e base N f k)"
    and cmds: "\<forall>c \<in> set (input_cmdlist h). cmd_ok e (hid h) c" and gr: "\<forall>q. groups (sent q) (ms q)"
  shows "case run_sender e h of Inl x \<Rightarrow> x = Uninitialised
    | Inr (h', d) \<Rightarrow> \<exists>sent' base' out. tx_inv e sent' base' h' \<and> (\<forall>q < num_hosts e. cc_inv (cc h' ! q)) \<and>
    (\<forall>q < num_hosts e. base q \<le> base' q \<and> base' q \<le> N q \<and> win_end base h q \<le> win_end base' h' q) \<and>
    (\<forall>q. groups (sent' q) (ms q @ texts_for q (input_cmdlist h))) \<and> (\<forall>q. \<exists>new. sent' q = sent q @ new) \<and>
    outgoing_frames h' = outgoing_frames h @ out \<and> set out \<subseteq> sendable e sent' base (win_end base' h') \<and> hid h' = hid h \<and>
    input_cmdlist h' = [] \<and> incoming_frames h' = filter (\<lambda>f. frame_valid f \<and> is_ack f = 0) (incoming_frames h) \<and>
    (\<forall>q. rx_view e q h' = rx_view e q h) \<and> (\<not> active h' \<longrightarrow> (\<forall>q < num_hosts e. pending e q h' = []))"
proof -
  define now where "now = fst (get_time e h)"
  define h0 where "h0 = (snd (get_time e h))\<lparr>awaiting_ack := False, active := False, csv_out := False\<rparr>"
  define h1 where "h1 = h0\<lparr>round_trip_num := round_trip_num h0 + 1, csv_out := True\<rparr>"
  have sg: "snd (get_time e h) = h\<lparr>ticks := Suc (ticks h)\<rparr>" by (simp add: get_time_def)
  have inv0: "tx_inv e sent base h0" "tx_inv e sent base h1" using inv by (simp_all add: h1_def h0_def sg)
  have fl: "cc h1 = cc h" "incoming_frames h1 = incoming_frames h" "input_cmdlist h1 = input_cmdlist h"
    "hid h1 = hid h" "outgoing_frames h1 = outgoing_frames h" "cq_get_length_send q h1 = cq_get_length_send q h"
    "cc h0 = cc h" "incoming_frames h0 = incoming_frames h" "input_cmdlist h0 = input_cmdlist h"
    "hid h0 = hid h" "outgoing_frames h0 = outgoing_frames h" "cq_get_length_send q h0 = cq_get_length_send q h" for q
    by (simp_all add: h1_def h0_def sg)
  have vw: "rx_view e q h1 = rx_view e q h" "rx_view e q h0 = rx_view e q h" for q
    by (rule rx_view_cong; simp add: h1_def h0_def sg)+
  have run: "run_sender e h = rbind (if awakened e now (snd (get_time e h)) then sender_work e now h1 else Inr (h0, []))
      (\<lambda>(h, d). Inr (set_activity h, d))"
    by (simp add: run_sender_def now_def h1_def h0_def sg case_prod_beta Let_def)
  show ?thesis
  proof (cases "awakened e now (snd (get_time e h))")
    case False
    then have "input_cmdlist h = []" "incoming_frames h = []" by (auto simp: awakened_def sg)
    moreover have "windows_ok e h0" using inv0 by (simp add: tx_inv_def)
    ultimately show ?thesis
      using False inv0(1) cci lim gr vw inactive_pending [of e h0]
      by (simp add: run fl win_end_def) (rule exI [of _ sent], rule exI [of _ base], auto simp: sendable_def)
  next
    case True
    note hyps = inv0(2) r cci [folded fl(1)] lim [folded fl(6)] acks [folded fl(2)] cmds [folded fl(3,4)] gr
    show ?thesis
    proof (cases "sender_work e now h1")
      case (Inl x)
      from sender_work_fault [OF hyps Inl] Inl True show ?thesis by (simp add: run)
    next
      case (Inr t)
      obtain h' d where t: "t = (h', d)" by (cases t)
      from sender_work_inv [OF hyps Inr [unfolded t]] obtain sent' base' out where
        w: "tx_inv e sent' base' h'" "\<forall>q < num_hosts e. cc_inv (cc h' ! q)"
          "\<forall>q < num_hosts e. base q \<le> base' q \<and> base' q \<le> N q \<and> win_end base h1 q \<le> win_end base' h' q"
          "\<forall>q. groups (sent' q) (ms q @ texts_for q (input_cmdlist h1))" "\<forall>q. \<exists>new. sent' q = sent q @ new"
          "turn_effect e h1 h' out" "set out \<subseteq> sendable e sent' base (win_end base' h')" by (elim exE conjE)
      have we: "win_end base h1 q = win_end base h q" "win_end b (set_activity h') q = win_end b h' q" for b q
        by (simp_all add: win_end_def fl)
      have we': "win_end b (set_activity h') = win_end b h'" for b by (rule ext) (simp add: win_end_def)
      have "windows_ok e h'" using w(1) by (simp add: tx_inv_def)
      from inactive_pending [OF this] have ia: "\<not> active (set_activity h') \<longrightarrow> (\<forall>q < num_hosts e. pending e q h' = [])"
        by blast
      have "run_sender e h = Inr (set_activity h', d)" using True Inr t by (simp add: run)
      then show ?thesis
        using w ia fl vw unfolding turn_effect_def we'
        by (simp add: we we') (rule exI [of _ sent'], rule exI [of _ base'], simp)
    qed
  qed
qed

section \<open>Properties\<close>

lemma small_env_rounding: "rounding_ok small_env"
  by (simp add: rounding_ok_def small_env_def)

text \<open>Host 0 at the start, with one acknowledgement from host 1 that counts no frame yet.\<close>

definition early_ack :: frame where
  "early_ack = set_checksum (blank_frame\<lparr>src_id := 1, seq_num := 255, is_ack := 1\<rparr>)"

definition acked_host :: host where
  "acked_host = (init_host small_env 0)\<lparr>incoming_frames := [early_ack]\<rparr>"

lemma acked_host:
  "tx_inv small_env (\<lambda>_. []) (\<lambda>_. 0) acked_host" "frame_valid early_ack" "is_ack early_ack = 1"
  "acks_count small_env (\<lambda>_. 0) (\<lambda>_. 0) early_ack 0"
proof -
  have "tx_inv small_env (\<lambda>_. []) (\<lambda>_. 0) (init_host small_env 0)"
    by (rule tx_inv_init [OF small_env_cfg]) (simp add: small_env_def)
  moreover have "tx_inv small_env sent base acked_host = tx_inv small_env sent base (init_host small_env 0)" for sent base
    unfolding acked_host_def
    by (rule tx_inv_cong; (intro windows_ok_cong arg_cong [where f = "map fst"] send_queue_cong)?; simp)
  ultimately show "tx_inv small_env (\<lambda>_. []) (\<lambda>_. 0) acked_host" by simp
  show "frame_valid early_ack"
    unfolding early_ack_def
    by (rule set_checksum_valid) (simp add: blank_frame_def wf_frame_def FRAME_PAYLOAD_SIZE_def)
  show "is_ack early_ack = 1" "acks_count small_env (\<lambda>_. 0) (\<lambda>_. 0) early_ack 0"
    by (simp_all add: early_ack_def acks_count_def small_env_def)
qed

text \<open>
  C12: acknowledgements are cumulative. If every valid acknowledgement in the queue counts some number of
  frames between those already acknowledged and those the peer has accepted, then the handler takes all
  acknowledgements and damaged frames out of the queue, moves the start of each window to at least
  every count it was told, never past what the peer accepted, and loses no frame behind it.
\<close>

theorem acks_are_cumulative:
  assumes "tx_inv e sent base h" and "rounding_ok e" and "\<forall>q < num_hosts e. cc_inv (cc h ! q)"
    and "\<forall>q < num_hosts e. base q \<le> N q \<and> N q \<le> base q + cq_get_length_send q h"
    and "\<forall>f \<in> set (incoming_frames h). is_valid_ack f \<longrightarrow> (\<exists>k. acks_count e base N f k)"
    and "handle_incoming_acks e h = Inr (h', d)"
  shows "\<exists>base'. tx_inv e sent base' h' \<and> (\<forall>q < num_hosts e. cc_inv (cc h' ! q)) \<and>
    incoming_frames h' = filter (\<lambda>f. frame_valid f \<and> is_ack f = 0) (incoming_frames h) \<and>
    (\<forall>q < num_hosts e. base q \<le> base' q \<and> base' q \<le> N q \<and>
      base' q + cq_get_length_send q h' = base q + cq_get_length_send q h) \<and>
    (\<forall>f \<in> set (incoming_frames h). \<forall>k. is_valid_ack f \<longrightarrow> acks_count e base N f k \<longrightarrow> k \<le> base' (unat (src_id f)))"
proof -
  from assms(6) obtain kept h2 st st0 where sc: "scan (on_incoming e) (incoming_frames h) (h, st0) = Inr (kept, h2, st)"
    and h': "h' = h2\<lparr>incoming_frames := kept\<rparr>"
    by (auto simp: handle_incoming_acks_def Let_def rbind_Inr_iff check_peer_def split: if_splits)
  have pre: "\<forall>q < num_hosts e. base q \<le> base q \<and> base q \<le> N q \<and> N q \<le> base q + 127 \<and> N q \<le> base q + cq_get_length_send q h"
    using assms(4) tx_window(2,6) [OF assms(1)] by fastforce
  from scan_acks [OF assms(1-3) pre assms(5) sc] obtain base' out where
    s: "tx_inv e sent base' h2" "ack_effect e h h2 out" "kept = filter (\<lambda>f. frame_valid f \<and> is_ack f = 0) (incoming_frames h)"
      "\<forall>q < num_hosts e. cc_inv (cc h2 ! q)"
      "\<forall>q < num_hosts e. base q \<le> base' q \<and> base' q \<le> N q \<and> base' q + cq_get_length_send q h2 = base q + cq_get_length_send q h"
      "\<forall>f \<in> set (incoming_frames h). \<forall>k. is_valid_ack f \<longrightarrow> acks_count e base N f k \<longrightarrow> k \<le> base' (unat (src_id f))"
    by (elim exE conjE)
  have inv: "tx_inv e sent base' h'" and len: "cq_get_length_send q h' = cq_get_length_send q h2" for q
    using s(1) by (simp_all add: h')
  then show ?thesis
    using s(3-6) by (intro exI [of _ base']) (simp add: len, simp add: h')
qed

theorem acks_are_cumulative_witness:
  "case handle_incoming_acks small_env acked_host of Inl _ \<Rightarrow> False | Inr (h', d) \<Rightarrow> incoming_frames h' = []"
proof -
  have "\<not> isl (handle_incoming_acks small_env acked_host)" by code_simp
  then obtain h' d where r: "handle_incoming_acks small_env acked_host = Inr (h', d)"
    by (cases "handle_incoming_acks small_env acked_host") auto
  have n: "num_hosts small_env = 2" by (simp add: small_env_def)
  have inc: "incoming_frames acked_host = [early_ack]" and cc: "cc acked_host ! q = \<lparr>cwnd = 1, ssthresh = 2, dup_acks = 0, cstate = cc_SS\<rparr>"
    and len: "cq_get_length_send q acked_host = 0" if "q < 2" for q
    using that by (simp_all add: acked_host_def init_host_def small_env_def cq_get_length_send_def)
  from acks_are_cumulative [OF acked_host(1) small_env_rounding _ _ _ r, of "\<lambda>_. 0"] acked_host(2-4) inc [of 0]
  have "incoming_frames h' = filter (\<lambda>f. frame_valid f \<and> is_ack f = 0) [early_ack]"
    by (auto simp: n cc len cc_inv_def)
  with r acked_host(3) show ?thesis by simp
qed

text \<open>
  C19: the congestion control of one acknowledgement. The window stays at least one frame and the
  threshold at least two in fast recovery; a retransmission is asked for exactly on the third duplicate
  outside slow start and recovery, and then starts recovery with half the window, at least two, plus three;
  the first new acknowledgement ends recovery with the threshold as the window, and slow start is left
  as soon as the window exceeds the threshold.
\<close>

theorem congestion_control_step:
  assumes "rounding_ok e" and "cc_inv c" and "cc_on_ack e c = (c', fast_retransmit)"
  shows "cc_inv c' \<and> (fast_retransmit \<longleftrightarrow> cstate c = cc_AIMD \<and> dup_acks c = 3) \<and>
    (fast_retransmit \<longrightarrow> cstate c' = cc_FRFT \<and> ssthresh c' = max (dround e (cwnd c / 2)) 2 \<and>
      cwnd c' = dround e (ssthresh c' + 3)) \<and>
    (cstate c = cc_FRFT \<and> dup_acks c = 0 \<longrightarrow> cstate c' = cc_AIMD \<and> cwnd c' = ssthresh c) \<and>
    (cstate c' = cc_SS \<longrightarrow> cstate c = cc_SS \<and> cwnd c' \<le> ssthresh c')"
proof -
  have "cc_inv c'" by (rule cc_on_ack_inv [OF assms])
  moreover have "fast_retransmit \<longleftrightarrow> cstate c = cc_AIMD \<and> dup_acks c = 3"
    using fast_retransmit_iff [of e c] assms(3) by simp
  moreover have "fast_retransmit \<longrightarrow> cstate c' = cc_FRFT \<and> ssthresh c' = max (dround e (cwnd c / 2)) 2 \<and>
      cwnd c' = dround e (ssthresh c' + 3)"
    using assms(3) by (auto simp: cc_on_ack_def Let_def max_double_max split: if_splits)
  moreover have "cstate c = cc_FRFT \<and> dup_acks c = 0 \<longrightarrow> cstate c' = cc_AIMD \<and> cwnd c' = ssthresh c"
    using assms(3) by (auto simp: cc_on_ack_def)
  moreover have "cstate c' = cc_SS \<longrightarrow> cstate c = cc_SS \<and> cwnd c' \<le> ssthresh c'"
    using assms(3) by (cases "cstate c") (auto simp: cc_on_ack_def Let_def not_less split: if_splits)
  ultimately show ?thesis by blast
qed

theorem congestion_control_step_witness:
  "snd (cc_on_ack small_env \<lparr>cwnd = 10, ssthresh = 4, dup_acks = 3, cstate = cc_AIMD\<rparr>) \<and>
   cwnd (fst (cc_on_ack small_env \<lparr>cwnd = 10, ssthresh = 4, dup_acks = 3, cstate = cc_AIMD\<rparr>)) = 8"
proof -
  let ?c = "\<lparr>cwnd = 10, ssthresh = 4, dup_acks = 3, cstate = cc_AIMD\<rparr>"
  obtain c' fr where r: "cc_on_ack small_env ?c = (c', fr)" by force
  have "cc_inv ?c" by (simp add: cc_inv_def)
  from congestion_control_step [OF small_env_rounding this r] show ?thesis
    by (simp add: r) (simp add: small_env_def)
qed

text \<open>
  The way the code takes acknowledged frames off the window, a comparison of the first number and a
  search, does the same as removing the longest prefix of the queue that ends in the acknowledged frame.
\<close>

theorem window_on_ack_is_trim:
  assumes "tx_inv e sent base h" and "q < num_hosts e"
  shows "send_items e q (window_on_ack e q seq h) =
    (if \<exists>x \<in> set (send_items e q h). seq_num (fst x) = seq
     then tl (dropWhile (\<lambda>x. seq_num (fst x) \<noteq> seq) (send_items e q h)) else send_items e q h)"
proof -
  have ok: "windows_ok e h" using assms(1) by (simp add: tx_inv_def)
  from window_on_ack_trim [OF ok assms(2) tx_consecutive [OF assms]]
    sw.trim_items [of e h q "\<lambda>x. seq_num (fst x) = seq"] ok assms(2) show ?thesis by simp
qed

theorem window_on_ack_is_trim_witness: "send_items small_env 1 (window_on_ack small_env 1 255 acked_host) = []"
  using window_on_ack_is_trim [OF acked_host(1), of 1 255]
  by (simp add: small_env_def acked_host_def init_host_def send_items_def send_slots_def window_def
      cq_get_length_send_def)

end
