(* ===== verification/Switch.thy ===== *)
theory Switch
  imports Acks "HOL-Library.Multiset"
begin

text \<open>
  The switch between the hosts (\<^verbatim>\<open>tcp/src/switch.c\<close>) and the state it works on: random service
  order, the ingress ports with their acceptance rate, and the corruption of frames. The egress
  ports are initialised by the program but never used.
\<close>

section \<open>The state of the simulation\<close>

text \<open>
  The global arrays, the number of calls of \<^verbatim>\<open>rand\<close> so far, what was printed to \<^verbatim>\<open>stdout\<close>
  (receiving host, the peer the message is from, the text) and to the diagnostics file.
\<close>

record ingress_port =
  buffer_queue_head :: "frame list"
  buffer_queue_size :: int

record net =
  hosts :: "host list"
  ingress :: "ingress_port list"
  rands :: nat
  printed :: "(nat \<times> nat \<times> u8 list) list"
  diags :: "diag list"

definition INGRESS_PORT_QUEUE_CAPACITY :: int where
  \<comment> \<open>set by \<^verbatim>\<open>init_ingress_ports\<close>\<close>
  "INGRESS_PORT_QUEUE_CAPACITY = 0"

definition init_ingress_ports :: "env \<Rightarrow> ingress_port list" where
  "init_ingress_ports e = replicate (num_hosts e) \<lparr>buffer_queue_head = [], buffer_queue_size = 0\<rparr>"

definition upd_host :: "nat \<Rightarrow> (host \<Rightarrow> host) \<Rightarrow> net \<Rightarrow> net" where
  "upd_host i f s = s\<lparr>hosts := (hosts s)[i := f (hosts s ! i)]\<rparr>"

definition next_rand :: "env \<Rightarrow> net \<Rightarrow> nat \<times> net" where
  "next_rand e s = (rand e (rands s), s\<lparr>rands := Suc (rands s)\<rparr>)"

section \<open>Random order\<close>

definition swap_step :: "env \<Rightarrow> nat \<Rightarrow> nat \<Rightarrow> nat list \<times> net \<Rightarrow> nat list \<times> net" where
  "swap_step e len i = (\<lambda>(host_order, s).
     let (r1, s) = next_rand e s; rand_idx_1 = r1 mod len;
         (r2, s) = next_rand e s; rand_idx_2 = r2 mod (i + 1);
         temp = host_order ! rand_idx_1;
         host_order = host_order[rand_idx_1 := host_order ! rand_idx_2];
         host_order = host_order[rand_idx_2 := temp]
     in (host_order, s))"

definition get_rand_seq :: "env \<Rightarrow> nat \<Rightarrow> net \<Rightarrow> nat list \<times> net" where
  "get_rand_seq e len s = fold (swap_step e len) [0..<len] ([0..<len], s)"

section \<open>Sending one frame\<close>

definition frame_sanity_check :: "env \<Rightarrow> frame \<Rightarrow> unit res" where
  "frame_sanity_check e f =
     (if unat (dst_id f) \<ge> num_hosts e then Inl (ExitCall (-1))
      else if unat (src_id f) \<ge> num_hosts e then Inl (ExitCall (-1))
      else if src_id f = dst_id f then Inl (ExitCall (-1)) else Inr ())"

text \<open>What arrives for a frame: at most one byte is inverted. \<^verbatim>\<open>rand\<close> is called two or three times.\<close>

definition transmit :: "env \<Rightarrow> frame \<Rightarrow> net \<Rightarrow> frame \<times> net" where
  "transmit e f s =
     (let recv_char_buffer = convert_frame_to_char f;
          corrupt = trunc_int (dround e (1000 * corrupt_prob e));
          (_, s) = next_rand e s;
          (r, s) = next_rand e s;
          (recv_char_buffer, s) =
            (if int (r mod 1000) < corrupt then
               let (r, s) = next_rand e s; random_index = r mod MAX_FRAME_SIZE
               in (recv_char_buffer[random_index := NOT (recv_char_buffer ! random_index)], s)
             else (recv_char_buffer, s))
      in (convert_char_to_frame recv_char_buffer, s))"

definition receive :: "nat \<Rightarrow> frame \<Rightarrow> net \<Rightarrow> net" where
  "receive i g s = upd_host i (\<lambda>h. h\<lparr>incoming_frames := incoming_frames h @ [g]\<rparr>) s"

definition send_frame :: "env \<Rightarrow> frame \<Rightarrow> net \<Rightarrow> net res" where
  "send_frame e f s =
     (let dst = unat (dst_id f); (corrupted_frame, s) = transmit e f s
      in check_peer e dst (Inr (receive dst corrupted_frame s)))"

section \<open>Data frames\<close>

text \<open>The counters of \<^verbatim>\<open>send_data_frames\<close>.\<close>

record traffic =
  incoming_frames_accept :: "int list"
  num_frames_sent :: "u8 list list"
  num_frames_dropped :: "u8 list list"

definition count2 :: "nat \<Rightarrow> nat \<Rightarrow> u8 list list \<Rightarrow> u8 list list" where
  "count2 i j m = m[i := (m ! i)[j := m ! i ! j + 1]]"

definition count_accept :: "nat \<Rightarrow> traffic \<Rightarrow> traffic" where
  "count_accept i t = t\<lparr>incoming_frames_accept :=
     (incoming_frames_accept t)[i := incoming_frames_accept t ! i + 1]\<rparr>"

text \<open>The queue of one ingress port: the loop on the number of accepted frames and the queue.\<close>

fun service_queue :: "env \<Rightarrow> frame list \<Rightarrow> int \<Rightarrow> int \<Rightarrow> net \<Rightarrow> (frame list \<times> int \<times> int \<times> net) res" where
  "service_queue e [] qsize acc s =
     (if qsize > 0 \<and> acc < recv_accept_rate e then Inl NullDeref else Inr ([], qsize, acc, s))"
| "service_queue e (f # fs) qsize acc s =
     (if qsize > 0 \<and> acc < recv_accept_rate e then
        rbind (frame_sanity_check e f) (\<lambda>_. rbind (send_frame e f s) (\<lambda>s.
          service_queue e fs (qsize - 1) (acc + 1) s))
      else Inr (f # fs, qsize, acc, s))"

definition service_ingress :: "env \<Rightarrow> nat \<Rightarrow> net \<times> traffic \<Rightarrow> (net \<times> traffic) res" where
  "service_ingress e i = (\<lambda>(s, t).
     let p = ingress s ! i in
     rbind (service_queue e (buffer_queue_head p) (buffer_queue_size p) (incoming_frames_accept t ! i) s)
       (\<lambda>(q, qsize, acc, s).
         Inr (s\<lparr>ingress := (ingress s)[i := \<lparr>buffer_queue_head = q, buffer_queue_size = qsize\<rparr>]\<rparr>,
              t\<lparr>incoming_frames_accept := (incoming_frames_accept t)[i := acc]\<rparr>)))"

text \<open>One frame of one host, with the count of the hosts that have nothing to send.\<close>

definition serve_host :: "env \<Rightarrow> nat \<Rightarrow> nat \<times> net \<times> traffic \<Rightarrow> (nat \<times> net \<times> traffic) res" where
  "serve_host e sender_id = (\<lambda>(num_empty_output_queues, s, t).
     rbind (arr_get (hosts s) sender_id) (\<lambda>host.
     case outgoing_frames host of
       [] \<Rightarrow> Inr (num_empty_output_queues + 1, s, t)
     | f # fs \<Rightarrow>
         let s = upd_host sender_id (\<lambda>h. h\<lparr>outgoing_frames := fs\<rparr>) s in
         rbind (frame_sanity_check e f) (\<lambda>_.
         let recv_id = unat (dst_id f);
             t = t\<lparr>num_frames_sent := count2 sender_id recv_id (num_frames_sent t)\<rparr>;
             p = ingress s ! recv_id
         in if incoming_frames_accept t ! recv_id \<ge> recv_accept_rate e then
              if buffer_queue_size p < INGRESS_PORT_QUEUE_CAPACITY then
                Inr (num_empty_output_queues,
                     s\<lparr>ingress := (ingress s)[recv_id := p\<lparr>buffer_queue_head := buffer_queue_head p @ [f],
                        buffer_queue_size := buffer_queue_size p + 1\<rparr>]\<rparr>, t)
              else Inr (num_empty_output_queues, s,
                     t\<lparr>num_frames_dropped := count2 sender_id recv_id (num_frames_dropped t)\<rparr>)
            else rbind (send_frame e f s) (\<lambda>s. Inr (num_empty_output_queues, s, count_accept recv_id t)))))"

definition serve_hosts :: "env \<Rightarrow> net \<times> traffic \<Rightarrow> (nat \<times> net \<times> traffic) res" where
  "serve_hosts e = (\<lambda>(s, t).
     let (host_order, s) = get_rand_seq e (num_hosts e) s in rfold (serve_host e) host_order (0, s, t))"

text \<open>Each round with a frame to send has fewer frames left than the one before.\<close>

definition backlog :: "net \<Rightarrow> nat" where
  "backlog s = (\<Sum>h\<leftarrow>hosts s. length (outgoing_frames h))"

lemma upd_host_simps [simp]:
  "length (hosts (upd_host i f s)) = length (hosts s)"
  "i < length (hosts s) \<Longrightarrow> hosts (upd_host i f s) ! j = (if i = j then f (hosts s ! i) else hosts s ! j)"
  "ingress (upd_host i f s) = ingress s" "printed (upd_host i f s) = printed s"
  "diags (upd_host i f s) = diags s"
  by (simp_all add: upd_host_def)

lemma transmit_rands: "\<exists>r. snd (transmit e f s) = s\<lparr>rands := r\<rparr>"
  by (simp add: transmit_def next_rand_def Let_def) blast

lemma send_frame_hosts:
  assumes "send_frame e f s = Inr s'"
  shows "\<exists>r. s' = receive (unat (dst_id f)) (fst (transmit e f s)) (s\<lparr>rands := r\<rparr>) \<and> unat (dst_id f) < num_hosts e"
proof -
  obtain g s1 where t: "transmit e f s = (g, s1)" by force
  with transmit_rands [of e f s] obtain r where "s1 = s\<lparr>rands := r\<rparr>" by auto
  with assms t show ?thesis by (intro exI [of _ r]) (simp add: send_frame_def check_peer_def Let_def split: if_splits)
qed

lemma backlog_same:
  assumes "map outgoing_frames (hosts s') = map outgoing_frames (hosts s)"
  shows "backlog s' = backlog s"
  using arg_cong [OF assms, of "\<lambda>xs. sum_list (map length xs)"] by (simp add: backlog_def comp_def)

lemma receive_outgoing [simp]: "map outgoing_frames (hosts (receive i g s)) = map outgoing_frames (hosts s)"
proof (rule nth_equalityI)
  fix j
  assume "j < length (map outgoing_frames (hosts (receive i g s)))"
  then show "map outgoing_frames (hosts (receive i g s)) ! j = map outgoing_frames (hosts s) ! j"
    by (cases "j = i") (simp_all add: receive_def upd_host_def)
qed (simp add: receive_def)

lemma sum_list_update_nat:
  fixes xs :: "nat list"
  shows "i < length xs \<Longrightarrow> sum_list (xs[i := y]) + xs ! i = sum_list xs + y"
proof (induction xs arbitrary: i)
  case (Cons x xs)
  then show ?case by (cases i) auto
qed simp

lemma send_frame_backlog:
  assumes "send_frame e f s = Inr s'"
  shows "backlog s' = backlog s" "length (hosts s') = length (hosts s)"
proof -
  from send_frame_hosts [OF assms] obtain r where
    s': "s' = receive (unat (dst_id f)) (fst (transmit e f s)) (s\<lparr>rands := r\<rparr>)" by blast
  show "backlog s' = backlog s" by (rule backlog_same) (simp add: s')
  show "length (hosts s') = length (hosts s)" by (simp add: s' receive_def)
qed

lemma backlog_pop:
  assumes "outgoing_frames (hosts s ! i) = f # fs" and "i < length (hosts s)"
  shows "Suc (backlog (upd_host i (\<lambda>h. h\<lparr>outgoing_frames := fs\<rparr>) s)) = backlog s"
proof -
  let ?g = "\<lambda>h. length (outgoing_frames h)"
  have "map ?g ((hosts s)[i := (hosts s ! i)\<lparr>outgoing_frames := fs\<rparr>]) = (map ?g (hosts s))[i := length fs]"
    by (simp add: map_update)
  moreover have "sum_list ((map ?g (hosts s))[i := length fs]) + ?g (hosts s ! i) = sum_list (map ?g (hosts s)) + length fs"
    using sum_list_update_nat [of i "map ?g (hosts s)" "length fs"] assms(2) by simp
  ultimately show ?thesis using assms(1) by (simp add: backlog_def upd_host_def)
qed

lemma serve_host_backlog:
  assumes "serve_host e i (k, s, t) = Inr (k', s', t')"
  shows "backlog s' + k + 1 = backlog s + k'" "length (hosts s') = length (hosts s)"
proof -
  have i: "i < length (hosts s)"
    using assms by (auto simp: serve_host_def rbind_Inr_iff arr_get_eq_Inr_iff)
  have "backlog s' + k + 1 = backlog s + k' \<and> length (hosts s') = length (hosts s)"
  proof (cases "outgoing_frames (hosts s ! i)")
    case Nil
    with assms i show ?thesis by (simp add: serve_host_def)
  next
    case (Cons f fs)
    note pop = backlog_pop [OF Cons i]
    let ?s1 = "upd_host i (\<lambda>h. h\<lparr>outgoing_frames := fs\<rparr>) s"
    have "backlog (?s1\<lparr>ingress := p\<rparr>) = backlog ?s1" for p by (simp add: backlog_def)
    with assms i Cons pop send_frame_backlog [of e f ?s1] show ?thesis
      by (auto simp: serve_host_def Let_def rbind_Inr_iff split: if_splits)
  qed
  then show "backlog s' + k + 1 = backlog s + k'" "length (hosts s') = length (hosts s)" by simp_all
qed

lemma serve_run_backlog:
  assumes "rfold (serve_host e) is (k, s, t) = Inr (k', s', t')"
  shows "backlog s' + k + length is = backlog s + k' \<and> length (hosts s') = length (hosts s)"
  using assms
proof (induction "is" arbitrary: k s t)
  case (Cons i "is")
  from Cons.prems obtain k1 s1 t1 where s1: "serve_host e i (k, s, t) = Inr (k1, s1, t1)"
    "rfold (serve_host e) is (k1, s1, t1) = Inr (k', s', t')" by (auto simp: rbind_Inr_iff)
  from serve_host_backlog [OF s1(1)] Cons.IH [OF s1(2)] show ?case by auto
qed simp

section \<open>The order is a permutation\<close>

lemma mset_swap_nth:
  assumes "i < length xs" and "j < length xs"
  shows "mset (xs[i := xs ! j, j := xs ! i]) = mset xs"
  using mset_swap [OF assms(2,1)] by (simp add: list_update_swap)

lemma swap_step_props:
  assumes "length xs = len" and "i < len"
  shows "mset (fst (swap_step e len i (xs, s))) = mset xs" "length (fst (swap_step e len i (xs, s))) = len"
    "\<exists>r. snd (swap_step e len i (xs, s)) = s\<lparr>rands := r\<rparr>"
proof -
  have "rand e (rands s) mod len < length xs" "rand e (Suc (rands s)) mod (i + 1) < length xs"
    using assms by (auto intro: less_le_trans [OF mod_less_divisor])
  then show "mset (fst (swap_step e len i (xs, s))) = mset xs"
    using mset_swap_nth by (simp add: swap_step_def next_rand_def Let_def)
  then show "length (fst (swap_step e len i (xs, s))) = len" using assms(1) by (metis size_mset)
  show "\<exists>r. snd (swap_step e len i (xs, s)) = s\<lparr>rands := r\<rparr>"
    by (simp add: swap_step_def next_rand_def Let_def) blast
qed

lemma get_rand_seq_run:
  assumes "k \<le> len"
  shows "\<exists>xs r. fold (swap_step e len) [0..<k] ([0..<len], s) = (xs, s\<lparr>rands := r\<rparr>) \<and> mset xs = mset [0..<len]"
  using assms
proof (induction k)
  case 0
  show ?case by (intro exI [of _ "[0..<len]"] exI [of _ "rands s"]) simp
next
  case (Suc k)
  then obtain xs r where xs: "fold (swap_step e len) [0..<k] ([0..<len], s) = (xs, s\<lparr>rands := r\<rparr>)"
    "mset xs = mset [0..<len]" by auto
  then have "length xs = len" by (metis diff_zero length_upt size_mset)
  from swap_step_props [OF this, of k e "s\<lparr>rands := r\<rparr>"] Suc.prems obtain r' where
    "mset (fst (swap_step e len k (xs, s\<lparr>rands := r\<rparr>))) = mset xs"
    "snd (swap_step e len k (xs, s\<lparr>rands := r\<rparr>)) = s\<lparr>rands := r'\<rparr>" by auto
  with xs show ?case
    by (intro exI [of _ "fst (swap_step e len k (xs, s\<lparr>rands := r\<rparr>))"] exI [of _ r'])
      (simp, metis prod.collapse)
qed

lemma get_rand_seq_perm:
  obtains xs r where "get_rand_seq e len s = (xs, s\<lparr>rands := r\<rparr>)" and "mset xs = mset [0..<len]"
    and "length xs = len" and "set xs = {..<len}" and "distinct xs"
proof -
  from get_rand_seq_run [OF order_refl] obtain xs r where
    xs: "get_rand_seq e len s = (xs, s\<lparr>rands := r\<rparr>)" "mset xs = mset [0..<len]"
    unfolding get_rand_seq_def by blast
  moreover from xs(2) have "length xs = len" by (metis diff_zero length_upt size_mset)
  moreover from xs(2) have "set xs = {..<len}" by (metis atLeast_upt mset_eq_setD)
  moreover from xs(2) have "distinct xs" by (metis distinct_upt mset_eq_imp_distinct_iff)
  ultimately show ?thesis using that by blast
qed

section \<open>The rounds of the switch\<close>

lemma serve_hosts_backlog:
  assumes "serve_hosts e (s, t) = Inr (k, s', t')"
  shows "backlog s' + num_hosts e = backlog s + k"
proof -
  obtain xs r where o: "get_rand_seq e (num_hosts e) s = (xs, s\<lparr>rands := r\<rparr>)" "length xs = num_hosts e"
    by (rule get_rand_seq_perm)
  with assms have "rfold (serve_host e) xs (0, s\<lparr>rands := r\<rparr>, t) = Inr (k, s', t')"
    by (simp add: serve_hosts_def)
  from serve_run_backlog [OF this] o(2) show ?thesis by (simp add: backlog_def)
qed

lemma serve_count: "rfold (serve_host e) is (k, s, t) = Inr (k', s', t') \<Longrightarrow> k' \<le> k + length is"
proof (induction "is" arbitrary: k s t)
  case (Cons i "is")
  from Cons.prems obtain k1 s1 t1 where s1: "serve_host e i (k, s, t) = Inr (k1, s1, t1)"
    "rfold (serve_host e) is (k1, s1, t1) = Inr (k', s', t')" by (auto simp: rbind_Inr_iff)
  from s1(1) obtain x where x: "arr_get (hosts s) i = Inr x" by (auto simp: serve_host_def rbind_Inr_iff)
  have "k1 \<le> Suc k"
    using s1(1) x
    by (cases "outgoing_frames x") (auto simp: serve_host_def Let_def rbind_Inr_iff split: if_splits)
  with Cons.IH [OF s1(2)] show ?case by simp
qed simp

lemma serve_hosts_count:
  assumes "serve_hosts e (s, t) = Inr (k, s', t')"
  shows "k \<le> num_hosts e"
proof -
  obtain xs r where o: "get_rand_seq e (num_hosts e) s = (xs, s\<lparr>rands := r\<rparr>)" "length xs = num_hosts e"
    by (rule get_rand_seq_perm)
  with assms have "rfold (serve_host e) xs (0, s\<lparr>rands := r\<rparr>, t) = Inr (k, s', t')"
    by (simp add: serve_hosts_def)
  from serve_count [OF this] o(2) show ?thesis by simp
qed

text \<open>The loop \<^verbatim>\<open>while (1)\<close>: it ends when a round has found all queues empty.\<close>

function send_rounds :: "env \<Rightarrow> net \<times> traffic \<Rightarrow> (net \<times> traffic) res" where
  "send_rounds e st =
     (case serve_hosts e st of Inl x \<Rightarrow> Inl x
      | Inr (num_empty_output_queues, s, t) \<Rightarrow>
          if num_empty_output_queues = num_hosts e then Inr (s, t) else send_rounds e (s, t))"
  by pat_completeness auto
termination
proof (relation "measure (\<lambda>(e, s, t). backlog s)", simp)
  fix e :: env and st :: "net \<times> traffic" and r k p s t
  assume "serve_hosts e st = Inr r" "(k, p) = r" "(s, t) = p" "k \<noteq> num_hosts e"
  then have run: "serve_hosts e (fst st, snd st) = Inr (k, s, t)" by auto
  with serve_hosts_backlog [OF run] serve_hosts_count [OF run] \<open>k \<noteq> num_hosts e\<close>
  have "backlog s < backlog (fst st)" by linarith
  then show "((e, s, t), e, st) \<in> measure (\<lambda>(e, s, t). backlog s)" by (cases st) simp
qed

declare send_rounds.simps [simp del]

text \<open>
  The record that is written when the loop ends. The slots counted are the first \<open>window_size\<close>
  ones of the array, those of the window to host 0.
\<close>

definition diag_row :: "env \<Rightarrow> net \<Rightarrow> traffic \<Rightarrow> net res" where
  "diag_row e s t =
     check_peer e (host_send_cc_id e) (check_peer e (host_recv_cc_id e) (
     let i = host_send_cc_id e; q = host_recv_cc_id e; cc_sender = hosts s ! i; c = cc cc_sender ! q;
         slots = take (window_size e) (send_window cc_sender);
         num_filled_slots = length (filter (\<lambda>x. sframe x \<noteq> None) slots);
         num_timedout_frames = length (filter (\<lambda>x. sframe x \<noteq> None \<and> timeout x = None) slots)
     in Inr (if csv_out cc_sender then
               s\<lparr>diags := diags s @ [Diag_row (cstate c) (cwnd c) (ssthresh c) (num_frames_sent t ! i ! q)
                  (num_frames_dropped t ! i ! q) num_filled_slots num_timedout_frames]\<rparr>
             else s)))"

definition send_data_frames :: "env \<Rightarrow> net \<Rightarrow> net res" where
  "send_data_frames e s =
     (let n = num_hosts e; zero = replicate n (replicate n 0);
          t = \<lparr>incoming_frames_accept = replicate n 0, num_frames_sent = zero, num_frames_dropped = zero\<rparr>
      in rbind (rfold (service_ingress e) [0..<n] (s, t)) (\<lambda>(s, t).
         rbind (send_rounds e (s, t)) (\<lambda>(s, t). diag_row e s t)))"

definition send_ack_frames :: "env \<Rightarrow> net \<Rightarrow> net res" where
  "send_ack_frames e s =
     rfold (\<lambda>i s.
       rfold (\<lambda>f s. rbind (frame_sanity_check e f) (\<lambda>_. send_frame e f s))
         (outgoing_frames (hosts s ! i)) (upd_host i (\<lambda>h. h\<lparr>outgoing_frames := []\<rparr>) s))
       [0..<num_hosts e] s"

end
