(* ===== verification/SwitchInvariant.thy ===== *)
theory SwitchInvariant
  imports Switch
begin

text \<open>
  What the switch does to the frames: it empties the queues of outgoing frames, each frame arrives
  at its destination as it was sent or with a checksum that shows the damage, or it is dropped;
  no host gets more than the acceptance rate in one call.
\<close>

section \<open>One transmission\<close>

lemma not_as_xor: "NOT (x :: u8) = x XOR (- 1)"
  by (simp add: xor.commute)

lemma transmit_frame:
  assumes "wf_frame f" and "frame_valid f"
  shows "fst (transmit e f s) = f \<or> \<not> frame_valid (fst (transmit e f s))"
proof -
  have same: "convert_char_to_frame (convert_frame_to_char f) = f" by (rule char_frame_roundtrip [OF assms(1)])
  have bad: "\<not> frame_valid (convert_char_to_frame ((convert_frame_to_char f)[i := NOT (convert_frame_to_char f ! i)]))"
    if "i < MAX_FRAME_SIZE" for i
    unfolding not_as_xor by (rule single_byte_error_detected [OF assms that]) simp
  show ?thesis
    using same bad [of "rand e (Suc (Suc (rands s))) mod MAX_FRAME_SIZE"]
    by (simp add: transmit_def next_rand_def Let_def MAX_FRAME_SIZE_def)
qed

definition frame_sane :: "env \<Rightarrow> frame \<Rightarrow> bool" where
  "frame_sane e f \<longleftrightarrow> frame_valid f \<and> wf_frame f \<and> unat (dst_id f) < num_hosts e \<and>
     unat (src_id f) < num_hosts e \<and> src_id f \<noteq> dst_id f"

lemma sanity_ok: "frame_sane e f \<Longrightarrow> frame_sanity_check e f = Inr ()"
  by (simp add: frame_sane_def frame_sanity_check_def)

section \<open>What has moved\<close>

definition arrived :: "env \<Rightarrow> net \<Rightarrow> nat \<Rightarrow> frame \<Rightarrow> bool" where
  "arrived e s0 i g \<longleftrightarrow> \<not> frame_valid g \<or>
     unat (dst_id g) = i \<and> (\<exists>j < num_hosts e. g \<in> set (outgoing_frames (hosts s0 ! j)))"

definition moved_host :: "env \<Rightarrow> net \<Rightarrow> nat \<Rightarrow> host \<Rightarrow> bool" where
  "moved_host e s0 i h \<longleftrightarrow> (\<exists>out new. h = (hosts s0 ! i)\<lparr>outgoing_frames := out,
       incoming_frames := incoming_frames (hosts s0 ! i) @ new\<rparr> \<and>
     set out \<subseteq> set (outgoing_frames (hosts s0 ! i)) \<and> (\<forall>g \<in> set new. arrived e s0 i g))"

definition moved :: "env \<Rightarrow> net \<Rightarrow> net \<Rightarrow> bool" where
  "moved e s0 s \<longleftrightarrow> length (hosts s) = num_hosts e \<and> ingress s = ingress s0 \<and> printed s = printed s0 \<and>
     (\<forall>i < num_hosts e. moved_host e s0 i (hosts s ! i))"

definition net_sane :: "env \<Rightarrow> net \<Rightarrow> bool" where
  "net_sane e s \<longleftrightarrow> length (hosts s) = num_hosts e \<and>
     ingress s = replicate (num_hosts e) \<lparr>buffer_queue_head = [], buffer_queue_size = 0\<rparr> \<and>
     (\<forall>i < num_hosts e. \<forall>f \<in> set (outgoing_frames (hosts s ! i)). frame_sane e f)"

lemma moved_host_refl: "moved_host e s i (hosts s ! i)"
  unfolding moved_host_def
  by (intro exI [of _ "outgoing_frames (hosts s ! i)"] exI [of _ "[]"]) simp

lemma moved_refl: "length (hosts s) = num_hosts e \<Longrightarrow> moved e s s"
  by (simp add: moved_def moved_host_refl)

lemma moved_rands [simp]: "moved e s0 (s\<lparr>rands := r\<rparr>) = moved e s0 s"
  by (simp add: moved_def)

lemma moved_receive:
  assumes m: "moved e s0 s" and i: "i < num_hosts e" and g: "arrived e s0 i g"
  shows "moved e s0 (receive i g s)"
proof -
  have len: "length (hosts s) = num_hosts e" using m by (simp add: moved_def)
  have "moved_host e s0 j (hosts (receive i g s) ! j)" if j: "j < num_hosts e" for j
  proof (cases "j = i")
    case False
    then show ?thesis using m i j len by (simp add: moved_def receive_def)
  next
    case True
    from m i obtain out new where h: "hosts s ! i = (hosts s0 ! i)\<lparr>outgoing_frames := out,
        incoming_frames := incoming_frames (hosts s0 ! i) @ new\<rparr>"
      "set out \<subseteq> set (outgoing_frames (hosts s0 ! i))" "\<forall>g \<in> set new. arrived e s0 i g"
      by (auto simp: moved_def moved_host_def)
    then show ?thesis
      unfolding moved_host_def using True g i len
      by (intro exI [of _ out] exI [of _ "new @ [g]"]) (auto simp: receive_def)
  qed
  then show ?thesis using m by (simp add: moved_def) (simp add: receive_def)
qed

lemma moved_pop:
  assumes m: "moved e s0 s" and i: "i < num_hosts e" and "set fs \<subseteq> set (outgoing_frames (hosts s ! i))"
  shows "moved e s0 (upd_host i (\<lambda>h. h\<lparr>outgoing_frames := fs\<rparr>) s)"
proof -
  have len: "length (hosts s) = num_hosts e" using m by (simp add: moved_def)
  have "moved_host e s0 j (hosts (upd_host i (\<lambda>h. h\<lparr>outgoing_frames := fs\<rparr>) s) ! j)" if j: "j < num_hosts e" for j
  proof (cases "j = i")
    case False
    then show ?thesis using m i j len by (simp add: moved_def)
  next
    case True
    from m i obtain out new where h: "hosts s ! i = (hosts s0 ! i)\<lparr>outgoing_frames := out,
        incoming_frames := incoming_frames (hosts s0 ! i) @ new\<rparr>"
      "set out \<subseteq> set (outgoing_frames (hosts s0 ! i))" "\<forall>g \<in> set new. arrived e s0 i g"
      by (auto simp: moved_def moved_host_def)
    then show ?thesis
      unfolding moved_host_def using True assms(3) i len
      by (intro exI [of _ fs] exI [of _ new]) auto
  qed
  then show ?thesis using m by (simp add: moved_def)
qed

lemma moved_outgoing:
  assumes "moved e s0 s" and "i < num_hosts e" and "f \<in> set (outgoing_frames (hosts s ! i))"
  shows "f \<in> set (outgoing_frames (hosts s0 ! i))"
proof -
  have "moved_host e s0 i (hosts s ! i)" using assms(1,2) by (simp add: moved_def)
  then obtain out new where "hosts s ! i = (hosts s0 ! i)\<lparr>outgoing_frames := out,
      incoming_frames := incoming_frames (hosts s0 ! i) @ new\<rparr>" "set out \<subseteq> set (outgoing_frames (hosts s0 ! i))"
    unfolding moved_host_def by blast
  with assms(3) show ?thesis by auto
qed

lemma send_frame_moved:
  assumes m: "moved e s0 s" and sane: "frame_sane e f" and j: "j < num_hosts e" "f \<in> set (outgoing_frames (hosts s0 ! j))"
  shows "\<exists>r. send_frame e f s = Inr (receive (unat (dst_id f)) (fst (transmit e f s)) (s\<lparr>rands := r\<rparr>)) \<and>
    moved e s0 (receive (unat (dst_id f)) (fst (transmit e f s)) (s\<lparr>rands := r\<rparr>))"
proof -
  obtain r where "snd (transmit e f s) = s\<lparr>rands := r\<rparr>" using transmit_rands by blast
  then have run: "send_frame e f s = Inr (receive (unat (dst_id f)) (fst (transmit e f s)) (s\<lparr>rands := r\<rparr>))"
    using sane by (simp add: send_frame_def frame_sane_def case_prod_beta)
  have "arrived e s0 (unat (dst_id f)) (fst (transmit e f s))"
    using transmit_frame [of f e s] sane j unfolding arrived_def frame_sane_def by metis
  with run moved_receive [of e s0 "s\<lparr>rands := r\<rparr>" "unat (dst_id f)"] m sane show ?thesis
    by (auto simp: frame_sane_def)
qed

section \<open>Data frames\<close>

text \<open>The accepted frames are counted, up to the acceptance rate.\<close>

definition accepting :: "env \<Rightarrow> net \<Rightarrow> net \<Rightarrow> traffic \<Rightarrow> bool" where
  "accepting e s0 s t \<longleftrightarrow> length (incoming_frames_accept t) = num_hosts e \<and>
     (\<forall>i < num_hosts e. int (length (incoming_frames (hosts s ! i))) =
          int (length (incoming_frames (hosts s0 ! i))) + incoming_frames_accept t ! i \<and>
        incoming_frames_accept t ! i \<le> max 0 (recv_accept_rate e))"

lemma accepting_same:
  assumes "accepting e s0 s t" and "\<And>i. i < num_hosts e \<Longrightarrow> incoming_frames (hosts s' ! i) = incoming_frames (hosts s ! i)"
    and "incoming_frames_accept t' = incoming_frames_accept t"
  shows "accepting e s0 s' t'"
  using assms by (simp add: accepting_def)

lemma accepting_receive:
  assumes a: "accepting e s0 s t" and i: "i < num_hosts e" and len: "length (hosts s) = num_hosts e"
    and below: "incoming_frames_accept t ! i < recv_accept_rate e"
    and t': "incoming_frames_accept t' = (incoming_frames_accept t)[i := incoming_frames_accept t ! i + 1]"
  shows "accepting e s0 (receive i g (s\<lparr>rands := r\<rparr>)) t'"
  unfolding accepting_def
proof (intro conjI allI impI)
  show "length (incoming_frames_accept t') = num_hosts e" using a t' by (simp add: accepting_def)
  fix j assume j: "j < num_hosts e"
  have "incoming_frames_accept t' ! j = incoming_frames_accept t ! j + (if j = i then 1 else 0)"
    using a j by (simp add: t' accepting_def nth_list_update)
  moreover have "length (incoming_frames (hosts (receive i g (s\<lparr>rands := r\<rparr>)) ! j)) =
      length (incoming_frames (hosts s ! j)) + (if j = i then 1 else 0)"
    using i len by (simp add: receive_def)
  ultimately show "int (length (incoming_frames (hosts (receive i g (s\<lparr>rands := r\<rparr>)) ! j))) =
      int (length (incoming_frames (hosts s0 ! j))) + incoming_frames_accept t' ! j"
    "incoming_frames_accept t' ! j \<le> max 0 (recv_accept_rate e)"
    using a j below by (auto simp: accepting_def)
qed

lemma serve_host_spec:
  assumes sane: "net_sane e s0" and m: "moved e s0 s" and a: "accepting e s0 s t" and i: "i < num_hosts e"
  shows "\<exists>k' s' t'. serve_host e i (k, s, t) = Inr (k', s', t') \<and> moved e s0 s' \<and> accepting e s0 s' t' \<and>
    (k' \<le> Suc k) \<and> (k' = Suc k \<longrightarrow> outgoing_frames (hosts s ! i) = [] \<and> s' = s)"
proof (cases "outgoing_frames (hosts s ! i)")
  case Nil
  then show ?thesis using m a i by (simp add: serve_host_def moved_def)
next
  case (Cons f fs)
  let ?q = "unat (dst_id f)" and ?s1 = "upd_host i (\<lambda>h. h\<lparr>outgoing_frames := fs\<rparr>) s"
  have len: "length (hosts s) = num_hosts e" using m by (simp add: moved_def)
  have f0: "f \<in> set (outgoing_frames (hosts s0 ! i))" using moved_outgoing [OF m i] Cons by simp
  then have f: "frame_sane e f" using sane i by (simp add: net_sane_def)
  then have q: "?q < num_hosts e" by (simp add: frame_sane_def)
  have m1: "moved e s0 ?s1" by (rule moved_pop [OF m i]) (use Cons in auto)
  have len1: "length (hosts ?s1) = num_hosts e" using len by simp
  have inc1: "incoming_frames (hosts ?s1 ! j) = incoming_frames (hosts s ! j)" if "j < num_hosts e" for j
    using i len by simp
  let ?t1 = "t\<lparr>num_frames_sent := count2 i ?q (num_frames_sent t)\<rparr>"
  have a1: "accepting e s0 ?s1 t'" if "incoming_frames_accept t' = incoming_frames_accept t" for t'
    by (rule accepting_same [OF a inc1 that])
  have port: "buffer_queue_size (ingress s ! ?q) = 0"
    using m sane q by (simp add: moved_def net_sane_def)
  show ?thesis
  proof (cases "incoming_frames_accept t ! ?q \<ge> recv_accept_rate e")
    case True
    then show ?thesis
      using Cons i len f m1 a1 port
      by (simp add: serve_host_def sanity_ok Let_def INGRESS_PORT_QUEUE_CAPACITY_def)
  next
    case False
    from send_frame_moved [OF m1 f i f0] obtain r where
      s: "send_frame e f ?s1 = Inr (receive ?q (fst (transmit e f ?s1)) (?s1\<lparr>rands := r\<rparr>))"
        "moved e s0 (receive ?q (fst (transmit e f ?s1)) (?s1\<lparr>rands := r\<rparr>))" by blast
    have "accepting e s0 (receive ?q (fst (transmit e f ?s1)) (?s1\<lparr>rands := r\<rparr>)) (count_accept ?q ?t1)"
      by (rule accepting_receive [OF a1 [of t] q len1]) (use False in \<open>simp_all add: count_accept_def\<close>)
    then show ?thesis
      using Cons i len f s False by (simp add: serve_host_def sanity_ok Let_def)
  qed
qed

lemma serve_run_spec:
  assumes sane: "net_sane e s0" and "moved e s0 s" and "accepting e s0 s t" and "\<forall>i \<in> set is. i < num_hosts e"
  shows "\<exists>k' s' t'. rfold (serve_host e) is (k, s, t) = Inr (k', s', t') \<and> moved e s0 s' \<and> accepting e s0 s' t' \<and>
    (k' \<le> k + length is) \<and> (k' = k + length is \<longrightarrow> s' = s \<and> (\<forall>i \<in> set is. outgoing_frames (hosts s ! i) = []))"
  using assms(2-4)
proof (induction "is" arbitrary: k s t)
  case (Cons i "is")
  from serve_host_spec [OF sane Cons.prems(1,2), of i k] Cons.prems(3) obtain k1 s1 t1 where
    1: "serve_host e i (k, s, t) = Inr (k1, s1, t1)" "moved e s0 s1" "accepting e s0 s1 t1" "k1 \<le> Suc k"
      "k1 = Suc k \<longrightarrow> outgoing_frames (hosts s ! i) = [] \<and> s1 = s" by auto
  from Cons.IH [OF 1(2,3), of k1] Cons.prems(3) obtain k' s' t' where
    2: "rfold (serve_host e) is (k1, s1, t1) = Inr (k', s', t')" "moved e s0 s'" "accepting e s0 s' t'"
      "k' \<le> k1 + length is"
      "k' = k1 + length is \<longrightarrow> s' = s1 \<and> (\<forall>i \<in> set is. outgoing_frames (hosts s1 ! i) = [])" by auto
  have run: "rfold (serve_host e) (i # is) (k, s, t) = Inr (k', s', t')" using 1(1) 2(1) by simp
  have "s' = s \<and> (\<forall>j \<in> set (i # is). outgoing_frames (hosts s ! j) = [])" if "k' = k + length (i # is)"
  proof -
    have "k1 = Suc k" "k' = k1 + length is" using that 1(4) 2(4) by simp_all
    with 1(5) 2(5) show ?thesis by simp
  qed
  moreover have "k' \<le> k + length (i # is)" using 1(4) 2(4) by simp
  ultimately show ?case using run 2(2,3) by blast
qed simp

lemma serve_hosts_spec:
  assumes "net_sane e s0" and "moved e s0 s" and "accepting e s0 s t"
  shows "\<exists>k s' t'. serve_hosts e (s, t) = Inr (k, s', t') \<and> moved e s0 s' \<and> accepting e s0 s' t' \<and>
    (k = num_hosts e \<longrightarrow> (\<forall>i < num_hosts e. outgoing_frames (hosts s' ! i) = []))"
proof -
  obtain xs r where o: "get_rand_seq e (num_hosts e) s = (xs, s\<lparr>rands := r\<rparr>)" "length xs = num_hosts e"
    "set xs = {..<num_hosts e}" by (rule get_rand_seq_perm)
  have "accepting e s0 (s\<lparr>rands := r\<rparr>) t" by (rule accepting_same [OF assms(3)]) simp_all
  note acc = this
  have "moved e s0 (s\<lparr>rands := r\<rparr>)" "\<forall>i \<in> set xs. i < num_hosts e" using assms(2) o(3) by simp_all
  from serve_run_spec [OF assms(1) this(1) acc this(2), of 0] obtain k s' t' where
    run: "rfold (serve_host e) xs (0, s\<lparr>rands := r\<rparr>, t) = Inr (k, s', t')" "moved e s0 s'" "accepting e s0 s' t'"
    "k \<le> 0 + length xs" and fin: "k = 0 + length xs \<longrightarrow> s' = s\<lparr>rands := r\<rparr> \<and> (\<forall>i \<in> set xs. outgoing_frames (hosts (s\<lparr>rands := r\<rparr>) ! i) = [])"
    by (elim exE conjE)
  have "serve_hosts e (s, t) = Inr (k, s', t')" using o(1) run(1) by (simp add: serve_hosts_def)
  moreover have "\<forall>i < num_hosts e. outgoing_frames (hosts s' ! i) = []" if "k = num_hosts e"
    using fin that o(2,3) by simp
  ultimately show ?thesis using run(2,3) by blast
qed

lemma send_rounds_spec:
  assumes "net_sane e s0" and "moved e s0 (fst st)" and "accepting e s0 (fst st) (snd st)"
  shows "\<exists>s' t'. send_rounds e st = Inr (s', t') \<and> moved e s0 s' \<and> accepting e s0 s' t' \<and>
    (\<forall>i < num_hosts e. outgoing_frames (hosts s' ! i) = [])"
  using assms
proof (induction e st rule: send_rounds.induct)
  case (1 e st)
  obtain s t where st: "st = (s, t)" by (cases st)
  from serve_hosts_spec [OF "1.prems"(1), of s t] "1.prems"(2,3) st obtain k s' t' where
    r: "serve_hosts e (s, t) = Inr (k, s', t')" "moved e s0 s'" "accepting e s0 s' t'"
      "k = num_hosts e \<longrightarrow> (\<forall>i < num_hosts e. outgoing_frames (hosts s' ! i) = [])" by auto
  show ?case
  proof (cases "k = num_hosts e")
    case True
    with r st show ?thesis by (simp add: send_rounds.simps [of e "(s, t)"])
  next
    case False
    have "send_rounds e st = send_rounds e (s', t')" using r(1) st False by (simp add: send_rounds.simps [of e "(s, t)"])
    then show ?thesis
      using "1.IH" [of "(k, s', t')" k "(s', t')" s' t'] r(1-3) st False "1.prems"(1) by auto
  qed
qed

lemma service_ingress_empty:
  assumes "ingress s = replicate (num_hosts e) \<lparr>buffer_queue_head = [], buffer_queue_size = 0\<rparr>"
    and "length (incoming_frames_accept t) = num_hosts e" and "\<forall>i \<in> set is. i < num_hosts e"
  shows "rfold (service_ingress e) is (s, t) = Inr (s, t)"
  using assms(3)
proof (induction "is")
  case (Cons i "is")
  then have i: "i < num_hosts e" by simp
  have "(replicate (num_hosts e) p)[i := p] = replicate (num_hosts e) p" for p :: ingress_port
    using i by (metis list_update_id nth_replicate)
  then have "service_ingress e i (s, t) = Inr (s, t)"
    using assms(1,2) i by (simp add: service_ingress_def Let_def)
  with Cons show ?case by simp
qed simp

lemma diag_row_spec:
  assumes "cfg_ok e"
  shows "\<exists>d. diag_row e s t = Inr (s\<lparr>diags := d\<rparr>)"
proof -
  have "host_send_cc_id e < num_hosts e" "host_recv_cc_id e < num_hosts e" using assms by (auto simp: cfg_ok_def)
  then show ?thesis
    by (cases "csv_out (hosts s ! host_send_cc_id e)") (simp_all add: diag_row_def Let_def, blast, metis net.surjective net.update_convs(5))
qed

text \<open>
  All queues of outgoing frames are emptied, no step fails, and no host receives more than the
  acceptance rate.
\<close>

lemma send_data_frames_spec:
  assumes cfg: "cfg_ok e" and sane: "net_sane e s"
  shows "\<exists>s'. send_data_frames e s = Inr s' \<and> moved e s s' \<and>
    (\<forall>i < num_hosts e. outgoing_frames (hosts s' ! i) = [] \<and>
      int (length (incoming_frames (hosts s' ! i))) \<le>
        int (length (incoming_frames (hosts s ! i))) + max 0 (recv_accept_rate e))"
proof -
  let ?z = "replicate (num_hosts e) (replicate (num_hosts e) 0)"
  define t where "t = \<lparr>incoming_frames_accept = replicate (num_hosts e) 0, num_frames_sent = ?z, num_frames_dropped = ?z\<rparr>"
  have "accepting e s s t" by (simp add: accepting_def t_def)
  with send_rounds_spec [OF sane, of "(s, t)"] moved_refl [of s e] sane obtain s1 t1 where
    r: "send_rounds e (s, t) = Inr (s1, t1)" "moved e s s1" "accepting e s s1 t1"
      "\<forall>i < num_hosts e. outgoing_frames (hosts s1 ! i) = []" by (auto simp: net_sane_def)
  from diag_row_spec [OF cfg] obtain d where d: "diag_row e s1 t1 = Inr (s1\<lparr>diags := d\<rparr>)" by blast
  have "rfold (service_ingress e) [0..<num_hosts e] (s, t) = Inr (s, t)"
    using sane by (intro service_ingress_empty) (auto simp: net_sane_def t_def)
  then have "send_data_frames e s = Inr (s1\<lparr>diags := d\<rparr>)"
    using r(1) d by (simp add: send_data_frames_def t_def [symmetric] Let_def)
  moreover have "moved e s (s1\<lparr>diags := d\<rparr>)" using r(2) by (simp add: moved_def)
  moreover have "int (length (incoming_frames (hosts s1 ! i))) \<le>
      int (length (incoming_frames (hosts s ! i))) + max 0 (recv_accept_rate e)" if "i < num_hosts e" for i
    using r(3) that by (simp add: accepting_def)
  ultimately show ?thesis using r(4) by (intro exI [of _ "s1\<lparr>diags := d\<rparr>"]) simp
qed

section \<open>Acknowledgements\<close>

lemma send_list_moved:
  assumes "moved e s0 s" and "j < num_hosts e" and "\<forall>f \<in> set fs. frame_sane e f \<and> f \<in> set (outgoing_frames (hosts s0 ! j))"
  shows "\<exists>s'. rfold (\<lambda>f s. rbind (frame_sanity_check e f) (\<lambda>_. send_frame e f s)) fs s = Inr s' \<and> moved e s0 s' \<and>
    map outgoing_frames (hosts s') = map outgoing_frames (hosts s)"
  using assms(1,3)
proof (induction fs arbitrary: s)
  case (Cons f fs)
  from send_frame_moved [OF Cons.prems(1), of f j] assms(2) Cons.prems(2) obtain r where
    r: "send_frame e f s = Inr (receive (unat (dst_id f)) (fst (transmit e f s)) (s\<lparr>rands := r\<rparr>))"
      "moved e s0 (receive (unat (dst_id f)) (fst (transmit e f s)) (s\<lparr>rands := r\<rparr>))" by auto
  from Cons.IH [OF r(2)] Cons.prems(2) r(1) show ?case by (simp add: sanity_ok)
qed simp

lemma send_ack_frames_spec:
  assumes sane: "net_sane e s0"
  shows "\<exists>s'. send_ack_frames e s0 = Inr s' \<and> moved e s0 s' \<and>
    (\<forall>i < num_hosts e. outgoing_frames (hosts s' ! i) = [])"
proof -
  let ?step = "\<lambda>i s. rfold (\<lambda>f s. rbind (frame_sanity_check e f) (\<lambda>_. send_frame e f s))
         (outgoing_frames (hosts s ! i)) (upd_host i (\<lambda>h. h\<lparr>outgoing_frames := []\<rparr>) s)"
  have "\<exists>s'. rfold ?step [0..<k] s0 = Inr s' \<and> moved e s0 s' \<and>
      (\<forall>i < k. outgoing_frames (hosts s' ! i) = [])" if "k \<le> num_hosts e" for k
    using that
  proof (induction k)
    case 0
    then show ?case using sane moved_refl by (simp add: net_sane_def)
  next
    case (Suc k)
    then obtain s where s: "rfold ?step [0..<k] s0 = Inr s" "moved e s0 s"
      "\<forall>i < k. outgoing_frames (hosts s ! i) = []" by auto
    have k: "k < num_hosts e" and len: "length (hosts s) = num_hosts e" using Suc.prems s(2) by (simp_all add: moved_def)
    let ?s1 = "upd_host k (\<lambda>h. h\<lparr>outgoing_frames := []\<rparr>) s"
    have "\<forall>f \<in> set (outgoing_frames (hosts s ! k)). frame_sane e f \<and> f \<in> set (outgoing_frames (hosts s0 ! k))"
      using moved_outgoing [OF s(2) k] sane k by (auto simp: net_sane_def)
    from send_list_moved [OF moved_pop [OF s(2) k, of "[]"] k this] obtain s' where
      s': "?step k s = Inr s'" "moved e s0 s'" "map outgoing_frames (hosts s') = map outgoing_frames (hosts ?s1)" by auto
    have "outgoing_frames (hosts s' ! i) = outgoing_frames (hosts ?s1 ! i)" if "i < num_hosts e" for i
      using arg_cong [OF s'(3), of "\<lambda>xs. xs ! i"] that s'(2) len by (simp add: moved_def)
    then have "\<forall>i < Suc k. outgoing_frames (hosts s' ! i) = []"
      using s(3) k len by (simp add: less_Suc_eq)
    then show ?case using s(1) s'(1,2) by (simp add: rfold_append)
  qed
  from this [OF order_refl] show ?thesis by (simp add: send_ack_frames_def)
qed

section \<open>Properties\<close>

text \<open>The network of the small configuration, with one data frame from host 0 to host 1 to send.\<close>

definition loaded_net :: net where
  "loaded_net = \<lparr>hosts = [(init_host small_env 0)\<lparr>outgoing_frames := [hi_frame]\<rparr>, init_host small_env 1],
     ingress = init_ingress_ports small_env, rands = 0, printed = [], diags = []\<rparr>"

lemma loaded_net_sane: "net_sane small_env loaded_net"
proof -
  have "dst_id hi_frame = 1" by (simp add: hi_frame_def)
  with hi_frame have "frame_sane small_env hi_frame" by (simp add: frame_sane_def small_env_def)
  then show ?thesis
    by (auto simp: net_sane_def loaded_net_def init_ingress_ports_def small_env_def less_2_cases_iff init_host_def)
qed

text \<open>
  The order in which hosts are served is a permutation of all hosts, whatever \<^verbatim>\<open>rand\<close> returns.
\<close>

theorem service_order_permutation: "mset (fst (get_rand_seq e len s)) = mset [0..<len]"
proof -
  obtain xs r where "get_rand_seq e len s = (xs, s\<lparr>rands := r\<rparr>)" "mset xs = mset [0..<len]" by (rule get_rand_seq_perm)
  then show ?thesis by simp
qed

text \<open>
  C20: the switch delivers a valid frame as it is or visibly damaged, never as a different valid frame.
\<close>

theorem switch_never_forges:
  assumes "wf_frame f" and "frame_valid f" and "frame_valid (fst (transmit e f s))"
  shows "fst (transmit e f s) = f"
  using transmit_frame [OF assms(1,2)] assms(3) by blast

theorem switch_never_forges_witness: "fst (transmit small_env hi_frame loaded_net) = hi_frame"
proof -
  have "frame_valid (fst (transmit small_env hi_frame loaded_net))" by code_simp
  from switch_never_forges [OF hi_frame(1,2) this] show ?thesis .
qed

text \<open>
  C21: sending the data frames always comes to an end without a fault. It empties the outgoing queues, gives each
  host at most its acceptance rate of frames, and what it gives a host is a frame addressed to it
  from some host's queue, or fails the checksum.
\<close>

theorem data_frames_sent:
  assumes "cfg_ok e" and "net_sane e s" and "i < num_hosts e"
  shows "\<exists>s' new. send_data_frames e s = Inr s' \<and> outgoing_frames (hosts s' ! i) = [] \<and>
    incoming_frames (hosts s' ! i) = incoming_frames (hosts s ! i) @ new \<and> int (length new) \<le> max 0 (recv_accept_rate e) \<and>
    (\<forall>f \<in> set new. frame_valid f \<longrightarrow> unat (dst_id f) = i \<and> (\<exists>j < num_hosts e. f \<in> set (outgoing_frames (hosts s ! j))))"
proof -
  from send_data_frames_spec [OF assms(1,2)] obtain s' where s': "send_data_frames e s = Inr s'" "moved e s s'"
    "\<forall>i < num_hosts e. outgoing_frames (hosts s' ! i) = [] \<and> int (length (incoming_frames (hosts s' ! i))) \<le>
        int (length (incoming_frames (hosts s ! i))) + max 0 (recv_accept_rate e)" by blast
  from s'(2) assms(3) have "moved_host e s i (hosts s' ! i)" by (simp add: moved_def)
  then obtain out new where "hosts s' ! i = (hosts s ! i)\<lparr>outgoing_frames := out,
       incoming_frames := incoming_frames (hosts s ! i) @ new\<rparr>" "\<forall>g \<in> set new. arrived e s i g"
    unfolding moved_host_def by blast
  with s'(1,3) assms(3) show ?thesis
    by (intro exI [of _ s'] exI [of _ new]) (auto simp: arrived_def)
qed

theorem data_frames_sent_witness:
  "\<exists>s' new. send_data_frames small_env loaded_net = Inr s' \<and> incoming_frames (hosts s' ! 1) = new \<and> int (length new) \<le> 10"
  using data_frames_sent [OF small_env_cfg loaded_net_sane, of 1]
  by (auto simp: small_env_def loaded_net_def init_host_def)

end
