(* ===== verification/Simulation.thy ===== *)
theory Simulation
  imports SwitchInvariant
begin

text \<open>
  The whole simulation (\<^verbatim>\<open>run_hosts\<close>, \<^verbatim>\<open>run_senders\<close>, \<^verbatim>\<open>run_receivers\<close>, the commands that
  \<^verbatim>\<open>check_input\<close> queues and \<^verbatim>\<open>graceful_exit\<close>), and its invariant.
\<close>

section \<open>A round\<close>

definition run_senders :: "env \<Rightarrow> net \<Rightarrow> net res" where
  "run_senders e s =
     (let (sender_order, s) = get_rand_seq e (num_hosts e) s in
      rfold (\<lambda>i s. rbind (arr_get (hosts s) i) (\<lambda>h. rbind (run_sender e h) (\<lambda>(h, d).
        Inr (s\<lparr>hosts := (hosts s)[i := h], diags := diags s @ d\<rparr>)))) sender_order s)"

definition run_receivers :: "env \<Rightarrow> net \<Rightarrow> net res" where
  "run_receivers e s =
     (let (recv_order, s) = get_rand_seq e (num_hosts e) s in
      rfold (\<lambda>i s. rbind (arr_get (hosts s) i) (\<lambda>h. rbind (handle_incoming_frames e h) (\<lambda>(h, out).
        Inr (s\<lparr>hosts := (hosts s)[i := h], printed := printed s @ map (Pair i) out\<rparr>)))) recv_order s)"

definition run_hosts :: "env \<Rightarrow> net \<Rightarrow> net res" where
  "run_hosts e s =
     rbind (run_senders e s) (\<lambda>s. rbind (send_data_frames e s) (\<lambda>s.
     rbind (run_receivers e s) (\<lambda>s. send_ack_frames e s)))"

section \<open>Start, commands and exit\<close>

definition init_net :: "env \<Rightarrow> net" where
  \<comment> \<open>\<^verbatim>\<open>init\<close>\<close>
  "init_net e = \<lparr>hosts = map (init_host e) [0..<num_hosts e], ingress = init_ingress_ports e, rands = 0,
     printed = [], diags = []\<rparr>"

definition queue_cmd :: "env \<Rightarrow> int \<Rightarrow> int \<Rightarrow> u8 list \<Rightarrow> net \<Rightarrow> net" where
  \<comment> \<open>what \<^verbatim>\<open>check_input\<close> does for a line \<^verbatim>\<open>msg <sender> <receiver> <message>\<close>\<close>
  "queue_cmd e sender_id receiver_id input_message s =
     (if sender_id < int (num_hosts e) \<and> receiver_id < int (num_hosts e) \<and> sender_id \<ge> 0 \<and> receiver_id \<ge> 0 then
        upd_host (nat sender_id) (\<lambda>h. h\<lparr>input_cmdlist := input_cmdlist h @
          [\<lparr>cmd_src_id = of_int sender_id, cmd_dst_id = of_int receiver_id, message = input_message\<rparr>]\<rparr>) s
      else s)"

definition graceful_exit :: "env \<Rightarrow> bool \<Rightarrow> net \<Rightarrow> unit res" where
  "graceful_exit e exit_main s =
     (if exit_main then
        if \<exists>i \<in> {..<num_hosts e}. active (hosts s ! i) then Inr () else Inl (ExitCall 0)
      else Inr ())"

section \<open>Evaluation\<close>

definition sender_turn :: "env \<Rightarrow> nat \<Rightarrow> net \<Rightarrow> net res" where
  "sender_turn e i s = rbind (arr_get (hosts s) i) (\<lambda>h. rbind (run_sender e h) (\<lambda>(h, d).
     Inr (s\<lparr>hosts := (hosts s)[i := h], diags := diags s @ d\<rparr>)))"

definition receiver_turn :: "env \<Rightarrow> nat \<Rightarrow> net \<Rightarrow> net res" where
  "receiver_turn e i s = rbind (arr_get (hosts s) i) (\<lambda>h. rbind (handle_incoming_frames e h) (\<lambda>(h, out).
     Inr (s\<lparr>hosts := (hosts s)[i := h], printed := printed s @ map (Pair i) out\<rparr>)))"

lemma round_code [code]:
  "run_senders e s = (let (sender_order, s) = get_rand_seq e (num_hosts e) s in rfold (sender_turn e) sender_order s)"
  "run_receivers e s = (let (recv_order, s) = get_rand_seq e (num_hosts e) s in rfold (receiver_turn e) recv_order s)"
  "graceful_exit e exit_main s =
     (if exit_main then
        if list_ex (\<lambda>i. active (hosts s ! i)) [0..<num_hosts e] then Inr () else Inl (ExitCall 0)
      else Inr ())"
  by (auto simp: run_senders_def run_receivers_def graceful_exit_def sender_turn_def [abs_def]
      receiver_turn_def [abs_def] list_ex_iff)

section \<open>Receiving a batch of frames\<close>

lemma rx_inv_take:
  assumes "rx_inv w sent n rx"
  shows "rx_inv w (take (n + w) sent) n rx"
  using assms by (auto simp: rx_inv_def min_def split: prod.splits)

lemma rx_inv_untake:
  assumes "rx_inv w (take k sent) n rx"
  shows "rx_inv w sent n rx"
proof -
  have "n \<le> k" "n \<le> length sent" using assms by (auto simp: rx_inv_def split: prod.splits)
  then have "take n (take k sent) = take n sent" by (simp add: min_def)
  with assms show ?thesis by (auto simp: rx_inv_def split: prod.splits)
qed

lemma rx_inv_extend:
  assumes "rx_inv w sent n rx"
  shows "rx_inv w (sent @ new) n rx"
  using assms by (fastforce simp: rx_inv_def nth_append split: prod.splits)

lemma deliverable_take: "deliverable sent \<Longrightarrow> deliverable (take k sent)"
  by (auto simp: deliverable_def min_def)

lemma numbered_take: "numbered sent \<Longrightarrow> numbered (take k sent)"
  by (simp add: numbered_def)

definition rx_effect :: "host \<Rightarrow> host \<Rightarrow> frame list \<Rightarrow> bool" where
  "rx_effect h h' acks \<longleftrightarrow> (\<exists>W S L M m. h' = h\<lparr>recv_window := W, recv_window_start := S, recv_lfr := L,
     recv_msg := M, outgoing_frames := outgoing_frames h @ acks, mallocs := m\<rparr>)"

lemma rx_effect_refl: "rx_effect h h []"
  unfolding rx_effect_def
  by (rule exI [of _ "recv_window h"], rule exI [of _ "recv_window_start h"], rule exI [of _ "recv_lfr h"],
      rule exI [of _ "recv_msg h"], rule exI [of _ "mallocs h"]) simp

lemma rx_effect_trans:
  assumes "recv_effect h h1 ack" and "rx_effect h1 h2 acks"
  shows "rx_effect h h2 (ack # acks)"
proof -
  from assms(1) obtain W S L M where h1: "h1 = h\<lparr>recv_window := W, recv_window_start := S, recv_lfr := L,
     recv_msg := M, outgoing_frames := outgoing_frames h @ [ack], mallocs := Suc (mallocs h)\<rparr>"
    unfolding recv_effect_def by blast
  from assms(2) obtain W S L M m where h2: "h2 = h1\<lparr>recv_window := W, recv_window_start := S, recv_lfr := L,
     recv_msg := M, outgoing_frames := outgoing_frames h1 @ acks, mallocs := m\<rparr>"
    unfolding rx_effect_def by blast
  show ?thesis
    unfolding rx_effect_def
    by (rule exI [of _ W], rule exI [of _ S], rule exI [of _ L], rule exI [of _ M], rule exI [of _ m])
      (simp add: h2 h1)
qed

lemma rx_effect_fields:
  assumes "rx_effect h h' acks"
  shows "outgoing_frames h' = outgoing_frames h @ acks" "hid h' = hid h" "incoming_frames h' = incoming_frames h"
    "cc h' = cc h" "input_cmdlist h' = input_cmdlist h" "active h' = active h"
    "cq_get_length_send r h' = cq_get_length_send r h" "pending e r h' = pending e r h"
    "windows_ok e h' \<Longrightarrow> tx_inv e sent base h \<Longrightarrow> tx_inv e sent base h'"
proof -
  from assms obtain W S L M m where h': "h' = h\<lparr>recv_window := W, recv_window_start := S, recv_lfr := L,
     recv_msg := M, outgoing_frames := outgoing_frames h @ acks, mallocs := m\<rparr>"
    unfolding rx_effect_def by blast
  show "outgoing_frames h' = outgoing_frames h @ acks" "hid h' = hid h" "incoming_frames h' = incoming_frames h"
    "cc h' = cc h" "input_cmdlist h' = input_cmdlist h" "active h' = active h"
    "cq_get_length_send r h' = cq_get_length_send r h"
    by (simp_all add: h' cq_get_length_send_def)
  have items: "send_items e q h' = send_items e q h" for q by (rule send_queue_cong) (simp_all add: h')
  then show "pending e r h' = pending e r h" by (simp add: pending_def) (simp add: h')
  assume "windows_ok e h'" "tx_inv e sent base h"
  then show "tx_inv e sent base h'"
    by (subst tx_inv_cong [of e h' h]) (simp_all add: items tx_inv_def, simp_all add: h')
qed

text \<open>An acknowledgement from host \<open>q\<close> to host \<open>j\<close> that counts \<open>k\<close> frames.\<close>

definition ack_for :: "nat \<Rightarrow> nat \<Rightarrow> nat \<Rightarrow> frame \<Rightarrow> bool" where
  "ack_for q j k f \<longleftrightarrow> frame_valid f \<and> wf_frame f \<and> is_ack f = 1 \<and> src_id f = of_nat q \<and> dst_id f = of_nat j \<and>
     seq_num f = of_nat k - 1"

definition texts_from :: "nat \<Rightarrow> (nat \<times> u8 list) list \<Rightarrow> u8 list list" where
  "texts_from j out = map snd (filter (\<lambda>x. fst x = j) out)"

lemma texts_from_simps [simp]:
  "texts_from j [] = []" "texts_from j (xs @ ys) = texts_from j xs @ texts_from j ys"
  "texts_from j (map (Pair i) ms) = (if i = j then ms else [])"
  by (auto simp: texts_from_def filter_map comp_def)

text \<open>One valid frame: it is acknowledged by the number of frames accepted from its sender.\<close>

lemma receive_one:
  assumes ok: "windows_ok e h" and hid: "hid h = q"
    and S: "\<forall>j < num_hosts e. numbered (S j) \<and> deliverable (S j) \<and> (\<forall>f \<in> set (S j). data_frame j q f)"
    and inv: "\<forall>j < num_hosts e. N j \<le> M j \<and> rx_inv (window_size e) (S j) (M j) (rx_view e j h) \<and>
      deliver (take (M j) (S j)) [] = Inr (recv_msg h ! j, T j)"
    and valid: "frame_valid f" and j: "j < num_hosts e" "n < length (S j)" "f = S j ! n"
      "length (S j) \<le> n + 128" "n < N j + window_size e"
  shows "j = unat (src_id f) \<and> (\<exists>h1 o1 m ack. handle_incoming_frame e f h = Inr (h1, o1) \<and> windows_ok e h1 \<and>
    recv_effect h h1 ack \<and> M j \<le> m \<and> ack_for q j m ack \<and>
    (\<forall>r < num_hosts e. N r \<le> (M(j := m)) r \<and> rx_inv (window_size e) (S r) ((M(j := m)) r) (rx_view e r h1) \<and>
      deliver (take ((M(j := m)) r) (S r)) [] = Inr (recv_msg h1 ! r, T r @ texts_from r (map (Pair j) o1))))"
proof
  let ?w = "window_size e"
  have cfg: "cfg_ok e" using ok by (simp add: windows_ok_def)
  have "data_frame j q f" using S j by auto
  then show src: "j = unat (src_id f)"
    using j(1) cfg by (simp add: data_frame_def cfg_ok_def unat_u8_small)
  from inv j(1) have Mj: "N j \<le> M j" "rx_inv ?w (S j) (M j) (rx_view e j h)"
    "deliver (take (M j) (S j)) [] = Inr (recv_msg h ! j, T j)" by auto
  then have "M j \<le> length (S j)" by (auto simp: rx_inv_def split: prod.splits)
  then have n: "M j \<le> n + 128" "n < M j + ?w" using j(4,5) Mj(1) by auto
  have Sj: "numbered (S j)" "deliverable (S j)" using S j(1) by auto
  from handle_incoming_frame_in_order [OF ok valid [unfolded j(3)] src [unfolded j(3)] j(1) Mj(2) Sj n j(2), folded j(3)]
  obtain h1 o1 m ack a out1 rest where s: "handle_incoming_frame e f h = Inr (h1, o1)" "windows_ok e h1"
    "rx_inv ?w (S j) m (rx_view e j h1)" "M j \<le> m"
    "\<forall>r < num_hosts e. r \<noteq> j \<longrightarrow> rx_view e r h1 = rx_view e r h" "recv_effect h h1 ack"
    "make_ack e j (of_nat m - 1) h = (ack, a)"
    "deliver (take (M j) (S j)) [] = Inr (recv_msg h ! j, out1)"
    "deliver (take m (S j)) [] = Inr (rest, out1 @ o1)" by (elim exE conjE)
  have T: "out1 = T j" using s(8) Mj(3) by simp
  have rest: "rest = recv_msg h1 ! j" using s(3,9) by (auto simp: rx_inv_def rx_view_def)
  have same: "recv_msg h1 ! r = recv_msg h ! r" if "r < num_hosts e" "r \<noteq> j" for r
    using s(5) that by (auto simp: rx_view_def)
  have "ack_for q j m ack" using make_ack_frame [OF cfg s(7)] hid by (simp add: ack_for_def)
  moreover have "\<forall>r < num_hosts e. N r \<le> (M(j := m)) r \<and> rx_inv ?w (S r) ((M(j := m)) r) (rx_view e r h1) \<and>
      deliver (take ((M(j := m)) r) (S r)) [] = Inr (recv_msg h1 ! r, T r @ texts_from r (map (Pair j) o1))"
    using inv s(3,4,5,9) T rest same Mj(1) by auto
  ultimately show "\<exists>h1 o1 m ack. handle_incoming_frame e f h = Inr (h1, o1) \<and> windows_ok e h1 \<and>
    recv_effect h h1 ack \<and> M j \<le> m \<and> ack_for q j m ack \<and>
    (\<forall>r < num_hosts e. N r \<le> (M(j := m)) r \<and> rx_inv ?w (S r) ((M(j := m)) r) (rx_view e r h1) \<and>
      deliver (take ((M(j := m)) r) (S r)) [] = Inr (recv_msg h1 ! r, T r @ texts_from r (map (Pair j) o1)))"
    using s(1,2,4,6) by blast
qed

lemma receive_batch:
  assumes "windows_ok e h" and "hid h = q" and "q < num_hosts e"
    and S: "\<forall>j < num_hosts e. numbered (S j) \<and> deliverable (S j) \<and> (\<forall>f \<in> set (S j). data_frame j q f)"
    and "\<forall>j < num_hosts e. N j \<le> M j \<and> rx_inv (window_size e) (S j) (M j) (rx_view e j h) \<and>
      deliver (take (M j) (S j)) [] = Inr (recv_msg h ! j, T j)"
    and "\<forall>g \<in> set fs. frame_valid g \<longrightarrow> (\<exists>j < num_hosts e. \<exists>n < length (S j). g = S j ! n \<and>
      length (S j) \<le> n + 128 \<and> n < N j + window_size e)"
  shows "\<exists>h' M' out acks. rfold (\<lambda>f (h, out). rbind (handle_incoming_frame e f h) (\<lambda>(h, o1).
         Inr (h, out @ map (Pair (unat (src_id f))) o1))) fs (h, out0) = Inr (h', out0 @ out) \<and>
    windows_ok e h' \<and> rx_effect h h' acks \<and>
    (\<forall>j < num_hosts e. M j \<le> M' j \<and> rx_inv (window_size e) (S j) (M' j) (rx_view e j h') \<and>
      deliver (take (M' j) (S j)) [] = Inr (recv_msg h' ! j, T j @ texts_from j out)) \<and>
    (\<forall>a \<in> set acks. \<exists>j < num_hosts e. \<exists>k. S j \<noteq> [] \<and> M j \<le> k \<and> k \<le> M' j \<and> ack_for q j k a)"
  using assms(1,2,5,6)
proof (induction fs arbitrary: h M T out0)
  case Nil
  then show ?case using rx_effect_refl by (intro exI [of _ h] exI [of _ M] exI [of _ "[]"]) auto
next
  case (Cons f fs)
  have fs: "\<forall>g \<in> set fs. frame_valid g \<longrightarrow> (\<exists>j < num_hosts e. \<exists>n < length (S j). g = S j ! n \<and>
      length (S j) \<le> n + 128 \<and> n < N j + window_size e)" using Cons.prems(4) by simp
  show ?case
  proof (cases "frame_valid f")
    case False
    then show ?thesis
      using Cons.IH [OF Cons.prems(1-3) fs, of out0] by (simp add: handle_incoming_frame_corrupt)
  next
    case True
    with Cons.prems(4) obtain j n where j: "j < num_hosts e" "n < length (S j)" "f = S j ! n"
      "length (S j) \<le> n + 128" "n < N j + window_size e" by auto
    note one = receive_one [OF Cons.prems(1,2) S Cons.prems(3) True j]
    from one obtain h1 o1 m ack where s: "handle_incoming_frame e f h = Inr (h1, o1)" "windows_ok e h1"
      "recv_effect h h1 ack" "M j \<le> m" "ack_for q j m ack"
      "\<forall>r < num_hosts e. N r \<le> (M(j := m)) r \<and> rx_inv (window_size e) (S r) ((M(j := m)) r) (rx_view e r h1) \<and>
        deliver (take ((M(j := m)) r) (S r)) [] = Inr (recv_msg h1 ! r, T r @ texts_from r (map (Pair j) o1))"
      by (elim conjE exE)
    have hid1: "hid h1 = q" using recv_effectD(2) [OF s(3)] Cons.prems(2) by simp
    from Cons.IH [OF s(2) hid1 s(6) fs, of "out0 @ map (Pair j) o1"] obtain h' M' out acks where
      IH: "rfold (\<lambda>f (h, out). rbind (handle_incoming_frame e f h) (\<lambda>(h, o1).
         Inr (h, out @ map (Pair (unat (src_id f))) o1))) fs (h1, out0 @ map (Pair j) o1) =
           Inr (h', (out0 @ map (Pair j) o1) @ out)"
        "windows_ok e h'" "rx_effect h1 h' acks"
        "\<forall>r < num_hosts e. (M(j := m)) r \<le> M' r \<and> rx_inv (window_size e) (S r) (M' r) (rx_view e r h') \<and>
          deliver (take (M' r) (S r)) [] = Inr (recv_msg h' ! r, (T r @ texts_from r (map (Pair j) o1)) @ texts_from r out)"
        "\<forall>a \<in> set acks. \<exists>r < num_hosts e. \<exists>k. S r \<noteq> [] \<and> (M(j := m)) r \<le> k \<and> k \<le> M' r \<and> ack_for q r k a"
      by (elim exE conjE)
    have le: "M r \<le> (M(j := m)) r" for r using s(4) by simp
    have "\<exists>r < num_hosts e. \<exists>k. S r \<noteq> [] \<and> M r \<le> k \<and> k \<le> M' r \<and> ack_for q r k a" if "a \<in> set (ack # acks)" for a
    proof (cases "a = ack")
      case True
      moreover have "m \<le> M' j" "S j \<noteq> []" using IH(4) j(1,2) by auto
      ultimately show ?thesis using j(1) s(4,5) by blast
    next
      case False
      with that IH(5) obtain r k where "r < num_hosts e" "S r \<noteq> []" "(M(j := m)) r \<le> k" "k \<le> M' r" "ack_for q r k a" by auto
      with order_trans [OF le this(3)] show ?thesis by blast
    qed
    moreover have "\<forall>r < num_hosts e. M r \<le> M' r \<and> rx_inv (window_size e) (S r) (M' r) (rx_view e r h') \<and>
        deliver (take (M' r) (S r)) [] = Inr (recv_msg h' ! r, T r @ texts_from r (map (Pair j) o1 @ out))"
      using IH(4) le by (auto intro: order_trans)
    moreover have "rfold (\<lambda>f (h, out). rbind (handle_incoming_frame e f h) (\<lambda>(h, o1).
         Inr (h, out @ map (Pair (unat (src_id f))) o1))) (f # fs) (h, out0) =
        Inr (h', out0 @ (map (Pair j) o1 @ out))"
      using s(1) IH(1) one by simp
    ultimately show ?thesis
      using IH(2) rx_effect_trans [OF s(3) IH(3)] by blast
  qed
qed

section \<open>The invariant of the simulation\<close>

text \<open>
  For each host \<open>i\<close> and peer \<open>q\<close>: the frames numbered so far, how many of them were acknowledged,
  and how many the peer has accepted.
\<close>

record ghost =
  g_sent :: "nat \<Rightarrow> nat \<Rightarrow> frame list"
  g_base :: "nat \<Rightarrow> nat \<Rightarrow> nat"
  g_got :: "nat \<Rightarrow> nat \<Rightarrow> nat"

text \<open>The sending side of one host; \<open>ms q\<close> are the messages commanded for peer \<open>q\<close>.\<close>

definition host_ok ::
  "env \<Rightarrow> (nat \<Rightarrow> u8 list list) \<Rightarrow> (nat \<Rightarrow> frame list) \<Rightarrow> (nat \<Rightarrow> nat) \<Rightarrow> (nat \<Rightarrow> nat) \<Rightarrow> nat \<Rightarrow> host \<Rightarrow> bool" where
  "host_ok e ms sent base got i h \<longleftrightarrow> hid h = i \<and> tx_inv e sent base h \<and> (\<forall>q < num_hosts e. cc_inv (cc h ! q)) \<and>
     (\<forall>q < num_hosts e. base q \<le> got q \<and> got q \<le> win_end base h q) \<and> sent i = [] \<and>
     (\<forall>c \<in> set (input_cmdlist h). cmd_ok e i c \<and> unat (cmd_dst_id c) \<noteq> i) \<and>
     (\<exists>queued. \<forall>q. groups (sent q) (queued q) \<and> ms q = queued q @ texts_for q (input_cmdlist h))"

text \<open>The receiving side: host \<open>q\<close> has accepted \<open>got\<close> frames, all from the windows of host \<open>i\<close>.\<close>

definition link_ok :: "env \<Rightarrow> frame list \<Rightarrow> nat \<Rightarrow> nat \<Rightarrow> nat \<Rightarrow> u8 list list \<Rightarrow> host \<Rightarrow> bool" where
  "link_ok e sent end_i got i heard hq \<longleftrightarrow> rx_inv (window_size e) (take end_i sent) got (rx_view e i hq) \<and>
     deliver (take got sent) [] = Inr (recv_msg hq ! i, heard)"

definition heard :: "nat \<Rightarrow> nat \<Rightarrow> net \<Rightarrow> u8 list list" where
  \<comment> \<open>what host \<open>q\<close> has printed of the messages from host \<open>i\<close>\<close>
  "heard q i s = texts_from i (map snd (filter (\<lambda>x. fst x = q) (printed s)))"

definition net_ok :: "env \<Rightarrow> (nat \<Rightarrow> nat \<Rightarrow> u8 list list) \<Rightarrow> ghost \<Rightarrow> net \<Rightarrow> bool" where
  "net_ok e ms g s \<longleftrightarrow> length (hosts s) = num_hosts e \<and>
     ingress s = replicate (num_hosts e) \<lparr>buffer_queue_head = [], buffer_queue_size = 0\<rparr> \<and>
     (\<forall>i < num_hosts e. host_ok e (ms i) (g_sent g i) (g_base g i) (g_got g i) i (hosts s ! i) \<and>
       (\<forall>q < num_hosts e. link_ok e (g_sent g i q) (win_end (g_base g i) (hosts s ! i) q) (g_got g i q) i
          (heard q i s) (hosts s ! q)))"

text \<open>Between two rounds only acknowledgements, and damaged frames, are in the queues.\<close>

definition acks_in :: "env \<Rightarrow> (nat \<Rightarrow> nat) \<Rightarrow> (nat \<Rightarrow> nat) \<Rightarrow> host \<Rightarrow> bool" where
  "acks_in e base got h \<longleftrightarrow> outgoing_frames h = [] \<and>
     (\<forall>f \<in> set (incoming_frames h). frame_valid f \<longrightarrow> is_ack f \<noteq> 0 \<and> (\<exists>k. acks_count e base got f k))"

definition net_inv :: "env \<Rightarrow> (nat \<Rightarrow> nat \<Rightarrow> u8 list list) \<Rightarrow> ghost \<Rightarrow> net \<Rightarrow> bool" where
  "net_inv e ms g s \<longleftrightarrow> net_ok e ms g s \<and>
     (\<forall>i < num_hosts e. acks_in e (g_base g i) (g_got g i) (hosts s ! i))"

definition sim_ok :: "env \<Rightarrow> bool" where
  "sim_ok e \<longleftrightarrow> cfg_ok e \<and> rounding_ok e \<and> window_size e \<le> 64"

text \<open>An inactive host has nothing pending.\<close>

definition idle_ok :: "env \<Rightarrow> host \<Rightarrow> bool" where
  "idle_ok e h \<longleftrightarrow> input_cmdlist h = [] \<and> (\<not> active h \<longrightarrow> (\<forall>q < num_hosts e. pending e q h = []))"

lemma link_got_le:
  assumes "link_ok e sent w got i hrd hq"
  shows "got \<le> w" "got \<le> length sent"
  using assms by (auto simp: link_ok_def rx_inv_def split: prod.splits)

lemma link_extend:
  assumes l: "link_ok e sent w got i hrd hq" and "rx_view e i hq' = rx_view e i hq" and "w \<le> w'"
  shows "link_ok e (sent @ new) w' got i hrd hq'"
proof -
  have "rx_inv (window_size e) (take w sent @ drop w (take w' (sent @ new))) got (rx_view e i hq')"
    using l assms(2) rx_inv_extend by (simp add: link_ok_def)
  moreover have "take w' (sent @ new) = (if w \<le> length sent then take w sent @ drop w (take w' (sent @ new)) else take w' (sent @ new))"
    using assms(3) by (simp add: take_append) (metis append_take_drop_id min.absorb1 take_take take_append)
  ultimately have "rx_inv (window_size e) (take w' (sent @ new)) got (rx_view e i hq')"
  proof (cases "w \<le> length sent")
    case False
    then have "take w sent = sent" by simp
    moreover have "take w' (sent @ new) = sent @ take (w' - length sent) new" using False assms(3) by simp
    ultimately show ?thesis using l assms(2) rx_inv_extend by (simp add: link_ok_def)
  qed simp
  moreover have tk: "take got (sent @ new) = take got sent" using link_got_le(2) [OF l] by simp
  have "recv_msg hq' ! i = recv_msg hq ! i" using assms(2) by (simp add: rx_view_def)
  then have "deliver (take got (sent @ new)) [] = Inr (recv_msg hq' ! i, hrd)"
    unfolding tk using l by (simp add: link_ok_def)
  ultimately show ?thesis by (simp add: link_ok_def)
qed

section \<open>First phase: the senders\<close>

text \<open>What the turn of a host leaves: nothing incoming, frames of its windows outgoing.\<close>

definition turned :: "env \<Rightarrow> (nat \<Rightarrow> nat) \<Rightarrow> (nat \<Rightarrow> frame list) \<Rightarrow> (nat \<Rightarrow> nat) \<Rightarrow> host \<Rightarrow> bool" where
  "turned e lo sent base h \<longleftrightarrow> incoming_frames h = [] \<and> idle_ok e h \<and>
     set (outgoing_frames h) \<subseteq> sendable e sent lo (win_end base h)"

lemma take_concat_nil: "groups sent ms \<Longrightarrow> sent = [] \<Longrightarrow> ms = []"
proof -
  assume "groups sent ms" "sent = []"
  then obtain fss where "concat fss = []" "list_all2 carries fss ms" by (auto simp: groups_def)
  then show "ms = []" by (cases fss) (auto simp: list_all2_Cons1 carries_def)
qed

lemma texts_for_nil: "\<forall>c \<in> set cs. unat (cmd_dst_id c) \<noteq> q \<Longrightarrow> texts_for q cs = []"
  by (auto simp: texts_for_def)

lemma groups_nil_sent: "groups sent [] \<Longrightarrow> sent = []"
  by (auto simp: groups_def)

lemma run_sender_host:
  assumes sim: "sim_ok e" and h: "host_ok e ms sent base got i h" and a: "acks_in e base got h"
  shows "case run_sender e h of Inl x \<Rightarrow> x = Uninitialised
    | Inr (h', d) \<Rightarrow> \<exists>sent' base'. host_ok e ms sent' base' got i h' \<and> turned e base sent' base' h' \<and>
        (\<forall>q. \<exists>new. sent' q = sent q @ new) \<and>
        (\<forall>q < num_hosts e. base q \<le> base' q \<and> win_end base h q \<le> win_end base' h' q) \<and>
        (\<forall>q. rx_view e q h' = rx_view e q h)"
proof -
  from h obtain queued where q: "\<forall>q. groups (sent q) (queued q)"
    "\<And>q. ms q = queued q @ texts_for q (input_cmdlist h)" unfolding host_ok_def by blast
  have hyps: "tx_inv e sent base h" "rounding_ok e" "\<forall>q < num_hosts e. cc_inv (cc h ! q)"
    "\<forall>q < num_hosts e. base q \<le> got q \<and> got q \<le> base q + cq_get_length_send q h"
    "\<forall>f \<in> set (incoming_frames h). is_valid_ack f \<longrightarrow> (\<exists>k. acks_count e base got f k)"
    "\<forall>c \<in> set (input_cmdlist h). cmd_ok e (hid h) c"
    using sim h a by (auto simp: sim_ok_def host_ok_def acks_in_def is_valid_ack_def win_end_def)
  have noin: "filter (\<lambda>f. frame_valid f \<and> is_ack f = 0) (incoming_frames h) = []"
    using a by (auto simp: acks_in_def filter_empty_conv)
  show ?thesis
  proof (cases "run_sender e h")
    case (Inl x)
    with run_sender_inv [OF hyps q(1)] show ?thesis by simp
  next
    case (Inr r)
    obtain h' d where r: "r = (h', d)" by (cases r)
    from run_sender_inv [OF hyps q(1)] Inr r obtain sent' base' out where
      w: "tx_inv e sent' base' h'" "\<forall>q < num_hosts e. cc_inv (cc h' ! q)"
        "\<forall>q < num_hosts e. base q \<le> base' q \<and> base' q \<le> got q \<and> win_end base h q \<le> win_end base' h' q"
        "\<forall>q. groups (sent' q) (queued q @ texts_for q (input_cmdlist h))" "\<forall>q. \<exists>new. sent' q = sent q @ new"
        "outgoing_frames h' = outgoing_frames h @ out" "set out \<subseteq> sendable e sent' base (win_end base' h')"
        "hid h' = hid h" "input_cmdlist h' = []"
        "incoming_frames h' = filter (\<lambda>f. frame_valid f \<and> is_ack f = 0) (incoming_frames h)"
        "\<forall>q. rx_view e q h' = rx_view e q h"
        "\<not> active h' \<longrightarrow> (\<forall>q < num_hosts e. pending e q h' = [])"
      by auto
    have "queued i = []" using take_concat_nil [OF q(1) [rule_format, of i]] h by (simp add: host_ok_def)
    moreover have "texts_for i (input_cmdlist h) = []" using h by (intro texts_for_nil) (simp add: host_ok_def)
    ultimately have "sent' i = []" using w(4) groups_nil_sent by (metis append_Nil)
    moreover have "got q \<le> win_end base' h' q" if "q < num_hosts e" for q
    proof -
      have "got q \<le> win_end base h q" using h that by (simp add: host_ok_def)
      with w(3) that show ?thesis by (blast intro: order_trans)
    qed
    moreover have "hid h = i" using h by (simp add: host_ok_def)
    moreover have "\<exists>queued. \<forall>q. groups (sent' q) (queued q) \<and> ms q = queued q @ texts_for q (input_cmdlist h')"
      using w(4,9) q(2) by (intro exI [of _ ms]) simp
    ultimately have "host_ok e ms sent' base' got i h'"
      using w(1-3,8,9) unfolding host_ok_def by simp
    moreover have "turned e base sent' base' h'"
      using w(6,7,9,10,12) a noin by (simp add: turned_def idle_ok_def acks_in_def)
    ultimately show ?thesis
      using w(3,5,11) Inr r by simp (rule exI [of _ sent'], rule exI [of _ base'], simp)
  qed
qed

lemma heard_same: "printed s' = printed s \<Longrightarrow> heard q i s' = heard q i s"
  by (simp add: heard_def)

text \<open>Replacing host \<open>i\<close> and its streams.\<close>

lemma net_ok_sender:
  assumes net: "net_ok e ms g s" and i: "i < num_hosts e"
    and h: "host_ok e (ms i) sent' base' (g_got g i) i h'" and ext: "\<forall>q. \<exists>new. sent' q = g_sent g i q @ new"
    and ends: "\<forall>q < num_hosts e. win_end (g_base g i) (hosts s ! i) q \<le> win_end base' h' q"
    and view: "\<forall>q. rx_view e q h' = rx_view e q (hosts s ! i)"
  shows "net_ok e ms (g\<lparr>g_sent := (g_sent g)(i := sent'), g_base := (g_base g)(i := base')\<rparr>)
    (s\<lparr>hosts := (hosts s)[i := h'], diags := d\<rparr>)" (is "net_ok e ms ?g ?s")
proof -
  have len: "length (hosts s) = num_hosts e" using net by (simp add: net_ok_def)
  have at: "hosts ?s ! j = (if j = i then h' else hosts s ! j)" if "j < num_hosts e" for j
    using that len by (simp add: nth_list_update)
  have v: "rx_view e r (hosts ?s ! j) = rx_view e r (hosts s ! j)" if "j < num_hosts e" for j r
    using view at [OF that] by simp
  have "link_ok e (g_sent ?g j q) (win_end (g_base ?g j) (hosts ?s ! j) q) (g_got ?g j q) j (heard q j ?s) (hosts ?s ! q)"
    if j: "j < num_hosts e" and q: "q < num_hosts e" for j q
  proof -
    have l: "link_ok e (g_sent g j q) (win_end (g_base g j) (hosts s ! j) q) (g_got g j q) j (heard q j s) (hosts s ! q)"
      using net j q by (simp add: net_ok_def)
    have hd: "heard q j ?s = heard q j s" by (simp add: heard_def)
    show ?thesis
    proof (cases "j = i")
      case True
      obtain new where "sent' q = g_sent g i q @ new" using ext by blast
      with link_extend [OF l v [OF q], of "win_end base' h' q" new] True ends q at [OF i] hd show ?thesis by simp
    next
      case False
      with link_extend [OF l v [OF q] order_refl, of "[]"] at [OF j] hd show ?thesis by simp
    qed
  qed
  moreover have "host_ok e (ms j) (g_sent ?g j) (g_base ?g j) (g_got ?g j) j (hosts ?s ! j)" if "j < num_hosts e" for j
    using net h that at [OF that] by (simp add: net_ok_def)
  ultimately show ?thesis using net len by (simp add: net_ok_def)
qed

lemma senders_loop:
  assumes "sim_ok e" and "distinct xs" and "set xs \<subseteq> {..<num_hosts e}" and "net_ok e ms g1 s"
    and "\<forall>i \<in> set xs. acks_in e (g_base g i) (g_got g i) (hosts s ! i) \<and> g_base g1 i = g_base g i"
    and "\<forall>i < num_hosts e. i \<notin> set xs \<longrightarrow> turned e (g_base g i) (g_sent g1 i) (g_base g1 i) (hosts s ! i)"
    and "g_got g1 = g_got g"
  shows "case rfold (\<lambda>i s. rbind (arr_get (hosts s) i) (\<lambda>h. rbind (run_sender e h) (\<lambda>(h, d).
        Inr (s\<lparr>hosts := (hosts s)[i := h], diags := diags s @ d\<rparr>)))) xs s of
      Inl x \<Rightarrow> x = Uninitialised
    | Inr s' \<Rightarrow> \<exists>g'. net_ok e ms g' s' \<and> g_got g' = g_got g \<and>
        (\<forall>i < num_hosts e. turned e (g_base g i) (g_sent g' i) (g_base g' i) (hosts s' ! i))"
  using assms(2-7)
proof (induction xs arbitrary: s g1)
  case Nil
  then show ?case by auto
next
  case (Cons i xs)
  have i: "i < num_hosts e" using Cons.prems(2) by simp
  have len: "length (hosts s) = num_hosts e" using Cons.prems(3) by (simp add: net_ok_def)
  have h: "host_ok e (ms i) (g_sent g1 i) (g_base g1 i) (g_got g1 i) i (hosts s ! i)"
    using Cons.prems(3) i by (simp add: net_ok_def)
  have a: "acks_in e (g_base g1 i) (g_got g1 i) (hosts s ! i)" and b: "g_base g1 i = g_base g i"
    using Cons.prems(4,6) by simp_all
  note turn = run_sender_host [OF assms(1) h a]
  show ?case
  proof (cases "run_sender e (hosts s ! i)")
    case (Inl x)
    with turn show ?thesis using i len by simp
  next
    case (Inr r)
    obtain h' d where r: "r = (h', d)" by (cases r)
    from turn Inr r obtain sent' base' where t: "host_ok e (ms i) sent' base' (g_got g1 i) i h'"
      "turned e (g_base g1 i) sent' base' h'" "\<forall>q. \<exists>new. sent' q = g_sent g1 i q @ new"
      "\<forall>q < num_hosts e. g_base g1 i q \<le> base' q \<and> win_end (g_base g1 i) (hosts s ! i) q \<le> win_end base' h' q"
      "\<forall>q. rx_view e q h' = rx_view e q (hosts s ! i)" by auto
    let ?g = "g1\<lparr>g_sent := (g_sent g1)(i := sent'), g_base := (g_base g1)(i := base')\<rparr>"
    let ?s = "s\<lparr>hosts := (hosts s)[i := h'], diags := diags s @ d\<rparr>"
    have net: "net_ok e ms ?g ?s"
      by (rule net_ok_sender [OF Cons.prems(3) i t(1,3) _ t(5)]) (use t(4) in blast)
    have at: "hosts ?s ! j = (if j = i then h' else hosts s ! j)" if "j < num_hosts e" for j
      using that len by (simp add: nth_list_update)
    have rest: "\<forall>j \<in> set xs. acks_in e (g_base g j) (g_got g j) (hosts ?s ! j) \<and> g_base ?g j = g_base g j"
      using Cons.prems(1,2,4) at by auto
    have fin: "\<forall>j < num_hosts e. j \<notin> set xs \<longrightarrow> turned e (g_base g j) (g_sent ?g j) (g_base ?g j) (hosts ?s ! j)"
      using Cons.prems(5) t(2) b at by auto
    have got: "g_got ?g = g_got g" using Cons.prems(6) by simp
    from Cons.IH [OF _ _ net rest fin got] Cons.prems(1,2) show ?thesis
      using Inr r i len by simp
  qed
qed

lemma net_ok_rands [simp]: "net_ok e ms g (s\<lparr>rands := r\<rparr>) = net_ok e ms g s"
  by (simp add: net_ok_def heard_def)

lemma run_senders_phase:
  assumes "sim_ok e" and "net_inv e ms g s"
  shows "case run_senders e s of Inl x \<Rightarrow> x = Uninitialised
    | Inr s' \<Rightarrow> \<exists>g'. net_ok e ms g' s' \<and> g_got g' = g_got g \<and>
        (\<forall>i < num_hosts e. turned e (g_base g i) (g_sent g' i) (g_base g' i) (hosts s' ! i))"
proof -
  obtain xs r where o: "get_rand_seq e (num_hosts e) s = (xs, s\<lparr>rands := r\<rparr>)" "set xs = {..<num_hosts e}" "distinct xs"
    by (rule get_rand_seq_perm)
  have "net_ok e ms g (s\<lparr>rands := r\<rparr>)" using assms(2) by (simp add: net_inv_def)
  from senders_loop [OF assms(1) o(3) _ this, of g] o(1,2) assms(2) show ?thesis
    by (simp add: run_senders_def net_inv_def)
qed

section \<open>Second phase: data frames\<close>

definition data_in :: "env \<Rightarrow> (nat \<Rightarrow> nat \<Rightarrow> nat) \<Rightarrow> ghost \<Rightarrow> net \<Rightarrow> nat \<Rightarrow> host \<Rightarrow> bool" where
  "data_in e lo g s q hq \<longleftrightarrow> outgoing_frames hq = [] \<and>
     (\<forall>f \<in> set (incoming_frames hq). frame_valid f \<longrightarrow>
       (\<exists>j < num_hosts e. \<exists>n. lo j q \<le> n \<and> n < win_end (g_base g j) (hosts s ! j) q \<and> f = g_sent g j q ! n))"

lemma queue_update_simps:
  "cq_get_length_send q (h\<lparr>outgoing_frames := fs, incoming_frames := gs\<rparr>) = cq_get_length_send q h"
  "tx_inv e sent base (h\<lparr>outgoing_frames := fs, incoming_frames := gs\<rparr>) = tx_inv e sent base h"
  "rx_view e q (h\<lparr>outgoing_frames := fs, incoming_frames := gs\<rparr>) = rx_view e q h"
  "pending e q (h\<lparr>outgoing_frames := fs, incoming_frames := gs\<rparr>) = pending e q h"
proof -
  let ?h = "h\<lparr>outgoing_frames := fs, incoming_frames := gs\<rparr>"
  show "cq_get_length_send q ?h = cq_get_length_send q h" by (simp add: cq_get_length_send_def)
  show "tx_inv e sent base ?h = tx_inv e sent base h"
    by (rule tx_inv_cong; (intro windows_ok_cong arg_cong [where f = "map fst"] send_queue_cong)?; simp)
  show "rx_view e q ?h = rx_view e q h" by (rule rx_view_cong) simp_all
  have "send_items e q ?h = send_items e q h" by (rule send_queue_cong) simp_all
  then show "pending e q ?h = pending e q h" by (simp add: pending_def)
qed

lemma moved_hostE:
  assumes "moved e s s'" and "i < num_hosts e"
  obtains out new where "hosts s' ! i = (hosts s ! i)\<lparr>outgoing_frames := out,
      incoming_frames := incoming_frames (hosts s ! i) @ new\<rparr>" and "\<forall>g \<in> set new. arrived e s i g"
proof -
  have "moved_host e s i (hosts s' ! i)" using assms by (simp add: moved_def)
  then show ?thesis using that unfolding moved_host_def by blast
qed

lemma moved_net_ok:
  assumes net: "net_ok e ms g s" and m: "moved e s s'"
  shows "net_ok e ms g s'" and "\<And>i. i < num_hosts e \<Longrightarrow> idle_ok e (hosts s ! i) \<Longrightarrow> idle_ok e (hosts s' ! i)"
    and "\<And>i b q. i < num_hosts e \<Longrightarrow> win_end b (hosts s' ! i) q = win_end b (hosts s ! i) q"
proof -
  show we: "win_end b (hosts s' ! i) q = win_end b (hosts s ! i) q" if i: "i < num_hosts e" for i b q
    by (rule moved_hostE [OF m i]) (simp add: win_end_def queue_update_simps)
  show "idle_ok e (hosts s' ! i)" if "i < num_hosts e" "idle_ok e (hosts s ! i)" for i
    by (rule moved_hostE [OF m that(1)]) (use that(2) in \<open>simp add: idle_ok_def queue_update_simps\<close>)
  have "host_ok e (ms i) (g_sent g i) (g_base g i) (g_got g i) i (hosts s' ! i)" if i: "i < num_hosts e" for i
  proof (rule moved_hostE [OF m i])
    fix out new
    assume h: "hosts s' ! i = (hosts s ! i)\<lparr>outgoing_frames := out, incoming_frames := incoming_frames (hosts s ! i) @ new\<rparr>"
    have "host_ok e (ms i) (g_sent g i) (g_base g i) (g_got g i) i (hosts s ! i)" using net i by (simp add: net_ok_def)
    then show ?thesis by (simp add: host_ok_def h win_end_def queue_update_simps)
  qed
  moreover have "link_ok e (g_sent g i q) (win_end (g_base g i) (hosts s' ! i) q) (g_got g i q) i (heard q i s') (hosts s' ! q)"
    if i: "i < num_hosts e" and q: "q < num_hosts e" for i q
  proof (rule moved_hostE [OF m q])
    fix out new
    assume h: "hosts s' ! q = (hosts s ! q)\<lparr>outgoing_frames := out, incoming_frames := incoming_frames (hosts s ! q) @ new\<rparr>"
    have "heard q i s' = heard q i s" using m by (intro heard_same) (simp add: moved_def)
    moreover have "link_ok e (g_sent g i q) (win_end (g_base g i) (hosts s ! i) q) (g_got g i q) i (heard q i s) (hosts s ! q)"
      using net i q by (simp add: net_ok_def)
    ultimately show ?thesis by (simp add: link_ok_def we [OF i] queue_update_simps h)
  qed
  moreover have "length (hosts s') = num_hosts e" "ingress s' = ingress s" using m by (simp_all add: moved_def)
  ultimately show "net_ok e ms g s'" using net unfolding net_ok_def by simp
qed

lemma stream_frame:
  assumes net: "net_ok e ms g s" and i: "i < num_hosts e" and q: "q < num_hosts e"
    and n: "n < win_end (g_base g i) (hosts s ! i) q"
  shows "n < length (g_sent g i q)" "data_frame i q (g_sent g i q ! n)" "frame_sane e (g_sent g i q ! n)" "i \<noteq> q"
proof -
  have h: "host_ok e (ms i) (g_sent g i) (g_base g i) (g_got g i) i (hosts s ! i)" using net i by (simp add: net_ok_def)
  then have inv: "tx_inv e (g_sent g i) (g_base g i) (hosts s ! i)" and hid: "hid (hosts s ! i) = i" by (simp_all add: host_ok_def)
  show len: "n < length (g_sent g i q)" using tx_window(3) [OF inv q] n by (simp add: win_end_def)
  then show df: "data_frame i q (g_sent g i q ! n)" using inv q hid by (auto simp: tx_inv_def stream_def)
  have b: "num_hosts e \<le> 256" using inv by (auto simp: tx_inv_def windows_ok_def cfg_ok_def)
  show ne: "i \<noteq> q" using h len by (auto simp: host_ok_def)
  have "(of_nat i :: u8) \<noteq> of_nat q" using ne i q b unat_u8_small [of i] unat_u8_small [of q] by auto
  then show "frame_sane e (g_sent g i q ! n)"
    using df i q b by (simp add: frame_sane_def data_frame_def unat_u8_small)
qed

lemma send_data_phase:
  assumes cfg: "cfg_ok e" and net: "net_ok e ms g s"
    and t: "\<forall>i < num_hosts e. turned e (lo i) (g_sent g i) (g_base g i) (hosts s ! i)"
  shows "\<exists>s'. send_data_frames e s = Inr s' \<and> net_ok e ms g s' \<and>
    (\<forall>i < num_hosts e. data_in e lo g s' i (hosts s' ! i) \<and> idle_ok e (hosts s' ! i))"
proof -
  have out: "\<exists>q n. q < num_hosts e \<and> lo i q \<le> n \<and> n < win_end (g_base g i) (hosts s ! i) q \<and> f = g_sent g i q ! n"
    if "i < num_hosts e" "f \<in> set (outgoing_frames (hosts s ! i))" for i f
    using t that by (force simp: turned_def sendable_def)
  have "net_sane e s"
    unfolding net_sane_def
  proof (intro conjI allI impI ballI)
    fix i f assume i: "i < num_hosts e" and "f \<in> set (outgoing_frames (hosts s ! i))"
    with out [OF i] stream_frame(3) [OF net i] show "frame_sane e f" by blast
  qed (use net in \<open>simp_all add: net_ok_def\<close>)
  from send_data_frames_spec [OF cfg this] obtain s' where s': "send_data_frames e s = Inr s'" "moved e s s'"
    "\<forall>i < num_hosts e. outgoing_frames (hosts s' ! i) = []" by blast
  note mv = moved_net_ok [OF net s'(2)]
  have "data_in e lo g s' q (hosts s' ! q)" if q: "q < num_hosts e" for q
    unfolding data_in_def
  proof (intro conjI ballI impI)
    show "outgoing_frames (hosts s' ! q) = []" using s'(3) q by simp
    fix f assume f: "f \<in> set (incoming_frames (hosts s' ! q))" and v: "frame_valid f"
    have "incoming_frames (hosts s ! q) = []" using t q by (simp add: turned_def)
    with f have "arrived e s q f" by (rule_tac moved_hostE [OF s'(2) q]) auto
    with v obtain j where j: "unat (dst_id f) = q" "j < num_hosts e" "f \<in> set (outgoing_frames (hosts s ! j))"
      by (auto simp: arrived_def)
    from out [OF j(2,3)] obtain r n where r: "r < num_hosts e" "lo j r \<le> n" "n < win_end (g_base g j) (hosts s ! j) r"
      "f = g_sent g j r ! n" by blast
    have "num_hosts e \<le> 256" using cfg by (simp add: cfg_ok_def)
    then have "unat (dst_id f) = r"
      using data_frame_dst [OF stream_frame(2) [OF net j(2) r(1,3)]] r(1,4) by simp
    with j(1) have "r = q" by simp
    with r have "lo j q \<le> n \<and> n < win_end (g_base g j) (hosts s' ! j) q \<and> f = g_sent g j q ! n"
      by (simp add: mv(3) [OF j(2)])
    with j(2) show "\<exists>j < num_hosts e. \<exists>n. lo j q \<le> n \<and> n < win_end (g_base g j) (hosts s' ! j) q \<and> f = g_sent g j q ! n"
      by blast
  qed
  moreover have "idle_ok e (hosts s' ! i)" if "i < num_hosts e" for i
    using mv(2) [OF that] t that by (simp add: turned_def)
  ultimately show ?thesis using s'(1) mv(1) by blast
qed

end
