(* ===== verification/Rounds.thy ===== *)
theory Rounds
  imports Simulation "HOL-Library.Sublist"
begin

text \<open>
  The receiving half of a round of the simulation, the round as a whole, and runs of the program:
  rounds interleaved with commands from the user, up to the exit.
\<close>

section \<open>Third phase: the receivers\<close>

text \<open>What the turn of a receiver leaves: nothing incoming, one acknowledgement per valid frame.\<close>

definition acked :: "env \<Rightarrow> ghost \<Rightarrow> nat \<Rightarrow> host \<Rightarrow> bool" where
  "acked e g q hq \<longleftrightarrow> incoming_frames hq = [] \<and> idle_ok e hq \<and>
     (\<forall>a \<in> set (outgoing_frames hq). \<exists>j < num_hosts e. \<exists>k. j \<noteq> q \<and> g_base g j q \<le> k \<and> k \<le> g_got g j q \<and> ack_for q j k a)"

text \<open>Sequence numbers stay unambiguous: a window starts at most one window behind the old one.\<close>

definition close_to :: "env \<Rightarrow> (nat \<Rightarrow> nat \<Rightarrow> nat) \<Rightarrow> ghost \<Rightarrow> bool" where
  "close_to e lo g \<longleftrightarrow> (\<forall>j < num_hosts e. \<forall>q < num_hosts e. g_base g j q \<le> lo j q + window_size e)"

lemma host_link:
  assumes "net_ok e ms g s" and "j < num_hosts e" and "q < num_hosts e"
  shows "host_ok e (ms j) (g_sent g j) (g_base g j) (g_got g j) j (hosts s ! j)"
    and "link_ok e (g_sent g j q) (win_end (g_base g j) (hosts s ! j) q) (g_got g j q) j (heard q j s) (hosts s ! q)"
  using assms by (simp_all add: net_ok_def)

lemma run_receiver_host:
  assumes sim: "sim_ok e" and net: "net_ok e ms g s" and q: "q < num_hosts e" and close: "close_to e lo g"
    and d: "data_in e lo g s q (hosts s ! q)" and idle: "idle_ok e (hosts s ! q)"
  shows "\<exists>h' M' out. handle_incoming_frames e (hosts s ! q) = Inr (h', out) \<and> windows_ok e h' \<and>
    (\<exists>acks. rx_effect ((hosts s ! q)\<lparr>incoming_frames := []\<rparr>) h' acks \<and>
      (\<forall>a \<in> set acks. \<exists>j < num_hosts e. \<exists>k. j \<noteq> q \<and> g_base g j q \<le> k \<and> k \<le> M' j \<and> ack_for q j k a)) \<and>
    (\<forall>j < num_hosts e. g_got g j q \<le> M' j \<and>
      link_ok e (g_sent g j q) (win_end (g_base g j) (hosts s ! j) q) (M' j) j (heard q j s @ texts_from j out) h')"
proof -
  let ?w = "window_size e"
  define S where "S j = take (win_end (g_base g j) (hosts s ! j) q) (g_sent g j q)" for j
  define h where "h = (hosts s ! q)\<lparr>incoming_frames := []\<rparr>"
  have inv: "tx_inv e (g_sent g j) (g_base g j) (hosts s ! j)" if "j < num_hosts e" for j
    using host_link(1) [OF net that q] by (simp add: host_ok_def)
  have cfg: "cfg_ok e" and w: "?w \<le> 64" using sim by (simp_all add: sim_ok_def)
  have hid: "hid h = q" and wok: "windows_ok e h"
  proof -
    show "hid h = q" using host_link(1) [OF net q q] by (simp add: host_ok_def h_def)
    have "windows_ok e (hosts s ! q)" using inv [OF q] by (simp add: tx_inv_def)
    then show "windows_ok e h" by (subst windows_ok_cong [of h "hosts s ! q"]) (simp_all add: h_def)
  qed
  have view: "rx_view e j h = rx_view e j (hosts s ! q)" for j by (rule rx_view_cong) (simp_all add: h_def)
  have msg: "recv_msg h = recv_msg (hosts s ! q)" by (simp add: h_def)
  have base: "g_base g j q \<le> g_got g j q" "g_got g j q \<le> win_end (g_base g j) (hosts s ! j) q" if "j < num_hosts e" for j
    using host_link(1) [OF net that q] q by (simp_all add: host_ok_def)
  have ends: "win_end (g_base g j) (hosts s ! j) q \<le> g_base g j q + ?w"
    "win_end (g_base g j) (hosts s ! j) q \<le> length (g_sent g j q)" if "j < num_hosts e" for j
    using tx_window(2,3) [OF inv [OF that] q] by (simp_all add: win_end_def)
  have stream: "numbered (S j) \<and> deliverable (S j) \<and> (\<forall>f \<in> set (S j). data_frame j q f)" if j: "j < num_hosts e" for j
  proof -
    have h: "host_ok e (ms j) (g_sent g j) (g_base g j) (g_got g j) j (hosts s ! j)" by (rule host_link(1) [OF net j q])
    then obtain queued where "groups (g_sent g j q) (queued q)" unfolding host_ok_def by blast
    then have "deliverable (g_sent g j q)" by (rule groups_deliverable)
    moreover have "stream j q (g_sent g j q)" using h q by (auto simp: host_ok_def tx_inv_def)
    ultimately show ?thesis
      unfolding S_def by (auto simp: stream_def deliverable_take numbered_take dest: in_set_takeD)
  qed
  have links: "g_got g j q \<le> g_got g j q \<and> rx_inv ?w (S j) (g_got g j q) (rx_view e j h) \<and>
      deliver (take (g_got g j q) (S j)) [] = Inr (recv_msg h ! j, heard q j s)" if j: "j < num_hosts e" for j
    using host_link(2) [OF net j q] base(2) [OF j] by (simp add: link_ok_def view S_def msg min_absorb1)
  have frames: "\<exists>j < num_hosts e. \<exists>n < length (S j). f = S j ! n \<and> length (S j) \<le> n + 128 \<and> n < g_got g j q + ?w"
    if f: "f \<in> set (incoming_frames (hosts s ! q))" "frame_valid f" for f
  proof -
    from d f obtain j n where j: "j < num_hosts e" "lo j q \<le> n" "n < win_end (g_base g j) (hosts s ! j) q"
      "f = g_sent g j q ! n" unfolding data_in_def by blast
    have "length (S j) = win_end (g_base g j) (hosts s ! j) q" using ends(2) [OF j(1)] by (simp add: S_def)
    moreover have "g_base g j q \<le> lo j q + ?w" using close j(1) q by (simp add: close_to_def)
    moreover have "S j ! n = g_sent g j q ! n" using j(3) by (simp add: S_def)
    ultimately have "n < length (S j) \<and> f = S j ! n \<and> length (S j) \<le> n + 128 \<and> n < g_got g j q + ?w"
      using j ends(1) [OF j(1)] base(1) [OF j(1)] w by simp
    with j(1) show ?thesis by blast
  qed
  from receive_batch [OF wok hid q, of S "\<lambda>j. g_got g j q" "\<lambda>j. g_got g j q" "\<lambda>j. heard q j s"
      "incoming_frames (hosts s ! q)" "[]"] stream links frames
  obtain h' M' out acks where r: "handle_incoming_frames e (hosts s ! q) = Inr (h', out)" "windows_ok e h'"
    "rx_effect h h' acks"
    "\<forall>j < num_hosts e. g_got g j q \<le> M' j \<and> rx_inv ?w (S j) (M' j) (rx_view e j h') \<and>
      deliver (take (M' j) (S j)) [] = Inr (recv_msg h' ! j, heard q j s @ texts_from j out)"
    "\<forall>a \<in> set acks. \<exists>j < num_hosts e. \<exists>k. S j \<noteq> [] \<and> g_got g j q \<le> k \<and> k \<le> M' j \<and> ack_for q j k a"
    by (auto simp: handle_incoming_frames_def h_def)
  have "link_ok e (g_sent g j q) (win_end (g_base g j) (hosts s ! j) q) (M' j) j (heard q j s @ texts_from j out) h'"
    if j: "j < num_hosts e" for j
  proof -
    have rx: "rx_inv ?w (S j) (M' j) (rx_view e j h')" using r(4) j by blast
    then have "M' j \<le> length (S j)" by (auto simp: rx_inv_def split: prod.splits)
    then have tk: "take (M' j) (S j) = take (M' j) (g_sent g j q)" by (simp add: S_def min_absorb1)
    have dl: "deliver (take (M' j) (S j)) [] = Inr (recv_msg h' ! j, heard q j s @ texts_from j out)" using r(4) j by blast
    show ?thesis using rx dl [unfolded tk] by (simp add: link_ok_def S_def)
  qed
  moreover have "\<exists>j < num_hosts e. \<exists>k. j \<noteq> q \<and> g_base g j q \<le> k \<and> k \<le> M' j \<and> ack_for q j k a" if "a \<in> set acks" for a
  proof -
    from r(5) that obtain j k where j: "j < num_hosts e" "S j \<noteq> []" "g_got g j q \<le> k" "k \<le> M' j" "ack_for q j k a" by blast
    have "g_sent g q q = []" using host_link(1) [OF net q q] by (simp add: host_ok_def)
    then have "j \<noteq> q" using j(2) by (auto simp: S_def)
    with j base(1) [OF j(1)] show ?thesis by (meson order_trans)
  qed
  ultimately show ?thesis using r(1-4) unfolding h_def by blast
qed

text \<open>Replacing host \<open>q\<close> after its turn; \<open>M'\<close> counts what it has accepted by now.\<close>

lemma net_ok_receiver:
  assumes net: "net_ok e ms g s" and q: "q < num_hosts e" and wok: "windows_ok e h'"
    and eff: "rx_effect ((hosts s ! q)\<lparr>incoming_frames := []\<rparr>) h' acks"
    and links: "\<forall>j < num_hosts e. g_got g j q \<le> M' j \<and>
      link_ok e (g_sent g j q) (win_end (g_base g j) (hosts s ! j) q) (M' j) j (heard q j s @ texts_from j out) h'"
  shows "net_ok e ms (g\<lparr>g_got := (\<lambda>j r. if r = q then M' j else g_got g j r)\<rparr>)
    (s\<lparr>hosts := (hosts s)[q := h'], printed := printed s @ map (Pair q) out\<rparr>)" (is "net_ok e ms ?g ?s")
proof -
  note fx = rx_effect_fields [OF eff]
  have len: "length (hosts s) = num_hosts e" using net by (simp add: net_ok_def)
  have at: "hosts ?s ! j = (if j = q then h' else hosts s ! j)" if "j < num_hosts e" for j
    using that len by (simp add: nth_list_update)
  have sq: "cq_get_length_send r h' = cq_get_length_send r (hosts s ! q)" for r
    using fx(7) [of r] by (simp add: cq_get_length_send_def)
  have we: "win_end b (hosts ?s ! j) r = win_end b (hosts s ! j) r" if "j < num_hosts e" for b j r
    using at [OF that] sq by (simp add: win_end_def)
  have hd: "heard r j ?s = (if r = q then heard q j s @ texts_from j out else heard r j s)" for r j
    by (auto simp: heard_def filter_map comp_def)
  have "host_ok e (ms j) (g_sent ?g j) (g_base ?g j) (g_got ?g j) j (hosts ?s ! j)" if j: "j < num_hosts e" for j
  proof -
    have h: "host_ok e (ms j) (g_sent g j) (g_base g j) (g_got g j) j (hosts s ! j)" by (rule host_link(1) [OF net j q])
    have got: "g_base g j r \<le> g_got ?g j r \<and> g_got ?g j r \<le> win_end (g_base g j) (hosts s ! j) r"
      if r: "r < num_hosts e" for r
    proof (cases "r = q")
      case True
      have "g_base g j q \<le> g_got g j q" using h q by (simp add: host_ok_def)
      moreover have "M' j \<le> win_end (g_base g j) (hosts s ! j) q" using links j link_got_le(1) by blast
      moreover have "g_got g j q \<le> M' j" using links j by blast
      ultimately show ?thesis using True by simp
    next
      case False
      with h r show ?thesis by (simp add: host_ok_def)
    qed
    show ?thesis
    proof (cases "j = q")
      case True
      have inc: "tx_inv e (g_sent g q) (g_base g q) ((hosts s ! q)\<lparr>incoming_frames := []\<rparr>)"
        using h True queue_update_simps(2) [where h = "hosts s ! q" and fs = "outgoing_frames (hosts s ! q)" and gs = "[]"]
        by (simp add: host_ok_def)
      have tx: "tx_inv e (g_sent g q) (g_base g q) h'" by (rule fx(9) [OF wok inc])
      have same: "hid h' = q" "cc h' = cc (hosts s ! q)" "input_cmdlist h' = input_cmdlist (hosts s ! q)"
        using fx(2,4,5) h True by (simp_all add: host_ok_def)
      show ?thesis
        using h got tx same True at [OF j] we [OF j] by (auto simp: host_ok_def)
    next
      case False
      with h got at [OF j] show ?thesis by (simp add: host_ok_def)
    qed
  qed
  moreover have "link_ok e (g_sent ?g j r) (win_end (g_base ?g j) (hosts ?s ! j) r) (g_got ?g j r) j (heard r j ?s) (hosts ?s ! r)"
    if j: "j < num_hosts e" and r: "r < num_hosts e" for j r
    using links host_link(2) [OF net j r] at [OF r] we [OF j] hd j by simp
  ultimately show ?thesis using net len by (simp add: net_ok_def)
qed

lemma idle_ok_incoming: "idle_ok e (h\<lparr>incoming_frames := fs\<rparr>) = idle_ok e h"
  using queue_update_simps(4) [where h = h and fs = "outgoing_frames h" and gs = fs]
  by (simp add: idle_ok_def)

lemma idle_ok_effect: "rx_effect h h' acks \<Longrightarrow> idle_ok e h' = idle_ok e h"
  unfolding idle_ok_def by (simp only: rx_effect_fields)

lemma data_in_cong:
  assumes "data_in e lo g s q hq" and "g_base g' = g_base g" and "g_sent g' = g_sent g"
    and "\<And>b j r. j < num_hosts e \<Longrightarrow> win_end b (hosts s' ! j) r = win_end b (hosts s ! j) r"
  shows "data_in e lo g' s' q hq"
  unfolding data_in_def
proof (intro conjI ballI impI)
  show "outgoing_frames hq = []" using assms(1) by (simp add: data_in_def)
  fix f assume "f \<in> set (incoming_frames hq)" "frame_valid f"
  with assms(1) obtain j n where j: "j < num_hosts e" "lo j q \<le> n" "n < win_end (g_base g j) (hosts s ! j) q"
    "f = g_sent g j q ! n" unfolding data_in_def by blast
  then have "lo j q \<le> n \<and> n < win_end (g_base g' j) (hosts s' ! j) q \<and> f = g_sent g' j q ! n"
    by (simp add: assms)
  with j(1) show "\<exists>j < num_hosts e. \<exists>n. lo j q \<le> n \<and> n < win_end (g_base g' j) (hosts s' ! j) q \<and> f = g_sent g' j q ! n"
    by blast
qed

lemma receivers_loop:
  assumes "sim_ok e" and "distinct xs" and "set xs \<subseteq> {..<num_hosts e}" and "net_ok e ms g s" and "close_to e lo g"
    and "\<forall>q \<in> set xs. data_in e lo g s q (hosts s ! q) \<and> idle_ok e (hosts s ! q)"
    and "\<forall>q < num_hosts e. q \<notin> set xs \<longrightarrow> acked e g q (hosts s ! q)"
  shows "\<exists>s' g'. rfold (\<lambda>i s. rbind (arr_get (hosts s) i) (\<lambda>h. rbind (handle_incoming_frames e h) (\<lambda>(h, out).
        Inr (s\<lparr>hosts := (hosts s)[i := h], printed := printed s @ map (Pair i) out\<rparr>)))) xs s = Inr s' \<and>
      net_ok e ms g' s' \<and> (\<forall>q < num_hosts e. acked e g' q (hosts s' ! q))"
  using assms(2-7)
proof (induction xs arbitrary: s g)
  case Nil
  then show ?case by auto
next
  case (Cons q xs)
  have q: "q < num_hosts e" using Cons.prems(2) by simp
  have len: "length (hosts s) = num_hosts e" using Cons.prems(3) by (simp add: net_ok_def)
  have d: "data_in e lo g s q (hosts s ! q)" and idle: "idle_ok e (hosts s ! q)" using Cons.prems(5) by simp_all
  from run_receiver_host [OF assms(1) Cons.prems(3) q Cons.prems(4) d idle] obtain h' M' out acks where
    r: "handle_incoming_frames e (hosts s ! q) = Inr (h', out)" "windows_ok e h'"
      "rx_effect ((hosts s ! q)\<lparr>incoming_frames := []\<rparr>) h' acks"
      "\<forall>a \<in> set acks. \<exists>j < num_hosts e. \<exists>k. j \<noteq> q \<and> g_base g j q \<le> k \<and> k \<le> M' j \<and> ack_for q j k a"
      "\<forall>j < num_hosts e. g_got g j q \<le> M' j \<and>
        link_ok e (g_sent g j q) (win_end (g_base g j) (hosts s ! j) q) (M' j) j (heard q j s @ texts_from j out) h'"
    by (elim exE conjE)
  let ?g = "g\<lparr>g_got := (\<lambda>j r. if r = q then M' j else g_got g j r)\<rparr>"
  let ?s = "s\<lparr>hosts := (hosts s)[q := h'], printed := printed s @ map (Pair q) out\<rparr>"
  note net = net_ok_receiver [OF Cons.prems(3) q r(2,3,5)]
  have at: "hosts ?s ! j = (if j = q then h' else hosts s ! j)" if "j < num_hosts e" for j
    using that len by (simp add: nth_list_update)
  note fx = rx_effect_fields [OF r(3)]
  have we: "win_end b (hosts ?s ! j) r' = win_end b (hosts s ! j) r'" if "j < num_hosts e" for b j r'
    using at [OF that] fx(7) [of r'] by (simp add: win_end_def cq_get_length_send_def)
  have close: "close_to e lo ?g" using Cons.prems(4) by (simp add: close_to_def)
  have rest: "\<forall>r \<in> set xs. data_in e lo ?g ?s r (hosts ?s ! r) \<and> idle_ok e (hosts ?s ! r)"
  proof (intro ballI conjI)
    fix r assume "r \<in> set xs"
    then have r: "r < num_hosts e" "r \<noteq> q" and dr: "data_in e lo g s r (hosts s ! r)" "idle_ok e (hosts s ! r)"
      using Cons.prems(1,2,5) by auto
    have "data_in e lo ?g ?s r (hosts s ! r)" by (rule data_in_cong [OF dr(1)]) (simp, simp, rule we)
    with r dr(2) at [OF r(1)] show "data_in e lo ?g ?s r (hosts ?s ! r)" "idle_ok e (hosts ?s ! r)" by simp_all
  qed
  have fin: "\<forall>r < num_hosts e. r \<notin> set xs \<longrightarrow> acked e ?g r (hosts ?s ! r)"
  proof (intro allI impI)
    fix r assume r': "r < num_hosts e" "r \<notin> set xs"
    show "acked e ?g r (hosts ?s ! r)"
    proof (cases "r = q")
      case True
      have "outgoing_frames (hosts s ! q) = []" using d by (simp add: data_in_def)
      then have o: "outgoing_frames h' = acks" using fx(1) by simp
      have "idle_ok e h'" using idle by (simp only: idle_ok_effect [OF r(3)] idle_ok_incoming)
      then show ?thesis using True at [OF q] fx(3) r(4) o by (simp add: acked_def)
    next
      case False
      with Cons.prems(6) r' have "acked e g r (hosts s ! r)" by simp
      with False at [OF r'(1)] show ?thesis by (simp add: acked_def)
    qed
  qed
  from Cons.IH [OF _ _ net close rest fin] Cons.prems(1,2) show ?case
    using r(1) q len by simp
qed

lemma run_receivers_phase:
  assumes "sim_ok e" and "net_ok e ms g s" and "close_to e lo g"
    and "\<forall>q < num_hosts e. data_in e lo g s q (hosts s ! q) \<and> idle_ok e (hosts s ! q)"
  shows "\<exists>s' g'. run_receivers e s = Inr s' \<and> net_ok e ms g' s' \<and> (\<forall>q < num_hosts e. acked e g' q (hosts s' ! q))"
proof -
  obtain xs r where o: "get_rand_seq e (num_hosts e) s = (xs, s\<lparr>rands := r\<rparr>)" "set xs = {..<num_hosts e}" "distinct xs"
    by (rule get_rand_seq_perm)
  let ?s = "s\<lparr>rands := r\<rparr>"
  have "data_in e lo g ?s q (hosts s ! q)" if "q < num_hosts e" for q
    by (rule data_in_cong [of e lo g s]) (use assms(4) that in simp_all)
  with receivers_loop [OF assms(1) o(3) _ _ assms(3), of ms ?s] o assms(2,4) show ?thesis
    by (simp add: run_receivers_def)
qed

section \<open>Fourth phase: the acknowledgements\<close>

lemma ack_frame_sane:
  assumes "ack_for q j k f" and "j < num_hosts e" and "q < num_hosts e" and "j \<noteq> q" and "num_hosts e \<le> 256"
  shows "frame_sane e f" "unat (dst_id f) = j" "unat (src_id f) = q"
proof -
  have ids: "unat (of_nat j :: u8) = j" "unat (of_nat q :: u8) = q" using assms by (simp_all add: unat_u8_small)
  with assms(1) show d: "unat (dst_id f) = j" "unat (src_id f) = q" by (simp_all add: ack_for_def)
  have "src_id f \<noteq> dst_id f" using d assms(4) by auto
  with assms d show "frame_sane e f" by (simp add: frame_sane_def ack_for_def)
qed

lemma send_acks_phase:
  assumes cfg: "cfg_ok e" and net: "net_ok e ms g s" and a: "\<forall>q < num_hosts e. acked e g q (hosts s ! q)"
  shows "\<exists>s'. send_ack_frames e s = Inr s' \<and> net_inv e ms g s' \<and> (\<forall>i < num_hosts e. idle_ok e (hosts s' ! i))"
proof -
  have n: "num_hosts e \<le> 256" using cfg by (simp add: cfg_ok_def)
  have out: "\<exists>j < num_hosts e. \<exists>k. j \<noteq> q \<and> g_base g j q \<le> k \<and> k \<le> g_got g j q \<and> ack_for q j k f"
    if "q < num_hosts e" "f \<in> set (outgoing_frames (hosts s ! q))" for q f
    using a that by (simp add: acked_def)
  have "net_sane e s"
    unfolding net_sane_def
  proof (intro conjI allI impI ballI)
    fix q f assume q: "q < num_hosts e" and "f \<in> set (outgoing_frames (hosts s ! q))"
    with out obtain j k where "j < num_hosts e" "j \<noteq> q" "ack_for q j k f" by blast
    with ack_frame_sane(1) q n show "frame_sane e f" by blast
  qed (use net in \<open>simp_all add: net_ok_def\<close>)
  from send_ack_frames_spec [OF this] obtain s' where s': "send_ack_frames e s = Inr s'" "moved e s s'"
    "\<forall>i < num_hosts e. outgoing_frames (hosts s' ! i) = []" by blast
  note mv = moved_net_ok [OF net s'(2)]
  have "acks_in e (g_base g i) (g_got g i) (hosts s' ! i)" if i: "i < num_hosts e" for i
    unfolding acks_in_def
  proof (intro conjI ballI impI)
    show "outgoing_frames (hosts s' ! i) = []" using s'(3) i by simp
    fix f assume f: "f \<in> set (incoming_frames (hosts s' ! i))" and v: "frame_valid f"
    have "incoming_frames (hosts s ! i) = []" using a i by (simp add: acked_def)
    with f have "arrived e s i f" by (rule_tac moved_hostE [OF s'(2) i]) auto
    with v obtain q where q: "unat (dst_id f) = i" "q < num_hosts e" "f \<in> set (outgoing_frames (hosts s ! q))"
      by (auto simp: arrived_def)
    from out [OF q(2,3)] obtain j k where j: "j < num_hosts e" "j \<noteq> q" "g_base g j q \<le> k" "k \<le> g_got g j q"
      "ack_for q j k f" by blast
    note af = ack_frame_sane [OF j(5,1) q(2) j(2) n]
    have "j = i" using af(2) q(1) by simp
    then have "acks_count e (g_base g i) (g_got g i) f k"
      using af(3) q(2) j by (simp add: acks_count_def ack_for_def)
    then show "\<exists>k. acks_count e (g_base g i) (g_got g i) f k" by blast
    show "is_ack f \<noteq> 0" using j(5) by (simp add: ack_for_def)
  qed
  moreover have "idle_ok e (hosts s' ! i)" if "i < num_hosts e" for i
    using mv(2) [OF that] a that by (simp add: acked_def)
  ultimately show ?thesis using s'(1) mv(1) by (auto simp: net_inv_def)
qed

section \<open>A round keeps the invariant\<close>

text \<open>
  The one fault left is the read of the uninitialised \<^verbatim>\<open>slot\<close> in \<^verbatim>\<open>retransmit_frame\<close>; apart from it
  a round runs to its end, and keeps the invariant for the same commanded messages.
\<close>

lemma run_hosts_phases:
  assumes sim: "sim_ok e" and inv: "net_inv e ms g s" and run: "run_senders e s = Inr s1"
  obtains g1 s2 s3 g3 s4 where "net_ok e ms g1 s1"
    and "\<forall>i < num_hosts e. turned e (g_base g i) (g_sent g1 i) (g_base g1 i) (hosts s1 ! i)"
    and "send_data_frames e s1 = Inr s2" and "net_ok e ms g1 s2"
    and "run_receivers e s2 = Inr s3" and "net_ok e ms g3 s3" and "\<forall>q < num_hosts e. acked e g3 q (hosts s3 ! q)"
    and "send_ack_frames e s3 = Inr s4" and "net_inv e ms g3 s4" and "\<forall>i < num_hosts e. idle_ok e (hosts s4 ! i)"
proof -
  have cfg: "cfg_ok e" using sim by (simp add: sim_ok_def)
  have net0: "net_ok e ms g s" using inv by (simp add: net_inv_def)
  from run run_senders_phase [OF sim inv] obtain g1 where g1: "net_ok e ms g1 s1" "g_got g1 = g_got g"
    "\<forall>i < num_hosts e. turned e (g_base g i) (g_sent g1 i) (g_base g1 i) (hosts s1 ! i)" by auto
  have close: "close_to e (g_base g) g1"
    unfolding close_to_def
  proof (intro allI impI)
    fix j q assume j: "j < num_hosts e" and q: "q < num_hosts e"
    have "g_base g1 j q \<le> g_got g j q" using host_link(1) [OF g1(1) j q] q g1(2) by (simp add: host_ok_def)
    also have "\<dots> \<le> win_end (g_base g j) (hosts s ! j) q" using host_link(1) [OF net0 j q] q by (simp add: host_ok_def)
    also have "\<dots> \<le> g_base g j q + window_size e"
      using tx_window(2) [of e "g_sent g j" "g_base g j" "hosts s ! j" q] host_link(1) [OF net0 j q] q
      by (simp add: host_ok_def win_end_def)
    finally show "g_base g1 j q \<le> g_base g j q + window_size e" .
  qed
  from send_data_phase [OF cfg g1(1,3)] obtain s2 where s2: "send_data_frames e s1 = Inr s2" "net_ok e ms g1 s2"
    "\<forall>i < num_hosts e. data_in e (g_base g) g1 s2 i (hosts s2 ! i) \<and> idle_ok e (hosts s2 ! i)" by blast
  from run_receivers_phase [OF sim s2(2) close s2(3)] obtain s3 g3 where s3: "run_receivers e s2 = Inr s3"
    "net_ok e ms g3 s3" "\<forall>q < num_hosts e. acked e g3 q (hosts s3 ! q)" by blast
  from send_acks_phase [OF cfg s3(2,3)] that [OF g1(1,3) s2(1,2) s3] show ?thesis by blast
qed

lemma run_hosts_inv:
  assumes sim: "sim_ok e" and inv: "net_inv e ms g s"
  shows "case run_hosts e s of Inl x \<Rightarrow> x = Uninitialised
    | Inr s' \<Rightarrow> \<exists>g'. net_inv e ms g' s' \<and> (\<forall>i < num_hosts e. idle_ok e (hosts s' ! i))"
proof (cases "run_senders e s")
  case (Inl x)
  with run_senders_phase [OF sim inv] show ?thesis by (simp add: run_hosts_def)
next
  case (Inr s1)
  show ?thesis by (rule run_hosts_phases [OF sim inv Inr]) (auto simp: run_hosts_def Inr)
qed

section \<open>Start and commands\<close>

definition start_ghost :: ghost where
  "start_ghost = \<lparr>g_sent = \<lambda>_ _. [], g_base = \<lambda>_ _. 0, g_got = \<lambda>_ _. 0\<rparr>"

lemma init_net_inv:
  assumes cfg: "cfg_ok e"
  shows "net_inv e (\<lambda>_ _. []) start_ghost (init_net e)"
proof -
  have h: "hosts (init_net e) ! i = init_host e i" if "i < num_hosts e" for i
    using that by (simp add: init_net_def)
  have len: "cq_get_length_send q (init_host e i) = 0" if "q < num_hosts e" for q i
    using that by (simp add: cq_get_length_send_def init_host_def Let_def)
  have quiet: "hid (init_host e i) = i" "input_cmdlist (init_host e i) = []" "incoming_frames (init_host e i) = []"
    "outgoing_frames (init_host e i) = []" for i by (simp_all add: init_host_def Let_def)
  have cc: "cc_inv (cc (init_host e i) ! q)" if "q < num_hosts e" for q i
    using that by (simp add: init_host_def Let_def cc_inv_def)
  have "host_ok e (\<lambda>_. []) (\<lambda>_. []) (\<lambda>_. 0) (\<lambda>_. 0) i (init_host e i)" if "i < num_hosts e" for i
  proof -
    have "\<exists>queued. \<forall>q. groups [] (queued q) \<and> [] = queued q @ texts_for q (input_cmdlist (init_host e i))"
      by (intro exI [of _ "\<lambda>_. []"]) (simp add: quiet)
    then show ?thesis
      using tx_inv_init [OF cfg that] cc quiet by (simp add: host_ok_def win_end_def)
  qed
  moreover have "link_ok e [] (win_end (\<lambda>_. 0) (init_host e i) q) 0 i [] (init_host e q)"
    if "i < num_hosts e" "q < num_hosts e" for i q
    using init_rx_inv [OF cfg that(1), of "[]" q] that len groups_deliver_all [OF groups_Nil]
    by (auto simp: link_ok_def win_end_def rx_inv_def rx_view_def)
  moreover have "heard q i (init_net e) = []" for q i by (simp add: heard_def init_net_def)
  ultimately show ?thesis
    by (simp add: net_inv_def net_ok_def start_ghost_def h acks_in_def quiet)
      (simp add: init_net_def init_ingress_ports_def)
qed

text \<open>A line of input the program can carry: hosts that exist and differ, and a text of at most 65535 bytes.\<close>

definition line_ok :: "env \<Rightarrow> nat \<Rightarrow> nat \<Rightarrow> u8 list \<Rightarrow> bool" where
  "line_ok e i j m \<longleftrightarrow> i < num_hosts e \<and> j < num_hosts e \<and> i \<noteq> j \<and> length (takeWhile (\<lambda>b. b \<noteq> 0) m) < 65536"

definition add_text :: "nat \<Rightarrow> nat \<Rightarrow> u8 list \<Rightarrow> (nat \<Rightarrow> nat \<Rightarrow> u8 list list) \<Rightarrow> nat \<Rightarrow> nat \<Rightarrow> u8 list list" where
  "add_text i j m ms = ms(i := (ms i)(j := ms i j @ [takeWhile (\<lambda>b. b \<noteq> 0) m]))"

lemma net_inv_command:
  assumes inv: "net_inv e ms g s" and cfg: "cfg_ok e" and line: "line_ok e i j m"
  shows "net_inv e (add_text i j m ms) g (queue_cmd e (int i) (int j) m s)"
proof -
  define c where "c = \<lparr>cmd_src_id = of_nat i, cmd_dst_id = of_nat j, message = m\<rparr>"
  define h where "h = (hosts s ! i)\<lparr>input_cmdlist := input_cmdlist (hosts s ! i) @ [c]\<rparr>"
  let ?s = "queue_cmd e (int i) (int j) m s" and ?ms = "add_text i j m ms"
  have i: "i < num_hosts e" and j: "j < num_hosts e" and ne: "i \<noteq> j"
    and len: "length (c_string m) \<le> 65536" using line by (simp_all add: line_ok_def c_string_def)
  have ids: "unat (of_nat i :: u16) = i" "unat (of_nat j :: u16) = j"
    using i j cfg by (simp_all add: cfg_ok_def unsigned_of_nat take_bit_nat_eq_self)
  have s': "?s = s\<lparr>hosts := (hosts s)[i := h]\<rparr>"
    using i j by (simp add: queue_cmd_def upd_host_def h_def c_def)
  have net: "net_ok e ms g s" using inv by (simp add: net_inv_def)
  then have at: "hosts ?s ! r = (if r = i then h else hosts s ! r)" if "r < num_hosts e" for r
    using that by (simp add: s' net_ok_def nth_list_update)
  have same: "cq_get_length_send q h = cq_get_length_send q (hosts s ! i)"
    "tx_inv e sent base h = tx_inv e sent base (hosts s ! i)" for q sent base
  proof -
    show "cq_get_length_send q h = cq_get_length_send q (hosts s ! i)" by (simp add: cq_get_length_send_def h_def)
    show "tx_inv e sent base h = tx_inv e sent base (hosts s ! i)"
      by (rule tx_inv_cong; (intro windows_ok_cong arg_cong [where f = "map fst"] send_queue_cong)?; simp add: h_def)
  qed
  have view: "rx_view e r h = rx_view e r (hosts s ! i)" for r by (rule rx_view_cong) (simp_all add: h_def)
  have we: "win_end b (hosts ?s ! r) q = win_end b (hosts s ! r) q" if "r < num_hosts e" for b r q
    using at [OF that] same(1) by (simp add: win_end_def)
  have host: "host_ok e (?ms i) (g_sent g i) (g_base g i) (g_got g i) i h"
  proof -
    have ok: "host_ok e (ms i) (g_sent g i) (g_base g i) (g_got g i) i (hosts s ! i)" by (rule host_link(1) [OF net i i])
    then obtain queued where qd: "\<forall>q. groups (g_sent g i q) (queued q) \<and> ms i q = queued q @ texts_for q (input_cmdlist (hosts s ! i))"
      unfolding host_ok_def by blast
    have "texts_for q (input_cmdlist h) = texts_for q (input_cmdlist (hosts s ! i)) @
        (if q = j then [takeWhile (\<lambda>b. b \<noteq> 0) m] else [])" for q
      using ids by (auto simp: h_def c_def texts_for_def text_of_def)
    then have "\<forall>q. groups (g_sent g i q) (queued q) \<and> ?ms i q = queued q @ texts_for q (input_cmdlist h)"
      using qd by (simp add: add_text_def)
    moreover have "\<forall>c \<in> set (input_cmdlist h). cmd_ok e i c \<and> unat (cmd_dst_id c) \<noteq> i"
      using ok ids j ne len by (auto simp: host_ok_def h_def c_def cmd_ok_def)
    moreover have "hid h = hid (hosts s ! i)" "cc h = cc (hosts s ! i)" by (simp_all add: h_def)
    ultimately show ?thesis using ok same by (auto simp: host_ok_def win_end_def)
  qed
  have "host_ok e (?ms r) (g_sent g r) (g_base g r) (g_got g r) r (hosts ?s ! r)" if r: "r < num_hosts e" for r
    using host host_link(1) [OF net r r] at [OF r] by (simp add: add_text_def)
  moreover have "heard q r ?s = heard q r s" for q r by (simp add: heard_def s')
  moreover have "link_ok e (g_sent g r q) (win_end (g_base g r) (hosts ?s ! r) q) (g_got g r q) r (heard q r s) (hosts ?s ! q)"
    if r: "r < num_hosts e" and q: "q < num_hosts e" for r q
  proof -
    have v: "rx_view e r (hosts ?s ! q) = rx_view e r (hosts s ! q)" using at [OF q] view by simp
    then have "recv_msg (hosts ?s ! q) ! r = recv_msg (hosts s ! q) ! r" by (simp add: rx_view_def)
    with v host_link(2) [OF net r q] we [OF r] show ?thesis by (simp add: link_ok_def)
  qed
  moreover have "length (hosts ?s) = num_hosts e \<and> ingress ?s = ingress s" using net by (simp add: s' net_ok_def)
  moreover have "acks_in e (g_base g r) (g_got g r) (hosts ?s ! r)" if r: "r < num_hosts e" for r
    using inv r at [OF r] by (auto simp: net_inv_def acks_in_def h_def)
  ultimately show ?thesis using net by (simp add: net_inv_def net_ok_def)
qed

section \<open>Runs of the program\<close>

text \<open>
  A run: the state after \<^verbatim>\<open>init\<close>, commands read from the input, and rounds. The second argument collects
  the messages commanded so far, for each sender and receiver.
\<close>

inductive run :: "env \<Rightarrow> (nat \<Rightarrow> nat \<Rightarrow> u8 list list) \<Rightarrow> net \<Rightarrow> bool" for e where
  run_init: "run e (\<lambda>_ _. []) (init_net e)"
| run_line: "run e ms s \<Longrightarrow> line_ok e i j m \<Longrightarrow> run e (add_text i j m ms) (queue_cmd e (int i) (int j) m s)"
| run_round: "run e ms s \<Longrightarrow> run_hosts e s = Inr s' \<Longrightarrow> run e ms s'"

lemma run_inv:
  assumes "run e ms s" and sim: "sim_ok e"
  shows "\<exists>g. net_inv e ms g s"
  using assms(1)
proof (induction rule: run.induct)
  case run_init
  then show ?case using init_net_inv sim by (auto simp: sim_ok_def)
next
  case (run_line ms s i j m)
  then show ?case using sim unfolding sim_ok_def by (blast intro: net_inv_command)
next
  case (run_round ms s s')
  then obtain g where "net_inv e ms g s" by blast
  with run_hosts_inv [OF sim this] run_round(2) show ?case by auto
qed

lemma net_inv_heard:
  assumes inv: "net_inv e ms g s" and i: "i < num_hosts e" and q: "q < num_hosts e"
  shows "prefix (heard q i s) (ms i q)"
proof -
  have net: "net_ok e ms g s" using inv by (simp add: net_inv_def)
  from host_link(1) [OF net i q] obtain queued where
    qd: "groups (g_sent g i q) (queued q)" "ms i q = queued q @ texts_for q (input_cmdlist (hosts s ! i))"
    unfolding host_ok_def by blast
  have l: "link_ok e (g_sent g i q) (win_end (g_base g i) (hosts s ! i) q) (g_got g i q) i (heard q i s) (hosts s ! q)"
    by (rule host_link(2) [OF net i q])
  from groups_deliver [OF qd(1) link_got_le(2) [OF l]] obtain j where "heard q i s = take j (queued q)"
    using l by (auto simp: link_ok_def)
  then show ?thesis using qd(2) by (metis take_is_prefix prefix_prefix)
qed

lemma net_inv_all_heard:
  assumes inv: "net_inv e ms g s" and i: "i < num_hosts e" and q: "q < num_hosts e"
    and idle: "idle_ok e (hosts s ! i)" and "\<not> active (hosts s ! i)"
  shows "heard q i s = ms i q"
proof -
  have net: "net_ok e ms g s" using inv by (simp add: net_inv_def)
  have h: "host_ok e (ms i) (g_sent g i) (g_base g i) (g_got g i) i (hosts s ! i)" by (rule host_link(1) [OF net i q])
  then obtain queued where
    qd: "groups (g_sent g i q) (queued q)" "ms i q = queued q @ texts_for q (input_cmdlist (hosts s ! i))"
    unfolding host_ok_def by blast
  have none: "input_cmdlist (hosts s ! i) = []" "pending e q (hosts s ! i) = []"
    using idle assms(5) q by (simp_all add: idle_ok_def)
  have "drop (g_base g i q) (g_sent g i q) = []" using h q none by (simp add: host_ok_def tx_inv_def)
  moreover have "g_base g i q \<le> g_got g i q" using h q by (simp add: host_ok_def)
  ultimately have "take (g_got g i q) (g_sent g i q) = g_sent g i q" by simp
  with host_link(2) [OF net i q] groups_deliver_all [OF qd(1)] have "heard q i s = queued q"
    by (auto simp: link_ok_def)
  with qd(2) none show ?thesis by simp
qed

lemma run_idle:
  assumes "run e ms s" and "sim_ok e" and "run_hosts e s = Inr s'" and "i < num_hosts e"
  shows "idle_ok e (hosts s' ! i)" "\<exists>g. net_inv e ms g s'"
proof -
  from run_inv [OF assms(1,2)] obtain g where "net_inv e ms g s" by blast
  from run_hosts_inv [OF assms(2) this] assms(3,4) show "idle_ok e (hosts s' ! i)" "\<exists>g. net_inv e ms g s'" by auto
qed

section \<open>Properties\<close>

lemma small_env_sim: "sim_ok small_env"
  using small_env_cfg by (simp add: sim_ok_def rounding_ok_def) (simp add: small_env_def)

text \<open>An example: host 0 sends the text \<open>hi\<close> to host 1; the states after the command and after a round.\<close>

definition example_commanded :: net where
  "example_commanded = queue_cmd small_env 0 1 [104, 105] (init_net small_env)"

definition example_round :: net where
  "example_round = (case run_hosts small_env example_commanded of Inl _ \<Rightarrow> init_net small_env | Inr s \<Rightarrow> s)"

definition example_end :: net where
  "example_end = (case run_hosts small_env example_round of Inl _ \<Rightarrow> init_net small_env | Inr s \<Rightarrow> s)"

lemma not_isl_Inr: "\<not> isl r \<Longrightarrow> r = Inr (case r of Inl _ \<Rightarrow> d | Inr s \<Rightarrow> s)"
  by (cases r) auto

lemma example_steps:
  "run_hosts small_env example_commanded = Inr example_round"
  "run_hosts small_env example_round = Inr example_end"
proof -
  have "\<not> isl (run_hosts small_env example_commanded)" by code_simp
  then show "run_hosts small_env example_commanded = Inr example_round"
    unfolding example_round_def by (rule not_isl_Inr)
  have "\<not> isl (run_hosts small_env example_round)" by code_simp
  then show "run_hosts small_env example_round = Inr example_end"
    unfolding example_end_def by (rule not_isl_Inr)
qed

lemma example_exit: "graceful_exit small_env True example_end = Inl (ExitCall 0)"
  by code_simp

lemma example_run:
  "run small_env (add_text 0 1 [104, 105] (\<lambda>_ _. [])) example_commanded"
  "run small_env (add_text 0 1 [104, 105] (\<lambda>_ _. [])) example_round"
proof -
  have "line_ok small_env 0 1 [104, 105]" by (simp add: line_ok_def small_env_def)
  from run_line [OF run_init this]
  show c: "run small_env (add_text 0 1 [104, 105] (\<lambda>_ _. [])) example_commanded"
    by (simp add: example_commanded_def)
  from run_round [OF c example_steps(1)]
  show "run small_env (add_text 0 1 [104, 105] (\<lambda>_ _. [])) example_round" .
qed

text \<open>
  when the program exits on request, every message that was commanded has been printed by its
  receiver: exactly once, unchanged, and in the order of the commands, whatever the switch dropped
  or damaged and in whatever order it served the hosts.
\<close>

theorem exit_prints_everything:
  assumes "run e ms s" and "sim_ok e" and "run_hosts e s = Inr s'" and "graceful_exit e True s' = Inl (ExitCall 0)"
    and "i < num_hosts e" and "q < num_hosts e"
  shows "heard q i s' = ms i q"
proof -
  obtain g where "net_inv e ms g s'" using run_idle(2) [OF assms(1-3,5)] by blast
  moreover have "idle_ok e (hosts s' ! i)" by (rule run_idle(1) [OF assms(1-3,5)])
  moreover have "\<not> active (hosts s' ! i)" using assms(4,5) by (auto simp: graceful_exit_def split: if_splits)
  ultimately show ?thesis using net_inv_all_heard assms(5,6) by blast
qed

theorem exit_prints_everything_witness: "heard 1 0 example_end = [[104, 105]]"
proof -
  have "heard 1 0 example_end = add_text 0 1 [104, 105] (\<lambda>_ _. []) 0 1"
    by (rule exit_prints_everything [OF example_run(2) small_env_sim example_steps(2) example_exit])
      (simp_all add: small_env_def)
  then show ?thesis by (simp add: add_text_def)
qed

text \<open>
  C6: at every moment what a host has printed of the messages from a peer is a prefix of what was
  commanded: no message is lost, repeated, reordered or altered on the way.
\<close>

theorem printed_in_order:
  assumes "run e ms s" and "sim_ok e" and "i < num_hosts e" and "q < num_hosts e"
  shows "prefix (heard q i s) (ms i q)"
  using run_inv [OF assms(1,2)] net_inv_heard assms(3,4) by blast

theorem printed_in_order_witness: "prefix (heard 1 0 example_round) [[104, 105]]"
  using printed_in_order [OF example_run(2) small_env_sim, of 0 1]
  by (simp add: small_env_def add_text_def)

text \<open>
  C7: a round either runs to its end or stops in the read of the uninitialised pointer of
  \<^verbatim>\<open>retransmit_frame\<close>; no index is out of bounds, no null pointer is followed, no sanity check of
  the switch ends the program, and no loop goes on for ever.
\<close>

theorem round_faults:
  assumes "run e ms s" and "sim_ok e"
  shows "(\<exists>s'. run_hosts e s = Inr s') \<or> run_hosts e s = Inl Uninitialised"
proof -
  obtain g where "net_inv e ms g s" using run_inv [OF assms] by blast
  from run_hosts_inv [OF assms(2) this] show ?thesis by (cases "run_hosts e s") auto
qed

theorem round_faults_witness:
  "(\<exists>s'. run_hosts small_env example_round = Inr s') \<or> run_hosts small_env example_round = Inl Uninitialised"
  by (rule round_faults [OF example_run(2) small_env_sim])

end
