(* ===== verification/Scan.thy ===== *)
theory Scan
  imports Prelude
begin

text \<open>
  Text input as both programs do it with the C library: the lines of a file, the conversions
  \<^verbatim>\<open>%s\<close>, \<^verbatim>\<open>%d\<close> and \<^verbatim>\<open>%[^\n]\<close> of \<^verbatim>\<open>sscanf\<close> on a string without its terminating zero, the
  decimal notation that they read back, and the conversions of \<^verbatim>\<open>printf\<close>.
\<close>

section \<open>Lines\<close>

definition first_line :: "u8 list \<Rightarrow> u8 list" where
  "first_line fp = takeWhile (\<lambda>c. c \<noteq> 10) fp @ take 1 (dropWhile (\<lambda>c. c \<noteq> 10) fp)"

lemma first_line_simps [simp]:
  "first_line [] = []" "first_line (c # fp) = (if c = 10 then [10] else c # first_line fp)"
  by (simp_all add: first_line_def)

lemma first_line_empty [simp]: "first_line fp = [] \<longleftrightarrow> fp = []"
  by (cases fp) auto

lemma length_first_line: "length (first_line fp) \<le> length fp"
  by (induction fp) auto

section \<open>Conversions\<close>

definition is_space :: "u8 \<Rightarrow> bool" where
  "is_space c \<longleftrightarrow> c = 32 \<or> (9 \<le> c \<and> c \<le> 13)"

definition is_digit :: "u8 \<Rightarrow> bool" where
  "is_digit c \<longleftrightarrow> 48 \<le> c \<and> c \<le> 57"

definition skip_space :: "u8 list \<Rightarrow> u8 list" where
  "skip_space = dropWhile is_space"

definition scan_word :: "u8 list \<Rightarrow> (u8 list \<times> u8 list) option" where
  "scan_word s = (let t = skip_space s in
    if t = [] then None else Some (takeWhile (\<lambda>c. \<not> is_space c) t, dropWhile (\<lambda>c. \<not> is_space c) t))"

definition digits_value :: "u8 list \<Rightarrow> int" where
  "digits_value ds = foldl (\<lambda>v d. 10 * v + (int (unat d) - 48)) 0 ds"

text \<open>A number outside 64 bits is clamped, and the value is converted to \<^verbatim>\<open>int\<close>, as the C library does.\<close>

definition to_int :: "int \<Rightarrow> int" where
  "to_int v = sint (word_of_int (max (- (2 ^ 63)) (min (2 ^ 63 - 1) v)) :: u32)"

definition scan_int :: "u8 list \<Rightarrow> (int \<times> u8 list) option" where
  "scan_int s = (let t = skip_space s;
      neg = (t \<noteq> [] \<and> hd t = 45);
      u = (if t \<noteq> [] \<and> (hd t = 45 \<or> hd t = 43) then tl t else t);
      ds = takeWhile is_digit u
    in if ds = [] then None
       else Some (to_int (if neg then - digits_value ds else digits_value ds), dropWhile is_digit u))"

definition scan_rest :: "u8 list \<Rightarrow> u8 list option" where
  "scan_rest s = (let t = takeWhile (\<lambda>c. c \<noteq> 10) (skip_space s) in if t = [] then None else Some t)"

section \<open>Decimal notation\<close>

fun decimal :: "nat \<Rightarrow> u8 list" where
  "decimal n = (if n < 10 then [of_nat (48 + n)] else decimal (n div 10) @ [of_nat (48 + n mod 10)])"

declare decimal.simps [simp del]

lemma digit_byte:
  assumes "d < 10"
  shows "unat (of_nat (48 + d) :: u8) = 48 + d"
  using assms by (simp only: unsigned_of_nat) (simp add: take_bit_nat_eq_self)

lemma digit_props:
  assumes "d < 10"
  shows "is_digit (of_nat (48 + d))" "\<not> is_space (of_nat (48 + d))" "(of_nat (48 + d) :: u8) \<notin> {0, 10, 45, 43}"
proof -
  note u = digit_byte [OF assms]
  show "is_digit (of_nat (48 + d))"
    using assms by (simp only: is_digit_def word_le_nat_alt u) simp
  show "\<not> is_space (of_nat (48 + d))"
    using assms by (simp only: is_space_def word_le_nat_alt word_unat_eq_iff u) simp
  show "(of_nat (48 + d) :: u8) \<notin> {0, 10, 45, 43}"
    using assms by (simp only: insert_iff empty_iff word_unat_eq_iff u) simp
qed

lemma decimal_digits: "\<forall>c \<in> set (decimal n). is_digit c \<and> \<not> is_space c \<and> c \<notin> {0, 10, 45, 43}"
proof (induction n rule: decimal.induct)
  case (1 n)
  show ?case
  proof (cases "n < 10")
    case True
    then show ?thesis using digit_props [OF True] by (simp add: decimal.simps [of n])
  next
    case False
    have "n mod 10 < 10" by simp
    then show ?thesis using 1 False digit_props [of "n mod 10"] by (simp add: decimal.simps [of n])
  qed
qed

lemma decimal_not_empty [simp]: "decimal n \<noteq> []"
  by (simp add: decimal.simps [of n])

lemma digits_value_append: "digits_value (a @ [d]) = 10 * digits_value a + (int (unat d) - 48)"
  by (simp add: digits_value_def)

lemma digits_value_single: "digits_value [d] = int (unat d) - 48"
  by (simp add: digits_value_def)

lemma decimal_value: "digits_value (decimal n) = int n"
proof (induction n rule: decimal.induct)
  case (1 n)
  show ?case
  proof (cases "n < 10")
    case True
    then have "int (unat (of_nat (48 + n) :: u8)) - 48 = int n" by (simp only: digit_byte)
    then show ?thesis using True by (simp only: decimal.simps [of n] if_True digits_value_single)
  next
    case False
    have "int (unat (of_nat (48 + n mod 10) :: u8)) - 48 = int (n mod 10)" using digit_byte [of "n mod 10"] by simp
    then have "digits_value (decimal n) = 10 * int (n div 10) + int (n mod 10)"
      using False by (simp only: decimal.simps [of n] if_False digits_value_append "1.IH" [OF False])
    then show ?thesis by (metis mult_div_mod_eq of_nat_add of_nat_mult of_nat_numeral)
  qed
qed

lemma to_int_small: "0 \<le> v \<Longrightarrow> v < 2 ^ 31 \<Longrightarrow> to_int v = v"
  unfolding to_int_def by (simp only: signed_of_int) (simp add: signed_take_bit_int_eq_self)

lemma dropWhile_none: "\<forall>c \<in> set s. \<not> P c \<Longrightarrow> dropWhile P s = s"
  by (cases s) auto

lemma scan_word_whole:
  assumes "s \<noteq> []" and "\<forall>c \<in> set s. \<not> is_space c"
  shows "scan_word s = Some (s, [])"
proof -
  have "takeWhile (\<lambda>c. \<not> is_space c) s = s" "dropWhile (\<lambda>c. \<not> is_space c) s = []" using assms(2) by auto
  then show ?thesis using assms by (simp add: scan_word_def skip_space_def Let_def dropWhile_none)
qed

lemma scan_int_whole:
  assumes "n < 2 ^ 31"
  shows "scan_int (decimal n) = Some (int n, [])"
proof -
  let ?d = "decimal n"
  have h: "hd ?d \<noteq> 45" "hd ?d \<noteq> 43" using decimal_digits [of n] hd_in_set [of ?d] by auto
  have skip: "skip_space ?d = ?d" unfolding skip_space_def by (rule dropWhile_none) (use decimal_digits in blast)
  have tk: "takeWhile is_digit ?d = ?d" "dropWhile is_digit ?d = []" using decimal_digits [of n] by auto
  have "to_int (int n) = int n" using assms by (intro to_int_small) simp_all
  then show ?thesis using h unfolding scan_int_def skip Let_def by (simp add: tk(1) tk(2) decimal_value del: takeWhile_eq_all_conv)
qed

section \<open>Printing\<close>

definition chars :: "string \<Rightarrow> u8 list" where "chars s = map of_char s"

text \<open>\<^verbatim>\<open>%s\<close> on the bytes readable from the pointer, and \<^verbatim>\<open>%.k\<close>\<open>x\<close>.\<close>

definition string_arg :: "u8 list \<Rightarrow> u8 list res" where
  "string_arg s = (if 0 \<in> set s then Inr (takeWhile (\<lambda>c. c \<noteq> 0) s) else Inl OutOfBounds)"

fun hexadecimal :: "nat \<Rightarrow> u8 list" where
  "hexadecimal n = (if n < 16 then [] else hexadecimal (n div 16)) @
     [of_nat (if n mod 16 < 10 then 48 + n mod 16 else 87 + n mod 16)]"

declare hexadecimal.simps [simp del]

definition hex_min :: "nat \<Rightarrow> nat \<Rightarrow> u8 list" where
  "hex_min k n = replicate (k - length (hexadecimal n)) 48 @ hexadecimal n"

end
