(* ===== verification/Input.thy ===== *)
theory Input
  imports Rounds Scan
begin

text \<open>
  The input of the simulator (\<^verbatim>\<open>tcp/src/input.c\<close>), \<^verbatim>\<open>handle_input\<close> (\<^verbatim>\<open>run_main.c\<close>) and the main loop
  (\<^verbatim>\<open>main.c\<close>). Standard input is the list of the bytes it will deliver before the end of file;
  how often \<^verbatim>\<open>select\<close> finds it readable in a call of \<^verbatim>\<open>check_input\<close> is an argument. Allocations
  succeed.
\<close>

section \<open>Reading a line\<close>

definition needed_max :: nat where "needed_max = 2 ^ 63"

definition finish_line :: "nat \<Rightarrow> u8 list \<Rightarrow> u8 list \<Rightarrow> (int \<times> u8 list \<times> nat \<times> u8 list) res" where
  "finish_line n cur rest =
    (if length cur < n then Inr (if cur = [] then -1 else int (length cur), cur, n, rest) else Inl OutOfBounds)"

text \<open>Buffer size, bytes read so far, remaining input; the result is returned with these.\<close>

fun getline_loop :: "nat \<Rightarrow> u8 list \<Rightarrow> u8 list \<Rightarrow> (int \<times> u8 list \<times> nat \<times> u8 list) res" where
  "getline_loop n cur [] = finish_line n cur []"
| "getline_loop n cur (i # fp) =
    (let needed = (if needed_max < (2 * n + 1) mod 2 ^ 64 then needed_max else (2 * n + 1) mod 2 ^ 64) in
     if length cur + 1 \<ge> n \<and> length cur + 1 \<ge> needed then Inr (-1, cur, n, fp)
     else let n = (if length cur + 1 \<ge> n then needed else n) in
       if n \<le> length cur then Inl OutOfBounds
       else if i = 10 then finish_line n (cur @ [i]) fp
       else getline_loop n (cur @ [i]) fp)"

definition getline :: "nat \<Rightarrow> u8 list \<Rightarrow> (int \<times> u8 list \<times> nat \<times> u8 list) res" where
  "getline n fp = getline_loop (if n = 0 then 120 else n) [] fp"

section \<open>Scanning a line\<close>

text \<open>\<^verbatim>\<open>sscanf(line, "%s %d %d %[^\n]", ...)\<close>: the number of values assigned, and the values.\<close>

record scanned =
  sc_count :: nat
  sc_command :: "u8 list"
  sc_sender :: int
  sc_receiver :: int
  sc_message :: "u8 list"

definition scan_command :: "u8 list \<Rightarrow> scanned" where
  "scan_command s =
    (case scan_word s of None \<Rightarrow> \<lparr>sc_count = 0, sc_command = [], sc_sender = 0, sc_receiver = 0, sc_message = []\<rparr>
     | Some (w, s) \<Rightarrow> (case scan_int s of
         None \<Rightarrow> \<lparr>sc_count = 1, sc_command = w, sc_sender = 0, sc_receiver = 0, sc_message = []\<rparr>
       | Some (i, s) \<Rightarrow> (case scan_int s of
           None \<Rightarrow> \<lparr>sc_count = 2, sc_command = w, sc_sender = i, sc_receiver = 0, sc_message = []\<rparr>
         | Some (j, s) \<Rightarrow> (case scan_rest s of
             None \<Rightarrow> \<lparr>sc_count = 3, sc_command = w, sc_sender = i, sc_receiver = j, sc_message = []\<rparr>
           | Some m \<Rightarrow> \<lparr>sc_count = 4, sc_command = w, sc_sender = i, sc_receiver = j, sc_message = m\<rparr>))))"

section \<open>Commands\<close>

definition MAX_COMMAND_LENGTH :: nat where "MAX_COMMAND_LENGTH = 16"
definition DEFAULT_INPUT_BUFFER_SIZE :: nat where "DEFAULT_INPUT_BUFFER_SIZE = 1024"

definition exit_name :: "u8 list" where "exit_name = [101, 120, 105, 116]"
definition msg_name :: "u8 list" where "msg_name = [109, 115, 103]"

text \<open>
  The body of the loop of \<^verbatim>\<open>check_input\<close> after the line is read; the flag says that it returns. The
  line in the buffer ends at its first zero byte.
\<close>

definition handle_line :: "env \<Rightarrow> u8 list \<Rightarrow> net \<Rightarrow> (bool \<times> net) res" where
  "handle_line e line s =
    (let sc = scan_command (takeWhile (\<lambda>c. c \<noteq> 0) line) in
     if length (sc_command sc) \<ge> MAX_COMMAND_LENGTH then Inl OutOfBounds
     else if sc_count sc < 4 then Inr (sc_command sc = exit_name, s)
     else if sc_command sc = msg_name
       then Inr (False, queue_cmd e (sc_sender sc) (sc_receiver sc) (sc_message sc) s)
     else Inr (False, s))"

fun check_loop :: "env \<Rightarrow> nat \<Rightarrow> nat \<Rightarrow> u8 list \<Rightarrow> net \<Rightarrow> (int \<times> u8 list \<times> net) res" where
  "check_loop e 0 n fp s = Inr (0, fp, s)"
| "check_loop e (Suc ready) n fp s =
    rbind (getline n fp) (\<lambda>(r, line, n, fp).
    let input_bytes_read = sint (word_of_int r :: u32) in
    if input_bytes_read = -1 then Inr (-1, fp, s)
    else rbind (handle_line e line s) (\<lambda>(ret, s).
      if ret then Inr (1, fp, s) else check_loop e ready n fp s))"

definition check_input :: "env \<Rightarrow> nat \<Rightarrow> u8 list \<Rightarrow> net \<Rightarrow> (int \<times> u8 list \<times> net) res" where
  "check_input e ready fp s = check_loop e ready DEFAULT_INPUT_BUFFER_SIZE fp s"

section \<open>The main loop\<close>

type_synonym prog = "bool \<times> u8 list \<times> net"

definition handle_input :: "env \<Rightarrow> nat \<Rightarrow> prog \<Rightarrow> prog res" where
  "handle_input e ready p = (case p of (glb_exit_main, fp, s) \<Rightarrow>
    rbind (check_input e ready fp s) (\<lambda>(input_res, fp, s).
    if input_res < 0 then Inl (ExitCall 1) else Inr (if input_res > 0 then True else glb_exit_main, fp, s)))"

definition main_iteration :: "env \<Rightarrow> nat \<Rightarrow> prog \<Rightarrow> prog res" where
  "main_iteration e ready p =
    rbind (if \<not> fst p then handle_input e ready p else Inr p) (\<lambda>(glb_exit_main, fp, s).
    rbind (run_hosts e s) (\<lambda>s.
    rbind (graceful_exit e glb_exit_main s) (\<lambda>_. Inr (glb_exit_main, fp, s))))"

section \<open>Lines\<close>

lemma getline_loop_line:
  assumes "length cur < n" and "n < 2 ^ 62" and "length cur + length fp < 2 ^ 60"
  shows "\<exists>n'. n \<le> n' \<and> n' < 2 ^ 62 \<and> getline_loop n cur fp =
    Inr (if cur @ fp = [] then -1 else int (length (cur @ first_line fp)), cur @ first_line fp, n',
      drop (length (first_line fp)) fp)"
  using assms
proof (induction fp arbitrary: n cur)
  case (Cons c fp)
  let ?needed = "2 * n + 1" and ?m = "if length cur + 1 \<ge> n then 2 * n + 1 else n"
  have wrap: "(2 * n + 1) mod 2 ^ 64 = 2 * n + 1" "\<not> needed_max < 2 * n + 1"
    using Cons.prems(2) by (simp_all add: needed_max_def)
  have "\<not> length cur + 1 \<ge> 2 * n + 1" using Cons.prems(1) by simp
  then have step: "getline_loop n cur (c # fp) = (if c = 10 then finish_line ?m (cur @ [c]) fp else getline_loop ?m (cur @ [c]) fp)"
    using Cons.prems(1) by (simp only: getline_loop.simps wrap Let_def if_False) auto
  have m: "length (cur @ [c]) < ?m" "n \<le> ?m" "?m < 2 ^ 62"
    using Cons.prems by (auto split: if_splits)
  show ?case
  proof (cases "c = 10")
    case True
    with m(1) have "getline_loop n cur (c # fp) = Inr (int (length (cur @ [c])), cur @ [c], ?m, fp)"
      unfolding step by (simp add: finish_line_def)
    with m True show ?thesis by (intro exI [of _ ?m]) simp
  next
    case False
    from Cons.IH [OF m(1,3)] Cons.prems(3) obtain n' where "?m \<le> n'" "n' < 2 ^ 62"
      "getline_loop ?m (cur @ [c]) fp = Inr (int (length ((cur @ [c]) @ first_line fp)), (cur @ [c]) @ first_line fp, n',
        drop (length (first_line fp)) fp)" by auto
    with False m(2) show ?thesis unfolding step by (intro exI [of _ n']) simp
  qed
qed (simp add: finish_line_def)

function lines_of :: "u8 list \<Rightarrow> u8 list list" where
  "lines_of fp = (if fp = [] then [] else first_line fp # lines_of (drop (length (first_line fp)) fp))"
  by pat_completeness auto
termination
proof (relation "measure length")
  fix fp :: "u8 list" assume "fp \<noteq> []"
  then have "0 < length (first_line fp)" by simp
  with \<open>fp \<noteq> []\<close> show "(drop (length (first_line fp)) fp, fp) \<in> measure length" by (cases fp) auto
qed simp

declare lines_of.simps [simp del]

lemma lines_of_simps [simp]:
  "lines_of [] = []"
  "fp \<noteq> [] \<Longrightarrow> lines_of fp = first_line fp # lines_of (drop (length (first_line fp)) fp)"
  by (simp_all add: lines_of.simps [of "[]"] lines_of.simps [of fp])

lemma getline_line:
  assumes "0 < n" and "n < 2 ^ 62" and "length fp < 2 ^ 31 - 1"
  shows "\<exists>r n'. getline n fp = Inr (r, first_line fp, n', drop (length (first_line fp)) fp) \<and> 0 < n' \<and> n' < 2 ^ 62 \<and>
    sint (word_of_int r :: u32) = (if fp = [] then -1 else int (length (first_line fp)))"
proof -
  have "length ([] :: u8 list) + length fp < 2 ^ 60" using assms(3) by simp
  from getline_loop_line [OF _ assms(2) this] assms(1) obtain n' where n': "n \<le> n'" "n' < 2 ^ 62"
    "getline n fp = Inr (if fp = [] then -1 else int (length (first_line fp)), first_line fp, n', drop (length (first_line fp)) fp)"
    by (auto simp: getline_def)
  have "length (first_line fp) < 2 ^ 31 - 1" using length_first_line [of fp] assms(3) by linarith
  then have "sint (word_of_int (int (length (first_line fp))) :: u32) = int (length (first_line fp))"
    by (simp only: signed_of_int) (simp add: signed_take_bit_int_eq_self)
  moreover have "sint (word_of_int (-1) :: u32) = -1" by simp
  ultimately show ?thesis using n' assms(1)
    by (intro exI [of _ "if fp = [] then -1 else int (length (first_line fp))"] exI [of _ n']) simp
qed

text \<open>What a line commands, and the lines the program can carry.\<close>

definition parse_line :: "u8 list \<Rightarrow> (int \<times> int \<times> u8 list) option" where
  "parse_line line = (let sc = scan_command (takeWhile (\<lambda>c. c \<noteq> 0) line) in
     if sc_count sc = 4 \<and> sc_command sc = msg_name then Some (sc_sender sc, sc_receiver sc, sc_message sc) else None)"

definition hosts_exist :: "env \<Rightarrow> int \<Rightarrow> int \<Rightarrow> bool" where
  "hosts_exist e i j \<longleftrightarrow> 0 \<le> i \<and> i < int (num_hosts e) \<and> 0 \<le> j \<and> j < int (num_hosts e)"

definition line_fine :: "env \<Rightarrow> u8 list \<Rightarrow> bool" where
  "line_fine e line \<longleftrightarrow> length (sc_command (scan_command (takeWhile (\<lambda>c. c \<noteq> 0) line))) < MAX_COMMAND_LENGTH \<and>
     (case parse_line line of None \<Rightarrow> True
      | Some (i, j, m) \<Rightarrow> hosts_exist e i j \<longrightarrow> i \<noteq> j \<and> length (takeWhile (\<lambda>b. b \<noteq> 0) m) < 65536)"

definition note_line :: "env \<Rightarrow> u8 list \<Rightarrow> (nat \<Rightarrow> nat \<Rightarrow> u8 list list) \<Rightarrow> nat \<Rightarrow> nat \<Rightarrow> u8 list list" where
  "note_line e line ms =
    (case parse_line line of None \<Rightarrow> ms
     | Some (i, j, m) \<Rightarrow> if hosts_exist e i j then add_text (nat i) (nat j) m ms else ms)"

lemma scan_command_count: "sc_count (scan_command s) \<le> 4"
  by (auto simp: scan_command_def split: option.splits)

lemma handle_line_run:
  assumes "run e ms s" and "line_fine e line"
  shows "\<exists>r s'. handle_line e line s = Inr (r, s') \<and> run e (note_line e line ms) s'"
proof -
  let ?sc = "scan_command (takeWhile (\<lambda>c. c \<noteq> 0) line)"
  have short: "\<not> length (sc_command ?sc) \<ge> MAX_COMMAND_LENGTH" using assms(2) by (simp add: line_fine_def)
  show ?thesis
  proof (cases "parse_line line")
    case None
    then have "\<exists>r. handle_line e line s = Inr (r, s)"
      using short scan_command_count [of "takeWhile (\<lambda>c. c \<noteq> 0) line"]
      by (auto simp: handle_line_def parse_line_def Let_def split: if_splits)
    with None assms(1) show ?thesis by (auto simp: note_line_def)
  next
    case (Some p)
    obtain i j m where p: "p = (i, j, m)" by (cases p)
    have h: "handle_line e line s = Inr (False, queue_cmd e i j m s)"
      using Some short unfolding p by (auto simp: handle_line_def parse_line_def Let_def split: if_splits)
    show ?thesis
    proof (cases "hosts_exist e i j")
      case True
      then have ij: "i = int (nat i)" "j = int (nat j)" by (auto simp: hosts_exist_def)
      have "line_ok e (nat i) (nat j) m"
        using True assms(2) Some unfolding p by (auto simp: line_fine_def line_ok_def hosts_exist_def)
      from run_line [OF assms(1) this] ij have "run e (add_text (nat i) (nat j) m ms) (queue_cmd e i j m s)" by simp
      then show ?thesis using h Some True by (auto simp: note_line_def p)
    next
      case False
      then have "queue_cmd e i j m s = s" by (auto simp: queue_cmd_def hosts_exist_def)
      then show ?thesis using h Some False assms(1) by (auto simp: note_line_def p)
    qed
  qed
qed

text \<open>A call of \<^verbatim>\<open>check_input\<close> consumes some lines and commands what they say.\<close>

lemma check_loop_run:
  assumes "run e ms s" and "\<forall>l \<in> set (lines_of fp). line_fine e l" and "length fp < 2 ^ 31 - 1" and "0 < n" and "n < 2 ^ 62"
  shows "\<exists>r fp' s' k. check_loop e ready n fp s = Inr (r, fp', s') \<and> lines_of fp' = drop k (lines_of fp) \<and>
    length fp' \<le> length fp \<and> run e (fold (note_line e) (take k (lines_of fp)) ms) s'"
  using assms
proof (induction ready arbitrary: ms s fp n)
  case 0
  then show ?case by (intro exI [of _ 0] exI [of _ fp] exI [of _ s] exI [of _ "0 :: nat"]) simp
next
  case (Suc ready)
  obtain r n' where g: "getline n fp = Inr (r, first_line fp, n', drop (length (first_line fp)) fp)" "0 < n'" "n' < 2 ^ 62"
    "sint (word_of_int r :: u32) = (if fp = [] then -1 else int (length (first_line fp)))"
    using getline_line [OF Suc.prems(4,5,3)] by blast
  show ?case
  proof (cases "fp = []")
    case True
    with g Suc.prems(1) show ?thesis by (intro exI [of _ "-1"] exI [of _ "[]"] exI [of _ s] exI [of _ 0]) simp
  next
    case False
    let ?rest = "drop (length (first_line fp)) fp"
    have l: "lines_of fp = first_line fp # lines_of ?rest" by (rule lines_of_simps(2) [OF False])
    have "line_fine e (first_line fp)" using Suc.prems(2) l by simp
    then obtain ret s1 where h: "handle_line e (first_line fp) s = Inr (ret, s1)" "run e (note_line e (first_line fp) ms) s1"
      using handle_line_run [OF Suc.prems(1)] by blast
    have step: "check_loop e (Suc ready) n fp s = (if ret then Inr (1, ?rest, s1) else check_loop e ready n' ?rest s1)"
      using g False h(1) by simp
    have "\<forall>l \<in> set (lines_of ?rest). line_fine e l" "length ?rest < 2 ^ 31 - 1" using Suc.prems(2,3) l by auto
    from Suc.IH [OF h(2) this g(2,3)] obtain r' fp' s' k where k: "check_loop e ready n' ?rest s1 = Inr (r', fp', s')"
      "lines_of fp' = drop k (lines_of ?rest)" "length fp' \<le> length ?rest"
      "run e (fold (note_line e) (take k (lines_of ?rest)) (note_line e (first_line fp) ms)) s'" by blast
    show ?thesis
    proof (cases ret)
      case True
      with step h(2) show ?thesis
        by (intro exI [of _ 1] exI [of _ ?rest] exI [of _ s1] exI [of _ "1 :: nat"]) (simp add: l)
    next
      case False
      with step k show ?thesis
        by (intro exI [of _ r'] exI [of _ fp'] exI [of _ s'] exI [of _ "Suc k"]) (simp add: l)
    qed
  qed
qed

section \<open>The program\<close>

text \<open>The messages the first \<open>k\<close> lines of the input command, per sender and receiver.\<close>

definition commanded :: "env \<Rightarrow> u8 list \<Rightarrow> nat \<Rightarrow> nat \<Rightarrow> nat \<Rightarrow> u8 list list" where
  "commanded e inp k = fold (note_line e) (take k (lines_of inp)) (\<lambda>_ _. [])"

definition input_ok :: "env \<Rightarrow> u8 list \<Rightarrow> bool" where
  "input_ok e inp \<longleftrightarrow> (\<forall>l \<in> set (lines_of inp). line_fine e l) \<and> length inp < 2 ^ 31 - 1"

text \<open>The state between iterations: some lines are read, and the simulation has carried out a run for them.\<close>

definition prog_inv :: "env \<Rightarrow> u8 list \<Rightarrow> prog \<Rightarrow> bool" where
  "prog_inv e inp p \<longleftrightarrow> (case p of (x, fp, s) \<Rightarrow> \<exists>k. lines_of fp = drop k (lines_of inp) \<and> length fp \<le> length inp \<and>
     run e (commanded e inp k) s)"

lemma input_prog_inv:
  assumes "prog_inv e inp p" and "input_ok e inp" and "handle_input e ready p = Inr p'"
  shows "prog_inv e inp p'"
proof -
  obtain x fp s where p: "p = (x, fp, s)" by (cases p)
  obtain k where k: "lines_of fp = drop k (lines_of inp)" "length fp \<le> length inp" "run e (commanded e inp k) s"
    using assms(1) by (auto simp: prog_inv_def p)
  have fine: "\<forall>l \<in> set (lines_of fp). line_fine e l" "length fp < 2 ^ 31 - 1"
    using assms(2) k(1,2) by (auto simp: input_ok_def dest: in_set_dropD)
  have "0 < DEFAULT_INPUT_BUFFER_SIZE" "DEFAULT_INPUT_BUFFER_SIZE < 2 ^ 62" by (simp_all add: DEFAULT_INPUT_BUFFER_SIZE_def)
  from check_loop_run [OF k(3) fine this, of ready] obtain r fp' s' j where
    c: "check_input e ready fp s = Inr (r, fp', s')" "lines_of fp' = drop j (lines_of fp)" "length fp' \<le> length fp"
      "run e (fold (note_line e) (take j (lines_of fp)) (commanded e inp k)) s'"
    by (auto simp: check_input_def)
  have "take (k + j) (lines_of inp) = take k (lines_of inp) @ take j (lines_of fp)" by (simp add: k(1) take_add)
  then have "run e (commanded e inp (k + j)) s'" using c(4) by (simp add: commanded_def)
  moreover have "lines_of fp' = drop (k + j) (lines_of inp)" using c(2) k(1) by (simp add: add.commute)
  moreover have "fst (snd p') = fp'" "snd (snd p') = s'"
    using assms(3) c(1) by (auto simp: handle_input_def p split: if_splits)
  ultimately show ?thesis using c(3) k(2) by (cases p') (auto simp: prog_inv_def)
qed

lemma iteration_prog_inv:
  assumes "prog_inv e inp p" and "input_ok e inp" and "main_iteration e ready p = Inr p'"
  shows "prog_inv e inp p'"
proof -
  obtain x fp s where i: "(if \<not> fst p then handle_input e ready p else Inr p) = Inr (x, fp, s)"
    and r: "rbind (run_hosts e s) (\<lambda>s. rbind (graceful_exit e x s) (\<lambda>_. Inr (x, fp, s))) = Inr p'"
    using assms(3) unfolding main_iteration_def by (elim rbind_InrE) auto
  have "prog_inv e inp (x, fp, s)"
    using i input_prog_inv [OF assms(1,2)] assms(1) by (auto split: if_splits)
  moreover obtain s' where "run_hosts e s = Inr s'" "p' = (x, fp, s')" using r by (auto simp: rbind_Inr_iff)
  ultimately show ?thesis by (auto simp: prog_inv_def intro: run_round)
qed

lemma main_prog_inv:
  assumes "rfold (main_iteration e) ks (False, inp, init_net e) = Inr p" and "input_ok e inp"
  shows "prog_inv e inp p"
  using assms(1)
proof (rule rfold_inv [where P = "prog_inv e inp"])
  show "prog_inv e inp (False, inp, init_net e)"
    unfolding prog_inv_def prod.case commanded_def by (intro exI [of _ 0]) (simp add: run_init)
qed (use iteration_prog_inv assms(2) in blast)

lemma handle_input_exit:
  assumes "prog_inv e inp p" and "input_ok e inp"
  shows "handle_input e ready p \<noteq> Inl (ExitCall 0)"
proof -
  obtain x fp s where p: "p = (x, fp, s)" by (cases p)
  obtain k where k: "lines_of fp = drop k (lines_of inp)" "length fp \<le> length inp" "run e (commanded e inp k) s"
    using assms(1) by (auto simp: prog_inv_def p)
  have fine: "\<forall>l \<in> set (lines_of fp). line_fine e l" "length fp < 2 ^ 31 - 1"
    using assms(2) k(1,2) by (auto simp: input_ok_def dest: in_set_dropD)
  have "0 < DEFAULT_INPUT_BUFFER_SIZE" "DEFAULT_INPUT_BUFFER_SIZE < 2 ^ 62" by (simp_all add: DEFAULT_INPUT_BUFFER_SIZE_def)
  from check_loop_run [OF k(3) fine this, of ready] obtain r fp' s' where
    "check_input e ready fp s = Inr (r, fp', s')" by (auto simp: check_input_def)
  then show ?thesis by (simp add: handle_input_def p)
qed

lemma exit_state:
  assumes "prog_inv e inp p" and "input_ok e inp" and "sim_ok e" and "main_iteration e ready p = Inl (ExitCall 0)"
  obtains fp s s' where "(if \<not> fst p then handle_input e ready p else Inr p) = Inr (True, fp, s)"
    and "prog_inv e inp (True, fp, s)" and "run_hosts e s = Inr s'" and "graceful_exit e True s' = Inl (ExitCall 0)"
proof -
  let ?i = "if \<not> fst p then handle_input e ready p else Inr p"
  have "?i \<noteq> Inl (ExitCall 0)" using handle_input_exit [OF assms(1,2)] by simp
  then obtain x fp s where i: "?i = Inr (x, fp, s)"
    using assms(4) unfolding main_iteration_def by (cases ?i) (auto simp: rbind_def)
  have inv: "prog_inv e inp (x, fp, s)"
    using i input_prog_inv [OF assms(1,2)] assms(1) by (auto split: if_splits)
  then obtain k where run: "run e (commanded e inp k) s" by (auto simp: prog_inv_def)
  have rest: "rbind (run_hosts e s) (\<lambda>s. rbind (graceful_exit e x s) (\<lambda>_. Inr (x, fp, s))) = Inl (ExitCall 0)"
    using assms(4) unfolding main_iteration_def i by simp
  obtain g where "net_inv e (commanded e inp k) g s" using run_inv [OF run assms(3)] by blast
  from run_hosts_inv [OF assms(3) this] rest obtain s' where s': "run_hosts e s = Inr s'"
    by (cases "run_hosts e s") auto
  with rest have g: "graceful_exit e x s' = Inl (ExitCall 0)" by (cases "graceful_exit e x s'") auto
  then have "x = True" by (cases x) (simp_all add: graceful_exit_def)
  then show ?thesis using that i inv s' g by blast
qed

section \<open>Writing a command\<close>

definition msg_line :: "nat \<Rightarrow> nat \<Rightarrow> u8 list \<Rightarrow> u8 list" where
  "msg_line i j body = msg_name @ [32] @ decimal i @ [32] @ decimal j @ [32] @ body @ [10]"

lemma scan_int_decimal:
  assumes "n < 2 ^ 31" and "\<not> is_digit c"
  shows "scan_int (32 # decimal n @ c # rest) = Some (int n, c # rest)"
proof -
  let ?d = "decimal n"
  have d: "?d = hd ?d # tl ?d" by simp
  have h: "is_digit (hd ?d)" "\<not> is_space (hd ?d)" "hd ?d \<noteq> 45" "hd ?d \<noteq> 43"
    using decimal_digits [of n] hd_in_set [of ?d] by auto
  have sp: "is_space 32" by (simp add: is_space_def)
  have "dropWhile is_space (?d @ c # rest) = ?d @ c # rest" using h(2) d by (metis append_Cons dropWhile.simps(2))
  then have skip: "skip_space (32 # ?d @ c # rest) = ?d @ c # rest" using sp by (simp add: skip_space_def)
  have tk: "takeWhile is_digit (?d @ c # rest) = ?d" "dropWhile is_digit (?d @ c # rest) = c # rest"
    using decimal_digits [of n] assms(2) by (simp_all add: takeWhile_append2 dropWhile_append2)
  have hd: "hd (?d @ c # rest) = hd ?d" by (simp add: hd_append)
  show ?thesis
    using assms(1) h(3,4) by (simp add: scan_int_def Let_def skip hd tk decimal_value to_int_small)
qed

lemma scan_msg_line:
  assumes "i < 2 ^ 31" and "j < 2 ^ 31" and "body \<noteq> []" and "\<not> is_space (hd body)" and "10 \<notin> set body"
  shows "scan_command (msg_line i j body) =
    \<lparr>sc_count = 4, sc_command = msg_name, sc_sender = int i, sc_receiver = int j, sc_message = body\<rparr>"
proof -
  have nd: "\<not> is_digit 32" by (simp add: is_digit_def)
  have sp: "is_space 32" "\<forall>c \<in> set msg_name. \<not> is_space c" by (simp_all add: is_space_def msg_name_def)
  have m: "\<not> is_space 109" by (simp add: is_space_def)
  have w: "scan_word (msg_line i j body) = Some (msg_name, 32 # decimal i @ 32 # decimal j @ 32 # body @ [10])"
    using sp m by (simp add: scan_word_def msg_line_def skip_space_def Let_def) (simp add: msg_name_def is_space_def)
  have "dropWhile is_space (body @ [10]) = body @ [10]" using assms(3,4) by (cases body) simp_all
  moreover have "takeWhile (\<lambda>c. c \<noteq> 10) (body @ [10]) = body" using assms(5) by (subst takeWhile_append2) auto
  ultimately have r: "scan_rest (32 # body @ [10]) = Some body"
    using sp(1) assms(3) by (simp add: scan_rest_def skip_space_def Let_def)
  show ?thesis
    by (simp add: scan_command_def w scan_int_decimal [OF assms(1) nd] scan_int_decimal [OF assms(2) nd] r)
qed

section \<open>Properties\<close>

text \<open>
  C1: The whole program: when the main loop leaves through the exit command, the receivers have
  printed exactly the messages that the lines read so far command, for each sender and receiver
  complete, unchanged and in the order of the lines.
\<close>

theorem program_prints_input:
  assumes "sim_ok e" and "input_ok e inp"
    and "rfold (main_iteration e) ks (False, inp, init_net e) = Inr p"
    and "main_iteration e ready p = Inl (ExitCall 0)"
  shows "\<exists>fp s s' k. (if fst p then Inr p else handle_input e ready p) = Inr (True, fp, s) \<and> run_hosts e s = Inr s' \<and>
    lines_of fp = drop k (lines_of inp) \<and>
    (\<forall>i < num_hosts e. \<forall>q < num_hosts e. heard q i s' = commanded e inp k i q)"
proof -
  obtain fp s s' where r: "(if \<not> fst p then handle_input e ready p else Inr p) = Inr (True, fp, s)"
    "prog_inv e inp (True, fp, s)" "run_hosts e s = Inr s'" "graceful_exit e True s' = Inl (ExitCall 0)"
    using exit_state [OF main_prog_inv [OF assms(3,2)] assms(2,1,4)] .
  obtain k where k: "lines_of fp = drop k (lines_of inp)" "run e (commanded e inp k) s"
    using r(2) by (auto simp: prog_inv_def)
  obtain g where g: "net_inv e (commanded e inp k) g s" using run_inv [OF k(2) assms(1)] by blast
  have "heard q i s' = commanded e inp k i q" if i: "i < num_hosts e" and q: "q < num_hosts e" for i q
  proof -
    obtain g' where "net_inv e (commanded e inp k) g' s'" using run_idle(2) [OF k(2) assms(1) r(3) i] by blast
    moreover have "\<not> active (hosts s' ! i)" using r(4) i by (auto simp: graceful_exit_def split: if_splits)
    ultimately show ?thesis using net_inv_all_heard [OF _ i q run_idle(1) [OF k(2) assms(1) r(3) i]] by blast
  qed
  with r(1,3) k(1) show ?thesis by (intro exI [of _ fp] exI [of _ s] exI [of _ s'] exI [of _ k]) (cases "fst p"; simp)
qed

definition example_line :: "u8 list" where
  "example_line = [109, 115, 103, 32, 48, 32, 49, 32, 104, 105, 10]"

definition example_input :: "u8 list" where
  "example_input = example_line @ exit_name @ [10]"

lemma example_lines: "lines_of example_input = [example_line, exit_name @ [10]]"
  by (simp add: example_input_def example_line_def exit_name_def)

lemma example_scan: "scan_command (takeWhile (\<lambda>c. c \<noteq> 0) example_line) =
    \<lparr>sc_count = 4, sc_command = msg_name, sc_sender = 0, sc_receiver = 1, sc_message = [104, 105]\<rparr>"
  "scan_command (takeWhile (\<lambda>c. c \<noteq> 0) (exit_name @ [10])) =
    \<lparr>sc_count = 1, sc_command = exit_name, sc_sender = 0, sc_receiver = 0, sc_message = []\<rparr>"
  by code_simp+

lemma example_parse: "parse_line example_line = Some (0, 1, [104, 105])" "parse_line (exit_name @ [10]) = None"
  by (simp_all only: parse_line_def example_scan Let_def) simp_all

lemma example_input_ok: "input_ok small_env example_input"
proof -
  have "length example_input < 2 ^ 31 - 1" by (simp add: example_input_def example_line_def exit_name_def)
  moreover have "line_fine small_env example_line" "line_fine small_env (exit_name @ [10])"
    by (simp_all only: line_fine_def example_parse example_scan) (simp_all add: msg_name_def exit_name_def MAX_COMMAND_LENGTH_def)
  ultimately show ?thesis by (simp add: input_ok_def example_lines)
qed

lemma example_read:
  "\<exists>r n. getline DEFAULT_INPUT_BUFFER_SIZE example_input = Inr (r, example_line, n, exit_name @ [10]) \<and> sint (word_of_int r :: u32) = 11"
  "\<exists>r n. getline DEFAULT_INPUT_BUFFER_SIZE (exit_name @ [10]) = Inr (r, exit_name @ [10], n, []) \<and> sint (word_of_int r :: u32) = 5"
proof -
  have n: "0 < DEFAULT_INPUT_BUFFER_SIZE" "DEFAULT_INPUT_BUFFER_SIZE < 2 ^ 62" by (simp_all add: DEFAULT_INPUT_BUFFER_SIZE_def)
  have f: "first_line example_input = example_line" "first_line (exit_name @ [10]) = exit_name @ [10]" "length example_line = 11"
    "drop 11 example_input = exit_name @ [10]" "length example_input < 2 ^ 31 - 1" "length (exit_name @ [10 :: u8]) = 5" "example_input \<noteq> []"
    by (simp_all add: example_input_def example_line_def exit_name_def)
  show "\<exists>r n. getline DEFAULT_INPUT_BUFFER_SIZE example_input = Inr (r, example_line, n, exit_name @ [10]) \<and> sint (word_of_int r :: u32) = 11"
    using getline_line [OF n f(5)] by (auto simp only: f if_False of_nat_numeral)
  show "\<exists>r n. getline DEFAULT_INPUT_BUFFER_SIZE (exit_name @ [10]) = Inr (r, exit_name @ [10], n, []) \<and> sint (word_of_int r :: u32) = 5"
    using getline_line [OF n, of "exit_name @ [10]"] f(2,6) by (auto simp: f(2))
qed

lemma example_iterations:
  "main_iteration small_env 1 (False, example_input, init_net small_env) = Inr (False, exit_name @ [10], example_round)"
  "handle_input small_env 1 (False, exit_name @ [10], example_round) = Inr (True, [], example_round)"
  "main_iteration small_env 1 (False, exit_name @ [10], example_round) = Inl (ExitCall 0)"
proof -
  have h: "handle_line small_env example_line s = Inr (False, queue_cmd small_env 0 1 [104, 105] s)"
    "handle_line small_env (exit_name @ [10]) s = Inr (True, s)" for s
    by (simp_all only: handle_line_def example_scan Let_def) (simp_all add: msg_name_def exit_name_def MAX_COMMAND_LENGTH_def)
  obtain r n where g: "getline DEFAULT_INPUT_BUFFER_SIZE example_input = Inr (r, example_line, n, exit_name @ [10])"
    "sint (word_of_int r :: u32) = 11" using example_read(1) by blast
  have "handle_input small_env 1 (False, example_input, init_net small_env) = Inr (False, exit_name @ [10], example_commanded)"
    using g by (simp add: handle_input_def check_input_def h example_commanded_def)
  then show "main_iteration small_env 1 (False, example_input, init_net small_env) = Inr (False, exit_name @ [10], example_round)"
    by (simp add: main_iteration_def example_steps graceful_exit_def)
  obtain r n where g: "getline DEFAULT_INPUT_BUFFER_SIZE (exit_name @ [10]) = Inr (r, exit_name @ [10], n, [])"
    "sint (word_of_int r :: u32) = 5" using example_read(2) by blast
  then show x: "handle_input small_env 1 (False, exit_name @ [10], example_round) = Inr (True, [], example_round)"
    by (simp add: handle_input_def check_input_def h)
  then show "main_iteration small_env 1 (False, exit_name @ [10], example_round) = Inl (ExitCall 0)"
    by (simp add: main_iteration_def example_steps example_exit)
qed

theorem program_prints_input_witness:
  "rfold (main_iteration small_env) [1] (False, example_input, init_net small_env) = Inr (False, exit_name @ [10], example_round) \<and>
   heard 1 0 example_end = [[104, 105]]"
proof -
  have n: "num_hosts small_env = 2" by (simp add: small_env_def)
  have r: "rfold (main_iteration small_env) [1] (False, example_input, init_net small_env) = Inr (False, exit_name @ [10], example_round)"
    by (simp only: rfold.simps example_iterations(1) rbind_simps)
  from program_prints_input [OF small_env_sim example_input_ok r example_iterations(3)] obtain fp s s' k where
    *: "handle_input small_env 1 (False, exit_name @ [10], example_round) = Inr (True, fp, s)" "run_hosts small_env s = Inr s'"
    "lines_of fp = drop k (lines_of example_input)" "\<forall>i < 2. \<forall>q < 2. heard q i s' = commanded small_env example_input k i q"
    unfolding n fst_conv if_False by blast
  have "fp = []" "s = example_round" using *(1) unfolding example_iterations(2) by simp_all
  then have s: "s' = example_end" "2 \<le> k" "heard 1 0 s' = commanded small_env example_input k 0 1"
    using *(2-4) by (simp_all add: example_steps example_lines)
  then have "commanded small_env example_input k 0 1 = [[104, 105]]"
    by (simp add: commanded_def example_lines note_line_def example_parse hosts_exist_def n add_text_def)
  with r s show ?thesis by simp
qed

text \<open>
  The command line a user types is understood: a line with the numbers of two hosts and a text
  (not empty, without line feed or zero byte, not starting with white space) commands that text
  between those hosts, with nothing added or lost.
\<close>

theorem command_roundtrip:
  assumes "i < num_hosts e" and "j < num_hosts e" and "num_hosts e < 2 ^ 31"
    and "body \<noteq> []" and "\<not> is_space (hd body)" and "10 \<notin> set body" and "0 \<notin> set body"
  shows "handle_line e (msg_line i j body) s = Inr (False, queue_cmd e (int i) (int j) body s)"
proof -
  have "0 \<notin> set (msg_line i j body)"
    using assms(7) decimal_digits [of i] decimal_digits [of j] by (auto simp: msg_line_def msg_name_def)
  then have tw: "takeWhile (\<lambda>c. c \<noteq> 0) (msg_line i j body) = msg_line i j body" by (simp add: takeWhile_eq_all_conv) auto
  have "length msg_name < MAX_COMMAND_LENGTH" "msg_name \<noteq> exit_name"
    by (simp_all add: msg_name_def exit_name_def MAX_COMMAND_LENGTH_def)
  moreover have "i < 2 ^ 31" "j < 2 ^ 31" using assms(1-3) by linarith+
  ultimately show ?thesis
    using scan_msg_line [OF _ _ assms(4-6), of i j]
    unfolding handle_line_def tw by (simp add: assms(1,2))
qed

theorem command_roundtrip_witness:
  "handle_line small_env (msg_line 0 1 [104, 105]) (init_net small_env) =
    Inr (False, queue_cmd small_env 0 1 [104, 105] (init_net small_env))"
  using command_roundtrip [of 0 small_env 1 "[104, 105]" "init_net small_env"] by (simp add: small_env_def is_space_def)

end
