(* ===== verification/Start.thy ===== *)
theory Start
  imports Input
begin

text \<open>
  The start of the simulator: the command line (\<^verbatim>\<open>parse_args\<close>), the configuration file (\<^verbatim>\<open>run_config\<close>,
  both in \<^verbatim>\<open>tcp/src/run_main.c\<close>) and the first half of \<^verbatim>\<open>main\<close>. The library that reads the
  configuration file is a parameter: a function from the path to what its lookups return.
\<close>

section \<open>The code\<close>

record sysconfig =
  sys_window_size :: int
  sys_corrupt_prob :: rat
  sys_recv_accept_rate :: int
  sys_test_case_id :: int
  sys_host_send_cc_id :: int
  sys_host_recv_cc_id :: int
  config_path :: "u8 list"

definition set_int :: "u8 list \<Rightarrow> int \<Rightarrow> int" where
  \<comment> \<open>\<^verbatim>\<open>sscanf(s, "%d", &v)\<close>: without a number \<open>v\<close> keeps its value\<close>
  "set_int s v = (case scan_int s of None \<Rightarrow> v | Some (i, _) \<Rightarrow> i)"

definition set_path :: "u8 list \<Rightarrow> sysconfig \<Rightarrow> sysconfig res" where
  "set_path s c = (case scan_word s of None \<Rightarrow> Inr c
     | Some (w, _) \<Rightarrow> if length w < 1500 then Inr (c\<lparr>config_path := w\<rparr>) else Inl OutOfBounds)"

text \<open>
  The loop over the arguments, which are strings without their terminating zero; the flag is \<^verbatim>\<open>error\<close>.
  A last argument without a value is not looked at.
\<close>

fun parse_options :: "u8 list list \<Rightarrow> sysconfig \<Rightarrow> (bool \<times> sysconfig) res" where
  "parse_options (opt # arg # argv) c =
    (if opt = [45, 116] then parse_options argv (c\<lparr>sys_test_case_id := set_int arg (sys_test_case_id c)\<rparr>)
     else if opt = [45, 112] then rbind (set_path arg c) (parse_options argv)
     else if opt = [45, 115] then parse_options argv (c\<lparr>sys_host_send_cc_id := set_int arg (sys_host_send_cc_id c)\<rparr>)
     else if opt = [45, 114] then parse_options argv (c\<lparr>sys_host_recv_cc_id := set_int arg (sys_host_recv_cc_id c)\<rparr>)
     else Inr (True, c))"
| "parse_options argv c = Inr (False, c)"

definition parse_args :: "(u8 list \<Rightarrow> bool) \<Rightarrow> u8 list list \<Rightarrow> sysconfig \<Rightarrow> sysconfig res" where
  "parse_args exists argv c =
    rbind (parse_options (drop 1 argv) c) (\<lambda>(error, c).
    if error \<or> sys_test_case_id c < 0 \<or> sys_host_send_cc_id c < 0 \<or> sys_host_recv_cc_id c < 0 \<or>
      \<not> exists (config_path c)
    then Inl (ExitCall 1) else Inr c)"

text \<open>What the lookups find: the setting \<^verbatim>\<open>hosts\<close> with its members, integers and floats by path.\<close>

record config_file =
  lookup_hosts :: "(string \<Rightarrow> int option) option"
  lookup_int :: "string \<Rightarrow> int option"
  lookup_float :: "string \<Rightarrow> rat option"

definition found :: "'a option \<Rightarrow> 'a \<Rightarrow> 'a" where
  "found r v = (case r of None \<Rightarrow> v | Some x \<Rightarrow> x)"

definition run_config :: "(u8 list \<Rightarrow> config_file option) \<Rightarrow> sysconfig \<Rightarrow> int \<Rightarrow> (sysconfig \<times> int) res" where
  "run_config config_read_file c glb_num_hosts =
    (case config_read_file (config_path c) of None \<Rightarrow> Inl (ExitCall 1)
     | Some cfg \<Rightarrow>
       let n = (case lookup_hosts cfg of None \<Rightarrow> glb_num_hosts | Some setting \<Rightarrow> found (setting ''quantity'') glb_num_hosts);
         c = c\<lparr>sys_corrupt_prob := found (lookup_float cfg ''corruption_probability'') (sys_corrupt_prob c),
           sys_window_size := found (lookup_int cfg ''sliding_window_size'') (sys_window_size c),
           sys_recv_accept_rate := found (lookup_int cfg ''receiver_packet_acceptance_rate'') (sys_recv_accept_rate c)\<rparr>
       in if sys_recv_accept_rate c \<le> 0 \<or> n < 2 \<or> sys_corrupt_prob c < 0 \<or> sys_corrupt_prob c > 1 \<or> sys_window_size c \<le> 0
          then Inl (ExitCall 1) else Inr (c, n))"

text \<open>\<^verbatim>\<open>./test_suite/cc_basic.cfg\<close>\<close>

definition default_path :: "u8 list" where
  "default_path = [46, 47, 116, 101, 115, 116, 95, 115, 117, 105, 116, 101, 47, 99, 99, 95, 98, 97, 115, 105, 99, 46, 99, 102, 103]"

definition initial_config :: sysconfig where
  "initial_config = \<lparr>sys_window_size = 0, sys_corrupt_prob = 0, sys_recv_accept_rate = 0, sys_test_case_id = 0,
     sys_host_send_cc_id = 0, sys_host_recv_cc_id = 0, config_path = default_path\<rparr>"

text \<open>The globals as the other functions see them; \<open>w\<close> gives the clock, the random numbers and the rounding.\<close>

definition started_env :: "env \<Rightarrow> sysconfig \<Rightarrow> int \<Rightarrow> env" where
  "started_env w c n = w\<lparr>window_size := nat (sys_window_size c), num_hosts := nat n,
     recv_accept_rate := sys_recv_accept_rate c, corrupt_prob := sys_corrupt_prob c,
     host_send_cc_id := nat (sys_host_send_cc_id c), host_recv_cc_id := nat (sys_host_recv_cc_id c)\<rparr>"

text \<open>
  \<^verbatim>\<open>init\<close>: the first host to be initialised multiplies \<^verbatim>\<open>window_size * glb_num_hosts\<close> as \<^verbatim>\<open>int\<close>; the natural
  numbers of \<open>init_host\<close> are the ones of the code when the product is one.
\<close>

definition init :: "env \<Rightarrow> net res" where
  "init e = (if window_size e * num_hosts e \<ge> 2 ^ 31 then Inl Overflow else Inr (init_net e))"

definition main_start ::
  "(u8 list \<Rightarrow> bool) \<Rightarrow> (u8 list \<Rightarrow> config_file option) \<Rightarrow> env \<Rightarrow> u8 list list \<Rightarrow> (env \<times> net) res" where
  "main_start exists config_read_file w argv =
    rbind (parse_args exists argv initial_config) (\<lambda>c.
    rbind (run_config config_read_file c (-1)) (\<lambda>(c, n).
    let e = started_env w c n in rbind (init e) (\<lambda>s. Inr (e, s))))"

section \<open>Lemmas\<close>

lemma to_int_range: "- (2 ^ 31) \<le> to_int v \<and> to_int v < 2 ^ 31"
  using sint_ge [of "word_of_int (max (- (2 ^ 63)) (min (2 ^ 63 - 1) v)) :: u32"]
    sint_lt [of "word_of_int (max (- (2 ^ 63)) (min (2 ^ 63 - 1) v)) :: u32"]
  unfolding to_int_def by simp

lemma parse_options_fault: "parse_options argv c = Inl f \<Longrightarrow> f = OutOfBounds"
  by (induction argv c rule: parse_options.induct)
    (auto simp: set_path_def rbind_def split: if_splits option.splits sum.splits prod.splits)

lemma parse_args_fault: "parse_args exists argv c = Inl f \<Longrightarrow> f \<in> {OutOfBounds, ExitCall 1}"
  by (auto simp: parse_args_def rbind_def split: if_splits sum.splits dest: parse_options_fault)

lemma parse_args_ids:
  "parse_args exists argv c = Inr c' \<Longrightarrow> 0 \<le> sys_host_send_cc_id c' \<and> 0 \<le> sys_host_recv_cc_id c' \<and> exists (config_path c')"
  by (auto simp: parse_args_def rbind_Inr_iff split: if_splits)

lemma run_config_values:
  assumes "run_config rd c n = Inr (c', n')"
  shows "0 < sys_recv_accept_rate c'" "2 \<le> n'" "0 \<le> sys_corrupt_prob c'" "sys_corrupt_prob c' \<le> 1" "0 < sys_window_size c'"
  using assms by (auto simp: run_config_def Let_def split: option.splits if_splits)

lemma run_config_fault: "run_config rd c n = Inl f \<Longrightarrow> f = ExitCall 1"
  by (auto simp: run_config_def Let_def split: option.splits if_splits)

lemma init_Inr_iff: "init e = Inr s \<longleftrightarrow> window_size e * num_hosts e < 2 ^ 31 \<and> s = init_net e"
  by (auto simp: init_def)

lemma init_fault: "init e = Inl f \<longleftrightarrow> f = Overflow \<and> 2 ^ 31 \<le> window_size e * num_hosts e"
  by (auto simp: init_def)

lemma started_sizes:
  assumes "run_config rd c n = Inr (c', n')"
  shows "int (window_size (started_env w c' n') * num_hosts (started_env w c' n')) = sys_window_size c' * n'"
  using run_config_values(2,5) [OF assms] by (simp add: started_env_def)

lemma main_start_Inr_iff:
  "main_start exists rd w argv = Inr (e, s) \<longleftrightarrow>
    (\<exists>c c' n. parse_args exists argv initial_config = Inr c \<and> run_config rd c (-1) = Inr (c', n) \<and>
      e = started_env w c' n \<and> window_size e * num_hosts e < 2 ^ 31 \<and> s = init_net e)"
  by (auto simp: main_start_def Let_def rbind_Inr_iff init_Inr_iff split: prod.splits)

lemma main_start_fault:
  assumes "main_start exists rd w argv = Inl f"
  shows "f \<in> {OutOfBounds, ExitCall 1} \<or> f = Overflow \<and>
    (\<exists>c c' n. parse_args exists argv initial_config = Inr c \<and> run_config rd c (-1) = Inr (c', n) \<and>
      2 ^ 31 \<le> sys_window_size c' * n)"
proof (cases "parse_args exists argv initial_config")
  case (Inl g)
  then show ?thesis using assms parse_args_fault [OF Inl] by (simp add: main_start_def)
next
  case (Inr c)
  show ?thesis
  proof (cases "run_config rd c (-1)")
    case (Inl g)
    then show ?thesis using assms Inr run_config_fault [OF Inl] by (simp add: main_start_def)
  next
    case r: (Inr p)
    obtain c' n where p: "p = (c', n)" by (cases p)
    let ?e = "started_env w c' n"
    have "rbind (init ?e) (\<lambda>s. Inr (?e, s)) = Inl f" using assms Inr r by (simp add: main_start_def p Let_def)
    then have "init ?e = Inl f" by (auto simp: rbind_def split: sum.splits)
    then have f: "f = Overflow" "2 ^ 31 \<le> window_size ?e * num_hosts ?e" by (simp_all add: init_fault)
    have "int (2 ^ 31) \<le> int (window_size ?e * num_hosts ?e)" using f(2) by (simp only: of_nat_le_iff)
    then have "2 ^ 31 \<le> sys_window_size c' * n" using started_sizes [OF r [unfolded p]] by simp
    then show ?thesis using f(1) Inr r p by blast
  qed
qed

lemma shape_init_host: "shape e (init_host e i)"
  by (simp add: shape_def init_host_def Let_def mult.commute)

lemma set_int_decimal: "n < 2 ^ 31 \<Longrightarrow> set_int (decimal n) v = int n"
  by (simp add: set_int_def scan_int_whole)

lemma main_start_overflow:
  "main_start exists rd w argv = Inl Overflow \<longleftrightarrow>
    (\<exists>c c' n. parse_args exists argv initial_config = Inr c \<and> run_config rd c (-1) = Inr (c', n) \<and>
      2 ^ 31 \<le> sys_window_size c' * n)"
proof
  show "main_start exists rd w argv = Inl Overflow"
    if accepted: "\<exists>c c' n. parse_args exists argv initial_config = Inr c \<and> run_config rd c (-1) = Inr (c', n) \<and>
      2 ^ 31 \<le> sys_window_size c' * n"
  proof -
    obtain c c' n where r: "parse_args exists argv initial_config = Inr c" "run_config rd c (-1) = Inr (c', n)"
      "2 ^ 31 \<le> sys_window_size c' * n" using accepted by blast
    let ?e = "started_env w c' n"
    have "int (2 ^ 31) \<le> int (window_size ?e * num_hosts ?e)" using started_sizes [OF r(2)] r(3) by simp
    then have "2 ^ 31 \<le> window_size ?e * num_hosts ?e" by (simp only: of_nat_le_iff)
    then show ?thesis by (simp add: main_start_def r(1,2) init_def Let_def)
  qed
qed (drule main_start_fault, simp)

section \<open>Properties\<close>

text \<open>
  C39: The start checks what the simulation is built on, and has four outcomes. It ends with status 1;
  or in the overflow of the path's buffer; or, because no bound is checked, in the signed overflow of
  \<^verbatim>\<open>window_size * glb_num_hosts\<close>, exactly when the configuration is accepted and the product is no \<^verbatim>\<open>int\<close>;
  or it yields a configuration with at least two hosts, a window, an acceptance rate above 0 and a
  probability between 0 and 1, and hosts whose arrays have the sizes that the code indexes them with.
  With at most 256 hosts, a window of at most 64 frames and existing hosts for the diagnostics, which
  the code does not check, it is a configuration that the simulation is correct for.
\<close>

theorem start_checked:
  "(main_start exists rd w argv = Inl Overflow \<longleftrightarrow>
     (\<exists>c c' n. parse_args exists argv initial_config = Inr c \<and> run_config rd c (-1) = Inr (c', n) \<and>
       2 ^ 31 \<le> sys_window_size c' * n)) \<and>
   (case main_start exists rd w argv of
     Inl f \<Rightarrow> f \<in> {OutOfBounds, ExitCall 1, Overflow}
   | Inr (e, s) \<Rightarrow> 0 < window_size e \<and> 2 \<le> num_hosts e \<and> window_size e * num_hosts e < 2 ^ 31 \<and>
       0 < recv_accept_rate e \<and> 0 \<le> corrupt_prob e \<and> corrupt_prob e \<le> 1 \<and>
       s = init_net e \<and> length (hosts s) = num_hosts e \<and> list_all (shape e) (hosts s) \<and>
       (sim_ok e \<longleftrightarrow> rounding_ok w \<and> (\<forall>h k. wf_frame (uninit w h k)) \<and> window_size e \<le> 64 \<and> num_hosts e \<le> 256 \<and>
         host_send_cc_id e < num_hosts e \<and> host_recv_cc_id e < num_hosts e))"
proof (cases "main_start exists rd w argv")
  case (Inl f)
  have "f \<in> {OutOfBounds, ExitCall 1, Overflow}" using main_start_fault [OF Inl] by blast
  then show ?thesis using main_start_overflow [of exists rd w argv] by (simp add: Inl)
next
  case (Inr p)
  obtain e s where "p = (e, s)" by (cases p)
  with Inr obtain c c' n where p: "p = (e, s)" "run_config rd c (-1) = Inr (c', n)" "e = started_env w c' n" "s = init_net e"
    "window_size e * num_hosts e < 2 ^ 31" by (auto simp: main_start_Inr_iff)
  note v = run_config_values [OF p(2)]
  have f: "window_size e = nat (sys_window_size c')" "num_hosts e = nat n" "recv_accept_rate e = sys_recv_accept_rate c'"
    "corrupt_prob e = sys_corrupt_prob c'" "uninit e = uninit w" "dround e = dround w"
    by (simp_all add: p(3) started_env_def)
  have "rounding_ok e = rounding_ok w" by (simp add: rounding_ok_def f(6))
  moreover have "0 < window_size e" "2 \<le> num_hosts e" using v(2,5) by (simp_all add: f)
  ultimately have "sim_ok e \<longleftrightarrow> rounding_ok w \<and> (\<forall>h k. wf_frame (uninit w h k)) \<and> window_size e \<le> 64 \<and> num_hosts e \<le> 256 \<and>
      host_send_cc_id e < num_hosts e \<and> host_recv_cc_id e < num_hosts e"
    by (auto simp: sim_ok_def cfg_ok_def f(5))
  moreover have "length (hosts s) = num_hosts e" "list_all (shape e) (hosts s)"
    by (auto simp: p(4) init_net_def list_all_iff shape_init_host)
  ultimately show ?thesis using v p(4,5) main_start_overflow [of exists rd w argv] by (simp add: Inr p(1) f)
qed

text \<open>
  The command line says what the program runs with: the numbers and the path given as options
  arrive in the configuration, the values of the file are taken over, and the program starts exactly
  when they are in range and the sizes of the arrays can be computed.
\<close>

theorem start_options:
  assumes "t < 2 ^ 31" and "i < 2 ^ 31" and "j < 2 ^ 31"
    and "path \<noteq> []" and "length path < 1500" and "\<forall>c \<in> set path. \<not> is_space c" and "exists path"
    and "rd path = Some cfg" and "lookup_hosts cfg = Some setting" and "setting ''quantity'' = Some n"
    and "lookup_float cfg ''corruption_probability'' = Some p" and "lookup_int cfg ''sliding_window_size'' = Some win"
    and "lookup_int cfg ''receiver_packet_acceptance_rate'' = Some rate"
  shows "main_start exists rd w [prog, [45, 116], decimal t, [45, 115], decimal i, [45, 114], decimal j, [45, 112], path] =
    (if 0 < rate \<and> 2 \<le> n \<and> 0 \<le> p \<and> p \<le> 1 \<and> 0 < win then
       if nat win * nat n < 2 ^ 31 then
         let e = w\<lparr>window_size := nat win, num_hosts := nat n, recv_accept_rate := rate, corrupt_prob := p,
           host_send_cc_id := i, host_recv_cc_id := j\<rparr> in Inr (e, init_net e)
       else Inl Overflow
     else Inl (ExitCall 1))"
proof -
  have path: "set_path path c = Inr (c\<lparr>config_path := path\<rparr>)" for c
    using assms(5) by (simp add: set_path_def scan_word_whole [OF assms(4,6)])
  have "parse_args exists [prog, [45, 116], decimal t, [45, 115], decimal i, [45, 114], decimal j, [45, 112], path] initial_config =
    Inr (initial_config\<lparr>sys_test_case_id := int t, sys_host_send_cc_id := int i, sys_host_recv_cc_id := int j, config_path := path\<rparr>)"
    using assms(7) by (simp add: parse_args_def path set_int_decimal [OF assms(1)] set_int_decimal [OF assms(2)] set_int_decimal [OF assms(3)])
  then show ?thesis
    by (simp add: main_start_def run_config_def assms(8-13) found_def started_env_def init_def not_le not_less Let_def)
qed

definition example_config :: config_file where
  "example_config = \<lparr>lookup_hosts = Some [''quantity'' \<mapsto> 2],
     lookup_int = [''sliding_window_size'' \<mapsto> 2, ''receiver_packet_acceptance_rate'' \<mapsto> 10],
     lookup_float = [''corruption_probability'' \<mapsto> 0]\<rparr>"

theorem start_options_witness:
  "main_start (\<lambda>_. True) (\<lambda>_. Some example_config) small_env
     [[115], [45, 116], decimal 0, [45, 115], decimal 0, [45, 114], decimal 1, [45, 112], [99]] =
   Inr (small_env, init_net small_env)"
  using start_options [of 0 0 1 "[99]" "\<lambda>_. True" "\<lambda>_. Some example_config" example_config "[''quantity'' \<mapsto> 2]" 2 0 2 10 small_env "[115]"]
  by (simp add: example_config_def is_space_def small_env_def Let_def)

end
