(* ===== verification/Lossless.thy ===== *)
theory Lossless
  imports Rounds
begin

text \<open>
  Rounds over a channel that loses nothing: the order of frames between two hosts is kept, each
  frame is accepted and acknowledged within its round, no acknowledgement is a duplicate, and the
  program gets through all messages.
\<close>

section \<open>Acknowledgements in order\<close>

definition from_peer :: "nat \<Rightarrow> frame list \<Rightarrow> frame list" where
  "from_peer q = filter (\<lambda>f. unat (src_id f) = q)"

lemma from_peer_simps [simp]:
  "from_peer q [] = []"
  "from_peer q (f # fs) = (if unat (src_id f) = q then f # from_peer q fs else from_peer q fs)"
  "from_peer q (fs @ gs) = from_peer q fs @ from_peer q gs"
  by (simp_all add: from_peer_def)

text \<open>The latest number acknowledged is the last one before the window.\<close>

definition dup_ok :: "env \<Rightarrow> nat \<Rightarrow> host \<Rightarrow> bool" where
  "dup_ok e q h \<longleftrightarrow> dup_acks_seq_num h ! q + 1 + of_nat (length (pending e q h)) = curr_seq_num h ! q"

lemma dup_ok_base:
  assumes "tx_inv e sent base h" and "q < num_hosts e"
  shows "dup_ok e q h \<longleftrightarrow> dup_acks_seq_num h ! q = of_nat (base q) - 1"
proof -
  have "length (sent q) = base q + length (pending e q h)" and "curr_seq_num h ! q = of_nat (length (sent q))"
    using assms by (auto simp: tx_inv_def)
  then show ?thesis by (auto simp: dup_ok_def algebra_simps)
qed

lemma set_items_dup [simp]:
  "dup_acks_seq_num (fold (\<lambda>i. cq_set_item_send e q i s) is h) = dup_acks_seq_num h"
  by (induction "is" arbitrary: h) (simp_all add: cq_set_item_send_def)

lemma window_on_ack_dup [simp]: "dup_acks_seq_num (window_on_ack e q seq h) = dup_acks_seq_num h"
  by (simp add: window_on_ack_def cq_ndequeue_send_def Let_def split: option.split)

lemma update_dup_acks_dup:
  "dup_acks_seq_num (fst (update_dup_acks e q seq (h, st))) =
    (if seq_num_diff (dup_acks_seq_num h ! q) seq > 0 then (dup_acks_seq_num h)[q := seq] else dup_acks_seq_num h)"
  by (simp add: update_dup_acks_def upd_cc_def Let_def)

text \<open>The next acknowledgement that is due: it takes the first frame off the window.\<close>

lemma on_incoming_next:
  assumes inv: "tx_inv e sent base h" and f: "is_valid_ack f" and q: "q = unat (src_id f)" "q < num_hosts e"
    and dup: "dup_acks_seq_num h ! q = of_nat (base q) - 1"
    and len: "0 < cq_get_length_send q h" and seq: "seq_num f = of_nat (base q)"
  shows "\<exists>h' st'. on_incoming e f (h, st) = Inr (True, h', st') \<and> ack_effect e h h' [] \<and>
    tx_inv e sent (base(q := base q + 1)) h' \<and> dup_acks_seq_num h' = (dup_acks_seq_num h)[q := of_nat (base q)] \<and>
    cc h' = (cc h)[q := fst (cc_step e (seq_num f) q h)] \<and>
    cq_get_length_send q h' = cq_get_length_send q h - 1 \<and>
    (\<forall>r < num_hosts e. r \<noteq> q \<longrightarrow> cq_get_length_send r h' = cq_get_length_send r h)"
proof -
  have v: "frame_valid f" "is_ack f \<noteq> 0" using f by (simp_all add: is_valid_ack_def)
  have diff: "seq_num_diff (dup_acks_seq_num h ! q) (seq_num f) = 1"
    using seq_num_diff_lfr [of "base q" "base q"] by (simp add: dup seq)
  have no: "\<not> snd (cc_step e (seq_num f) q h)"
    unfolding cc_step_def fast_retransmit_iff by (simp add: dup_cc_def diff)
  from on_incoming_ack(1) [OF inv v q, of st] no obtain h' st' where
    r: "on_incoming e f (h, st) = Inr (True, h', st')" "ack_effect e h h' []"
      "cc h' = (cc h)[q := fst (cc_step e (seq_num f) q h)]"
    by (auto simp: on_ack_def)
  have lw: "cq_get_length_send q h \<le> 127" using tx_window(2,6) [OF inv q(2)] by simp
  have b: "ack_base (base q) (cq_get_length_send q h) (seq_num f) = base q + 1"
    using ack_base_cumulative [of "cq_get_length_send q h" "base q + 1" "base q"] len lw by (simp add: seq)
  note t = on_incoming_ack(2) [OF inv v q r(1), unfolded b]
  have "dup_acks_seq_num h' = (dup_acks_seq_num h)[q := of_nat (base q)]"
  proof -
    obtain st0 where st0: "on_incoming e f (h, st) =
        (let (h, st) = update_dup_acks e q (seq_num f) (h, st0) in
         rbind (update_cc e q (seq_num f) h) (\<lambda>h. Inr (True, window_on_ack e q (seq_num f) h, st)))"
      using v q unfolding on_incoming_def by (simp add: Let_def)
    obtain h1 st1 where u: "update_dup_acks e q (seq_num f) (h, st0) = (h1, st1)" by force
    have ok: "windows_ok e h" using inv by (simp add: tx_inv_def)
    from update_dup_acks_spec [OF ok q(2), of "seq_num f" st0] u have
      "cc h1 = (cc h)[q := dup_cc e (dup_acks_seq_num h ! q) (seq_num f) (cc h ! q)]" by auto
    moreover have "length (cc h) = num_hosts e" using ok by (simp add: windows_ok_def shape_def)
    ultimately have "\<not> snd (cc_on_ack e (cc h1 ! q))" using no q(2) by (simp add: cc_step_def)
    then have "update_cc e q (seq_num f) h1 = Inr (h1\<lparr>cc := (cc h1)[q := fst (cc_on_ack e (cc h1 ! q))]\<rparr>)"
      by (simp add: update_cc_def Let_def split_beta)
    then obtain c where "update_cc e q (seq_num f) h1 = Inr (h1\<lparr>cc := c\<rparr>)" by blast
    then have "h' = window_on_ack e q (seq_num f) (h1\<lparr>cc := c\<rparr>)" using r(1) st0 u by simp
    then have "dup_acks_seq_num h' = dup_acks_seq_num h1" by simp
    also have "\<dots> = (dup_acks_seq_num h)[q := of_nat (base q)]"
      using update_dup_acks_dup [of e q "seq_num f" h st0] diff unfolding u fst_conv by (simp add: seq)
    finally show ?thesis .
  qed
  moreover have "cq_get_length_send q h' = cq_get_length_send q h - 1"
  proof -
    have "pending e q h' = drop (base q + 1) (sent q)" "pending e q h = drop (base q) (sent q)"
      using t inv q(2) by (simp_all add: tx_inv_def)
    then have "length (pending e q h') = length (pending e q h) - 1" by simp
    then show ?thesis using len by (simp add: pending_def ack_effect_fields(2) [OF r(2)])
  qed
  moreover have "cq_get_length_send p h' = cq_get_length_send p h" if "p < num_hosts e" "p \<noteq> q" for p
    using t that length_send_items by metis
  ultimately show ?thesis using r t by blast
qed

lemma scan_acks_in_order:
  assumes "tx_inv e sent base h" and "rounding_ok e" and "\<forall>q < num_hosts e. cc_inv (cc h ! q)"
    and "\<forall>q < num_hosts e. dup_acks_seq_num h ! q = of_nat (base q) - 1"
    and "\<forall>f \<in> set fs. is_valid_ack f \<and> unat (src_id f) < num_hosts e"
    and "\<forall>q < num_hosts e. length (from_peer q fs) \<le> cq_get_length_send q h \<and>
      (\<forall>k < length (from_peer q fs). seq_num (from_peer q fs ! k) = of_nat (base q + k))"
  shows "\<exists>h' st'. scan (on_incoming e) fs (h, st) = Inr ([], h', st') \<and> ack_effect e h h' [] \<and>
    tx_inv e sent (\<lambda>q. base q + length (from_peer q fs)) h' \<and> (\<forall>q < num_hosts e. cc_inv (cc h' ! q)) \<and>
    (\<forall>q < num_hosts e. dup_acks_seq_num h' ! q = of_nat (base q + length (from_peer q fs)) - 1 \<and>
      cq_get_length_send q h' = cq_get_length_send q h - length (from_peer q fs))"
  using assms
proof (induction fs arbitrary: base h st)
  case Nil
  with Nil ack_effect_refl [of e h] show ?case by simp
next
  case (Cons f fs)
  define q where "q = unat (src_id f)"
  have q: "q < num_hosts e" and f: "is_valid_ack f" using Cons.prems(5) by (simp_all add: q_def)
  have len: "0 < cq_get_length_send q h" and seq: "seq_num f = of_nat (base q)"
    using Cons.prems(6) [rule_format, OF q] by (force simp: q_def)+
  from on_incoming_next [OF Cons.prems(1) f q_def q _ len seq, of st] Cons.prems(4) q obtain h1 st1 where
    1: "on_incoming e f (h, st) = Inr (True, h1, st1)" "ack_effect e h h1 []" "tx_inv e sent (base(q := base q + 1)) h1"
      "dup_acks_seq_num h1 = (dup_acks_seq_num h)[q := of_nat (base q)]"
      "cc h1 = (cc h)[q := fst (cc_step e (seq_num f) q h)]"
      "cq_get_length_send q h1 = cq_get_length_send q h - 1"
      "\<forall>r < num_hosts e. r \<noteq> q \<longrightarrow> cq_get_length_send r h1 = cq_get_length_send r h" by auto
  let ?b = "base(q := base q + 1)"
  have l: "length (cc h) = num_hosts e" "length (dup_acks_seq_num h) = num_hosts e"
    using Cons.prems(1) by (simp_all add: tx_inv_def windows_ok_def shape_def)
  have cc1: "\<forall>r < num_hosts e. cc_inv (cc h1 ! r)"
    using Cons.prems(3) l(1) q cc_step_inv [OF Cons.prems(2), of h q] by (simp add: 1(5) nth_list_update)
  have dup1: "\<forall>r < num_hosts e. dup_acks_seq_num h1 ! r = of_nat (?b r) - 1"
    using Cons.prems(4) l(2) q by (simp add: 1(4) nth_list_update)
  have fs: "\<forall>r < num_hosts e. length (from_peer r fs) \<le> cq_get_length_send r h1 \<and>
      (\<forall>k < length (from_peer r fs). seq_num (from_peer r fs ! k) = of_nat (?b r + k))"
  proof (intro allI impI)
    fix r assume r: "r < num_hosts e"
    note p = Cons.prems(6) [rule_format, OF r]
    show "length (from_peer r fs) \<le> cq_get_length_send r h1 \<and>
      (\<forall>k < length (from_peer r fs). seq_num (from_peer r fs ! k) = of_nat (?b r + k))"
    proof (cases "r = q")
      case True
      with p have a: "Suc (length (from_peer q fs)) \<le> cq_get_length_send q h"
        "seq_num ((f # from_peer q fs) ! Suc k) = of_nat (base q + Suc k)" if "k < length (from_peer q fs)" for k
        using that by (auto simp: q_def)
      have "Suc (length (from_peer q fs)) \<le> cq_get_length_send q h" using p True by (simp add: q_def)
      then show ?thesis using True a(2) 1(6) by simp
    qed (use p r 1(7) in \<open>simp add: q_def\<close>)
  qed
  from Cons.IH [OF 1(3) Cons.prems(2) cc1 dup1 _ fs, of st1] Cons.prems(5) obtain h' st' where
    IH: "scan (on_incoming e) fs (h1, st1) = Inr ([], h', st')" "ack_effect e h1 h' []"
      "tx_inv e sent (\<lambda>q. ?b q + length (from_peer q fs)) h'" "\<forall>q < num_hosts e. cc_inv (cc h' ! q)"
      "\<forall>q < num_hosts e. dup_acks_seq_num h' ! q = of_nat (?b q + length (from_peer q fs)) - 1 \<and>
        cq_get_length_send q h' = cq_get_length_send q h1 - length (from_peer q fs)" by auto
  have b: "(\<lambda>r. ?b r + length (from_peer r fs)) = (\<lambda>r. base r + length (from_peer r (f # fs)))"
    by (auto simp: q_def)
  have "dup_acks_seq_num h' ! r = of_nat (base r + length (from_peer r (f # fs))) - 1 \<and>
      cq_get_length_send r h' = cq_get_length_send r h - length (from_peer r (f # fs))" if r: "r < num_hosts e" for r
    using IH(5) [rule_format, OF r] fun_cong [OF b, of r] 1(6,7) r by (cases "r = q") (auto simp: q_def)
  moreover have "ack_effect e h h' []" using ack_effect_trans [OF 1(2) IH(2)] by simp
  moreover have "scan (on_incoming e) (f # fs) (h, st) = Inr ([], h', st')" using 1(1) IH(1) by simp
  ultimately show ?case using IH(3) [unfolded b] IH(4) by blast
qed

section \<open>The turn of a sender\<close>

text \<open>
  A host between two rounds: all it has in flight is acknowledged in its queue, in order, and it has
  something in flight as long as frames wait.
\<close>

definition in_step :: "env \<Rightarrow> host \<Rightarrow> bool" where
  "in_step e h \<longleftrightarrow> (\<forall>q < num_hosts e. dup_ok e q h \<and>
       map seq_num (from_peer q (incoming_frames h)) = map (seq_num \<circ> fst) (send_items e q h)) \<and>
     (\<forall>f \<in> set (incoming_frames h). is_valid_ack f \<and> unat (src_id f) < num_hosts e) \<and>
     (buffered_outframes h \<noteq> [] \<longrightarrow> incoming_frames h \<noteq> []) \<and> outgoing_frames h = []"

lemma in_step_windows:
  assumes "in_step e h" and "tx_inv e sent base h" and "q < num_hosts e"
  shows "dup_acks_seq_num h ! q = of_nat (base q) - 1" "length (from_peer q (incoming_frames h)) = cq_get_length_send q h"
    "\<forall>k < length (from_peer q (incoming_frames h)). seq_num (from_peer q (incoming_frames h) ! k) = of_nat (base q + k)"
proof -
  have m: "map seq_num (from_peer q (incoming_frames h)) = map (seq_num \<circ> fst) (send_items e q h)"
    using assms(1,3) by (simp add: in_step_def)
  show "dup_acks_seq_num h ! q = of_nat (base q) - 1"
    using assms(1,3) dup_ok_base [OF assms(2,3)] by (simp add: in_step_def)
  from arg_cong [OF m, of length] show l: "length (from_peer q (incoming_frames h)) = cq_get_length_send q h" by simp
  show "\<forall>k < length (from_peer q (incoming_frames h)). seq_num (from_peer q (incoming_frames h) ! k) = of_nat (base q + k)"
  proof (intro allI impI)
    fix k assume k: "k < length (from_peer q (incoming_frames h))"
    with arg_cong [OF m, of "\<lambda>xs. xs ! k"] have "seq_num (from_peer q (incoming_frames h) ! k) = seq_num (fst (send_items e q h ! k))"
      by (simp add: l)
    also have "\<dots> = of_nat (base q + k)" using tx_item [OF assms(2,3), of k] k l by simp
    finally show "seq_num (from_peer q (incoming_frames h) ! k) = of_nat (base q + k)" .
  qed
qed

lemma tx_inv_base:
  assumes "tx_inv e sent base h" and "\<And>q. q < num_hosts e \<Longrightarrow> base' q = base q"
  shows "tx_inv e sent base' h"
  using assms by (simp add: tx_inv_def)

lemma acks_in_order:
  assumes inv: "tx_inv e sent base h" and r: "rounding_ok e" and cci: "\<forall>q < num_hosts e. cc_inv (cc h ! q)"
    and acks: "\<forall>f \<in> set (incoming_frames h). is_valid_ack f \<and> unat (src_id f) < num_hosts e"
    and seqs: "\<forall>q < num_hosts e. dup_acks_seq_num h ! q = of_nat (base q) - 1 \<and>
      length (from_peer q (incoming_frames h)) = cq_get_length_send q h \<and>
      (\<forall>k < length (from_peer q (incoming_frames h)). seq_num (from_peer q (incoming_frames h) ! k) = of_nat (base q + k))"
  shows "\<exists>h' d. handle_incoming_acks e h = Inr (h', d) \<and> tx_inv e sent (win_end base h) h' \<and>
    (\<forall>q < num_hosts e. cc_inv (cc h' ! q) \<and> cq_get_length_send q h' = 0 \<and>
      dup_acks_seq_num h' ! q = of_nat (win_end base h q) - 1) \<and>
    incoming_frames h' = [] \<and> outgoing_frames h' = outgoing_frames h \<and> buffered_outframes h' = buffered_outframes h \<and>
    hid h' = hid h \<and> awaiting_ack h' = awaiting_ack h \<and> active h' = active h"
proof -
  let ?st = "\<lparr>num_acks_received = replicate (num_hosts e) 0, num_dup_acks_for_this_rtt = replicate (num_hosts e) 0\<rparr>"
  from scan_acks_in_order [OF inv r cci _ acks, of ?st] seqs obtain h1 st1 where
    s: "scan (on_incoming e) (incoming_frames h) (h, ?st) = Inr ([], h1, st1)" "ack_effect e h h1 []"
      "tx_inv e sent (\<lambda>q. base q + length (from_peer q (incoming_frames h))) h1" "\<forall>q < num_hosts e. cc_inv (cc h1 ! q)"
      "\<forall>q < num_hosts e. dup_acks_seq_num h1 ! q = of_nat (base q + length (from_peer q (incoming_frames h))) - 1 \<and>
        cq_get_length_send q h1 = cq_get_length_send q h - length (from_peer q (incoming_frames h))" by auto
  have r_ok: "host_recv_cc_id e < num_hosts e" using inv by (simp add: tx_inv_def windows_ok_def cfg_ok_def)
  let ?h = "h1\<lparr>incoming_frames := []\<rparr>"
  obtain d where "handle_incoming_acks e h = Inr (?h, d)"
    using s(1) r_ok by (cases "hid h1 = host_send_cc_id e") (auto simp: handle_incoming_acks_def Let_def)
  moreover have "tx_inv e sent (win_end base h) h1" by (rule tx_inv_base [OF s(3)]) (simp add: win_end_def seqs)
  then have "tx_inv e sent (win_end base h) ?h" by simp
  moreover have "cq_get_length_send q ?h = 0 \<and> dup_acks_seq_num ?h ! q = of_nat (win_end base h q) - 1" if "q < num_hosts e" for q
    using s(5) seqs that by (simp add: win_end_def)
  ultimately show ?thesis
    using s(4) ack_effect_fields [OF s(2)] by (intro exI [of _ ?h] exI [of _ d]) simp
qed

text \<open>With empty windows nothing times out, and the frames that go out are those put into the windows.\<close>

lemma timeouts_empty:
  assumes inv: "tx_inv e sent base h" and e: "\<forall>q < num_hosts e. cq_get_length_send q h = 0"
  shows "tx_inv e sent base (handle_timedout_frames e now h)"
    "\<forall>q < num_hosts e. cq_get_length_send q (handle_timedout_frames e now h) = 0 \<and>
      cc (handle_timedout_frames e now h) ! q = cc h ! q"
    "\<exists>W t n C. handle_timedout_frames e now h = h\<lparr>send_window := W, latest_timeout := t, ticks := n, cc := C\<rparr>"
proof -
  have ok: "windows_ok e h" using inv by (simp add: tx_inv_def)
  note ht = handle_timedout_spec [OF ok, of now]
  show "tx_inv e sent base (handle_timedout_frames e now h)" using ht timer_effect_tx_inv [OF _ inv] by blast
  show "\<exists>W t n C. handle_timedout_frames e now h = h\<lparr>send_window := W, latest_timeout := t, ticks := n, cc := C\<rparr>"
    using ht by (auto simp: timer_effect_def)
  show "\<forall>q < num_hosts e. cq_get_length_send q (handle_timedout_frames e now h) = 0 \<and>
      cc (handle_timedout_frames e now h) ! q = cc h ! q"
    using ht timer_effect_length e by (metis less_nat_zero_code timed_out_def)
qed

lemma outgoing_fresh:
  assumes inv: "tx_inv e sent base h" and cci: "\<forall>q < num_hosts e. cc_inv (cc h ! q)"
    and e: "\<forall>q < num_hosts e. cq_get_length_send q h = 0"
  shows "\<exists>h' out. handle_outgoing_frames e now h = Inr h' \<and> tx_inv e sent base h' \<and>
    outgoing_frames h' = outgoing_frames h @ out \<and> dup_acks_seq_num h' = dup_acks_seq_num h \<and>
    awaiting_ack h' = awaiting_ack h \<and> active h' = active h \<and>
    (\<forall>q < num_hosts e. for_peer q out = map fst (send_items e q h') \<and>
      (\<exists>n > 0. for_peer q out = take n (for_peer q (buffered_outframes h)) \<and>
        for_peer q (buffered_outframes h') = drop n (for_peer q (buffered_outframes h))))"
proof -
  have cw: "\<forall>q < num_hosts e. 1 \<le> cwnd (cc h ! q)" using cci by (simp add: cc_inv_def)
  from handle_outgoing_tx_inv [OF inv cw, of now] obtain h' out W S L t n B where
    h': "handle_outgoing_frames e now h = Inr h'" "tx_inv e sent base h'"
      "h' = h\<lparr>send_window := W, send_window_start := S, send_window_length := L, latest_timeout := t,
        ticks := n, outgoing_frames := outgoing_frames h @ out, buffered_outframes := B\<rparr>"
    and peer: "\<forall>q < num_hosts e. let re = (if q = hid h then [] else take (allowance h q) (unscheduled (send_items e q h)));
        n = min (allowance h q - length re) (window_size e - cq_get_length_send q h)
      in for_peer q out = re @ take n (for_peer q (buffered_outframes h)) \<and>
         for_peer q (buffered_outframes h') = drop n (for_peer q (buffered_outframes h))" by blast
  have "for_peer q out = map fst (send_items e q h') \<and>
      (\<exists>n > 0. for_peer q out = take n (for_peer q (buffered_outframes h)) \<and>
        for_peer q (buffered_outframes h') = drop n (for_peer q (buffered_outframes h)))" if q: "q < num_hosts e" for q
  proof -
    have items: "send_items e q h = []" using e q by (metis length_0_conv length_send_items)
    let ?n = "min (allowance h q) (window_size e)"
    have p: "for_peer q out = take ?n (for_peer q (buffered_outframes h))"
      "for_peer q (buffered_outframes h') = drop ?n (for_peer q (buffered_outframes h))"
      using peer q e by (auto simp: Let_def items)
    have "0 < ?n"
      using cw q inv by (auto simp: allowance_def tx_inv_def windows_ok_def cfg_ok_def)
    moreover have "pending e q h = pending e q h'" using inv h'(2) q by (simp add: tx_inv_def)
    then have "for_peer q (buffered_outframes h) = map fst (send_items e q h') @ for_peer q (buffered_outframes h')"
      by (simp add: pending_def items for_peer_def)
    then have "map fst (send_items e q h') = take ?n (for_peer q (buffered_outframes h))"
      unfolding p(2) by (metis append_same_eq append_take_drop_id)
    ultimately show ?thesis using p by metis
  qed
  moreover have "outgoing_frames h' = outgoing_frames h @ out" "dup_acks_seq_num h' = dup_acks_seq_num h"
    "awaiting_ack h' = awaiting_ack h" "active h' = active h" by (simp_all add: h'(3))
  ultimately show ?thesis using h'(1,2) by blast
qed

text \<open>What a turn in step leaves.\<close>

definition stepped :: "env \<Rightarrow> host \<Rightarrow> host \<Rightarrow> bool" where
  "stepped e h h' \<longleftrightarrow> (\<forall>q < num_hosts e. dup_ok e q h' \<and> for_peer q (outgoing_frames h') = map fst (send_items e q h') \<and>
       dup_acks_seq_num h' ! q = dup_acks_seq_num h ! q + of_nat (cq_get_length_send q h)) \<and>
     (buffered_outframes h' \<noteq> [] \<longrightarrow> outgoing_frames h' \<noteq> []) \<and>
     (input_cmdlist h = [] \<longrightarrow> length (buffered_outframes h') \<le> length (buffered_outframes h) - 1 \<and>
       (buffered_outframes h = [] \<longrightarrow> \<not> active h'))"

lemma sum_lengths:
  assumes "\<forall>x \<in> set xs. g x < (n :: nat)"
  shows "length xs = (\<Sum>q < n. length (filter (\<lambda>x. g x = q) xs))"
  using assms
proof (induction xs)
  case (Cons x xs)
  have "(\<Sum>q < n. length (filter (\<lambda>x. g x = q) (x # xs))) =
      (\<Sum>q < n. (if q = g x then 1 else 0) + length (filter (\<lambda>x. g x = q) xs))"
    by (intro sum.cong) auto
  also have "\<dots> = 1 + (\<Sum>q < n. length (filter (\<lambda>x. g x = q) xs))"
    using Cons.prems by (simp add: sum.distrib)
  finally show ?case using Cons by simp
qed simp

lemma for_peer_lengths: "\<forall>f \<in> set fs. unat (dst_id f) < n \<Longrightarrow> length fs = (\<Sum>q < n. length (for_peer q fs))"
  unfolding for_peer_def by (rule sum_lengths)

lemma buffered_shrinks:
  assumes "\<forall>f \<in> set fs. unat (dst_id f) < n" and "\<forall>f \<in> set fs'. unat (dst_id f) < n"
    and "\<forall>q < n. \<exists>k > 0. for_peer q fs' = drop k (for_peer q fs)"
  shows "length fs' \<le> length fs - 1"
proof (cases "fs = []")
  case True
  then have "\<forall>q < n. for_peer q fs' = []" using assms(3) by auto
  then show ?thesis using for_peer_lengths [OF assms(2)] by simp
next
  case False
  have le: "length (for_peer q fs') \<le> length (for_peer q fs) - 1" if "q < n" for q using assms(3) that by fastforce
  obtain f where f: "f \<in> set fs" using False by (cases fs) auto
  let ?q = "unat (dst_id f)"
  have q: "?q < n" "0 < length (for_peer ?q fs)" using f assms(1) by (auto simp: for_peer_def filter_empty_conv)
  then have "length (for_peer ?q fs') < length (for_peer ?q fs)" using le [OF q(1)] by linarith
  moreover have "length (for_peer r fs') \<le> length (for_peer r fs)" if "r < n" for r using le [OF that] by linarith
  ultimately have "(\<Sum>q < n. length (for_peer q fs')) < (\<Sum>q < n. length (for_peer q fs))"
    using q(1) by (intro sum_strict_mono_ex1) auto
  then show ?thesis using for_peer_lengths [OF assms(1)] for_peer_lengths [OF assms(2)] by simp
qed

lemma empty_windows:
  assumes ok: "windows_ok e h" and "\<forall>q < num_hosts e. cq_get_length_send q h = 0"
  shows "\<forall>s \<in> set (send_window h). sframe s = None"
proof
  fix s assume "s \<in> set (send_window h)"
  then obtain c where c: "c < num_hosts e * window_size e" "s = send_window h ! c"
    using ok by (auto simp: in_set_conv_nth windows_ok_def shape_def)
  define q where "q = c div window_size e"
  have w: "0 < window_size e" using ok by (simp add: windows_ok_def cfg_ok_def)
  have q: "q < num_hosts e" using c(1) w by (simp add: q_def less_mult_imp_div_less)
  have so: "send_ok e q h" using ok q by (simp add: windows_ok_def)
  have "c mod window_size e < window_size e" using w by simp
  from cell_covers [OF _ this, of "unat (send_window_start h ! q)" q] so obtain i where
    i: "i < window_size e" "cell (window_size e) q (unat (send_window_start h ! q)) i = q * window_size e + c mod window_size e"
    by (auto simp: send_ok_def)
  then have "send_cell e h q i = c" by (simp add: send_cell_def q_def)
  then have "cq_get_item_send e q i h = s" by (simp add: cq_get_item_send_def c(2))
  then show "sframe s = None" using send_slots_out [OF so, of i] i(1) assms(2) q by (auto simp: empty_slot_def)
qed

lemma set_activity_off:
  assumes "windows_ok e h" and "\<forall>q < num_hosts e. cq_get_length_send q h = 0" and "buffered_outframes h = []"
    and "\<not> awaiting_ack h" and "\<not> active h"
  shows "\<not> active (set_activity h)"
  using empty_windows [OF assms(1,2)] assms(3-5) by (auto simp: set_activity_def Let_def)

lemma set_activity_more [simp]:
  "dup_acks_seq_num (set_activity h) = dup_acks_seq_num h" "curr_seq_num (set_activity h) = curr_seq_num h"
  "buffered_outframes (set_activity h) = buffered_outframes h" "send_items e q (set_activity h) = send_items e q h"
proof -
  show "dup_acks_seq_num (set_activity h) = dup_acks_seq_num h" "curr_seq_num (set_activity h) = curr_seq_num h"
    "buffered_outframes (set_activity h) = buffered_outframes h" by (simp_all add: set_activity_def Let_def)
  show "send_items e q (set_activity h) = send_items e q h" by (rule send_queue_cong) (simp_all add: set_activity_def Let_def)
qed

lemma sender_work_in_step:
  assumes inv: "tx_inv e sent base h" and r: "rounding_ok e" and cci: "\<forall>q < num_hosts e. cc_inv (cc h ! q)"
    and cmds: "\<forall>c \<in> set (input_cmdlist h). cmd_ok e (hid h) c" and gr: "\<forall>q. groups (sent q) (ms q)"
    and step: "in_step e h" and off: "\<not> awaiting_ack h" "\<not> active h"
  shows "\<exists>h' d. sender_work e now h = Inr (h', d) \<and> stepped e h (set_activity h')"
proof -
  from handle_input_cmds_tx_inv [OF inv cmds gr] obtain h1 sent' m C B where
    h1: "handle_input_cmds e h = Inr h1" "tx_inv e sent' base h1"
      "h1 = h\<lparr>input_cmdlist := [], mallocs := m, curr_seq_num := C, buffered_outframes := B\<rparr>" by blast
  have buf1: "input_cmdlist h = [] \<Longrightarrow> buffered_outframes h1 = buffered_outframes h"
    using h1(1) by (auto simp: handle_input_cmds_def)
  have len1: "cq_get_length_send q h1 = cq_get_length_send q h" for q by (simp add: h1(3) cq_get_length_send_def)
  note w = in_step_windows [OF step inv]
  have "\<forall>f \<in> set (incoming_frames h1). is_valid_ack f \<and> unat (src_id f) < num_hosts e"
    using step by (simp add: h1(3) in_step_def)
  from acks_in_order [OF h1(2) r _ this] cci w obtain h2 d where
    h2: "handle_incoming_acks e h1 = Inr (h2, d)" "tx_inv e sent' (win_end base h1) h2"
      "\<forall>q < num_hosts e. cc_inv (cc h2 ! q) \<and> cq_get_length_send q h2 = 0 \<and>
        dup_acks_seq_num h2 ! q = of_nat (win_end base h1 q) - 1"
      "outgoing_frames h2 = outgoing_frames h1" "buffered_outframes h2 = buffered_outframes h1"
      "awaiting_ack h2 = awaiting_ack h1" "active h2 = active h1"
    by (auto simp: len1) (auto simp: h1(3))
  define h3 where "h3 = handle_timedout_frames e now h2"
  have e2: "\<forall>q < num_hosts e. cq_get_length_send q h2 = 0" using h2(3) by blast
  note h3 = timeouts_empty [OF h2(2) e2, of now, folded h3_def]
  have f3: "outgoing_frames h3 = []" "buffered_outframes h3 = buffered_outframes h1" "\<not> awaiting_ack h3" "\<not> active h3"
    "dup_acks_seq_num h3 = dup_acks_seq_num h2"
    using h3(3) h2(4-7) step off by (auto simp: h1(3) in_step_def)
  have "\<forall>q < num_hosts e. cc_inv (cc h3 ! q)" "\<forall>q < num_hosts e. cq_get_length_send q h3 = 0" using h3(2) h2(3) by auto
  from outgoing_fresh [OF h3(1) this, of now] obtain h' out where
    h': "handle_outgoing_frames e now h3 = Inr h'" "tx_inv e sent' (win_end base h1) h'"
      "outgoing_frames h' = out" "dup_acks_seq_num h' = dup_acks_seq_num h2" "\<not> awaiting_ack h'" "\<not> active h'"
    and peer: "\<forall>q < num_hosts e. for_peer q out = map fst (send_items e q h') \<and>
      (\<exists>n > 0. for_peer q out = take n (for_peer q (buffered_outframes h1)) \<and>
        for_peer q (buffered_outframes h') = drop n (for_peer q (buffered_outframes h1)))"
    by (auto simp: f3)
  have run: "sender_work e now h = Inr (h', d)"
    using h1(1) h2(1) h'(1) by (simp add: sender_work_def h3_def)
  have dst: "\<forall>f \<in> set (buffered_outframes h'). unat (dst_id f) < num_hosts e"
    "\<forall>f \<in> set (buffered_outframes h1). unat (dst_id f) < num_hosts e" using h'(2) h1(2) by (simp_all add: tx_inv_def)
  have "dup_ok e q h' \<and> dup_acks_seq_num h' ! q = dup_acks_seq_num h ! q + of_nat (cq_get_length_send q h)"
    if q: "q < num_hosts e" for q
    using h2(3) q w(1) [OF q] by (simp add: dup_ok_base [OF h'(2) q] h'(4) win_end_def len1)
  moreover have "out \<noteq> []" if "buffered_outframes h' \<noteq> []"
  proof -
    obtain f where f: "f \<in> set (buffered_outframes h')" using \<open>buffered_outframes h' \<noteq> []\<close> by (cases "buffered_outframes h'") auto
    let ?q = "unat (dst_id f)"
    have "?q < num_hosts e" "for_peer ?q (buffered_outframes h') \<noteq> []"
      using f dst(1) by (auto simp: for_peer_def filter_empty_conv)
    with peer have "for_peer ?q out \<noteq> []" by fastforce
    then show "out \<noteq> []" by auto
  qed
  moreover have "length (buffered_outframes h') \<le> length (buffered_outframes h1) - 1"
    by (rule buffered_shrinks [OF dst(2,1)]) (use peer in blast)
  moreover have "\<not> active (set_activity h')" if "buffered_outframes h1 = []"
  proof (rule set_activity_off [of e])
    have "map fst (send_items e q h') = []" if "q < num_hosts e" for q
      using peer that \<open>buffered_outframes h1 = []\<close> by (metis for_peer_simps(1) take_Nil)
    then show "\<forall>q < num_hosts e. cq_get_length_send q h' = 0" by (metis length_0_conv length_send_items map_is_Nil_conv)
    show "buffered_outframes h' = []" using \<open>length (buffered_outframes h') \<le> _\<close> that by simp
  qed (use h'(2,5,6) in \<open>simp_all add: tx_inv_def\<close>)
  moreover have "dup_ok e q (set_activity h') = dup_ok e q h'" for q by (simp add: dup_ok_def)
  ultimately have "stepped e h (set_activity h')"
    using peer h'(3) buf1 unfolding stepped_def by auto
  with run show ?thesis by blast
qed

lemma run_sender_in_step:
  assumes inv: "tx_inv e sent base h" and r: "rounding_ok e" and cci: "\<forall>q < num_hosts e. cc_inv (cc h ! q)"
    and cmds: "\<forall>c \<in> set (input_cmdlist h). cmd_ok e (hid h) c" and gr: "\<forall>q. groups (sent q) (ms q)"
    and step: "in_step e h"
  shows "\<exists>h' d. run_sender e h = Inr (h', d) \<and> stepped e h h'"
proof -
  define now where "now = fst (get_time e h)"
  define h0 where "h0 = (snd (get_time e h))\<lparr>awaiting_ack := False, active := False, csv_out := False\<rparr>"
  define h1 where "h1 = h0\<lparr>round_trip_num := round_trip_num h0 + 1, csv_out := True\<rparr>"
  have sg: "snd (get_time e h) = h\<lparr>ticks := Suc (ticks h)\<rparr>" by (simp add: get_time_def)
  have it: "send_items e q h0 = send_items e q h" "send_items e q h1 = send_items e q h"
    "cq_get_length_send q h1 = cq_get_length_send q h" for q
    by (rule send_queue_cong; simp add: h1_def h0_def sg)+
  have pd: "pending e q h0 = pending e q h" "pending e q h1 = pending e q h" for q
    by (simp_all add: pending_def it) (simp_all add: h1_def h0_def sg)
  have inv0: "tx_inv e sent base h0" "tx_inv e sent base h1" using inv by (simp_all add: h1_def h0_def sg)
  have run: "run_sender e h = rbind (if awakened e now (snd (get_time e h)) then sender_work e now h1 else Inr (h0, []))
      (\<lambda>(h, d). Inr (set_activity h, d))"
    by (simp add: run_sender_def now_def h1_def h0_def sg case_prod_beta Let_def)
  have fl: "cc h1 = cc h" "incoming_frames h1 = incoming_frames h" "input_cmdlist h1 = input_cmdlist h" "hid h1 = hid h"
    "outgoing_frames h1 = outgoing_frames h" "buffered_outframes h1 = buffered_outframes h"
    "dup_acks_seq_num h1 = dup_acks_seq_num h" "curr_seq_num h1 = curr_seq_num h" "\<not> awaiting_ack h1" "\<not> active h1"
    "dup_acks_seq_num h0 = dup_acks_seq_num h" "curr_seq_num h0 = curr_seq_num h"
    "outgoing_frames h0 = outgoing_frames h" "buffered_outframes h0 = buffered_outframes h" "\<not> awaiting_ack h0" "\<not> active h0"
    by (simp_all add: h1_def h0_def sg)
  show ?thesis
  proof (cases "awakened e now (snd (get_time e h))")
    case True
    have "in_step e h1" using step by (simp add: in_step_def dup_ok_def it pd fl)
    from sender_work_in_step [OF inv0(2) r _ _ gr this fl(9,10), of now] cci cmds obtain h' d where
      "sender_work e now h1 = Inr (h', d)" "stepped e h1 (set_activity h')" by (auto simp: fl)
    moreover from this(2) have "stepped e h (set_activity h')" by (simp add: stepped_def fl it)
    ultimately show ?thesis using True by (simp add: run)
  next
    case False
    then have quiet: "incoming_frames h = []" by (auto simp: awakened_def sg)
    then have buf: "buffered_outframes h = []" using step by (auto simp: in_step_def)
    have items: "send_items e q h = []" if "q < num_hosts e" for q
      using in_step_windows(2) [OF step inv that] quiet by (metis length_0_conv length_send_items from_peer_simps(1))
    then have l0: "\<forall>q < num_hosts e. cq_get_length_send q h0 = 0 \<and> cq_get_length_send q h = 0"
      using it(1) by (metis length_send_items list.size(3))
    have "\<not> active (set_activity h0)"
      by (rule set_activity_off [of e]) (use inv0(1) l0 buf fl in \<open>simp_all add: tx_inv_def\<close>)
    moreover have "dup_ok e q (set_activity h0) = dup_ok e q h" for q by (simp add: dup_ok_def pd fl)
    moreover have "dup_ok e q h" if "q < num_hosts e" for q using step that by (simp add: in_step_def)
    ultimately have "stepped e h (set_activity h0)"
      using step items buf l0 by (simp add: stepped_def fl it in_step_def)
    then show ?thesis using False by (simp add: run)
  qed
qed

section \<open>Turns of all hosts\<close>

text \<open>A loop in which every host has one turn, on its own state; \<open>U\<close> stores what else the turn leaves.\<close>

lemma turns_loop:
  assumes "distinct xs" and "set xs \<subseteq> {..<length (hosts s)}" and U: "\<And>i h d s. hosts (U i h d s) = (hosts s)[i := h]"
  shows "case rfold (\<lambda>i s. rbind (arr_get (hosts s) i) (\<lambda>h. rbind (T h) (\<lambda>(h, d). Inr (U i h d s)))) xs s of
      Inl x \<Rightarrow> \<exists>i \<in> set xs. T (hosts s ! i) = Inl x
    | Inr s' \<Rightarrow> length (hosts s') = length (hosts s) \<and> (\<forall>i < length (hosts s).
        if i \<in> set xs then \<exists>d. T (hosts s ! i) = Inr (hosts s' ! i, d) else hosts s' ! i = hosts s ! i)"
  using assms(1,2)
proof (induction xs arbitrary: s)
  case (Cons i xs)
  have i: "i < length (hosts s)" using Cons.prems(2) by simp
  show ?case
  proof (cases "T (hosts s ! i)")
    case (Inl x)
    with i show ?thesis by simp
  next
    case (Inr r)
    obtain h d where r: "r = (h, d)" by (cases r)
    have at: "hosts (U i h d s) ! j = (if j = i then h else hosts s ! j)" if "j < length (hosts s)" for j
      using that by (simp add: U nth_list_update)
    have len: "length (hosts (U i h d s)) = length (hosts s)" by (simp add: U)
    let ?F = "\<lambda>i s. rbind (arr_get (hosts s) i) (\<lambda>h. rbind (T h) (\<lambda>(h, d). Inr (U i h d s)))"
    have "rfold ?F (i # xs) s = rfold ?F xs (U i h d s)" using Inr r i by simp
    moreover have p: "distinct xs" "set xs \<subseteq> {..<length (hosts (U i h d s))}" using Cons.prems by (auto simp: len)
    note * = Cons.IH [OF p, unfolded len]
    moreover have other: "hosts (U i h d s) ! j = hosts s ! j" if "j \<in> set xs" for j
      using at [of j] that Cons.prems by auto
    ultimately show ?thesis
    proof (cases "rfold ?F xs (U i h d s)")
      case (Inr s')
      have "if j \<in> set (i # xs) then \<exists>d. T (hosts s ! j) = Inr (hosts s' ! j, d) else hosts s' ! j = hosts s ! j"
        if j: "j < length (hosts s)" for j
        using * j other [of j] at [OF j] \<open>T (hosts s ! i) = Inr r\<close> r Cons.prems(1) unfolding Inr by (cases "j = i") auto
      moreover have "length (hosts s') = length (hosts s)" using * unfolding Inr by simp
      ultimately show ?thesis using \<open>rfold ?F (i # xs) s = _\<close> unfolding Inr by simp
    qed (use * other in auto)
  qed
qed simp

section \<open>The channel without loss\<close>

definition lossless :: "env \<Rightarrow> bool" where
  "lossless e \<longleftrightarrow> corrupt_prob e = 0 \<and> int (num_hosts e * window_size e) \<le> recv_accept_rate e"

lemma send_frame_lossless:
  assumes "lossless e" and "rounding_ok e" and "frame_sane e f"
  shows "\<exists>r. send_frame e f s = Inr (receive (unat (dst_id f)) f (s\<lparr>rands := r\<rparr>))"
proof -
  have "dround e (1000 * corrupt_prob e) = 0" using assms(1,2) by (simp add: lossless_def rounding_ok_def)
  then have "transmit e f s = (convert_char_to_frame (convert_frame_to_char f), s\<lparr>rands := Suc (Suc (rands s))\<rparr>)"
    by (simp add: transmit_def next_rand_def Let_def trunc_int_def)
  moreover have "convert_char_to_frame (convert_frame_to_char f) = f"
    using assms(3) by (simp add: frame_sane_def char_frame_roundtrip)
  ultimately show ?thesis using assms(3) by (auto simp: send_frame_def frame_sane_def)
qed

text \<open>The frames from host \<open>j\<close> to host \<open>q\<close>, those that have arrived and those still to come.\<close>

definition flow :: "nat \<Rightarrow> nat \<Rightarrow> net \<Rightarrow> frame list" where
  "flow j q s = from_peer j (incoming_frames (hosts s ! q)) @ for_peer q (outgoing_frames (hosts s ! j))"

definition tidy :: "env \<Rightarrow> net \<Rightarrow> bool" where
  "tidy e s \<longleftrightarrow> length (hosts s) = num_hosts e \<and>
     (\<forall>j < num_hosts e. (\<forall>f \<in> set (outgoing_frames (hosts s ! j)). frame_sane e f \<and> unat (src_id f) = j) \<and>
        (\<forall>f \<in> set (incoming_frames (hosts s ! j)). unat (src_id f) < num_hosts e))"

definition same_flows :: "env \<Rightarrow> net \<Rightarrow> net \<Rightarrow> bool" where
  "same_flows e s s' \<longleftrightarrow> tidy e s' \<and> (\<forall>j < num_hosts e. \<forall>q < num_hosts e. flow j q s' = flow j q s)"

lemma same_flows_trans: "same_flows e s s' \<Longrightarrow> same_flows e s' s'' \<Longrightarrow> same_flows e s s''"
  by (simp add: same_flows_def)

lemma same_flows_refl: "tidy e s \<Longrightarrow> same_flows e s s"
  by (simp add: same_flows_def)

lemma flow_rands [simp]: "flow j q (s\<lparr>rands := r\<rparr>) = flow j q s" "tidy e (s\<lparr>rands := r\<rparr>) = tidy e s"
  "same_flows e s0 (s\<lparr>rands := r\<rparr>) = same_flows e s0 s" "same_flows e (s\<lparr>rands := r\<rparr>) s' = same_flows e s s'"
  by (simp_all add: flow_def tidy_def same_flows_def)

text \<open>Sending the first frame of a queue.\<close>

definition deliver_first :: "nat \<Rightarrow> frame \<Rightarrow> frame list \<Rightarrow> nat \<Rightarrow> net \<Rightarrow> net" where
  "deliver_first i f fs r s = receive (unat (dst_id f)) f ((upd_host i (\<lambda>h. h\<lparr>outgoing_frames := fs\<rparr>) s)\<lparr>rands := r\<rparr>)"

lemma deliver_first_hosts:
  assumes "i < length (hosts s)" and "j < length (hosts s)"
  shows "outgoing_frames (hosts (deliver_first i f fs r s) ! j) = (if j = i then fs else outgoing_frames (hosts s ! j))"
    "incoming_frames (hosts (deliver_first i f fs r s) ! j) =
      incoming_frames (hosts s ! j) @ (if j = unat (dst_id f) then [f] else [])"
    "length (hosts (deliver_first i f fs r s)) = length (hosts s)"
  using assms
  by (simp_all add: deliver_first_def receive_def upd_host_def)
    (cases "j = i"; cases "j = unat (dst_id f)"; simp)+

lemma deliver_first_flows:
  assumes t: "tidy e s" and i: "i < num_hosts e" and out: "outgoing_frames (hosts s ! i) = f # fs"
  shows "same_flows e s (deliver_first i f fs r s)"
proof -
  have f: "unat (src_id f) = i" using t i out by (simp add: tidy_def)
  have len: "length (hosts s) = num_hosts e" using t by (simp add: tidy_def)
  note h = deliver_first_hosts [of i s _ f fs r, unfolded len, OF i]
  have "tidy e (deliver_first i f fs r s)"
    using t i f out h by (auto simp: tidy_def split: if_splits)
  moreover have "flow j q (deliver_first i f fs r s) = flow j q s" if "j < num_hosts e" "q < num_hosts e" for j q
    using that f out h by (auto simp: flow_def)
  ultimately show ?thesis by (simp add: same_flows_def)
qed

section \<open>Nothing is dropped\<close>

text \<open>The counters say what has arrived, and all that is on its way stays below the acceptance rate.\<close>

definition room :: "env \<Rightarrow> net \<Rightarrow> traffic \<Rightarrow> bool" where
  "room e s t \<longleftrightarrow> tidy e s \<and> length (incoming_frames_accept t) = num_hosts e \<and>
     (\<forall>q < num_hosts e. incoming_frames_accept t ! q = int (length (incoming_frames (hosts s ! q))) \<and>
        int (\<Sum>j < num_hosts e. length (flow j q s)) \<le> recv_accept_rate e)"

lemma room_same_flows:
  assumes "room e s t" and "same_flows e s s'" and "length (incoming_frames_accept t') = num_hosts e"
    and "\<And>q. q < num_hosts e \<Longrightarrow> incoming_frames_accept t' ! q = int (length (incoming_frames (hosts s' ! q)))"
  shows "room e s' t'"
proof -
  have "(\<Sum>j < num_hosts e. length (flow j q s')) = (\<Sum>j < num_hosts e. length (flow j q s))" if "q < num_hosts e" for q
    using assms(2) that by (intro sum.cong) (simp_all add: same_flows_def)
  then show ?thesis using assms by (simp add: room_def same_flows_def)
qed

lemma room_accepts:
  assumes room: "room e s t" and i: "i < num_hosts e" and out: "outgoing_frames (hosts s ! i) = f # fs"
    and q: "q = unat (dst_id f)" "q < num_hosts e"
  shows "incoming_frames_accept t ! q < recv_accept_rate e"
proof -
  have tidy: "tidy e s" using room by (simp add: room_def)
  have "length (incoming_frames (hosts s ! q)) = (\<Sum>j < num_hosts e. length (from_peer j (incoming_frames (hosts s ! q))))"
    unfolding from_peer_def by (rule sum_lengths) (use tidy q(2) in \<open>simp add: tidy_def\<close>)
  also have "\<dots> < (\<Sum>j < num_hosts e. length (flow j q s))"
  proof (rule sum_strict_mono_ex1)
    show "\<exists>j \<in> {..<num_hosts e}. length (from_peer j (incoming_frames (hosts s ! q))) < length (flow j q s)"
      using i out q by (intro bexI [of _ i]) (simp_all add: flow_def)
  qed (simp_all add: flow_def)
  finally have "int (length (incoming_frames (hosts s ! q))) < int (\<Sum>j < num_hosts e. length (flow j q s))"
    by (simp only: of_nat_less_iff)
  also have "\<dots> \<le> recv_accept_rate e" using room q(2) by (simp only: room_def)
  finally show ?thesis using room q(2) by (simp add: room_def)
qed

lemma serve_host_flows:
  assumes l: "lossless e" "rounding_ok e" and room: "room e s t" and i: "i < num_hosts e"
    and run: "serve_host e i (k, s, t) = Inr (k', s', t')"
  shows "same_flows e s s' \<and> room e s' t'"
proof (cases "outgoing_frames (hosts s ! i)")
  case Nil
  have "i < length (hosts s)" using room i by (simp add: room_def tidy_def)
  with Nil run have "s' = s" "t' = t" by (simp_all add: serve_host_def)
  with room show ?thesis by (simp add: same_flows_refl room_def)
next
  case (Cons f fs)
  have tidy: "tidy e s" and len: "length (hosts s) = num_hosts e" using room by (simp_all add: room_def tidy_def)
  have sane: "frame_sane e f" using tidy i Cons by (simp add: tidy_def)
  define q where "q = unat (dst_id f)"
  have q: "q < num_hosts e" using sane by (simp add: q_def frame_sane_def)
  have acc: "\<not> incoming_frames_accept t ! q \<ge> recv_accept_rate e" using room_accepts [OF room i Cons q_def q] by simp
  let ?s1 = "upd_host i (\<lambda>h. h\<lparr>outgoing_frames := fs\<rparr>) s"
  let ?t1 = "t\<lparr>num_frames_sent := count2 i q (num_frames_sent t)\<rparr>"
  from send_frame_lossless [OF l sane, of ?s1] obtain r where "send_frame e f ?s1 = Inr (deliver_first i f fs r s)"
    by (auto simp: deliver_first_def)
  with run acc Cons i len sane have s': "s' = deliver_first i f fs r s" "t' = count_accept q ?t1"
    by (simp_all add: serve_host_def sanity_ok Let_def q_def)
  have flows: "same_flows e s s'" unfolding s'(1) by (rule deliver_first_flows [OF tidy i Cons])
  have a: "length (incoming_frames_accept t) = num_hosts e" using room by (simp add: room_def)
  have "room e s' t'"
  proof (rule room_same_flows [OF room flows])
    show "length (incoming_frames_accept t') = num_hosts e" by (simp add: s'(2) count_accept_def a)
    fix p assume p: "p < num_hosts e"
    have "incoming_frames_accept t' ! p = incoming_frames_accept t ! p + (if p = q then 1 else 0)"
      using p q a by (simp add: s'(2) count_accept_def nth_list_update)
    moreover have "length (incoming_frames (hosts s' ! p)) = length (incoming_frames (hosts s ! p)) + (if p = q then 1 else 0)"
      using deliver_first_hosts(2) [of i s p f fs r] i p len by (simp add: s'(1) q_def)
    ultimately show "incoming_frames_accept t' ! p = int (length (incoming_frames (hosts s' ! p)))"
      using room p by (simp add: room_def)
  qed
  with flows show ?thesis ..
qed

lemma serve_hosts_flows:
  assumes l: "lossless e" "rounding_ok e" and room: "room e s t" and run: "serve_hosts e (s, t) = Inr (k, s', t')"
  shows "same_flows e s s' \<and> room e s' t'"
proof -
  obtain xs r where o: "get_rand_seq e (num_hosts e) s = (xs, s\<lparr>rands := r\<rparr>)" "set xs = {..<num_hosts e}"
    by (rule get_rand_seq_perm)
  let ?P = "\<lambda>(k :: nat, s1, t1). same_flows e s s1 \<and> room e s1 t1"
  have "?P (k, s', t')"
  proof (rule rfold_inv [of "serve_host e" xs "(0, s\<lparr>rands := r\<rparr>, t)" _ ?P])
    show "rfold (serve_host e) xs (0, s\<lparr>rands := r\<rparr>, t) = Inr (k, s', t')"
      using run o(1) by (simp add: serve_hosts_def)
    show "?P (0, s\<lparr>rands := r\<rparr>, t)" using room by (simp add: room_def same_flows_refl)
    fix i st st' assume "i \<in> set xs" "?P st" "serve_host e i st = Inr st'"
    then show "?P st'"
      using serve_host_flows [OF l, of "fst (snd st)" "snd (snd st)" i "fst st" "fst st'" "fst (snd st')" "snd (snd st')"] o(2)
      by (auto simp: split_beta intro: same_flows_trans)
  qed
  then show ?thesis by simp
qed

lemma send_rounds_flows:
  assumes "lossless e" and "rounding_ok e" and "room e (fst st) (snd st)" and "send_rounds e st = Inr (s', t')"
  shows "same_flows e (fst st) s'"
  using assms
proof (induction e st rule: send_rounds.induct)
  case (1 e st)
  obtain s t where st: "st = (s, t)" by (cases st)
  from "1.prems"(4) obtain k s1 t1 where r: "serve_hosts e (s, t) = Inr (k, s1, t1)"
    by (subst (asm) send_rounds.simps) (auto simp: st split: sum.splits)
  have f: "same_flows e s s1 \<and> room e s1 t1" by (rule serve_hosts_flows [OF "1.prems"(1,2) _ r]) (use "1.prems"(3) st in simp)
  show ?case
  proof (cases "k = num_hosts e")
    case True
    with "1.prems"(4) r f st show ?thesis by (simp add: send_rounds.simps [of e "(s, t)"])
  next
    case False
    then have "send_rounds e (s1, t1) = Inr (s', t')" using "1.prems"(4) r st by (simp add: send_rounds.simps [of e "(s, t)"])
    with "1.IH" [of "(k, s1, t1)" k "(s1, t1)" s1 t1] r f False st "1.prems"(1,2) have "same_flows e s1 s'" by simp
    with f st show ?thesis by (auto intro: same_flows_trans)
  qed
qed

text \<open>The data phase: what the hosts send arrives, in order.\<close>

lemma data_arrives:
  assumes l: "lossless e" "rounding_ok e" and cfg: "cfg_ok e" and sane: "net_sane e s" and tidy: "tidy e s"
    and quiet: "\<forall>q < num_hosts e. incoming_frames (hosts s ! q) = []"
    and win: "\<forall>j < num_hosts e. \<forall>q < num_hosts e. length (for_peer q (outgoing_frames (hosts s ! j))) \<le> window_size e"
    and run: "send_data_frames e s = Inr s'"
  shows "\<forall>j < num_hosts e. \<forall>q < num_hosts e. from_peer j (incoming_frames (hosts s' ! q)) = for_peer q (outgoing_frames (hosts s ! j))"
    and "tidy e s'"
proof -
  let ?z = "replicate (num_hosts e) (replicate (num_hosts e) 0)"
  define t where "t = \<lparr>incoming_frames_accept = replicate (num_hosts e) 0, num_frames_sent = ?z, num_frames_dropped = ?z\<rparr>"
  have "rfold (service_ingress e) [0..<num_hosts e] (s, t) = Inr (s, t)"
    using sane by (intro service_ingress_empty) (auto simp: net_sane_def t_def)
  with run obtain s1 t1 where r: "send_rounds e (s, t) = Inr (s1, t1)" "diag_row e s1 t1 = Inr s'"
    by (auto simp: send_data_frames_def t_def [symmetric] Let_def rbind_Inr_iff)
  obtain d where s': "s' = s1\<lparr>diags := d\<rparr>" using diag_row_spec [OF cfg, of s1 t1] r(2) by auto
  have "int (\<Sum>j < num_hosts e. length (flow j q s)) \<le> recv_accept_rate e" if q: "q < num_hosts e" for q
  proof -
    have "length (flow j q s) \<le> window_size e" if "j < num_hosts e" for j
      using that q win quiet by (simp add: flow_def)
    then have "(\<Sum>j < num_hosts e. length (flow j q s)) \<le> (\<Sum>j < num_hosts e. window_size e)" by (intro sum_mono) simp
    also have "\<dots> = num_hosts e * window_size e" by simp
    finally have "int (\<Sum>j < num_hosts e. length (flow j q s)) \<le> int (num_hosts e * window_size e)"
      by (simp only: of_nat_le_iff)
    then show ?thesis using l(1) by (simp add: lossless_def)
  qed
  then have "room e s t" using tidy quiet by (simp add: room_def t_def)
  from send_rounds_flows [OF l, of "(s, t)"] this r(1) have f: "same_flows e s s1" by simp
  from send_rounds_spec [OF sane, of "(s, t)"] moved_refl [of s e] sane r(1) quiet have
    out: "\<forall>i < num_hosts e. outgoing_frames (hosts s1 ! i) = []"
    by (auto simp: net_sane_def accepting_def t_def)
  show "tidy e s'" using f by (simp add: s' same_flows_def tidy_def)
  show "\<forall>j < num_hosts e. \<forall>q < num_hosts e. from_peer j (incoming_frames (hosts s' ! q)) = for_peer q (outgoing_frames (hosts s ! j))"
    using f out quiet by (simp add: s' same_flows_def flow_def)
qed

text \<open>The phase of acknowledgements likewise; there is no limit on them.\<close>

lemma send_list_flows:
  assumes l: "lossless e" "rounding_ok e" and i: "i < num_hosts e" and "tidy e s"
    and "outgoing_frames (hosts s ! i) = fs"
    and "rfold (\<lambda>f s. rbind (frame_sanity_check e f) (\<lambda>_. send_frame e f s)) fs (upd_host i (\<lambda>h. h\<lparr>outgoing_frames := []\<rparr>) s) = Inr s'"
  shows "same_flows e s s'"
  using assms(4-6)
proof (induction fs arbitrary: s)
  case Nil
  have len: "length (hosts s) = num_hosts e" using Nil.prems(1) by (simp add: tidy_def)
  have "(hosts s ! i)\<lparr>outgoing_frames := []\<rparr> = hosts s ! i" by (metis Nil.prems(2) host.surjective host.update_convs(9))
  then have "upd_host i (\<lambda>h. h\<lparr>outgoing_frames := []\<rparr>) s = s" by (simp add: upd_host_def)
  with Nil show ?case by (simp add: same_flows_refl)
next
  case (Cons f fs)
  have len: "length (hosts s) = num_hosts e" using Cons.prems(1) by (simp add: tidy_def)
  have sane: "frame_sane e f" using Cons.prems(1,2) i by (simp add: tidy_def)
  let ?clear = "upd_host i (\<lambda>h. h\<lparr>outgoing_frames := []\<rparr>)"
  from send_frame_lossless [OF l sane, of "?clear s"] obtain r where
    r: "send_frame e f (?clear s) = Inr (receive (unat (dst_id f)) f ((?clear s)\<lparr>rands := r\<rparr>))" by blast
  have swap: "h\<lparr>outgoing_frames := a, incoming_frames := b\<rparr> = h\<lparr>incoming_frames := b, outgoing_frames := a\<rparr>" for h :: host and a b
    by simp
  have "receive (unat (dst_id f)) f ((?clear s)\<lparr>rands := r\<rparr>) = ?clear (deliver_first i f fs r s)"
    using i len by (cases "i = unat (dst_id f)")
      (simp_all add: deliver_first_def receive_def upd_host_def list_update_swap swap)
  with Cons.prems(3) r sane have "rfold (\<lambda>f s. rbind (frame_sanity_check e f) (\<lambda>_. send_frame e f s)) fs
      (?clear (deliver_first i f fs r s)) = Inr s'" by (simp add: sanity_ok)
  moreover have fl: "same_flows e s (deliver_first i f fs r s)" by (rule deliver_first_flows [OF Cons.prems(1) i Cons.prems(2)])
  moreover have "outgoing_frames (hosts (deliver_first i f fs r s) ! i) = fs"
    using deliver_first_hosts(1) [of i s i f fs r] i len by simp
  ultimately show ?case using Cons.IH [of "deliver_first i f fs r s"] same_flows_trans by (auto simp: same_flows_def)
qed

lemma acks_arrive:
  assumes l: "lossless e" "rounding_ok e" and sane: "net_sane e s" and tidy: "tidy e s"
    and quiet: "\<forall>q < num_hosts e. incoming_frames (hosts s ! q) = []" and run: "send_ack_frames e s = Inr s'"
  shows "\<forall>j < num_hosts e. \<forall>q < num_hosts e. from_peer j (incoming_frames (hosts s' ! q)) = for_peer q (outgoing_frames (hosts s ! j))"
    and "tidy e s'"
proof -
  let ?step = "\<lambda>i s. rfold (\<lambda>f s. rbind (frame_sanity_check e f) (\<lambda>_. send_frame e f s))
         (outgoing_frames (hosts s ! i)) (upd_host i (\<lambda>h. h\<lparr>outgoing_frames := []\<rparr>) s)"
  have f: "same_flows e s s'"
  proof (rule rfold_inv [of ?step "[0..<num_hosts e]" s s' "same_flows e s"])
    show "rfold ?step [0..<num_hosts e] s = Inr s'" using run by (simp add: send_ack_frames_def)
    show "same_flows e s s" by (rule same_flows_refl [OF tidy])
    fix i t t' assume "i \<in> set [0..<num_hosts e]" "same_flows e s t" "?step i t = Inr t'"
    then show "same_flows e s t'"
      using send_list_flows [OF l, of i t _ t'] same_flows_trans by (auto simp: same_flows_def)
  qed
  have "\<forall>i < num_hosts e. outgoing_frames (hosts s' ! i) = []" using send_ack_frames_spec [OF sane] run by auto
  with f quiet show "\<forall>j < num_hosts e. \<forall>q < num_hosts e. from_peer j (incoming_frames (hosts s' ! q)) = for_peer q (outgoing_frames (hosts s ! j))"
    by (simp add: same_flows_def flow_def)
  show "tidy e s'" using f by (simp add: same_flows_def)
qed

section \<open>The turn of a receiver\<close>

text \<open>A frame that the handler has got through delivered its messages.\<close>

lemma send_ack_deliver: "send_ack e q a h = Inr r \<Longrightarrow> \<exists>rest out. deliver (recv_msg h ! q) [] = Inr (rest, out)"
  by (auto simp: send_ack_def make_ack_def malloc_frame_def Let_def rbind_Inr_iff)

lemma handle_incoming_frame_deliver:
  assumes ok: "windows_ok e h" and valid: "frame_valid f" and q: "q = unat (src_id f)" "q < num_hosts e"
    and win: "recv_frame_in_window e (seq_num f) q h" and run: "handle_incoming_frame e f h = Inr r"
    and acc: "rx_accept (window_size e) f (rx_view e q h) = (lfr', slots', msgs')"
  shows "\<exists>rest out. deliver msgs' [] = Inr (rest, out)"
proof -
  let ?w = "window_size e" and ?d = "seq_num_diff (recv_lfr h ! q) (seq_num f)"
  let ?h1 = "cq_set_item_recv e q (nat (?d - 1)) (Some f) h"
  obtain xs h2 where adv: "rw.advance e ?w q ?h1 = (xs, h2)" by force
  have d: "0 < ?d \<and> ?d \<le> int ?w" using win by (simp add: recv_frame_in_window_def Let_def)
  then have i: "nat (?d - 1) < ?w" by linarith
  have len: "length (recv_msg h) = num_hosts e" "length (recv_lfr h) = num_hosts e"
    using ok by (auto simp: windows_ok_def shape_def)
  have "windows_ok e ?h1" by (rule set_item_recv_ok [OF ok])
  from rw.advance_slots [OF this _ order_refl adv] q have "xs = rw.filled ?w (recv_items e q ?h1)" by auto
  then have "xs = map the (takeWhile (\<lambda>x. x \<noteq> None) ((recv_items e q h)[nat (?d - 1) := Some f]))"
    by (simp add: set_item_recv_items [OF ok q(2) i] filled_takeWhile)
  with acc d have m: "msgs' = recv_msg h ! q @ xs" by (auto simp: rx_accept_def rx_view_def Let_def)
  have "recv_msg ?h1 = recv_msg h" "recv_lfr ?h1 = recv_lfr h" by (simp_all add: cq_set_item_recv_def)
  with recv_advance_log [of q ?h1 e ?w "recv_lfr h ! q"] adv q(2) len obtain a h3 where
    "recv_advance e q ?w (recv_lfr h ! q) ?h1 = (a, h3)" "recv_msg h3 ! q = msgs'"
    by (auto simp: m simp del: One_nat_def)
  moreover from this(1) have "send_ack e q a h3 = Inr r"
    using run valid win q(2) unfolding handle_incoming_frame_def q(1) [symmetric] by (simp add: Let_def)
  ultimately show ?thesis using send_ack_deliver by metis
qed

lemma accept_next:
  assumes "0 < w" and "seq_num f = lfr + 1"
  shows "rx_accept w f (lfr, replicate w None, msgs) = (lfr + 1, replicate w None, msgs @ [f])"
proof -
  have d: "seq_num_diff lfr (lfr + 1) = 1" using seq_num_diff_nat [of 1 lfr] by simp
  obtain v where w: "w = Suc v" using assms(1) by (cases w) auto
  have "replicate v None @ [None :: frame option] = None # replicate v None" by (simp add: replicate_append_same)
  then show ?thesis by (cases v) (simp_all add: rx_accept_def assms(2) d w Let_def)
qed

lemma receive_next:
  assumes ok: "windows_ok e h" and valid: "frame_valid f" and q: "q = unat (src_id f)" "q < num_hosts e"
    and empty: "recv_items e q h = replicate (window_size e) None" and seq: "seq_num f = recv_lfr h ! q + 1"
    and run: "handle_incoming_frame e f h = Inr (h', out)"
  shows "windows_ok e h'" "recv_items e q h' = replicate (window_size e) None" "recv_lfr h' ! q = seq_num f"
    "\<forall>r < num_hosts e. r \<noteq> q \<longrightarrow> recv_items e r h' = recv_items e r h \<and> recv_lfr h' ! r = recv_lfr h ! r"
    "\<exists>ack. recv_effect h h' ack \<and> is_valid_ack ack \<and> src_id ack = of_nat (hid h) \<and>
      unat (dst_id ack) = q \<and> seq_num ack = seq_num f" "hid h' = hid h"
proof -
  have cfg: "cfg_ok e" using ok by (simp add: windows_ok_def)
  then have w: "0 < window_size e" "num_hosts e \<le> 256" by (simp_all add: cfg_ok_def)
  have acc: "rx_accept (window_size e) f (rx_view e q h) = (seq_num f, replicate (window_size e) None, recv_msg h ! q @ [f])"
    unfolding rx_view_def empty accept_next [OF w(1) seq] by (simp add: seq)
  have "seq_num_diff (recv_lfr h ! q) (seq_num f) = 1" using seq_num_diff_nat [of 1 "recv_lfr h ! q"] by (simp add: seq)
  then have "recv_frame_in_window e (seq_num f) q h" using w by (simp add: recv_frame_in_window_def)
  from handle_incoming_frame_deliver [OF ok valid q this run acc] obtain rest out1 where
    "deliver (recv_msg h ! q @ [f]) [] = Inr (rest, out1)" by blast
  from handle_incoming_frame_spec [OF ok valid q acc this] run obtain ack a where
    r: "windows_ok e h'" "rx_view e q h' = (seq_num f, replicate (window_size e) None, rest)"
      "\<forall>r < num_hosts e. r \<noteq> q \<longrightarrow> rx_view e r h' = rx_view e r h" "recv_effect h h' ack"
      "make_ack e q (seq_num f) h = (ack, a)" by auto
  show "windows_ok e h'" "recv_items e q h' = replicate (window_size e) None" "recv_lfr h' ! q = seq_num f"
    "\<forall>r < num_hosts e. r \<noteq> q \<longrightarrow> recv_items e r h' = recv_items e r h \<and> recv_lfr h' ! r = recv_lfr h ! r"
    using r(1-3) by (simp_all add: rx_view_def)
  show "\<exists>ack. recv_effect h h' ack \<and> is_valid_ack ack \<and> src_id ack = of_nat (hid h) \<and>
      unat (dst_id ack) = q \<and> seq_num ack = seq_num f" "hid h' = hid h"
    using r(4) recv_effectD(2) [OF r(4)] make_ack_frame [OF cfg r(5)] q w(2) by (auto simp: is_valid_ack_def unat_u8_small)
qed

text \<open>A batch in which the frames of each peer follow on what was accepted of it.\<close>

fun consecutive_from :: "u8 \<Rightarrow> frame list \<Rightarrow> bool" where
  "consecutive_from lfr [] \<longleftrightarrow> True"
| "consecutive_from lfr (f # fs) \<longleftrightarrow> seq_num f = lfr + 1 \<and> consecutive_from (seq_num f) fs"

lemma consecutive_fromI:
  "\<forall>k < length fs. seq_num (fs ! k) = lfr + 1 + of_nat k \<Longrightarrow> consecutive_from lfr fs"
proof (induction fs arbitrary: lfr)
  case (Cons f fs)
  have "seq_num f = lfr + 1" using Cons.prems by force
  moreover have "seq_num (fs ! k) = lfr + 1 + 1 + of_nat k" if "k < length fs" for k
    using Cons.prems [rule_format, of "Suc k"] that by (simp add: algebra_simps)
  ultimately show ?case using Cons.IH [of "lfr + 1"] by simp
qed simp

lemma receive_batch_in_order:
  assumes "windows_ok e h" and "\<forall>f \<in> set fs. frame_valid f \<and> unat (src_id f) < num_hosts e"
    and "\<forall>q < num_hosts e. recv_items e q h = replicate (window_size e) None \<and>
      consecutive_from (recv_lfr h ! q) (from_peer q fs)"
    and "rfold (\<lambda>f (h, out). rbind (handle_incoming_frame e f h) (\<lambda>(h, o1).
         Inr (h, out @ map (Pair (unat (src_id f))) o1))) fs (h, out0) = Inr (h', out)"
  shows "\<exists>acks. rx_effect h h' acks \<and>
    (\<forall>a \<in> set acks. is_valid_ack a \<and> src_id a = of_nat (hid h)) \<and>
    (\<forall>q < num_hosts e. recv_items e q h' = replicate (window_size e) None \<and>
      recv_lfr h' ! q = recv_lfr h ! q + of_nat (length (from_peer q fs)) \<and>
      map seq_num (for_peer q acks) = map seq_num (from_peer q fs))"
  using assms
proof (induction fs arbitrary: h out0)
  case (Cons f fs)
  define q where "q = unat (src_id f)"
  have q: "q < num_hosts e" and valid: "frame_valid f" using Cons.prems(2) by (simp_all add: q_def)
  have "recv_items e q h = replicate (window_size e) None \<and> consecutive_from (recv_lfr h ! q) (f # from_peer q fs)"
    using Cons.prems(3) [rule_format, OF q] by (simp add: q_def [symmetric] del: consecutive_from.simps)
  then have c: "seq_num f = recv_lfr h ! q + 1" "consecutive_from (seq_num f) (from_peer q fs)"
    "recv_items e q h = replicate (window_size e) None" unfolding consecutive_from.simps by blast+
  from Cons.prems(4) obtain h1 o1 where run: "handle_incoming_frame e f h = Inr (h1, o1)"
    "rfold (\<lambda>f (h, out). rbind (handle_incoming_frame e f h) (\<lambda>(h, o1).
         Inr (h, out @ map (Pair (unat (src_id f))) o1))) fs (h1, out0 @ map (Pair q) o1) = Inr (h', out)"
    by (auto simp: rbind_Inr_iff q_def)
  note n = receive_next [OF Cons.prems(1) valid q_def q c(3,1) run(1)]
  have "recv_items e r h1 = replicate (window_size e) None \<and> consecutive_from (recv_lfr h1 ! r) (from_peer r fs)"
    if r: "r < num_hosts e" for r
    using n(2-4) c(2) Cons.prems(3) [rule_format, OF r] r by (cases "r = q") (simp_all add: q_def [symmetric])
  then have "\<forall>r < num_hosts e. recv_items e r h1 = replicate (window_size e) None \<and>
      consecutive_from (recv_lfr h1 ! r) (from_peer r fs)" by blast
  from Cons.IH [OF n(1) _ this run(2)] Cons.prems(2) obtain acks where
    a: "rx_effect h1 h' acks" "\<forall>a \<in> set acks. is_valid_ack a \<and> src_id a = of_nat (hid h1)"
      "\<forall>r < num_hosts e. recv_items e r h' = replicate (window_size e) None \<and>
        recv_lfr h' ! r = recv_lfr h1 ! r + of_nat (length (from_peer r fs)) \<and>
        map seq_num (for_peer r acks) = map seq_num (from_peer r fs)" by auto
  from n(5) obtain ack where ack: "recv_effect h h1 ack" "is_valid_ack ack"
    "src_id ack = of_nat (hid h)" "unat (dst_id ack) = q" "seq_num ack = seq_num f" by blast
  have "recv_items e r h' = replicate (window_size e) None \<and>
      recv_lfr h' ! r = recv_lfr h ! r + of_nat (length (from_peer r (f # fs))) \<and>
      map seq_num (for_peer r (ack # acks)) = map seq_num (from_peer r (f # fs))" if r: "r < num_hosts e" for r
    using a(3) r n(3,4) c(1) ack(4,5) by (cases "r = q") (simp_all add: q_def)
  with a(2) ack(2,3) n(6) rx_effect_trans [OF ack(1) a(1)] show ?case by (intro exI [of _ "ack # acks"]) simp
qed (auto intro!: exI [of _ "[]"] simp: rx_effect_refl)

section \<open>A round\<close>

text \<open>Between rounds: all hosts are in step, and have accepted all that is in the windows.\<close>

definition level :: "env \<Rightarrow> net \<Rightarrow> bool" where
  "level e s \<longleftrightarrow> (\<forall>i < num_hosts e. in_step e (hosts s ! i) \<and> (\<forall>q < num_hosts e.
     recv_items e i (hosts s ! q) = replicate (window_size e) None \<and>
     recv_lfr (hosts s ! q) ! i = dup_acks_seq_num (hosts s ! i) ! q + of_nat (cq_get_length_send q (hosts s ! i))))"

text \<open>The sending side of a host as the later phases leave it.\<close>

definition same_tx :: "env \<Rightarrow> host \<Rightarrow> host \<Rightarrow> bool" where
  "same_tx e h h' \<longleftrightarrow> dup_acks_seq_num h' = dup_acks_seq_num h \<and> curr_seq_num h' = curr_seq_num h \<and>
     buffered_outframes h' = buffered_outframes h \<and> active h' = active h \<and> (\<forall>q. send_items e q h' = send_items e q h)"

lemma same_tx_trans: "same_tx e h h' \<Longrightarrow> same_tx e h' h'' \<Longrightarrow> same_tx e h h''"
  by (simp add: same_tx_def)

lemma same_tx_simps:
  assumes "same_tx e h h'"
  shows "dup_ok e q h' = dup_ok e q h" "cq_get_length_send q h' = cq_get_length_send q h"
  using assms length_send_items [of e q h] length_send_items [of e q h']
  by (simp_all add: same_tx_def dup_ok_def pending_def)

lemma same_tx_queues: "same_tx e h (h\<lparr>outgoing_frames := fs, incoming_frames := gs\<rparr>)"
proof -
  have "send_items e q (h\<lparr>outgoing_frames := fs, incoming_frames := gs\<rparr>) = send_items e q h" for q
    by (rule send_queue_cong) simp_all
  then show ?thesis by (simp add: same_tx_def)
qed

lemma same_tx_incoming: "same_tx e (h\<lparr>incoming_frames := gs\<rparr>) h' = same_tx e h h'"
proof -
  have "send_items e q (h\<lparr>incoming_frames := gs\<rparr>) = send_items e q h" for q by (rule send_queue_cong) simp_all
  then show ?thesis by (simp add: same_tx_def)
qed

lemma same_tx_rx_effect:
  assumes "rx_effect h h' acks"
  shows "same_tx e h h'"
proof -
  obtain W S L M m where h': "h' = h\<lparr>recv_window := W, recv_window_start := S, recv_lfr := L,
     recv_msg := M, outgoing_frames := outgoing_frames h @ acks, mallocs := m\<rparr>"
    using assms unfolding rx_effect_def by blast
  have "send_items e q h' = send_items e q h" for q by (rule send_queue_cong) (simp_all add: h')
  then show ?thesis by (simp add: same_tx_def) (simp add: h')
qed

lemma moved_same:
  assumes "moved e s s'" and "i < num_hosts e"
  shows "same_tx e (hosts s ! i) (hosts s' ! i)" "rx_view e q (hosts s' ! i) = rx_view e q (hosts s ! i)"
    "hid (hosts s' ! i) = hid (hosts s ! i)"
  by (rule moved_hostE [OF assms]; simp add: same_tx_queues queue_update_simps)+

text \<open>First phase.\<close>

lemma senders_level:
  assumes sim: "sim_ok e" and inv: "net_inv e ms g s" and lv: "level e s"
  shows "\<exists>s1. run_senders e s = Inr s1 \<and> (\<forall>i < num_hosts e. stepped e (hosts s ! i) (hosts s1 ! i) \<and>
    (\<forall>q. rx_view e q (hosts s1 ! i) = rx_view e q (hosts s ! i)))"
proof -
  obtain xs r where o: "get_rand_seq e (num_hosts e) s = (xs, s\<lparr>rands := r\<rparr>)" "set xs = {..<num_hosts e}" "distinct xs"
    by (rule get_rand_seq_perm)
  have net: "net_ok e ms g s" and len: "length (hosts s) = num_hosts e" using inv by (simp_all add: net_inv_def net_ok_def)
  have turn: "\<exists>h' d. run_sender e (hosts s ! i) = Inr (h', d) \<and> stepped e (hosts s ! i) h' \<and>
      (\<forall>q. rx_view e q h' = rx_view e q (hosts s ! i))" if i: "i < num_hosts e" for i
  proof -
    have h: "host_ok e (ms i) (g_sent g i) (g_base g i) (g_got g i) i (hosts s ! i)" by (rule host_link(1) [OF net i i])
    then obtain queued where "\<forall>q. groups (g_sent g i q) (queued q)" unfolding host_ok_def by blast
    from run_sender_in_step [OF _ _ _ _ this, of e "g_base g i" "hosts s ! i"] h sim lv i obtain h' d where
      t: "run_sender e (hosts s ! i) = Inr (h', d)" "stepped e (hosts s ! i) h'"
      by (auto simp: host_ok_def sim_ok_def level_def)
    have "acks_in e (g_base g i) (g_got g i) (hosts s ! i)" using inv i by (simp add: net_inv_def)
    from run_sender_host [OF sim h this] t show ?thesis by auto
  qed
  let ?F = "\<lambda>i s. rbind (arr_get (hosts s) i) (\<lambda>h. rbind (run_sender e h) (\<lambda>(h, d).
      Inr (s\<lparr>hosts := (hosts s)[i := h], diags := diags s @ d\<rparr>)))"
  have hr: "hosts (s\<lparr>rands := r\<rparr>) = hosts s" by simp
  have "set xs \<subseteq> {..<length (hosts (s\<lparr>rands := r\<rparr>))}" using o(2) len by simp
  note loop = turns_loop [of xs "s\<lparr>rands := r\<rparr>" "\<lambda>i h d s. s\<lparr>hosts := (hosts s)[i := h], diags := diags s @ d\<rparr>" "run_sender e",
      OF o(3) this, unfolded hr, simplified]
  have "run_senders e s = rfold ?F xs (s\<lparr>rands := r\<rparr>)" using o(1) by (simp add: run_senders_def)
  then show ?thesis
    using loop turn o(2) len by (cases "rfold ?F xs (s\<lparr>rands := r\<rparr>)") fastforce+
qed

text \<open>Second phase.\<close>

lemma turned_tidy:
  assumes cfg: "cfg_ok e" and net: "net_ok e ms g s"
    and t: "\<forall>i < num_hosts e. turned e (lo i) (g_sent g i) (g_base g i) (hosts s ! i)"
  shows "net_sane e s" "tidy e s" "\<forall>q < num_hosts e. incoming_frames (hosts s ! q) = []"
proof -
  have n: "num_hosts e \<le> 256" using cfg by (simp add: cfg_ok_def)
  have "frame_sane e f \<and> unat (src_id f) = i" if i: "i < num_hosts e" and f: "f \<in> set (outgoing_frames (hosts s ! i))" for i f
  proof -
    obtain q k where q: "q < num_hosts e" "k < win_end (g_base g i) (hosts s ! i) q" "f = g_sent g i q ! k"
      using t i f by (force simp: turned_def sendable_def)
    with stream_frame(2,3) [OF net i q(1,2)] i n show ?thesis by (simp add: data_frame_def unat_u8_small)
  qed
  with net t show "net_sane e s" "tidy e s" "\<forall>q < num_hosts e. incoming_frames (hosts s ! q) = []"
    by (simp_all add: net_sane_def tidy_def net_ok_def turned_def)
qed

lemma data_level:
  assumes l: "lossless e" "rounding_ok e" and cfg: "cfg_ok e" and net: "net_ok e ms g s"
    and t: "\<forall>i < num_hosts e. turned e (lo i) (g_sent g i) (g_base g i) (hosts s ! i)"
    and st: "\<forall>i < num_hosts e. stepped e (h0 i) (hosts s ! i)"
    and run: "send_data_frames e s = Inr s'"
  shows "moved e s s'" and "tidy e s'"
    and "\<forall>j < num_hosts e. \<forall>q < num_hosts e. from_peer j (incoming_frames (hosts s' ! q)) = map fst (send_items e q (hosts s ! j))"
proof -
  note td = turned_tidy [OF cfg net t]
  show "moved e s s'" using send_data_frames_spec [OF cfg td(1)] run by auto
  have win: "for_peer q (outgoing_frames (hosts s ! j)) = map fst (send_items e q (hosts s ! j))"
    if "j < num_hosts e" "q < num_hosts e" for j q using st that by (simp add: stepped_def)
  moreover have "cq_get_length_send q (hosts s ! j) \<le> window_size e" if "j < num_hosts e" "q < num_hosts e" for j q
    using host_link(1) [OF net that] tx_window(2) that(2) by (auto simp: host_ok_def)
  ultimately have "\<forall>j < num_hosts e. \<forall>q < num_hosts e. length (for_peer q (outgoing_frames (hosts s ! j))) \<le> window_size e"
    by simp
  note da = data_arrives [OF l cfg td(1,2,3) this run]
  show "tidy e s'" by (rule da(2))
  show "\<forall>j < num_hosts e. \<forall>q < num_hosts e. from_peer j (incoming_frames (hosts s' ! q)) = map fst (send_items e q (hosts s ! j))"
    using da(1) win by simp
qed

text \<open>Third phase.\<close>

definition received :: "env \<Rightarrow> nat \<Rightarrow> host \<Rightarrow> host \<Rightarrow> bool" where
  "received e q h h' \<longleftrightarrow> same_tx e h h' \<and> (\<forall>a \<in> set (outgoing_frames h'). is_valid_ack a \<and> unat (src_id a) = q) \<and>
     (\<forall>i < num_hosts e. map seq_num (for_peer i (outgoing_frames h')) = map seq_num (from_peer i (incoming_frames h)) \<and>
       recv_items e i h' = replicate (window_size e) None \<and>
       recv_lfr h' ! i = recv_lfr h ! i + of_nat (length (from_peer i (incoming_frames h))))"

lemma receiver_turn:
  assumes ok: "windows_ok e h" and q: "hid h = q" "q < num_hosts e" and out: "outgoing_frames h = []"
    and inc: "\<forall>f \<in> set (incoming_frames h). frame_valid f \<and> unat (src_id f) < num_hosts e"
    and rx: "\<forall>i < num_hosts e. recv_items e i h = replicate (window_size e) None \<and>
      consecutive_from (recv_lfr h ! i) (from_peer i (incoming_frames h))"
    and run: "handle_incoming_frames e h = Inr (h', d)"
  shows "received e q h h'"
proof -
  let ?h = "h\<lparr>incoming_frames := []\<rparr>"
  have ok': "windows_ok e ?h" using ok by (subst windows_ok_cong [of ?h h]) simp_all
  have it: "recv_items e i ?h = recv_items e i h" for i by (rule recv_queue_cong) simp_all
  have n: "num_hosts e \<le> 256" using ok by (simp add: windows_ok_def cfg_ok_def)
  from run have "rfold (\<lambda>f (h, out). rbind (handle_incoming_frame e f h) (\<lambda>(h, o1).
         Inr (h, out @ map (Pair (unat (src_id f))) o1))) (incoming_frames h) (?h, []) = Inr (h', d)"
    by (simp add: handle_incoming_frames_def)
  from receive_batch_in_order [OF ok' inc _ this] rx obtain acks where
    a: "rx_effect ?h h' acks" "\<forall>a \<in> set acks. is_valid_ack a \<and> src_id a = of_nat (hid h)"
      "\<forall>i < num_hosts e. recv_items e i h' = replicate (window_size e) None \<and>
        recv_lfr h' ! i = recv_lfr h ! i + of_nat (length (from_peer i (incoming_frames h))) \<and>
        map seq_num (for_peer i acks) = map seq_num (from_peer i (incoming_frames h))" by (auto simp: it)
  have "outgoing_frames h' = acks" using rx_effect_fields(1) [OF a(1)] out by simp
  moreover have "same_tx e h h'" using same_tx_rx_effect [OF a(1)] by (simp add: same_tx_incoming)
  moreover have "unat (of_nat q :: u8) = q" using q(2) n by (simp add: unat_u8_small)
  ultimately show ?thesis using a(2,3) q(1) by (auto simp: received_def)
qed

lemma receivers_level:
  assumes len: "length (hosts s) = num_hosts e" and run: "run_receivers e s = Inr s'"
    and turn: "\<And>q h' d. q < num_hosts e \<Longrightarrow> handle_incoming_frames e (hosts s ! q) = Inr (h', d) \<Longrightarrow> received e q (hosts s ! q) h'"
  shows "\<forall>q < num_hosts e. received e q (hosts s ! q) (hosts s' ! q)"
proof -
  obtain xs r where o: "get_rand_seq e (num_hosts e) s = (xs, s\<lparr>rands := r\<rparr>)" "set xs = {..<num_hosts e}" "distinct xs"
    by (rule get_rand_seq_perm)
  have hr: "hosts (s\<lparr>rands := r\<rparr>) = hosts s" by simp
  have "set xs \<subseteq> {..<length (hosts (s\<lparr>rands := r\<rparr>))}" using o(2) len by simp
  note loop = turns_loop [of xs "s\<lparr>rands := r\<rparr>" "\<lambda>i h d s. s\<lparr>hosts := (hosts s)[i := h], printed := printed s @ map (Pair i) d\<rparr>"
      "handle_incoming_frames e", OF o(3) this, unfolded hr, simplified]
  from run o(1) have "rfold (\<lambda>i s. rbind (arr_get (hosts s) i) (\<lambda>h. rbind (handle_incoming_frames e h) (\<lambda>(h, d).
      Inr (s\<lparr>hosts := (hosts s)[i := h], printed := printed s @ map (Pair i) d\<rparr>)))) xs (s\<lparr>rands := r\<rparr>) = Inr s'"
    by (simp add: run_receivers_def)
  with loop o(2) len have "\<forall>q < num_hosts e. \<exists>d. handle_incoming_frames e (hosts s ! q) = Inr (hosts s' ! q, d)" by simp
  with turn show ?thesis by blast
qed

text \<open>Fourth phase.\<close>

lemma acked_tidy:
  assumes cfg: "cfg_ok e" and net: "net_ok e ms g s" and a: "\<forall>q < num_hosts e. acked e g q (hosts s ! q)"
  shows "net_sane e s" "tidy e s" "\<forall>q < num_hosts e. incoming_frames (hosts s ! q) = []"
proof -
  have n: "num_hosts e \<le> 256" using cfg by (simp add: cfg_ok_def)
  have "frame_sane e f \<and> unat (src_id f) = q" if q: "q < num_hosts e" and "f \<in> set (outgoing_frames (hosts s ! q))" for q f
  proof -
    from a that obtain j k where "j < num_hosts e" "j \<noteq> q" "ack_for q j k f" unfolding acked_def by blast
    with ack_frame_sane q n show ?thesis by blast
  qed
  with net a show "net_sane e s" "tidy e s" "\<forall>q < num_hosts e. incoming_frames (hosts s ! q) = []"
    by (simp_all add: net_sane_def tidy_def net_ok_def acked_def)
qed

section \<open>A round stays level\<close>

definition shrinks :: "env \<Rightarrow> net \<Rightarrow> net \<Rightarrow> bool" where
  "shrinks e s s' \<longleftrightarrow> (\<forall>i < num_hosts e. input_cmdlist (hosts s ! i) = [] \<longrightarrow>
     length (buffered_outframes (hosts s' ! i)) \<le> length (buffered_outframes (hosts s ! i)) - 1 \<and>
     (buffered_outframes (hosts s ! i) = [] \<longrightarrow> \<not> active (hosts s' ! i)))"

lemma windows_consecutive:
  assumes "tx_inv e sent base h" and "q < num_hosts e"
  shows "consecutive_from (of_nat (base q) - 1) (map fst (send_items e q h))"
  by (rule consecutive_fromI) (use tx_item [OF assms] in simp)

lemma windows_valid:
  assumes "tx_inv e sent base h" and "q < num_hosts e" and "f \<in> set (map fst (send_items e q h))"
  shows "data_frame (hid h) q f"
proof -
  have "f \<in> set (sent q)" using assms(3) unfolding tx_window(1) [OF assms(1,2)] by (auto dest: in_set_takeD in_set_dropD)
  then show ?thesis using assms(1,2) by (auto simp: tx_inv_def stream_def)
qed

lemma from_peer_mem: "f \<in> set fs \<Longrightarrow> f \<in> set (from_peer (unat (src_id f)) fs)"
  by (simp add: from_peer_def)

lemma receivers_in_step:
  assumes net: "net_ok e ms g s1" "net_ok e ms g s2" and mv: "moved e s1 s2" and td: "tidy e s2"
    and quiet: "\<forall>q < num_hosts e. outgoing_frames (hosts s2 ! q) = []"
    and arr: "\<forall>i < num_hosts e. \<forall>q < num_hosts e. from_peer i (incoming_frames (hosts s2 ! q)) = map fst (send_items e q (hosts s1 ! i))"
    and rx: "\<forall>i < num_hosts e. \<forall>q < num_hosts e. recv_items e i (hosts s1 ! q) = replicate (window_size e) None \<and>
      dup_ok e q (hosts s1 ! i) \<and> recv_lfr (hosts s1 ! q) ! i = dup_acks_seq_num (hosts s1 ! i) ! q"
    and run: "run_receivers e s2 = Inr s3"
  shows "\<forall>q < num_hosts e. received e q (hosts s2 ! q) (hosts s3 ! q)"
proof (rule receivers_level [OF _ run])
  show "length (hosts s2) = num_hosts e" using net(2) by (simp add: net_ok_def)
  fix q h' d
  assume q: "q < num_hosts e" and run: "handle_incoming_frames e (hosts s2 ! q) = Inr (h', d)"
  have tx: "tx_inv e (g_sent g i) (g_base g i) (hosts s1 ! i)" "hid (hosts s1 ! i) = i" if i: "i < num_hosts e" for i
    using host_link(1) [OF net(1) i i] by (simp_all add: host_ok_def)
  show "received e q (hosts s2 ! q) h'"
  proof (rule receiver_turn [OF _ _ q _ _ _ run])
    show "windows_ok e (hosts s2 ! q)" "hid (hosts s2 ! q) = q" "outgoing_frames (hosts s2 ! q) = []"
      using host_link(1) [OF net(2) q q] quiet q by (simp_all add: host_ok_def tx_inv_def)
    show "\<forall>f \<in> set (incoming_frames (hosts s2 ! q)). frame_valid f \<and> unat (src_id f) < num_hosts e"
    proof
      fix f assume f: "f \<in> set (incoming_frames (hosts s2 ! q))"
      then have j: "unat (src_id f) < num_hosts e" using td q by (simp add: tidy_def)
      with arr q from_peer_mem [OF f] have "f \<in> set (map fst (send_items e q (hosts s1 ! unat (src_id f))))" by simp
      from windows_valid [OF tx(1) [OF j] q this] j show "frame_valid f \<and> unat (src_id f) < num_hosts e"
        by (simp add: data_frame_def)
    qed
    show "\<forall>i < num_hosts e. recv_items e i (hosts s2 ! q) = replicate (window_size e) None \<and>
        consecutive_from (recv_lfr (hosts s2 ! q) ! i) (from_peer i (incoming_frames (hosts s2 ! q)))"
    proof (intro allI impI)
      fix i assume i: "i < num_hosts e"
      have "recv_lfr (hosts s1 ! q) ! i = of_nat (g_base g i q) - 1"
        using rx i q dup_ok_base [OF tx(1) [OF i] q] by simp
      then show "recv_items e i (hosts s2 ! q) = replicate (window_size e) None \<and>
          consecutive_from (recv_lfr (hosts s2 ! q) ! i) (from_peer i (incoming_frames (hosts s2 ! q)))"
        using rx i q arr windows_consecutive [OF tx(1) [OF i] q] moved_same(2) [OF mv q, of i] by (simp add: rx_view_def)
    qed
  qed
qed

text \<open>What the four phases have done to host \<open>i\<close>, together.\<close>

lemma in_step_again:
  assumes i: "i < num_hosts e" and st: "stepped e h0 (hosts s1 ! i)" and tx: "same_tx e (hosts s1 ! i) (hosts s4 ! i)"
    and td: "tidy e s1" "tidy e s4" and out: "outgoing_frames (hosts s4 ! i) = []"
    and seqs: "\<forall>q < num_hosts e. map seq_num (from_peer q (incoming_frames (hosts s4 ! i))) =
      map (seq_num \<circ> fst) (send_items e q (hosts s1 ! i))"
    and valid: "\<forall>q < num_hosts e. \<forall>f \<in> set (from_peer q (incoming_frames (hosts s4 ! i))). is_valid_ack f"
  shows "in_step e (hosts s4 ! i)"
proof -
  have "dup_ok e q (hosts s4 ! i) \<and>
      map seq_num (from_peer q (incoming_frames (hosts s4 ! i))) = map (seq_num \<circ> fst) (send_items e q (hosts s4 ! i))"
    if q: "q < num_hosts e" for q
    using seqs st q tx by (simp add: same_tx_simps [OF tx] stepped_def) (simp add: same_tx_def)
  moreover have "is_valid_ack f \<and> unat (src_id f) < num_hosts e" if f: "f \<in> set (incoming_frames (hosts s4 ! i))" for f
  proof -
    have "unat (src_id f) < num_hosts e" using td(2) i f by (simp add: tidy_def)
    with valid from_peer_mem [OF f] show ?thesis by blast
  qed
  moreover have "incoming_frames (hosts s4 ! i) \<noteq> []" if "buffered_outframes (hosts s4 ! i) \<noteq> []"
  proof -
    have "outgoing_frames (hosts s1 ! i) \<noteq> []" using that tx st by (simp add: same_tx_def stepped_def)
    then obtain f where f: "f \<in> set (outgoing_frames (hosts s1 ! i))" by (cases "outgoing_frames (hosts s1 ! i)") auto
    let ?q = "unat (dst_id f)"
    have q: "?q < num_hosts e" using td(1) i f by (simp add: tidy_def frame_sane_def)
    have "for_peer ?q (outgoing_frames (hosts s1 ! i)) \<noteq> []" using f by (auto simp: for_peer_def filter_empty_conv)
    then have "send_items e ?q (hosts s1 ! i) \<noteq> []" using st q by (simp add: stepped_def)
    then have "from_peer ?q (incoming_frames (hosts s4 ! i)) \<noteq> []" using seqs q by (metis map_is_Nil_conv)
    then show ?thesis by auto
  qed
  ultimately show ?thesis using out by (simp add: in_step_def)
qed

lemma round_level:
  assumes sim: "sim_ok e" and l: "lossless e" and inv: "net_inv e ms g s" and lv: "level e s"
  shows "\<exists>s'. run_hosts e s = Inr s' \<and> level e s' \<and> shrinks e s s'"
proof -
  let ?n = "num_hosts e"
  have cfg: "cfg_ok e" and r: "rounding_ok e" using sim by (simp_all add: sim_ok_def)
  from senders_level [OF sim inv lv] obtain s1 where s1: "run_senders e s = Inr s1"
    and st: "\<forall>i < ?n. stepped e (hosts s ! i) (hosts s1 ! i)"
    and rx1: "\<And>i q. i < ?n \<Longrightarrow> rx_view e q (hosts s1 ! i) = rx_view e q (hosts s ! i)" by blast
  from run_hosts_phases [OF sim inv s1] obtain g1 s2 s3 g3 s4 where
    p: "net_ok e ms g1 s1" "\<forall>i < ?n. turned e (g_base g i) (g_sent g1 i) (g_base g1 i) (hosts s1 ! i)"
      "send_data_frames e s1 = Inr s2" "net_ok e ms g1 s2" "run_receivers e s2 = Inr s3" "net_ok e ms g3 s3"
      "\<forall>q < ?n. acked e g3 q (hosts s3 ! q)" "send_ack_frames e s3 = Inr s4" "net_inv e ms g3 s4" by metis
  note d = data_level [OF l r cfg p(1,2) st p(3)] and td = turned_tidy [OF cfg p(1,2)] and ad = acked_tidy [OF cfg p(6,7)]
  have out: "\<forall>q < ?n. outgoing_frames (hosts s2 ! q) = []" "\<forall>q < ?n. outgoing_frames (hosts s4 ! q) = []" "moved e s3 s4"
    using send_data_frames_spec [OF cfg td(1)] p(3) send_ack_frames_spec [OF ad(1)] p(8) by auto
  have rx: "recv_items e i (hosts s1 ! q) = replicate (window_size e) None \<and> dup_ok e q (hosts s1 ! i) \<and>
      recv_lfr (hosts s1 ! q) ! i = dup_acks_seq_num (hosts s1 ! i) ! q" if "i < ?n" "q < ?n" for i q
    using lv st rx1 [of q i] that by (simp add: level_def stepped_def rx_view_def)
  then have rv: "\<forall>q < ?n. received e q (hosts s2 ! q) (hosts s3 ! q)"
    using receivers_in_step [OF p(1,4) d(1,2) out(1) d(3) _ p(5)] by blast
  note aa = acks_arrive [OF l r ad p(8)]
  have tx: "same_tx e (hosts s1 ! i) (hosts s4 ! i)" if i: "i < ?n" for i
    using moved_same(1) [OF d(1) i] rv i moved_same(1) [OF out(3) i] same_tx_trans by (metis received_def)
  have "in_step e (hosts s4 ! i)" if i: "i < ?n" for i
  proof (rule in_step_again [OF i _ tx [OF i] td(2) aa(2)])
    show "stepped e (hosts s ! i) (hosts s1 ! i)" "outgoing_frames (hosts s4 ! i) = []" using st out(2) i by simp_all
    have "map seq_num (from_peer q (incoming_frames (hosts s4 ! i))) = map seq_num (from_peer i (incoming_frames (hosts s2 ! q)))"
      if "q < ?n" for q using aa(1) rv i that by (simp add: received_def)
    then show "\<forall>q < ?n. map seq_num (from_peer q (incoming_frames (hosts s4 ! i))) = map (seq_num \<circ> fst) (send_items e q (hosts s1 ! i))"
      using d(3) i by simp
    show "\<forall>q < ?n. \<forall>f \<in> set (from_peer q (incoming_frames (hosts s4 ! i))). is_valid_ack f"
      using aa(1) rv i by (simp add: received_def for_peer_def)
  qed
  moreover have "recv_items e i (hosts s4 ! q) = replicate (window_size e) None \<and>
      recv_lfr (hosts s4 ! q) ! i = dup_acks_seq_num (hosts s4 ! i) ! q + of_nat (cq_get_length_send q (hosts s4 ! i))"
    if i: "i < ?n" and q: "q < ?n" for i q
  proof -
    have "rx_view e i (hosts s4 ! q) = rx_view e i (hosts s3 ! q)" "rx_view e i (hosts s2 ! q) = rx_view e i (hosts s1 ! q)"
      by (rule moved_same(2) [OF out(3) q], rule moved_same(2) [OF d(1) q])
    moreover have "length (from_peer i (incoming_frames (hosts s2 ! q))) = cq_get_length_send q (hosts s1 ! i)" using d(3) i q by simp
    ultimately show ?thesis
      using rv i q rx [OF i q] tx [OF i] same_tx_simps(2) [OF tx [OF i], of q] by (simp add: rx_view_def received_def same_tx_def)
  qed
  ultimately have "level e s4" by (simp add: level_def)
  moreover have "shrinks e s s4" using st tx by (simp add: shrinks_def stepped_def same_tx_def)
  moreover have "run_hosts e s = Inr s4" by (simp add: run_hosts_def s1 p(3,5,8))
  ultimately show ?thesis by blast
qed

section \<open>Runs stay level\<close>

lemma init_level:
  assumes cfg: "cfg_ok e"
  shows "level e (init_net e)"
proof -
  have h: "hosts (init_net e) ! i = init_host e i" if "i < num_hosts e" for i
    using that by (simp add: init_net_def)
  have q: "incoming_frames (init_host e i) = []" "outgoing_frames (init_host e i) = []" "buffered_outframes (init_host e i) = []" for i
    by (simp_all add: init_host_def Let_def)
  have n: "dup_acks_seq_num (init_host e i) ! r = - 1" "curr_seq_num (init_host e i) ! r = 0"
    "cq_get_length_send r (init_host e i) = 0" "recv_lfr (init_host e i) ! r = - 1" if "r < num_hosts e" for i r
    using that by (simp_all add: init_host_def Let_def cq_get_length_send_def)
  have p: "pending e r (init_host e i) = []" if "r < num_hosts e" for i r
    using init_queues(1) [OF cfg that] q(3) by (simp add: pending_def)
  show ?thesis
    using init_queues [OF cfg] by (simp add: level_def in_step_def dup_ok_def h q n p)
qed

lemma level_command:
  assumes lv: "level e s" and len: "length (hosts s) = num_hosts e" and line: "line_ok e i j m"
  shows "level e (queue_cmd e (int i) (int j) m s)"
proof -
  obtain cs where s': "queue_cmd e (int i) (int j) m s = s\<lparr>hosts := (hosts s)[i := (hosts s ! i)\<lparr>input_cmdlist := cs\<rparr>]\<rparr>"
    using line by (simp add: line_ok_def queue_cmd_def upd_host_def)
  define h where "h = (hosts s ! i)\<lparr>input_cmdlist := cs\<rparr>"
  have at: "hosts (queue_cmd e (int i) (int j) m s) ! r = (if r = i then h else hosts s ! r)" if "r < num_hosts e" for r
    using that len by (simp add: s' nth_list_update h_def)
  have tx: "same_tx e (hosts s ! i) h"
  proof -
    have "send_items e q h = send_items e q (hosts s ! i)" for q by (rule send_queue_cong) (simp_all add: h_def)
    then show ?thesis by (simp add: same_tx_def) (simp add: h_def)
  qed
  have rx: "recv_items e q h = recv_items e q (hosts s ! i)" "recv_lfr h = recv_lfr (hosts s ! i)" for q
    by (rule recv_queue_cong, simp_all add: h_def)
  have "in_step e h = in_step e (hosts s ! i)"
    using tx by (simp add: in_step_def same_tx_simps [OF tx]) (simp add: same_tx_def, simp add: h_def)
  then show ?thesis
    using lv tx rx same_tx_simps(2) [OF tx] by (simp add: level_def at same_tx_def)
qed

lemma run_level:
  assumes "run e ms s" and sim: "sim_ok e" and l: "lossless e"
  shows "\<exists>g. net_inv e ms g s \<and> level e s"
  using assms(1)
proof (induction rule: run.induct)
  case run_init
  have "cfg_ok e" using sim by (simp add: sim_ok_def)
  with init_net_inv init_level show ?case by blast
next
  case (run_line ms s i j m)
  then obtain g where g: "net_inv e ms g s" "level e s" by blast
  have cfg: "cfg_ok e" using sim by (simp add: sim_ok_def)
  have "length (hosts s) = num_hosts e" using g(1) by (simp add: net_inv_def net_ok_def)
  with net_inv_command [OF g(1) cfg run_line(2)] level_command [OF g(2) _ run_line(2)] show ?case by blast
next
  case (run_round ms s s')
  then obtain g where g: "net_inv e ms g s" "level e s" by blast
  from round_level [OF sim l g] run_round(2) have "level e s'" by auto
  with run_hosts_inv [OF sim g(1)] run_round(2) show ?case by auto
qed

section \<open>Every lossless run can end\<close>

text \<open>The loop of \<^verbatim>\<open>main\<close> after the last line of the input: rounds, and nothing else.\<close>

primrec rounds :: "nat \<Rightarrow> env \<Rightarrow> net \<Rightarrow> net res" where
  "rounds 0 e s = Inr s"
| "rounds (Suc n) e s = rbind (run_hosts e s) (rounds n e)"

lemma round_settles:
  assumes sim: "sim_ok e" and l: "lossless e" and inv: "net_inv e ms g s" and lv: "level e s"
  obtains s' g' where "run_hosts e s = Inr s'" "net_inv e ms g' s'" "level e s'" "shrinks e s s'"
    "\<forall>i < num_hosts e. idle_ok e (hosts s' ! i)"
  using round_level [OF assms] run_hosts_inv [OF sim inv] by fastforce

lemma rounds_settle:
  assumes sim: "sim_ok e" and l: "lossless e"
  shows "net_inv e ms g s \<Longrightarrow> level e s \<Longrightarrow> \<forall>i < num_hosts e. idle_ok e (hosts s ! i) \<Longrightarrow>
    \<forall>i < num_hosts e. length (buffered_outframes (hosts s ! i)) \<le> b \<Longrightarrow>
    \<exists>s' g'. rounds n e s = Inr s' \<and> net_inv e ms g' s' \<and> (\<forall>i < num_hosts e. idle_ok e (hosts s' ! i)) \<and>
      (b < n \<longrightarrow> (\<forall>i < num_hosts e. \<not> active (hosts s' ! i)))"
proof (induction n arbitrary: s g b)
  case (Suc n)
  from round_settles [OF sim l Suc.prems(1,2)] obtain s1 g1 where
    r: "run_hosts e s = Inr s1" "net_inv e ms g1 s1" "level e s1" "shrinks e s s1" "\<forall>i < num_hosts e. idle_ok e (hosts s1 ! i)" .
  have sh: "length (buffered_outframes (hosts s1 ! i)) \<le> b - 1" "b = 0 \<Longrightarrow> \<not> active (hosts s1 ! i)" if i: "i < num_hosts e" for i
  proof -
    have "input_cmdlist (hosts s ! i) = []" "length (buffered_outframes (hosts s ! i)) \<le> b"
      using Suc.prems(3,4) i by (simp_all add: idle_ok_def)
    with r(4) i show "length (buffered_outframes (hosts s1 ! i)) \<le> b - 1" "b = 0 \<Longrightarrow> \<not> active (hosts s1 ! i)"
      by (fastforce simp: shrinks_def)+
  qed
  from Suc.IH [OF r(2,3,5), of "b - 1"] sh(1) obtain s' g' where
    s': "rounds n e s1 = Inr s'" "net_inv e ms g' s'" "\<forall>i < num_hosts e. idle_ok e (hosts s' ! i)"
    "b - 1 < n \<longrightarrow> (\<forall>i < num_hosts e. \<not> active (hosts s' ! i))" by blast
  have "\<not> active (hosts s' ! i)" if "b < Suc n" "i < num_hosts e" for i
  proof (cases n)
    case 0
    with that s'(1) sh(2) show ?thesis by simp
  next
    case (Suc m)
    with that s'(4) show ?thesis by simp
  qed
  with r(1) s'(1-3) show ?case by auto
qed auto

lemma rounds_enough:
  assumes sim: "sim_ok e" and l: "lossless e" and inv: "net_inv e ms g s" and lv: "level e s"
  shows "\<exists>m. \<forall>n \<ge> m. \<exists>s' g'. rounds n e s = Inr s' \<and> net_inv e ms g' s' \<and>
    (\<forall>i < num_hosts e. idle_ok e (hosts s' ! i) \<and> \<not> active (hosts s' ! i))"
proof -
  from round_settles [OF assms] obtain s1 g1 where
    r: "run_hosts e s = Inr s1" "net_inv e ms g1 s1" "level e s1" "\<forall>i < num_hosts e. idle_ok e (hosts s1 ! i)" by metis
  define b where "b = (\<Sum>i < num_hosts e. length (buffered_outframes (hosts s1 ! i)))"
  have b: "\<forall>i < num_hosts e. length (buffered_outframes (hosts s1 ! i)) \<le> b"
    by (auto simp: b_def intro!: member_le_sum)
  have "\<exists>s' g'. rounds n e s = Inr s' \<and> net_inv e ms g' s' \<and>
    (\<forall>i < num_hosts e. idle_ok e (hosts s' ! i) \<and> \<not> active (hosts s' ! i))" if n: "b + 2 \<le> n" for n
  proof -
    obtain k where k: "n = Suc k" "b < k" using n by (cases n) auto
    from rounds_settle [OF sim l r(2-4) b, of k] k r(1) show ?thesis by auto
  qed
  then show ?thesis by blast
qed

lemma inactive_exit: "\<forall>i < num_hosts e. \<not> active (hosts s ! i) \<Longrightarrow> graceful_exit e True s = Inl (ExitCall 0)"
  by (simp add: graceful_exit_def)

text \<open>
  C3: over a channel that damages nothing and a switch that takes a whole window of every host,
  no round ever stops, not even at the uninitialised pointer of \<^verbatim>\<open>retransmit_frame\<close>, and once the
  input is read the hosts finish: after enough rounds a requested exit is granted, and by then every
  message has been printed by its receiver.
\<close>

theorem lossless_delivers:
  assumes "run e ms s" and "sim_ok e" and "lossless e"
  shows "\<exists>m. \<forall>n \<ge> m. \<exists>s'. rounds n e s = Inr s' \<and> graceful_exit e True s' = Inl (ExitCall 0) \<and>
    (\<forall>i < num_hosts e. \<forall>q < num_hosts e. heard q i s' = ms i q)"
proof -
  from run_level [OF assms] obtain g where "net_inv e ms g s" "level e s" by blast
  from rounds_enough [OF assms(2,3) this] obtain m where m: "\<And>n. m \<le> n \<Longrightarrow> \<exists>s' g'. rounds n e s = Inr s' \<and>
    net_inv e ms g' s' \<and> (\<forall>i < num_hosts e. idle_ok e (hosts s' ! i) \<and> \<not> active (hosts s' ! i))" by blast
  show ?thesis
  proof (intro exI [of _ m] allI impI)
    fix n assume "m \<le> n"
    from m [OF this] obtain s' g' where "rounds n e s = Inr s'" "net_inv e ms g' s'"
      "\<forall>i < num_hosts e. idle_ok e (hosts s' ! i) \<and> \<not> active (hosts s' ! i)" by blast
    then show "\<exists>s'. rounds n e s = Inr s' \<and> graceful_exit e True s' = Inl (ExitCall 0) \<and>
      (\<forall>i < num_hosts e. \<forall>q < num_hosts e. heard q i s' = ms i q)"
      using net_inv_all_heard inactive_exit by blast
  qed
qed

lemma lossless_small: "lossless small_env"
  by (simp add: lossless_def small_env_def)

theorem lossless_delivers_witness:
  "\<exists>m. \<forall>n \<ge> m. \<exists>s'. rounds n small_env example_commanded = Inr s' \<and> heard 1 0 s' = [[104, 105]]"
  using lossless_delivers [OF example_run(1) small_env_sim lossless_small]
  by (fastforce simp: small_env_def add_text_def)

end
