(* ===== verification/Finish.thy ===== *)
theory Finish
  imports Start Lossless
begin

text \<open>
  The simulator from the command line to its exit (\<^verbatim>\<open>tcp/src/main.c\<close>): over a channel that loses
  nothing, an \<^verbatim>\<open>exit\<close> in the input ends the program, with everything commanded before it printed.
\<close>

section \<open>The program\<close>

text \<open>\<^verbatim>\<open>main\<close> up to the given iterations of its loop; \<open>ks\<close> says how often each finds input.\<close>

definition simulator ::
  "(u8 list \<Rightarrow> bool) \<Rightarrow> (u8 list \<Rightarrow> config_file option) \<Rightarrow> env \<Rightarrow> u8 list list \<Rightarrow> u8 list \<Rightarrow> nat list \<Rightarrow> (env \<times> prog) res" where
  "simulator exists config_read_file w argv inp ks =
    rbind (main_start exists config_read_file w argv) (\<lambda>(e, s).
    rbind (rfold (main_iteration e) ks (False, inp, s)) (\<lambda>p. Inr (e, p)))"

section \<open>Reading up to the exit\<close>

text \<open>The lines on which \<^verbatim>\<open>check_input\<close> returns 1.\<close>

definition exits :: "u8 list \<Rightarrow> bool" where
  "exits line \<longleftrightarrow> (let sc = scan_command (takeWhile (\<lambda>c. c \<noteq> 0) line) in sc_count sc < 4 \<and> sc_command sc = exit_name)"

lemma handle_line_exits: "handle_line e line s = Inr (r, s') \<Longrightarrow> r = exits line"
  by (auto simp: handle_line_def exits_def Let_def split: if_splits)

text \<open>With the exit as line \<open>x\<close>, a call consumes the lines that are there, but none after the exit.\<close>

lemma check_loop_exit:
  assumes "run e ms s" and "\<forall>l \<in> set (lines_of fp). line_fine e l" and "length fp < 2 ^ 31 - 1" and "0 < n" and "n < 2 ^ 62"
    and "x < length (lines_of fp)" and "exits (lines_of fp ! x)" and "\<forall>y < x. \<not> exits (lines_of fp ! y)"
  shows "\<exists>fp' s'. check_loop e ready n fp s = Inr (if x < ready then 1 else 0, fp', s') \<and>
    lines_of fp' = drop (min ready (Suc x)) (lines_of fp) \<and> length fp' \<le> length fp \<and>
    run e (fold (note_line e) (take (min ready (Suc x)) (lines_of fp)) ms) s'"
  using assms
proof (induction ready arbitrary: ms s fp n x)
  case (Suc ready)
  have ne: "fp \<noteq> []" using Suc.prems(6) by auto
  then obtain r n' where g: "getline n fp = Inr (r, first_line fp, n', drop (length (first_line fp)) fp)" "0 < n'" "n' < 2 ^ 62"
    "sint (word_of_int r :: u32) = int (length (first_line fp))"
    using getline_line [OF Suc.prems(4,5,3)] by auto
  let ?rest = "drop (length (first_line fp)) fp"
  have l: "lines_of fp = first_line fp # lines_of ?rest" by (rule lines_of_simps(2) [OF ne])
  have "line_fine e (first_line fp)" using Suc.prems(2) l by simp
  then obtain ret s1 where h: "handle_line e (first_line fp) s = Inr (ret, s1)" "run e (note_line e (first_line fp) ms) s1"
    using handle_line_run [OF Suc.prems(1)] by blast
  have ret: "ret = exits (first_line fp)" by (rule handle_line_exits [OF h(1)])
  have step: "check_loop e (Suc ready) n fp s = (if ret then Inr (1, ?rest, s1) else check_loop e ready n' ?rest s1)"
    using g h(1) by simp
  show ?case
  proof (cases x)
    case 0
    then have "ret" using ret Suc.prems(7) l by simp
    with step h(2) 0 l show ?thesis by (intro exI [of _ ?rest] exI [of _ s1]) simp
  next
    case (Suc y)
    have "\<not> ret" using ret Suc.prems(8) l Suc by auto
    moreover have "\<forall>l \<in> set (lines_of ?rest). line_fine e l" "length ?rest < 2 ^ 31 - 1" "y < length (lines_of ?rest)"
      "exits (lines_of ?rest ! y)" using Suc.prems(2,3,6,7) l Suc by auto
    moreover have "\<forall>z < y. \<not> exits (lines_of ?rest ! z)"
    proof (intro allI impI)
      fix z assume "z < y"
      then have "\<not> exits (lines_of fp ! Suc z)" using Suc.prems(8) Suc by simp
      then show "\<not> exits (lines_of ?rest ! z)" using l by simp
    qed
    ultimately obtain fp' s' where "check_loop e ready n' ?rest s1 = Inr (if y < ready then 1 else 0, fp', s')"
      "lines_of fp' = drop (min ready (Suc y)) (lines_of ?rest)" "length fp' \<le> length ?rest"
      "run e (fold (note_line e) (take (min ready (Suc y)) (lines_of ?rest)) (note_line e (first_line fp) ms)) s'"
      using Suc.IH [OF h(2) _ _ g(2,3)] by blast
    with step \<open>\<not> ret\<close> Suc show ?thesis by (intro exI [of _ fp'] exI [of _ s']) (simp add: l)
  qed
qed auto

text \<open>The program before it has read the exit at line \<open>x\<close>, and after it.\<close>

definition waiting :: "env \<Rightarrow> u8 list \<Rightarrow> nat \<Rightarrow> nat \<Rightarrow> prog \<Rightarrow> bool" where
  "waiting e inp x k p \<longleftrightarrow> (case p of (b, fp, s) \<Rightarrow> b = (x < k) \<and> lines_of fp = drop k (lines_of inp) \<and>
     length fp \<le> length inp \<and> k \<le> Suc x \<and> run e (commanded e inp k) s)"

definition first_exit :: "u8 list \<Rightarrow> nat \<Rightarrow> bool" where
  "first_exit inp x \<longleftrightarrow> x < length (lines_of inp) \<and> exits (lines_of inp ! x) \<and> (\<forall>y < x. \<not> exits (lines_of inp ! y))"

lemma input_step:
  assumes ok: "input_ok e inp" and x: "first_exit inp x" and w: "waiting e inp x k p"
  shows "\<exists>p'. (if \<not> fst p then handle_input e ready p else Inr p) = Inr p' \<and> waiting e inp x (min (k + ready) (Suc x)) p'"
proof (cases "fst p")
  case True
  then have "k = Suc x" using w by (auto simp: waiting_def)
  with True w show ?thesis by simp
next
  case False
  then obtain fp s where p: "p = (False, fp, s)" by (cases p) auto
  have k: "k \<le> x" "lines_of fp = drop k (lines_of inp)" "length fp \<le> length inp" "run e (commanded e inp k) s"
    using w by (auto simp: waiting_def p)
  have fine: "\<forall>l \<in> set (lines_of fp). line_fine e l" "length fp < 2 ^ 31 - 1"
    using ok k(2,3) by (auto simp: input_ok_def dest: in_set_dropD)
  have size: "0 < DEFAULT_INPUT_BUFFER_SIZE" "DEFAULT_INPUT_BUFFER_SIZE < 2 ^ 62" by (simp_all add: DEFAULT_INPUT_BUFFER_SIZE_def)
  have "x - k < length (lines_of fp)" "exits (lines_of fp ! (x - k))" "\<forall>y < x - k. \<not> exits (lines_of fp ! y)"
    using x k(1,2) by (auto simp: first_exit_def)
  from check_loop_exit [OF k(4) fine size this, of ready] obtain fp' s' where
    c: "check_input e ready fp s = Inr (if x - k < ready then 1 else 0, fp', s')" "length fp' \<le> length fp"
      "lines_of fp' = drop (min ready (Suc (x - k))) (lines_of fp)"
      "run e (fold (note_line e) (take (min ready (Suc (x - k))) (lines_of fp)) (commanded e inp k)) s'"
    unfolding check_input_def by blast
  have m: "min (k + ready) (Suc x) = k + min ready (Suc (x - k))" using k(1) by simp
  have "take (k + j) (lines_of inp) = take k (lines_of inp) @ take j (lines_of fp)" for j by (simp add: k(2) take_add)
  then have "run e (commanded e inp (min (k + ready) (Suc x))) s'" using c(4) by (simp only: m) (simp add: commanded_def)
  moreover have "lines_of fp' = drop (min (k + ready) (Suc x)) (lines_of inp)"
    unfolding m c(3) k(2) by (simp add: add.commute)
  moreover have "handle_input e ready p = Inr (x - k < ready, fp', s')" using c(1) by (simp add: handle_input_def p)
  moreover have "x - k < ready \<longleftrightarrow> x < min (k + ready) (Suc x)" using k(1) by auto
  ultimately show ?thesis using c(2) k(3) by (simp add: waiting_def p)
qed

section \<open>Iterations\<close>

lemma iteration_step:
  assumes "sim_ok e" and "lossless e" and "input_ok e inp" and "first_exit inp x" and "waiting e inp x k p"
  obtains b fp s s' where "(if \<not> fst p then handle_input e ready p else Inr p) = Inr (b, fp, s)"
    "run_hosts e s = Inr s'" "waiting e inp x (min (k + ready) (Suc x)) (b, fp, s)"
    "waiting e inp x (min (k + ready) (Suc x)) (b, fp, s')"
    "main_iteration e ready p = (if b \<and> (\<forall>i < num_hosts e. \<not> active (hosts s' ! i)) then Inl (ExitCall 0) else Inr (b, fp, s'))"
proof -
  let ?k = "min (k + ready) (Suc x)"
  from input_step [OF assms(3-5), of ready] obtain b fp s where
    i: "(if \<not> fst p then handle_input e ready p else Inr p) = Inr (b, fp, s)" "waiting e inp x ?k (b, fp, s)" by auto
  then have r: "run e (commanded e inp ?k) s" by (simp add: waiting_def)
  from run_level [OF r assms(1,2)] obtain g where "net_inv e (commanded e inp ?k) g s" "level e s" by blast
  from round_level [OF assms(1,2) this] obtain s' where s': "run_hosts e s = Inr s'" by blast
  have "waiting e inp x ?k (b, fp, s')" using i(2) run_round [OF r s'] by (simp add: waiting_def)
  moreover have "main_iteration e ready p =
      (if b \<and> (\<forall>i < num_hosts e. \<not> active (hosts s' ! i)) then Inl (ExitCall 0) else Inr (b, fp, s'))"
    unfolding main_iteration_def i(1) by (simp add: s' graceful_exit_def)
  ultimately show ?thesis using that i s' by blast
qed

lemma reading:
  assumes "sim_ok e" and "lossless e" and "input_ok e inp" and "first_exit inp x"
  shows "rfold (main_iteration e) (map ks [0..<t]) (False, inp, init_net e) = Inl (ExitCall 0) \<or>
    (\<exists>p. rfold (main_iteration e) (map ks [0..<t]) (False, inp, init_net e) = Inr p \<and>
      waiting e inp x (min (\<Sum>i < t. ks i) (Suc x)) p)"
proof (induction t)
  case 0
  have "run e (commanded e inp 0) (init_net e)" by (simp add: commanded_def run_init)
  then show ?case by (simp add: waiting_def)
next
  case (Suc t)
  show ?case
  proof (cases "rfold (main_iteration e) (map ks [0..<t]) (False, inp, init_net e)")
    case (Inl f)
    with Suc show ?thesis by (simp add: rfold_append)
  next
    case (Inr p)
    with Suc have "waiting e inp x (min (\<Sum>i < t. ks i) (Suc x)) p" by simp
    from iteration_step [OF assms this, of "ks t"] obtain b fp s s' where
      "main_iteration e (ks t) p = (if b \<and> (\<forall>i < num_hosts e. \<not> active (hosts s' ! i)) then Inl (ExitCall 0) else Inr (b, fp, s'))"
      "waiting e inp x (min (min (\<Sum>i < t. ks i) (Suc x) + ks t) (Suc x)) (b, fp, s')" .
    moreover have "min (min (\<Sum>i < t. ks i) (Suc x) + ks t) (Suc x) = min (\<Sum>i < Suc t. ks i) (Suc x)" by simp
    ultimately show ?thesis using Inr by (simp add: rfold_append)
  qed
qed

text \<open>After the exit is read the iterations are rounds.\<close>

lemma loop_exits:
  "rounds (Suc n) e s = Inr s' \<Longrightarrow> graceful_exit e True s' = Inl (ExitCall 0) \<Longrightarrow> length js = Suc n \<Longrightarrow>
    rfold (main_iteration e) js (True, fp, s) = Inl (ExitCall 0)"
proof (induction n arbitrary: s js)
  case 0
  then show ?case by (cases js) (auto simp: main_iteration_def rbind_Inr_iff)
next
  case (Suc n)
  obtain j js' where js: "js = j # js'" "length js' = Suc n" using Suc.prems(3) by (cases js) auto
  obtain s1 where s1: "run_hosts e s = Inr s1" "rounds (Suc n) e s1 = Inr s'"
    using Suc.prems(1) unfolding rounds.simps(2) [of "Suc n"] rbind_Inr_iff by blast
  have "graceful_exit e True s1 = Inr () \<or> graceful_exit e True s1 = Inl (ExitCall 0)" by (simp add: graceful_exit_def)
  with s1(1) Suc.IH [OF s1(2) Suc.prems(2) js(2)] show ?case by (auto simp: js(1) main_iteration_def)
qed

lemma reads_exit:
  assumes "sim_ok e" and "lossless e" and "input_ok e inp" and "first_exit inp x" and t: "x < (\<Sum>i < t. ks i)"
  shows "\<exists>t'. rfold (main_iteration e) (map ks [0..<t']) (False, inp, init_net e) = Inl (ExitCall 0)"
proof (cases "rfold (main_iteration e) (map ks [0..<t]) (False, inp, init_net e)")
  case (Inl f)
  with reading [OF assms(1-4), of ks t] show ?thesis by (intro exI [of _ t]) simp
next
  case (Inr p)
  have "min (\<Sum>i < t. ks i) (Suc x) = Suc x" using t by simp
  with reading [OF assms(1-4), of ks t] Inr have "waiting e inp x (Suc x) p" by simp
  then obtain fp s where p: "p = (True, fp, s)" "run e (commanded e inp (Suc x)) s" by (auto simp: waiting_def)
  from run_level [OF p(2) assms(1,2)] obtain g where "net_inv e (commanded e inp (Suc x)) g s" "level e s" by blast
  from rounds_enough [OF assms(1,2) this] obtain n s' where "rounds (Suc n) e s = Inr s'"
    "\<forall>i < num_hosts e. \<not> active (hosts s' ! i)" by (meson le_SucI order_refl)
  from loop_exits [OF this(1) inactive_exit [OF this(2)], of "map ks [t..<t + Suc n]" fp] have
    "rfold (main_iteration e) (map ks [0..<t] @ map ks [t..<t + Suc n]) (False, inp, init_net e) = Inl (ExitCall 0)"
    unfolding rfold_append by (simp add: Inr p(1))
  moreover have "map ks [0..<t] @ map ks [t..<t + Suc n] = map ks [0..<t + Suc n]" by (metis map_append upt_add_eq_append zero_le)
  ultimately show ?thesis by metis
qed

section \<open>Properties\<close>

text \<open>
  C2: The program ends: started from a command line and a configuration whose channel loses nothing,
  with an input whose line \<open>x\<close> is the first exit, and with iterations that find input to read often
  enough to reach it, the main loop leaves through \<^verbatim>\<open>graceful_exit\<close>; by then exactly the lines up to
  the exit are read, and each receiver has printed what they command, complete and in order.
\<close>

theorem program_finishes:
  assumes "main_start exists rd w argv = Inr (e, s0)" and "sim_ok e" and "lossless e"
    and "input_ok e inp" and "first_exit inp x" and "x < (\<Sum>i < t. ks i)"
  shows "\<exists>n p fp s s'. simulator exists rd w argv inp (map ks [0..<n]) = Inr (e, p) \<and>
    simulator exists rd w argv inp (map ks [0..<Suc n]) = Inl (ExitCall 0) \<and>
    (if \<not> fst p then handle_input e (ks n) p else Inr p) = Inr (True, fp, s) \<and> run_hosts e s = Inr s' \<and>
    lines_of fp = drop (Suc x) (lines_of inp) \<and>
    (\<forall>i < num_hosts e. \<forall>q < num_hosts e. heard q i s' = commanded e inp (Suc x) i q)"
proof -
  let ?r = "\<lambda>n. rfold (main_iteration e) (map ks [0..<n]) (False, inp, init_net e)"
  have s0: "s0 = init_net e" using assms(1) by (auto simp: main_start_Inr_iff)
  have sim: "simulator exists rd w argv inp js = rbind (rfold (main_iteration e) js (False, inp, init_net e)) (\<lambda>p. Inr (e, p))" for js
    unfolding simulator_def assms(1) s0 by simp
  from reads_exit [OF assms(2-6)] obtain t' where "?r t' = Inl (ExitCall 0)" by blast
  from rfold_Inl [OF this] obtain n p where n: "?r n = Inr p" "main_iteration e (ks n) p = Inl (ExitCall 0)"
    by (auto simp: take_map)
  from reading [OF assms(2-5), of ks n] n(1) have w: "waiting e inp x (min (\<Sum>i < n. ks i) (Suc x)) p" by simp
  let ?k = "min (min (\<Sum>i < n. ks i) (Suc x) + ks n) (Suc x)"
  from iteration_step [OF assms(2-5) w, of "ks n"] obtain b fp s s' where
    i: "(if \<not> fst p then handle_input e (ks n) p else Inr p) = Inr (b, fp, s)" "run_hosts e s = Inr s'"
      "waiting e inp x ?k (b, fp, s)" "waiting e inp x ?k (b, fp, s')"
      "main_iteration e (ks n) p = (if b \<and> (\<forall>i < num_hosts e. \<not> active (hosts s' ! i)) then Inl (ExitCall 0) else Inr (b, fp, s'))" .
  have b: b "\<forall>i < num_hosts e. \<not> active (hosts s' ! i)" using i(5) n(2) by (auto split: if_splits)
  then have k: "?k = Suc x" using i(3) by (auto simp: waiting_def)
  have r: "run e (commanded e inp (Suc x)) s" and lines: "lines_of fp = drop (Suc x) (lines_of inp)"
    using i(3) unfolding k by (simp_all add: waiting_def)
  have "heard q j s' = commanded e inp (Suc x) j q" if "j < num_hosts e" "q < num_hosts e" for j q
    using run_idle [OF r assms(2) i(2) that(1)] net_inv_all_heard [OF _ that] b(2) that(1) by blast
  moreover have "simulator exists rd w argv inp (map ks [0..<Suc n]) = Inl (ExitCall 0)"
    by (simp add: sim rfold_append n)
  moreover have "simulator exists rd w argv inp (map ks [0..<n]) = Inr (e, p)" by (simp add: sim n(1))
  moreover have "(if \<not> fst p then handle_input e (ks n) p else Inr p) = Inr (True, fp, s)" using i(1) b(1) by simp
  ultimately show ?thesis using i(2) lines
    by (intro exI [of _ n] exI [of _ p] exI [of _ fp] exI [of _ s] exI [of _ s'] conjI) simp_all
qed

lemma example_first_exit: "first_exit example_input 1"
proof -
  have "exits (exit_name @ [10])" "\<not> exits example_line"
    by (simp_all only: exits_def Let_def example_scan) simp_all
  then show ?thesis by (simp add: first_exit_def example_lines)
qed

theorem program_finishes_witness:
  "\<exists>n p s s'. simulator (\<lambda>_. True) (\<lambda>_. Some example_config) small_env
      [[115], [45, 116], decimal 0, [45, 115], decimal 0, [45, 114], decimal 1, [45, 112], [99]]
      example_input (map (\<lambda>_. 1) [0..<n]) = Inr (small_env, p) \<and>
    (if \<not> fst p then handle_input small_env 1 p else Inr p) = Inr (True, [], s) \<and>
    run_hosts small_env s = Inr s' \<and> heard 1 0 s' = [[104, 105]]"
proof -
  have n: "num_hosts small_env = 2" by (simp add: small_env_def)
  have "(1 :: nat) < (\<Sum>i < (2 :: nat). 1)" by simp
  from program_finishes [OF start_options_witness small_env_sim lossless_small example_input_ok example_first_exit this]
  obtain n p fp s s' where r: "simulator (\<lambda>_. True) (\<lambda>_. Some example_config) small_env
      [[115], [45, 116], decimal 0, [45, 115], decimal 0, [45, 114], decimal 1, [45, 112], [99]]
      example_input (map (\<lambda>_. 1) [0..<n]) = Inr (small_env, p)"
    "(if \<not> fst p then handle_input small_env 1 p else Inr p) = Inr (True, fp, s)" "run_hosts small_env s = Inr s'"
    "lines_of fp = drop (Suc 1) (lines_of example_input)"
    "\<forall>i < 2. \<forall>q < 2. heard q i s' = commanded small_env example_input (Suc 1) i q" unfolding n by blast
  have "fp = []" using r(4) by (cases "fp = []") (simp_all add: example_lines)
  moreover have "commanded small_env example_input (Suc 1) 0 1 = [[104, 105]]"
    by (simp add: commanded_def example_lines note_line_def example_parse hosts_exist_def n add_text_def)
  ultimately show ?thesis using r(1,2,3,5)
    by (intro exI [of _ n] exI [of _ p] exI [of _ s] exI [of _ s']) simp
qed

end
