(* ===== verification/FaultRun.thy ===== *)
theory FaultRun
  imports Rounds
begin

text \<open>
  A run of the simulator that ends in the read of the uninitialised pointer of \<^verbatim>\<open>retransmit_frame\<close>
  (\<^verbatim>\<open>tcp/src/util.c\<close>), with a channel that damages four frames. Host 0 sends nine messages to host 1;
  frames 0 and 1 and an acknowledgement are damaged, all timers expire, frame 0 is sent again, then frame 1
  is damaged again. The third duplicate acknowledgement sends frame 1 once more, together with frames
  6, 7 and 8, which host 1 has already. The four acknowledgements that come back are equal: the first
  empties the window, the other three are duplicates, and the third of these calls \<^verbatim>\<open>retransmit_frame\<close> on the empty window.
\<close>

section \<open>The run\<close>

text \<open>The checks in \<^verbatim>\<open>send_frame\<close> that come out as a damaged frame, and the moment the timers expire.\<close>

definition fault_env :: env where
  "fault_env = small_env\<lparr>window_size := 9, corrupt_prob := 1 / 1000,
     rand := (\<lambda>k. if k \<in> set [9, 28, 129, 160] then 0 else 1),
     clock := (\<lambda>_ k. \<lparr>tv_sec = if k < 6 then 0 else 10, tv_usec = 0\<rparr>)\<rparr>"

text \<open>The command \<^verbatim>\<open>msg 0 1 a\<close> given \<open>n\<close> times, and a round after it.\<close>

definition say :: "nat \<Rightarrow> net \<Rightarrow> net" where
  "say n s = fold (\<lambda>_. queue_cmd fault_env 0 1 [97]) [0..<n] s"

definition play :: "nat list \<Rightarrow> net \<Rightarrow> net res" where
  "play = rfold (\<lambda>n s. run_hosts fault_env (say n s))"

lemma play_code [code]: "play [] s = Inr s" "play (n # ns) s = rbind (run_hosts fault_env (say n s)) (play ns)"
  by (simp_all add: play_def)

definition data_frame_a :: "nat \<Rightarrow> frame" where
  "data_frame_a k = set_checksum (blank_frame\<lparr>dst_id := 1, flength := 2, seq_num := of_nat k, data := 97 # replicate 55 0\<rparr>)"

definition ack_frame :: "u8 \<Rightarrow> frame" where
  "ack_frame k = set_checksum (blank_frame\<lparr>src_id := 1, is_ack := 1, seq_num := k\<rparr>)"

definition slot_at :: "nat \<Rightarrow> timeval option \<Rightarrow> send_window_slot" where
  "slot_at k t = \<lparr>sframe = Some (data_frame_a k), timeout = t\<rparr>"

text \<open>After four rounds: five frames are sent, 2, 3 and 4 have arrived.\<close>

definition after_4 :: net where
  "after_4 = \<lparr>hosts =
     [(init_host fault_env 0)\<lparr>awaiting_ack := True, active := True, round_trip_num := 4, csv_out := True,
        incoming_frames := [ack_frame 255, ack_frame 255],
        send_window := replicate 9 empty_slot @
          map (\<lambda>k. slot_at k (Some \<lparr>tv_sec = 0, tv_usec = 100000 + 10000 * int k\<rparr>)) [0..<5] @ replicate 4 empty_slot,
        latest_timeout := \<lparr>tv_sec = 0, tv_usec = 50000\<rparr>, send_window_length := [0, 5], curr_seq_num := [0, 5],
        cc := [\<lparr>cwnd = 1, ssthresh = 9, dup_acks = 0, cstate = cc_SS\<rparr>, \<lparr>cwnd = 2, ssthresh = 9, dup_acks = 1, cstate = cc_SS\<rparr>],
        ticks := 5, mallocs := 5\<rparr>,
      (init_host fault_env 1)\<lparr>
        recv_window := [None, None] @ map (\<lambda>k. Some (data_frame_a k)) [2..<5] @ replicate 13 None,
        ticks := 5, mallocs := 3\<rparr>],
     ingress = init_ingress_ports fault_env, rands = 86, printed = [],
     diags = [Diag_acks 1 0 0, Diag_row cc_SS 1 9 1 0 0 0, Diag_acks 2 0 0, Diag_row cc_SS 1 9 1 0 0 0,
        Diag_acks 3 0 0, Diag_row cc_SS 1 9 1 0 0 0, Diag_acks 4 1 1, Diag_row cc_SS 2 9 2 0 0 0]\<rparr>"

text \<open>After seven rounds: frame 0 is acknowledged, frames 3 to 8 are to be sent again.\<close>

definition after_7 :: net where
  "after_7 = \<lparr>hosts =
     [(init_host fault_env 0)\<lparr>awaiting_ack := True, active := True, round_trip_num := 7, csv_out := True,
        incoming_frames := [ack_frame 0],
        send_window := replicate 10 empty_slot @ [slot_at 1 (Some \<lparr>tv_sec = 10, tv_usec = 100000\<rparr>),
          slot_at 2 (Some \<lparr>tv_sec = 10, tv_usec = 110000\<rparr>)] @ map (\<lambda>k. slot_at k None) [3..<9],
        latest_timeout := \<lparr>tv_sec = 10, tv_usec = 0\<rparr>, send_window_start := [0, 1], send_window_length := [0, 8],
        curr_seq_num := [0, 9], dup_acks_seq_num := [255, 0],
        cc := [\<lparr>cwnd = 1, ssthresh = 9, dup_acks = 0, cstate = cc_SS\<rparr>, \<lparr>cwnd = 2, ssthresh = 7 / 2, dup_acks = 0, cstate = cc_SS\<rparr>],
        ticks := 11, mallocs := 9\<rparr>,
      (init_host fault_env 1)\<lparr>
        recv_window := [None, None] @ map (\<lambda>k. Some (data_frame_a k)) [2..<9] @ replicate 9 None,
        recv_window_start := [1, 0], recv_lfr := [0, 255], ticks := 8, mallocs := 9\<rparr>],
     ingress = init_ingress_ports fault_env, rands = 178, printed = [(1, 0, [97])],
     diags = diags after_4 @ [Diag_acks 5 2 2, Diag_row cc_SS 4 9 4 0 0 0, Diag_acks 6 3 3,
        Diag_row cc_SS 1 (7 / 2) 1 0 0 0, Diag_acks 7 1 0, Diag_row cc_SS 2 (7 / 2) 2 0 0 0]\<rparr>"

lemma play_4: "play [1, 1, 1, 2] (init_net fault_env) = Inr after_4"
  by code_simp

lemma play_7: "play [4, 0, 0] after_4 = Inr after_7"
  by code_simp

lemma play_fault: "play [0, 0, 0] after_7 = Inl Uninitialised"
  by code_simp

section \<open>It is a run\<close>

lemma fault_env_sim: "sim_ok fault_env"
proof -
  have "cfg_ok fault_env" using small_env_cfg by (simp add: cfg_ok_def fault_env_def)
  moreover have "rounding_ok fault_env" using small_env_sim by (simp add: sim_ok_def rounding_ok_def fault_env_def)
  ultimately show ?thesis by (simp add: sim_ok_def) (simp add: fault_env_def)
qed

lemma say_run:
  assumes "run fault_env ms s"
  shows "\<exists>ms'. run fault_env ms' (say n s)"
proof (induction n)
  case 0
  show ?case using assms by (auto simp: say_def)
next
  case (Suc n)
  then obtain ms' where ms': "run fault_env ms' (say n s)" by blast
  have "line_ok fault_env 0 1 [97]" by (simp add: line_ok_def fault_env_def small_env_def)
  from run_line [OF ms' this] show ?case by (auto simp: say_def)
qed

lemma play_run:
  assumes "run fault_env ms s" and "play ns s = Inr s'"
  shows "\<exists>ms'. run fault_env ms' s'"
  using assms(2) unfolding play_def
proof (rule rfold_inv [where P = "\<lambda>s. \<exists>ms. run fault_env ms s"])
  show "\<exists>ms. run fault_env ms s" using assms(1) by blast
qed (use say_run run_round in blast)

section \<open>Properties\<close>

text \<open>
  C4: The fault that \<open>round_faults\<close> leaves open does occur: under the assumptions of the other theorems
  on the simulator there is a run in which \<^verbatim>\<open>retransmit_frame\<close> reads a pointer that was never set.
\<close>

theorem uninitialised_read_reached:
  "\<exists>e ms s. sim_ok e \<and> run e ms s \<and> run_hosts e s = Inl Uninitialised"
proof -
  obtain ms where 7: "run fault_env ms after_7" using play_run [OF run_init play_4] play_run [OF _ play_7] by blast
  from rfold_Inl [OF play_fault [unfolded play_def]] obtain i t where
    t: "play (take i [0, 0, 0]) after_7 = Inr t" "run_hosts fault_env (say ([0, 0, 0] ! i) t) = Inl Uninitialised"
    unfolding play_def by blast
  from play_run [OF 7 t(1)] say_run obtain ms' where "run fault_env ms' (say ([0, 0, 0] ! i) t)" by blast
  with t(2) fault_env_sim show ?thesis by blast
qed

end
