(* ===== verification/Packet.thy ===== *)
theory Packet
  imports Prelude
begin

text \<open>
  Packets of the router (\<^verbatim>\<open>router/sr_protocol.h\<close>, \<^verbatim>\<open>router/sr_utils.c\<close>): access to the fields of the
  packed headers inside a buffer of bytes, and the internet checksum. The fields are loaded and
  stored in the byte order of a little-endian host, as the code does after \<^verbatim>\<open>htons\<close>; an access
  outside the buffer is a fault.
\<close>

section \<open>Bytes and words\<close>

definition htons :: "u16 \<Rightarrow> u16" where
  "htons x = push_bit 8 x OR drop_bit 8 x"

definition bytes16 :: "u16 \<Rightarrow> u8 list" where
  "bytes16 x = [ucast x, ucast (drop_bit 8 x)]"

definition word16 :: "u8 \<Rightarrow> u8 \<Rightarrow> u16" where
  "word16 a b = ucast a OR push_bit 8 (ucast b)"

definition bytes32 :: "u32 \<Rightarrow> u8 list" where
  "bytes32 x = [ucast x, ucast (drop_bit 8 x), ucast (drop_bit 16 x), ucast (drop_bit 24 x)]"

definition word32 :: "u8 \<Rightarrow> u8 \<Rightarrow> u8 \<Rightarrow> u8 \<Rightarrow> u32" where
  "word32 a b c d = ucast a OR push_bit 8 (ucast b) OR push_bit 16 (ucast c) OR push_bit 24 (ucast d)"

lemma length_bytes [simp]: "length (bytes16 x) = 2" "length (bytes32 y) = 4"
  by (simp_all add: bytes16_def bytes32_def)

lemma word16_bytes16 [simp]: "word16 (bytes16 x ! 0) (bytes16 x ! 1) = x"
  unfolding word16_def bytes16_def by (rule bit_word_eqI) (auto simp: bit_simps)

lemma word32_bytes32 [simp]: "word32 (bytes32 x ! 0) (bytes32 x ! 1) (bytes32 x ! 2) (bytes32 x ! 3) = x"
proof (rule bit_word_eqI)
  fix n :: nat assume "n < LENGTH(32)"
  then consider "n < 8" | "8 \<le> n" "n < 16" | "16 \<le> n" "n < 24" | "24 \<le> n" "n < 32" by fastforce
  then show "bit (word32 (bytes32 x ! 0) (bytes32 x ! 1) (bytes32 x ! 2) (bytes32 x ! 3)) n = bit x n"
    unfolding word32_def bytes32_def by cases (auto simp: bit_simps le_add_diff_inverse)
qed

declare word16_bytes16 [unfolded One_nat_def, simp] word32_bytes32 [unfolded One_nat_def, simp]

lemma bytes32_word32 [simp]: "bytes32 (word32 a b c d) = [a, b, c, d]"
proof -
  let ?w = "word32 a b c d"
  have "ucast ?w = a" unfolding word32_def by (rule bit_word_eqI) (simp add: bit_simps)
  moreover have "ucast (drop_bit 8 ?w) = b" unfolding word32_def
    by (rule bit_word_eqI) (auto simp: bit_simps dest: bit_imp_le_length)
  moreover have "ucast (drop_bit 16 ?w) = c" unfolding word32_def
    by (rule bit_word_eqI) (auto simp: bit_simps dest: bit_imp_le_length)
  moreover have "ucast (drop_bit 24 ?w) = d" unfolding word32_def
    by (rule bit_word_eqI) (auto simp: bit_simps dest: bit_imp_le_length)
  ultimately show ?thesis by (simp add: bytes32_def)
qed

lemma bytes16_word16 [simp]: "bytes16 (word16 a b) = [a, b]"
proof -
  have "ucast (word16 a b) = a" unfolding word16_def by (rule bit_word_eqI) (simp add: bit_simps)
  moreover have "ucast (drop_bit 8 (word16 a b)) = b" unfolding word16_def
    by (rule bit_word_eqI) (auto simp: bit_simps dest: bit_imp_le_length)
  ultimately show ?thesis by (simp add: bytes16_def)
qed

lemma htons_htons [simp]: "htons (htons x) = x"
  unfolding htons_def by (rule bit_word_eqI) (auto simp: bit_simps)

lemma htons_eq_iff [simp]: "htons x = htons y \<longleftrightarrow> x = y"
  by (metis htons_htons)

lemma htons_const: "htons 0 = 0" "htons 0xffff = 0xffff"
  by (simp_all add: htons_def)

section \<open>Loads and stores\<close>

definition ld8 :: "u8 list \<Rightarrow> nat \<Rightarrow> u8 res" where
  "ld8 = arr_get"

definition ldn :: "nat \<Rightarrow> u8 list \<Rightarrow> nat \<Rightarrow> u8 list res" where
  "ldn n p i = (if i + n \<le> length p then Inr (take n (drop i p)) else Inl OutOfBounds)"

definition stn :: "u8 list \<Rightarrow> nat \<Rightarrow> u8 list \<Rightarrow> u8 list res" where
  "stn p i bs = (if i + length bs \<le> length p then Inr (take i p @ bs @ drop (i + length bs) p) else Inl OutOfBounds)"

definition ld16 :: "u8 list \<Rightarrow> nat \<Rightarrow> u16 res" where
  "ld16 p i = rbind (ldn 2 p i) (\<lambda>b. Inr (word16 (b ! 0) (b ! 1)))"

definition ld32 :: "u8 list \<Rightarrow> nat \<Rightarrow> u32 res" where
  "ld32 p i = rbind (ldn 4 p i) (\<lambda>b. Inr (word32 (b ! 0) (b ! 1) (b ! 2) (b ! 3)))"

lemma ldn_Inr [simp]: "i + n \<le> length p \<Longrightarrow> ldn n p i = Inr (take n (drop i p))"
  by (simp add: ldn_def)

lemma stn_Inr [simp]: "i + length bs \<le> length p \<Longrightarrow> stn p i bs = Inr (take i p @ bs @ drop (i + length bs) p)"
  by (simp add: stn_def)

lemma length_stn: "stn p i bs = Inr p' \<Longrightarrow> length p' = length p"
  by (auto simp: stn_def split: if_splits)

lemma stn_one: "i < length p \<Longrightarrow> stn p i [b] = Inr (p[i := b])"
  by (simp add: upd_conv_take_nth_drop)

lemma stn_two:
  assumes "i + 1 < length p"
  shows "stn p i [a, b] = Inr (p[i := a, i + 1 := b])"
proof -
  have "p[i := a, i + 1 := b] = take i p @ [a, b] @ drop (i + 2) p"
    using assms by (intro nth_equalityI) (auto simp: nth_append nth_list_update nth_Cons' intro!: arg_cong [where f = "(!) p"])
  then show ?thesis using assms by simp
qed

text \<open>A load sees the last store to its bytes, and no store to others.\<close>

lemma ldn_stn_same: "stn p i bs = Inr p' \<Longrightarrow> ldn (length bs) p' i = Inr bs"
  by (auto simp: stn_def ldn_def split: if_splits)

lemma ldn_stn_other:
  assumes "stn p i bs = Inr p'" and "j + n \<le> i \<or> i + length bs \<le> j"
  shows "ldn n p' j = ldn n p j"
proof -
  have p': "p' = take i p @ bs @ drop (i + length bs) p" and i: "i + length bs \<le> length p"
    using assms(1) by (auto simp: stn_def split: if_splits)
  have len: "length p' = length p" using p' i by simp
  have "take n (drop j p') = take n (drop j p)" if j: "j + n \<le> length p"
  proof (rule nth_equalityI)
    show "length (take n (drop j p')) = length (take n (drop j p))" by (simp add: len)
    fix k assume "k < length (take n (drop j p'))"
    then have "k < n" "j + k < length p" using j by (simp_all add: len)
    then have "take n (drop j p') ! k = p' ! (j + k)" "take n (drop j p) ! k = p ! (j + k)"
      by (simp_all add: len)
    moreover have "p' ! (j + k) = p ! (j + k)"
      using assms(2) \<open>k < n\<close> \<open>j + k < length p\<close> i by (auto simp: p' nth_append)
    ultimately show "take n (drop j p') ! k = take n (drop j p) ! k" by simp
  qed
  then show ?thesis by (simp add: ldn_def len)
qed

text \<open>A load from a part of the buffer.\<close>

lemma ldn_slice:
  assumes "take m (drop i p) = blk" and "length blk = m" and "j + n \<le> m" and "0 < m"
  shows "ldn n p (i + j) = ldn n blk j"
proof -
  have len: "i + m \<le> length p" using assms(1,2,4) by auto
  have "take n (drop j (take m (drop i p))) = take n (drop (i + j) p)"
    using assms(3) by (simp add: drop_take min_def add.commute)
  with assms len show ?thesis by (auto simp: ldn_def)
qed

lemma ldn_at: "p = xs @ bs @ ys \<Longrightarrow> i = length xs \<Longrightarrow> n = length bs \<Longrightarrow> ldn n p i = Inr bs"
  by (simp add: ldn_def)

section \<open>The internet checksum\<close>

fun sum_words :: "u8 list \<Rightarrow> u32 \<Rightarrow> u32" where
  "sum_words (a # b # ds) s = sum_words ds (s + (push_bit 8 (ucast a) OR ucast b))"
| "sum_words [a] s = s + push_bit 8 (ucast a)"
| "sum_words [] s = s"

lemma unat_high_low:
  fixes s :: u32
  shows "unat (drop_bit 16 s + (s AND 0xffff)) = unat s div 65536 + unat s mod 65536"
proof -
  have "s AND 0xffff = take_bit 16 s" by (simp add: take_bit_eq_mask mask_eq_exp_minus_1)
  then have m: "unat (s AND 0xffff) = unat s mod 65536"
    by (simp only: unsigned_take_bit_eq) (simp add: take_bit_eq_mod)
  have d: "unat (drop_bit 16 s) = unat s div 65536"
    using unsigned_less [of s, where 'a = nat]
    by (simp only: unsigned_drop_bit_eq) (simp add: drop_bit_eq_div take_bit_nat_eq_self)
  have "unat s < 2 ^ 32" using unsigned_less [of s] by simp
  then have "unat s div 65536 + unat s mod 65536 < 2 ^ 32" by (simp add: div_less)
  then show ?thesis by (simp add: unat_word_ariths m d)
qed

function fold_carry :: "u32 \<Rightarrow> u32" where
  "fold_carry s = (if s > 0xffff then fold_carry (drop_bit 16 s + (s AND 0xffff)) else s)"
  by pat_completeness auto
termination
proof (relation "measure unat")
  fix s :: u32 assume "s > 0xffff"
  then have "65535 < unat s" by (simp add: word_less_nat_alt)
  moreover have "unat s div 65536 * 65536 + unat s mod 65536 = unat s" by simp
  ultimately have "unat s div 65536 + unat s mod 65536 < unat s"
    by (cases "unat s div 65536") auto
  then show "(drop_bit 16 s + (s AND 0xffff), s) \<in> measure unat" by (simp add: unat_high_low)
qed simp

declare fold_carry.simps [simp del]

definition cksum :: "u8 list \<Rightarrow> u16" where
  "cksum data = (let sum = fold_carry (sum_words data 0); sum = htons (ucast (NOT sum))
                 in if sum \<noteq> 0 then sum else 0xffff)"

text \<open>The sum of the 16-bit words in network order, without overflow.\<close>

fun word_sum :: "u8 list \<Rightarrow> nat" where
  "word_sum (a # b # ds) = 256 * unat a + unat b + word_sum ds"
| "word_sum [a] = 256 * unat a"
| "word_sum [] = 0"

lemma unat_u8_less: "unat (a :: u8) < 256"
  using unsigned_less [of a] by simp

lemma unat_high_byte: "unat (push_bit 8 (ucast a) :: u32) = 256 * unat (a :: u8)"
proof -
  have "(push_bit 8 (ucast a) :: u32) = of_nat (256 * unat a)" by (simp add: push_bit_eq_mult mult.commute)
  moreover have "256 * unat a < 2 ^ 32" using unat_u8_less [of a] by simp
  ultimately show ?thesis by (simp only: unsigned_of_nat) (simp add: take_bit_nat_eq_self)
qed

lemma unat_pair: "unat (push_bit 8 (ucast a) OR ucast b :: u32) = 256 * unat (a :: u8) + unat (b :: u8)"
proof -
  have "(push_bit 8 (ucast a) :: u32) AND ucast b = 0"
    by (rule bit_word_eqI) (auto simp: bit_simps dest: bit_imp_le_length)
  then have "(push_bit 8 (ucast a) OR ucast b :: u32) = push_bit 8 (ucast a) + ucast b"
    using word_plus_and_or [of "push_bit 8 (ucast a) :: u32" "ucast b"] by simp
  moreover have "256 * unat a + unat b < 2 ^ 32" using unat_u8_less [of a] unat_u8_less [of b] by simp
  moreover have "unat (ucast b :: u32) = unat b" by (simp add: unsigned_ucast_eq take_bit_nat_eq_self unat_u8_less less_trans [OF unat_u8_less])
  ultimately show ?thesis by (simp add: unat_word_ariths unat_high_byte)
qed

lemma word_sum_bound: "word_sum d \<le> 32768 * (length d + 1)"
proof (induction d rule: word_sum.induct)
  case (1 a b ds)
  then show ?case using unat_u8_less [of a] unat_u8_less [of b] by simp
next
  case (2 a)
  then show ?case using unat_u8_less [of a] by simp
qed simp

lemma sum_words_word_sum:
  "word_sum d + unat s < 2 ^ 32 \<Longrightarrow> unat (sum_words d s) = word_sum d + unat s"
proof (induction d arbitrary: s rule: word_sum.induct)
  case (1 a b ds)
  have "unat (s + (push_bit 8 (ucast a) OR ucast b)) = unat s + (256 * unat a + unat b)"
    using "1.prems" by (simp add: unat_word_ariths unat_pair)
  with 1 show ?case by simp
next
  case (2 a)
  then show ?case by (simp add: unat_word_ariths unat_high_byte)
qed simp

lemma fold_carry_mod:
  "unat (fold_carry s) mod 65535 = unat s mod 65535 \<and> unat (fold_carry s) \<le> 65535 \<and> (fold_carry s = 0 \<longleftrightarrow> s = 0)"
proof (induction s rule: fold_carry.induct)
  case (1 s)
  show ?case
  proof (cases "s > 0xffff")
    case True
    let ?t = "drop_bit 16 s + (s AND 0xffff)"
    have t: "unat ?t = unat s div 65536 + unat s mod 65536" by (rule unat_high_low)
    have "unat s = 65535 * (unat s div 65536) + unat ?t"
      using div_mult_mod_eq [of "unat s" 65536] by (simp add: t)
    then have m: "unat ?t mod 65535 = unat s mod 65535" by (metis mod_mult_self4)
    have "65535 < unat s" using True by (simp add: word_less_nat_alt)
    moreover have "unat s = 65536 * (unat s div 65536) + unat s mod 65536" by simp
    ultimately have "unat ?t \<noteq> 0" unfolding t by linarith
    then have "?t \<noteq> 0" "s \<noteq> 0" using True by auto
    with 1 [OF True] m True show ?thesis by (simp add: fold_carry.simps [of s])
  next
    case False
    then have "unat s \<le> 65535" by (simp add: word_less_nat_alt not_less)
    with False show ?thesis by (simp add: fold_carry.simps [of s])
  qed
qed

text \<open>
  The checksum as a number: the complement of the folded sum, with 0 written as 0xffff. Stored in
  network order, it makes the sum of all words a positive multiple of 65535.
\<close>

lemma fold_full:
  assumes "unat s mod 65535 = 0" and "s \<noteq> 0"
  shows "fold_carry s = 0xffff"
proof -
  have f: "unat (fold_carry s) mod 65535 = 0" "unat (fold_carry s) \<le> 65535" "fold_carry s \<noteq> 0"
    using fold_carry_mod [of s] assms by auto
  then have "unat (fold_carry s) = 65535"
    by (cases "unat (fold_carry s) < 65535") (auto simp: unat_eq_0)
  then show ?thesis by (simp add: word_unat_eq_iff)
qed

lemma htons_cksum:
  "htons (cksum d) = (let c = ucast (NOT (fold_carry (sum_words d 0))) in if c \<noteq> 0 then c else 0xffff)"
proof -
  have "htons c = 0 \<longleftrightarrow> c = 0" for c using htons_eq_iff [of c 0] by (simp only: htons_const)
  then show ?thesis by (simp add: cksum_def Let_def htons_const)
qed

lemma unat_complement:
  fixes s :: u32
  assumes "unat s \<le> 65535"
  shows "unat (ucast (NOT s) :: u16) = 65535 - unat s"
proof -
  have "int (unat s) \<le> 65535" using assms by linarith
  then have r: "0 \<le> uint s" "uint s < 65536" by simp_all
  have "(ucast (NOT s) :: u16) = NOT (ucast s)" by (rule bit_word_eqI) (simp add: bit_simps)
  moreover have "uint (ucast s :: u16) = uint s" using r by (simp only: unsigned_ucast_eq) (simp add: take_bit_int_eq_self)
  ultimately have "uint (ucast (NOT s) :: u16) = take_bit 16 (NOT (uint s))"
    using unsigned_not_eq [of "ucast s :: u16", where 'a = int] by simp
  also have "\<dots> = 65535 - uint s"
    using r by (simp add: take_bit_not_eq_mask_diff take_bit_int_eq_self mask_eq_exp_minus_1)
  finally have "int (unat (ucast (NOT s) :: u16)) = 65535 - int (unat s)" by simp
  with assms show ?thesis by linarith
qed

lemma unat_cksum:
  assumes "word_sum d < 2 ^ 32"
  shows "(word_sum d + unat (htons (cksum d))) mod 65535 = 0" "htons (cksum d) \<noteq> 0"
proof -
  let ?s = "fold_carry (sum_words d 0)"
  let ?c = "ucast (NOT ?s) :: u16"
  have f: "unat ?s mod 65535 = word_sum d mod 65535" "unat ?s \<le> 65535"
    using fold_carry_mod [of "sum_words d 0"] sum_words_word_sum [of d 0] assms by simp_all
  have c: "unat ?c = 65535 - unat ?s" by (rule unat_complement [OF f(2)])
  show "htons (cksum d) \<noteq> 0" by (simp add: htons_cksum Let_def)
  have "(unat ?s + unat (htons (cksum d))) mod 65535 = 0"
    using c f(2) by (cases "?c = 0") (auto simp: htons_cksum Let_def)
  then show "(word_sum d + unat (htons (cksum d))) mod 65535 = 0"
    using f(1) by (metis mod_add_left_eq)
qed

text \<open>A buffer of which two bytes at an even offset are zero, and the same with the checksum there.\<close>

lemma word_sum_append: "even (length xs) \<Longrightarrow> word_sum (xs @ ys) = word_sum xs + word_sum ys"
  by (induction xs rule: word_sum.induct) auto

lemma cksum_verifies:
  assumes "even (length xs)" and "length xs + length ys < 65536"
    and "c = htons (cksum (xs @ [0, 0] @ ys))"
  shows "fold_carry (sum_words (xs @ [ucast (drop_bit 8 c), ucast c] @ ys) 0) = 0xffff"
proof -
  let ?d = "xs @ [0, 0] @ ys" and ?e = "xs @ [ucast (drop_bit 8 c), ucast c] @ ys"
  have "word_sum ?d < 2 ^ 32" "word_sum ?e < 2 ^ 32"
    using word_sum_bound [of ?d] word_sum_bound [of ?e] assms(2) by simp_all
  note z = unat_cksum [OF this(1), folded assms(3)]
  have "256 * unat (ucast (drop_bit 8 c) :: u8) + unat (ucast c :: u8) = unat c"
  proof -
    have "unat (drop_bit 8 c) = unat c div 256"
      using unsigned_less [of c, where 'a = nat]
      by (simp only: unsigned_drop_bit_eq) (simp add: drop_bit_eq_div take_bit_nat_eq_self)
    moreover have "unat c div 256 < 256" using unsigned_less [of c, where 'a = nat] by (simp add: less_mult_imp_div_less)
    ultimately show ?thesis by (simp add: unsigned_ucast_eq take_bit_eq_mod)
  qed
  then have e: "word_sum ?e = word_sum ?d + unat c"
    using assms(1) by (simp add: word_sum_append [of xs])
  have "unat (sum_words ?e 0) = word_sum ?e" using sum_words_word_sum [of ?e 0] \<open>word_sum ?e < 2 ^ 32\<close> by simp
  moreover have "0 < unat c" using z(2) by (simp add: unat_gt_0)
  ultimately have "unat (sum_words ?e 0) mod 65535 = 0" "sum_words ?e 0 \<noteq> 0" using e z(1) by auto
  then show ?thesis by (rule fold_full)
qed

end
