(* ===== verification/Routing.thy ===== *)
theory Routing
  imports Packet Scan
begin

text \<open>
  The tables the router is configured with: the interface list (\<^verbatim>\<open>router/sr_if.c\<close>), the routing
  table (\<^verbatim>\<open>router/sr_rt.c\<close>, \<^verbatim>\<open>sr_rt_lookup_ip\<close> of \<^verbatim>\<open>router/sr_router.c\<close>), the check that they fit
  together (\<^verbatim>\<open>router/sr_main.c\<close>) and the hardware description that fills the interface list
  (\<^verbatim>\<open>sr_handle_hwinfo\<close> of \<^verbatim>\<open>router/sr_vns_comm.c\<close>). A pointer to characters is the list of the bytes
  readable from it; addresses are 32-bit words in the byte order they have in memory.
\<close>

section \<open>C strings\<close>

type_synonym name = "u8 list"

text \<open>\<^verbatim>\<open>strncmp(a, b, n) == 0\<close> and \<^verbatim>\<open>strncpy(_, a, n)\<close>, on the bytes readable from the pointers.\<close>

fun strneq :: "nat \<Rightarrow> name \<Rightarrow> name \<Rightarrow> bool res" where
  "strneq 0 a b = Inr True"
| "strneq (Suc n) (x # a) (y # b) =
    (if x \<noteq> y then Inr False else if x = 0 then Inr True else strneq n a b)"
| "strneq (Suc n) _ _ = Inl OutOfBounds"

fun strncpy :: "nat \<Rightarrow> name \<Rightarrow> name res" where
  "strncpy 0 a = Inr []"
| "strncpy (Suc n) (x # a) =
    (if x = 0 then Inr (replicate (Suc n) 0) else rbind (strncpy n a) (\<lambda>t. Inr (x # t)))"
| "strncpy (Suc n) [] = Inl OutOfBounds"

definition cstr :: "nat \<Rightarrow> name \<Rightarrow> name" where
  "cstr n s = takeWhile (\<lambda>c. c \<noteq> 0) (take n s)"

definition name_ok :: "nat \<Rightarrow> name \<Rightarrow> bool" where
  "name_ok n s \<longleftrightarrow> n \<le> length s \<or> 0 \<in> set s"

lemma name_ok_simps [simp]:
  "name_ok 0 s" "\<not> name_ok (Suc n) []" "name_ok (Suc n) (x # s) \<longleftrightarrow> x = 0 \<or> name_ok n s"
  by (auto simp: name_ok_def)

lemma name_ok_mono: "m \<le> n \<Longrightarrow> name_ok n s \<Longrightarrow> name_ok m s"
  by (auto simp: name_ok_def)

lemma cstr_simps [simp]:
  "cstr 0 s = []" "cstr n [] = []" "cstr (Suc n) (x # s) = (if x = 0 then [] else x # cstr n s)"
  by (auto simp: cstr_def)

lemma strneq_cstr: "name_ok n a \<Longrightarrow> name_ok n b \<Longrightarrow> strneq n a b = Inr (cstr n a = cstr n b)"
  by (induction n a b rule: strneq.induct) auto

lemma strneq_self: "name_ok n a \<Longrightarrow> strneq n a a = Inr True"
  by (simp add: strneq_cstr)

lemma strncpy_Inr: "name_ok n s \<Longrightarrow> \<exists>t. strncpy n s = Inr t \<and> length t = n \<and> cstr n t = cstr n s"
proof (induction n s rule: strncpy.induct)
  case (2 n x a)
  then show ?case by (cases "x = 0") auto
qed auto

section \<open>Interfaces\<close>

text \<open>The field \<^verbatim>\<open>speed\<close> of the C structure is never read or written.\<close>

record sr_if =
  if_name :: name
  if_addr :: "u8 list"
  if_ip :: u32

fun sr_get_interface :: "sr_if list \<Rightarrow> name \<Rightarrow> sr_if option res" where
  "sr_get_interface [] name = Inr None"
| "sr_get_interface (i # is) name =
    rbind (strneq 32 (if_name i) name) (\<lambda>eq. if eq then Inr (Some i) else sr_get_interface is name)"

text \<open>\<open>node\<close> stands for the contents of the memory \<^verbatim>\<open>malloc\<close> returns.\<close>

definition sr_add_interface :: "sr_if \<Rightarrow> sr_if list \<Rightarrow> name \<Rightarrow> sr_if list res" where
  "sr_add_interface node is name = rbind (strncpy 32 name) (\<lambda>n. Inr (is @ [node\<lparr>if_name := n\<rparr>]))"

definition sr_set_ether_addr :: "sr_if list \<Rightarrow> u8 list \<Rightarrow> sr_if list res" where
  "sr_set_ether_addr is addr =
    (if is = [] then Inl AssertFailed else Inr (butlast is @ [last is\<lparr>if_addr := addr\<rparr>]))"

definition sr_set_ether_ip :: "sr_if list \<Rightarrow> u32 \<Rightarrow> sr_if list res" where
  "sr_set_ether_ip is ip =
    (if is = [] then Inl AssertFailed else Inr (butlast is @ [last is\<lparr>if_ip := ip\<rparr>]))"

definition if_ok :: "sr_if \<Rightarrow> bool" where
  "if_ok i \<longleftrightarrow> name_ok 32 (if_name i) \<and> length (if_addr i) = 6"

lemma if_okD: "if_ok i \<Longrightarrow> length (if_addr i) = 6" "if_ok i \<Longrightarrow> name_ok 32 (if_name i)"
  by (simp_all add: if_ok_def)

lemma sr_get_interface_eq:
  assumes "\<forall>i \<in> set is. if_ok i" and "name_ok 32 name"
  shows "sr_get_interface is name = Inr (find (\<lambda>i. cstr 32 (if_name i) = cstr 32 name) is)"
  using assms by (induction "is") (auto simp: strneq_cstr if_ok_def)

lemma sr_get_interface_SomeD: "sr_get_interface is name = Inr (Some i) \<Longrightarrow> i \<in> set is"
  by (induction "is") (auto simp: rbind_Inr_iff split: if_splits)

section \<open>Printing the interfaces\<close>

definition inet_ntoa :: "u32 \<Rightarrow> u8 list" where
  "inet_ntoa a = (let b = bytes32 a in decimal (unat (b ! 0)) @ [46] @ decimal (unat (b ! 1)) @ [46] @
     decimal (unat (b ! 2)) @ [46] @ decimal (unat (b ! 3)))"

definition sr_print_if :: "sr_if \<Rightarrow> u8 list res" where
  "sr_print_if i = rbind (string_arg (if_name i)) (\<lambda>n. rbind (ldn 6 (if_addr i) 0) (\<lambda>a.
     Inr (n @ [9] @ chars ''HWaddr'' @
       concat (map (\<lambda>b. hex_min 2 (unat b) @ chars '':'') (take 5 a)) @ hex_min 2 (unat (a ! 5)) @ [10] @
       [9] @ chars ''inet addr '' @ inet_ntoa (if_ip i) @ [10])))"

definition sr_print_if_list :: "sr_if list \<Rightarrow> u8 list res" where
  "sr_print_if_list is =
    (if is = [] then Inr (chars '' Interface list empty '' @ [10])
     else rfold (\<lambda>i out. rbind (sr_print_if i) (\<lambda>t. Inr (out @ t))) is [])"

text \<open>Printing the interfaces reads behind a name of 32 bytes without an end, and nothing else.\<close>

definition named :: "sr_if \<Rightarrow> bool" where
  "named i \<longleftrightarrow> 0 \<in> set (if_name i)"

lemma print_if_fault: "sr_print_if_list is = Inl f \<Longrightarrow> f = OutOfBounds"
proof -
  have one: "sr_print_if i = Inl f \<Longrightarrow> f = OutOfBounds" for i f
    by (auto simp: sr_print_if_def string_arg_def ldn_def rbind_def split: if_splits sum.splits)
  have "rfold (\<lambda>i out. rbind (sr_print_if i) (\<lambda>t. Inr (out @ t))) is s = Inl f \<Longrightarrow> f = OutOfBounds" for s
    by (induction "is" arbitrary: s) (auto simp: rbind_def dest: one split: sum.splits)
  then show "sr_print_if_list is = Inl f \<Longrightarrow> f = OutOfBounds" by (auto simp: sr_print_if_list_def split: if_splits)
qed

theorem print_if_list_safe:
  assumes "\<forall>i \<in> set is. length (if_addr i) = 6"
  shows "(\<exists>t. sr_print_if_list is = Inr t) \<longleftrightarrow> (\<forall>i \<in> set is. named i)"
proof -
  have one: "(\<exists>t. sr_print_if i = Inr t) \<longleftrightarrow> named i" if "i \<in> set is" for i
    using assms that by (simp add: sr_print_if_def string_arg_def ldn_def named_def)
  have "(\<exists>t. rfold (\<lambda>i out. rbind (sr_print_if i) (\<lambda>l. Inr (out @ l))) is s = Inr t) \<longleftrightarrow> (\<forall>i \<in> set is. \<exists>t. sr_print_if i = Inr t)" for s
    by (induction "is" arbitrary: s) (auto simp: rbind_Inr_iff)
  then show ?thesis using one by (auto simp: sr_print_if_list_def)
qed

lemma print_if_list_then:
  assumes "\<forall>i \<in> set is. length (if_addr i) = 6"
  shows "rbind (sr_print_if_list is) (\<lambda>_. r) = (if \<forall>i \<in> set is. named i then r else Inl OutOfBounds)"
  using print_if_list_safe [OF assms] print_if_fault [of "is"] by (cases "sr_print_if_list is") auto

section \<open>Routes\<close>

record sr_rt =
  rt_dest :: u32
  rt_gw :: u32
  rt_mask :: u32
  rt_if :: name

definition sr_add_rt_entry :: "sr_rt list \<Rightarrow> u32 \<Rightarrow> u32 \<Rightarrow> u32 \<Rightarrow> name \<Rightarrow> sr_rt list res" where
  "sr_add_rt_entry rt dest gw msk name =
    rbind (strncpy 32 name) (\<lambda>n. Inr (rt @ [\<lparr>rt_dest = dest, rt_gw = gw, rt_mask = msk, rt_if = n\<rparr>]))"

definition popcount :: "u32 \<Rightarrow> nat" where
  "popcount m = length (filter (bit m) [0..<32])"

definition rt_match :: "u32 \<Rightarrow> sr_rt \<Rightarrow> bool" where
  "rt_match ip r \<longleftrightarrow> rt_dest r AND rt_mask r = ip AND rt_mask r"

fun rt_walk :: "u32 \<Rightarrow> sr_rt list \<Rightarrow> nat \<Rightarrow> sr_rt option \<Rightarrow> sr_rt option" where
  "rt_walk ip [] match_bits entry = entry"
| "rt_walk ip (r # rs) match_bits entry =
    (if rt_match ip r \<and> match_bits < popcount (rt_mask r)
     then rt_walk ip rs (popcount (rt_mask r)) (Some r)
     else rt_walk ip rs match_bits entry)"

definition sr_rt_lookup_ip :: "sr_rt list \<Rightarrow> u32 \<Rightarrow> sr_rt option" where
  "sr_rt_lookup_ip rt ip = rt_walk ip rt 0 None"

lemma popcount_eq_0 [simp]: "popcount m = 0 \<longleftrightarrow> m = 0"
proof -
  have "popcount m = 0 \<longleftrightarrow> (\<forall>n < 32. \<not> bit m n)" by (auto simp: popcount_def filter_empty_conv)
  also have "\<dots> \<longleftrightarrow> m = 0" by (auto simp: bit_eq_iff)
  finally show ?thesis .
qed

definition best_route :: "u32 \<Rightarrow> nat \<Rightarrow> sr_rt list \<Rightarrow> sr_rt \<Rightarrow> bool" where
  "best_route ip b rt r \<longleftrightarrow> (\<exists>xs ys. rt = xs @ r # ys \<and> rt_match ip r \<and> b < popcount (rt_mask r) \<and>
     (\<forall>q \<in> set xs. rt_match ip q \<longrightarrow> popcount (rt_mask q) < popcount (rt_mask r)) \<and>
     (\<forall>q \<in> set ys. rt_match ip q \<longrightarrow> popcount (rt_mask q) \<le> popcount (rt_mask r)))"

lemma rt_walk_cases:
  "(rt_walk ip rt b e = e \<and> (\<forall>r \<in> set rt. rt_match ip r \<longrightarrow> popcount (rt_mask r) \<le> b)) \<or>
   (\<exists>r. rt_walk ip rt b e = Some r \<and> best_route ip b rt r)"
proof (induction rt arbitrary: b e)
  case (Cons r rt)
  let ?n = "popcount (rt_mask r)"
  show ?case
  proof (cases "rt_match ip r \<and> b < ?n")
    case True
    from Cons [of ?n "Some r"] consider
      "rt_walk ip rt ?n (Some r) = Some r" "\<forall>q \<in> set rt. rt_match ip q \<longrightarrow> popcount (rt_mask q) \<le> ?n"
      | s where "rt_walk ip rt ?n (Some r) = Some s" "best_route ip ?n rt s" by blast
    then show ?thesis
    proof cases
      case 1
      then have "best_route ip b (r # rt) r" using True unfolding best_route_def by (intro exI [of _ "[]"] exI [of _ rt]) auto
      with 1 True show ?thesis by auto
    next
      case (2 s)
      then obtain xs ys where "rt = xs @ s # ys" "rt_match ip s" "?n < popcount (rt_mask s)"
        "\<forall>q \<in> set xs. rt_match ip q \<longrightarrow> popcount (rt_mask q) < popcount (rt_mask s)"
        "\<forall>q \<in> set ys. rt_match ip q \<longrightarrow> popcount (rt_mask q) \<le> popcount (rt_mask s)"
        by (auto simp: best_route_def)
      then have "best_route ip b (r # rt) s"
        using True unfolding best_route_def by (intro exI [of _ "r # xs"] exI [of _ ys]) auto
      with 2 True show ?thesis by auto
    qed
  next
    case False
    from Cons [of b e] consider
      "rt_walk ip rt b e = e" "\<forall>q \<in> set rt. rt_match ip q \<longrightarrow> popcount (rt_mask q) \<le> b"
      | s where "rt_walk ip rt b e = Some s" "best_route ip b rt s" by blast
    then show ?thesis
    proof cases
      case 1
      with False show ?thesis by auto
    next
      case (2 s)
      then obtain xs ys where "rt = xs @ s # ys" "rt_match ip s" "b < popcount (rt_mask s)"
        "\<forall>q \<in> set xs. rt_match ip q \<longrightarrow> popcount (rt_mask q) < popcount (rt_mask s)"
        "\<forall>q \<in> set ys. rt_match ip q \<longrightarrow> popcount (rt_mask q) \<le> popcount (rt_mask s)"
        by (auto simp: best_route_def)
      then have "best_route ip b (r # rt) s"
        using False unfolding best_route_def by (intro exI [of _ "r # xs"] exI [of _ ys]) auto
      with 2 False show ?thesis by auto
    qed
  qed
qed simp

lemma rt_lookup_SomeD:
  assumes "sr_rt_lookup_ip rt ip = Some r"
  shows "best_route ip 0 rt r" "r \<in> set rt"
proof -
  show b: "best_route ip 0 rt r" using rt_walk_cases [of ip rt 0 None] assms by (auto simp: sr_rt_lookup_ip_def)
  then show "r \<in> set rt" by (auto simp: best_route_def)
qed

lemma rt_lookup_None_iff:
  "sr_rt_lookup_ip rt ip = None \<longleftrightarrow> (\<forall>r \<in> set rt. rt_match ip r \<longrightarrow> rt_mask r = 0)"
proof
  assume "sr_rt_lookup_ip rt ip = None"
  then show "\<forall>r \<in> set rt. rt_match ip r \<longrightarrow> rt_mask r = 0"
    using rt_walk_cases [of ip rt 0 None] by (auto simp: sr_rt_lookup_ip_def)
next
  assume "\<forall>r \<in> set rt. rt_match ip r \<longrightarrow> rt_mask r = 0"
  then have "\<not> best_route ip 0 rt r" for r by (auto simp: best_route_def)
  then show "sr_rt_lookup_ip rt ip = None" using rt_walk_cases [of ip rt 0 None] by (auto simp: sr_rt_lookup_ip_def)
qed

section \<open>Consistency of the two tables\<close>

definition verify_entry :: "sr_if list \<Rightarrow> sr_rt \<Rightarrow> nat \<Rightarrow> nat res" where
  "verify_entry is r ret =
    rbind (sr_get_interface is (rt_if r)) (\<lambda>i. Inr (if i = None then ret + 1 else ret))"

definition sr_verify_routing_table :: "sr_if list \<Rightarrow> sr_rt list \<Rightarrow> nat res" where
  "sr_verify_routing_table is rt =
    (if is = [] \<or> rt = [] then Inr 999 else rfold (verify_entry is) rt 0)"

lemma verify_count:
  "rfold (verify_entry is) rt n = Inr m \<Longrightarrow> n \<le> m \<and>
   (m = n \<longrightarrow> (\<forall>r \<in> set rt. \<exists>i. sr_get_interface is (rt_if r) = Inr (Some i)))"
proof (induction rt arbitrary: n)
  case (Cons r rt)
  from Cons.prems obtain i where i: "sr_get_interface is (rt_if r) = Inr i"
    and r: "rfold (verify_entry is) rt (if i = None then n + 1 else n) = Inr m"
    by (auto simp: verify_entry_def [abs_def] rbind_Inr_iff)
  show ?case using Cons.IH [OF r] i by (cases i) auto
qed simp

lemma verify_ok:
  assumes "is \<noteq> []" and "rt \<noteq> []" and "\<forall>r \<in> set rt. \<exists>i. sr_get_interface is (rt_if r) = Inr (Some i)"
  shows "sr_verify_routing_table is rt = Inr 0"
proof -
  have "rfold (verify_entry is) rt n = Inr n" for n
    using assms(3) by (induction rt) (auto simp: verify_entry_def)
  then show ?thesis using assms(1,2) by (simp add: sr_verify_routing_table_def)
qed

lemma verified_lookup:
  assumes "sr_verify_routing_table is rt = Inr 0" and "sr_rt_lookup_ip rt ip = Some r"
  shows "\<exists>i. sr_get_interface is (rt_if r) = Inr (Some i)"
  using assms verify_count [of "is" rt 0 0] rt_lookup_SomeD(2) [OF assms(2)]
  by (auto simp: sr_verify_routing_table_def split: if_splits)

section \<open>Hardware description\<close>

text \<open>
  \<^verbatim>\<open>sr_handle_hwinfo\<close> on the bytes of the command: the length \<^verbatim>\<open>mLen\<close>, the type, and entries of a
  32-bit key and 32 bytes of value. \<open>node i\<close> is the memory a \<^verbatim>\<open>malloc\<close> in round \<open>i\<close> returns. At the end
  the interfaces are printed, which reads every name up to its end.
\<close>

definition htonl :: "u32 \<Rightarrow> u32" where
  "htonl x = (let b = bytes32 x in word32 (b ! 3) (b ! 2) (b ! 1) (b ! 0))"

definition hw_num_entries :: "u32 \<Rightarrow> int" where
  "hw_num_entries mLen =
    sint (word_of_nat (((unat (htonl mLen) + (2 ^ 64 - 8)) mod 2 ^ 64) div 36) :: u32)"

definition hw_entry :: "(nat \<Rightarrow> sr_if) \<Rightarrow> u8 list \<Rightarrow> nat \<Rightarrow> sr_if list \<Rightarrow> sr_if list res" where
  "hw_entry node buf i is =
    rbind (ld32 buf (8 + 36 * i)) (\<lambda>mKey.
    let key = htonl mKey; val = 12 + 36 * i in
    if key = 1 then rbind (ldn 32 buf val) (sr_add_interface (node i) is)
    else if key = 64 then rbind (ld32 buf val) (sr_set_ether_ip is)
    else if key = 32 then rbind (ldn 6 buf val) (sr_set_ether_addr is)
    else Inr is)"

definition sr_handle_hwinfo :: "(nat \<Rightarrow> sr_if) \<Rightarrow> u8 list \<Rightarrow> sr_if list \<Rightarrow> (sr_if list \<times> int) res" where
  "sr_handle_hwinfo node buf is =
    rbind (ld32 buf 0) (\<lambda>mLen.
    rbind (rfold (hw_entry node buf) [0..<nat (hw_num_entries mLen)] is) (\<lambda>is.
    rbind (sr_print_if_list is) (\<lambda>_.
    Inr (is, hw_num_entries mLen))))"

lemma htonl_htonl [simp]: "htonl (htonl x) = x"
  by (simp add: htonl_def Let_def)

text \<open>Every interface the handler adds has a terminated name, a full address and its own entry.\<close>

lemma sr_add_interface_if_ok:
  assumes "sr_add_interface node is n = Inr is'" and "\<forall>j \<in> set is. if_ok j"
    and "length (if_addr node) = 6" and "length n = 32"
  shows "\<forall>j \<in> set is'. if_ok j"
proof -
  obtain t where "strncpy 32 n = Inr t" "length t = 32"
    using strncpy_Inr [of 32 n] assms(4) by (auto simp: name_ok_def)
  with assms show ?thesis by (auto simp: sr_add_interface_def if_ok_def name_ok_def)
qed

lemma sr_set_if_ok:
  assumes "\<forall>j \<in> set is. if_ok j"
  shows "sr_set_ether_ip is ip = Inr is' \<Longrightarrow> \<forall>j \<in> set is'. if_ok j"
    and "sr_set_ether_addr is a = Inr is' \<Longrightarrow> length a = 6 \<Longrightarrow> \<forall>j \<in> set is'. if_ok j"
proof -
  have all: "\<forall>j \<in> set (butlast is @ [x]). if_ok j" if "if_ok x" for x
    using assms that by (auto dest: in_set_butlastD)
  have last: "if_ok (last is)" if "is \<noteq> []" using assms that by simp
  show "\<forall>j \<in> set is'. if_ok j" if s: "sr_set_ether_ip is ip = Inr is'"
  proof -
    from s have ne: "is \<noteq> []" and is': "is' = butlast is @ [last is\<lparr>if_ip := ip\<rparr>]"
      by (auto simp: sr_set_ether_ip_def split: if_splits)
    show ?thesis unfolding is' by (rule all) (use last [OF ne] in \<open>simp add: if_ok_def\<close>)
  qed
  show "\<forall>j \<in> set is'. if_ok j" if s: "sr_set_ether_addr is a = Inr is'" "length a = 6"
  proof -
    from s have ne: "is \<noteq> []" and is': "is' = butlast is @ [last is\<lparr>if_addr := a\<rparr>]"
      by (auto simp: sr_set_ether_addr_def split: if_splits)
    show ?thesis unfolding is' by (rule all) (use last [OF ne] s(2) in \<open>simp add: if_ok_def\<close>)
  qed
qed

lemma length_ldn: "ldn n p i = Inr b \<Longrightarrow> length b = n"
  by (auto simp: ldn_def split: if_splits)

lemma hw_entry_if_ok:
  assumes "hw_entry node buf i is = Inr is'" and "\<forall>j \<in> set is. if_ok j" and "length (if_addr (node i)) = 6"
  shows "\<forall>j \<in> set is'. if_ok j"
proof -
  from assms(1) consider n where "ldn 32 buf (12 + 36 * i) = Inr n" "sr_add_interface (node i) is n = Inr is'"
    | ip where "sr_set_ether_ip is ip = Inr is'"
    | a where "ldn 6 buf (12 + 36 * i) = Inr a" "sr_set_ether_addr is a = Inr is'"
    | "is' = is"
    by (auto simp: hw_entry_def Let_def rbind_Inr_iff split: if_splits)
  then show ?thesis
  proof cases
    case (1 n)
    then show ?thesis using sr_add_interface_if_ok [OF 1(2) assms(2,3)] length_ldn by blast
  next
    case (2 ip)
    then show ?thesis using sr_set_if_ok(1) [OF assms(2)] by blast
  next
    case (3 a)
    then show ?thesis using sr_set_if_ok(2) [OF assms(2)] length_ldn by blast
  qed (use assms(2) in blast)
qed

lemma hwinfo_if_ok:
  assumes "sr_handle_hwinfo node buf is = Inr (is', k)" and "\<forall>j \<in> set is. if_ok j"
    and "\<And>i. length (if_addr (node i)) = 6"
  shows "\<forall>j \<in> set is'. if_ok j"
proof -
  from assms(1) obtain m where "rfold (hw_entry node buf) [0..<m] is = Inr is'"
    by (auto simp: sr_handle_hwinfo_def rbind_Inr_iff)
  then show ?thesis
    by (rule rfold_inv [where P = "\<lambda>is. \<forall>j \<in> set is. if_ok j"]) (use assms hw_entry_if_ok in blast)+
qed

section \<open>A description of interfaces\<close>

definition hw_key :: "u32 \<Rightarrow> u8 list" where
  "hw_key k = bytes32 (htonl k)"

definition hw_block :: "sr_if \<Rightarrow> u8 list" where
  "hw_block i = hw_key 1 @ if_name i @ hw_key 32 @ if_addr i @ replicate 26 0 @
    hw_key 64 @ bytes32 (if_ip i) @ replicate 28 0"

definition hw_message :: "sr_if list \<Rightarrow> u8 list" where
  "hw_message is = hw_key (of_nat (8 + 108 * length is)) @ hw_key 16 @ concat (map hw_block is)"

text \<open>An interface whose name and address fill their fields; it can be used when the name has an end.\<close>

definition hw_fits :: "sr_if \<Rightarrow> bool" where
  "hw_fits i \<longleftrightarrow> strncpy 32 (if_name i) = Inr (if_name i) \<and> length (if_name i) = 32 \<and> length (if_addr i) = 6"

definition hw_if :: "sr_if \<Rightarrow> bool" where
  "hw_if i \<longleftrightarrow> hw_fits i \<and> named i"

lemma length_hw_block: "hw_fits i \<Longrightarrow> length (hw_block i) = 108"
  by (simp add: hw_block_def hw_key_def hw_fits_def)

lemma ld32_bytes32: "ldn 4 p i = Inr (bytes32 x) \<Longrightarrow> ld32 p i = Inr x"
  by (simp add: ld32_def)

lemma hw_block_loads:
  assumes "hw_fits i"
  shows "ldn 4 (hw_block i) 0 = Inr (hw_key 1)" "ldn 32 (hw_block i) 4 = Inr (if_name i)"
    "ldn 4 (hw_block i) 36 = Inr (hw_key 32)" "ldn 6 (hw_block i) 40 = Inr (if_addr i)"
    "ldn 4 (hw_block i) 72 = Inr (hw_key 64)" "ldn 4 (hw_block i) 76 = Inr (bytes32 (if_ip i))"
  using assms by (auto simp: hw_block_def hw_key_def hw_fits_def ldn_def)

lemma hw_block_entries:
  assumes "take 108 (drop (8 + 108 * j) buf) = hw_block i" and "hw_fits i"
  shows "rfold (hw_entry node buf) [3 * j, 3 * j + 1, 3 * j + 2] is = Inr (is @ [i])"
proof -
  note sl = ldn_slice [OF assms(1) length_hw_block [OF assms(2)]] and ld = hw_block_loads [OF assms(2)]
  have k: "ld32 buf (8 + 36 * (3 * j)) = Inr (htonl 1)" "ld32 buf (8 + 36 * (3 * j + 1)) = Inr (htonl 32)"
    "ld32 buf (8 + 36 * (3 * j + 2)) = Inr (htonl 64)"
    using sl [of 0 4] sl [of 36 4] sl [of 72 4] ld
    by (auto intro!: ld32_bytes32 simp: hw_key_def algebra_simps)
  have v: "ldn 32 buf (12 + 36 * (3 * j)) = Inr (if_name i)" "ldn 6 buf (12 + 36 * (3 * j + 1)) = Inr (if_addr i)"
    "ld32 buf (12 + 36 * (3 * j + 2)) = Inr (if_ip i)"
    using sl [of 4 32] sl [of 40 6] sl [of 76 4] ld
    by (auto intro!: ld32_bytes32 simp: algebra_simps)
  have n: "strncpy 32 (if_name i) = Inr (if_name i)" using assms(2) by (simp add: hw_fits_def)
  have e: "hw_entry node buf (3 * j) xs = Inr (xs @ [node (3 * j)\<lparr>if_name := if_name i\<rparr>])"
    "hw_entry node buf (3 * j + 1) (xs @ [y]) = Inr (xs @ [y\<lparr>if_addr := if_addr i\<rparr>])"
    "hw_entry node buf (3 * j + 2) (xs @ [y]) = Inr (xs @ [y\<lparr>if_ip := if_ip i\<rparr>])" for xs y
    by (simp_all only: hw_entry_def k v rbind_simps Let_def htonl_htonl)
      (simp_all add: sr_add_interface_def sr_set_ether_addr_def sr_set_ether_ip_def n)
  show ?thesis by (simp only: rfold.simps e rbind_simps) simp
qed

lemma take_drop_blocks:
  "j < length is \<Longrightarrow> \<forall>i \<in> set is. hw_fits i \<Longrightarrow>
   take 108 (drop (108 * j) (concat (map hw_block is))) = hw_block (is ! j)"
proof (induction "is" arbitrary: j)
  case (Cons i "is")
  then show ?case by (cases j) (auto simp: length_hw_block)
qed simp

lemma hw_message_entries:
  assumes "\<forall>i \<in> set is. hw_fits i" and "drop 8 buf = concat (map hw_block is)" and "n \<le> length is"
  shows "rfold (hw_entry node buf) [0..<3 * n] old = Inr (old @ take n is)"
  using assms(3)
proof (induction n)
  case (Suc n)
  have "[0..<3 * Suc n] = [0..<3 * n] @ [3 * n, 3 * n + 1, 3 * n + 2]" by (simp add: numeral_3_eq_3)
  moreover have i: "hw_fits (is ! n)" using assms(1) Suc.prems by simp
  have "take 108 (drop (8 + 108 * n) buf) = hw_block (is ! n)"
    using take_drop_blocks [of n "is"] Suc.prems assms(1) by (simp add: assms(2) [symmetric] add.commute)
  from hw_block_entries [OF this i, of node "old @ take n is"]
  have "rfold (hw_entry node buf) [3 * n, 3 * n + 1, 3 * n + 2] (old @ take n is) =
    Inr ((old @ take n is) @ [is ! n])" .
  ultimately show ?case
    using Suc by (simp only: rfold_append rbind_simps) (simp add: take_Suc_conv_app_nth)
qed simp

lemma hw_message_size:
  assumes "8 + 108 * n \<le> 10000"
  shows "hw_num_entries (htonl (of_nat (8 + 108 * n))) = 3 * int n"
proof -
  have "unat (of_nat (8 + 108 * n) :: u32) = 8 + 108 * n"
    using assms by (simp only: unsigned_of_nat) (simp add: take_bit_nat_eq_self)
  then have "((unat (of_nat (8 + 108 * n) :: u32) + (2 ^ 64 - 8)) mod 2 ^ 64) div 36 = 3 * n"
    using assms by simp
  moreover have small: "sint (word_of_nat k :: u32) = int k" if "k < 2 ^ 31" for k
    by (simp only: signed_of_nat) (use that in \<open>simp add: signed_take_bit_int_eq_self\<close>)
  have "sint (word_of_nat (3 * n) :: u32) = int (3 * n)" by (rule small) (use assms in simp)
  ultimately show ?thesis by (simp only: hw_num_entries_def htonl_htonl)
qed

lemma hwinfo_read:
  assumes "\<forall>i \<in> set is. hw_fits i" and "8 + 108 * length is \<le> 10000"
    and "ld32 buf 0 = Inr (htonl (of_nat (8 + 108 * length is)))" and "drop 8 buf = concat (map hw_block is)"
    and "\<forall>i \<in> set old. length (if_addr i) = 6"
  shows "sr_handle_hwinfo node buf old =
    (if \<forall>i \<in> set (old @ is). named i then Inr (old @ is, 3 * int (length is)) else Inl OutOfBounds)"
proof -
  have a: "\<forall>i \<in> set (old @ is). length (if_addr i) = 6" using assms(1,5) by (auto simp: hw_fits_def)
  show ?thesis
    using print_if_list_then [OF a, of "Inr (old @ is, 3 * int (length is))"] hw_message_entries [OF assms(1,4) order_refl, of node old]
    by (simp add: sr_handle_hwinfo_def assms(3) [simplified] hw_message_size [OF assms(2), simplified] nat_mult_distrib)
qed

lemma length_hw_blocks: "\<forall>i \<in> set is. hw_fits i \<Longrightarrow> length (concat (map hw_block is)) = 108 * length is"
  by (induction "is") (auto simp: length_hw_block)

section \<open>Properties\<close>

text \<open>
  C34: The route lookup is the longest-prefix match: it fails exactly when every matching route
  has mask 0, and otherwise returns the first of the matching routes with the most mask bits.
\<close>

theorem lookup_longest_prefix:
  "(sr_rt_lookup_ip rt ip = None \<longleftrightarrow> (\<forall>r \<in> set rt. rt_match ip r \<longrightarrow> rt_mask r = 0)) \<and>
   (sr_rt_lookup_ip rt ip = Some r \<longrightarrow>
     (\<exists>xs ys. rt = xs @ r # ys \<and> rt_match ip r \<and> rt_mask r \<noteq> 0 \<and>
       (\<forall>q \<in> set xs. rt_match ip q \<longrightarrow> popcount (rt_mask q) < popcount (rt_mask r)) \<and>
       (\<forall>q \<in> set ys. rt_match ip q \<longrightarrow> popcount (rt_mask q) \<le> popcount (rt_mask r))))"
proof (intro conjI impI rt_lookup_None_iff)
  assume "sr_rt_lookup_ip rt ip = Some r"
  then have "best_route ip 0 rt r" by (rule rt_lookup_SomeD)
  moreover have "0 < popcount (rt_mask r) \<longleftrightarrow> rt_mask r \<noteq> 0" by (simp flip: neq0_conv)
  ultimately show "\<exists>xs ys. rt = xs @ r # ys \<and> rt_match ip r \<and> rt_mask r \<noteq> 0 \<and>
       (\<forall>q \<in> set xs. rt_match ip q \<longrightarrow> popcount (rt_mask q) < popcount (rt_mask r)) \<and>
       (\<forall>q \<in> set ys. rt_match ip q \<longrightarrow> popcount (rt_mask q) \<le> popcount (rt_mask r))"
    unfolding best_route_def by blast
qed

definition example_routes :: "sr_rt list" where
  "example_routes =
    [\<lparr>rt_dest = 0, rt_gw = 0x0100000a, rt_mask = 0, rt_if = [101, 0]\<rparr>,
     \<lparr>rt_dest = 0x0000000a, rt_gw = 0x0200000a, rt_mask = 0x000000ff, rt_if = [102, 0]\<rparr>,
     \<lparr>rt_dest = 0x0001000a, rt_gw = 0x0300000a, rt_mask = 0x0000ffff, rt_if = [103, 0]\<rparr>]"

theorem lookup_longest_prefix_witness:
  "sr_rt_lookup_ip example_routes 0x0701000a = Some (example_routes ! 2) \<and>
   popcount (rt_mask (example_routes ! 1)) < popcount (rt_mask (example_routes ! 2)) \<and>
   sr_rt_lookup_ip example_routes 0x07010009 = None"
proof -
  have a: "sr_rt_lookup_ip example_routes 0x0701000a = Some (example_routes ! 2)" by code_simp
  from a lookup_longest_prefix [of example_routes "0x0701000a" "example_routes ! 2"]
  have "\<exists>xs ys. example_routes = xs @ example_routes ! 2 # ys" by blast
  moreover have "popcount (rt_mask (example_routes ! 1)) < popcount (rt_mask (example_routes ! 2))" by code_simp
  moreover have "sr_rt_lookup_ip example_routes 0x07010009 = None" by code_simp
  ultimately show ?thesis using a by blast
qed

text \<open>
  A hardware description that lists interfaces (name, address, IP address) of at most 10000
  bytes is read back: the handler appends exactly these interfaces, in order, whatever the memory
  allocated for them held. When a name, also one known before, fills its 32 bytes without an end,
  printing the interfaces reads behind it.
\<close>

theorem hwinfo_roundtrip:
  assumes "\<forall>i \<in> set is. hw_fits i" and "length (hw_message is) \<le> 10000" and "\<forall>i \<in> set old. length (if_addr i) = 6"
  shows "sr_handle_hwinfo node (hw_message is) old =
    (if \<forall>i \<in> set (old @ is). named i then Inr (old @ is, 3 * int (length is)) else Inl OutOfBounds)"
proof (rule hwinfo_read [OF assms(1)])
  show "8 + 108 * length is \<le> 10000"
    using assms(2) length_hw_blocks [OF assms(1)] by (simp add: hw_message_def hw_key_def)
  show "ld32 (hw_message is) 0 = Inr (htonl (of_nat (8 + 108 * length is)))"
    by (rule ld32_bytes32) (simp add: hw_message_def hw_key_def ldn_def)
  show "drop 8 (hw_message is) = concat (map hw_block is)" by (simp add: hw_message_def hw_key_def)
qed (rule assms(3))

definition example_if :: "u8 \<Rightarrow> sr_if" where
  "example_if k = \<lparr>if_name = [101, k] @ replicate 30 0, if_addr = [2, 0, 0, 0, 0, k], if_ip = ucast k\<rparr>"

definition unended_if :: sr_if where
  "unended_if = (example_if 3)\<lparr>if_name := replicate 32 101\<rparr>"

theorem hwinfo_roundtrip_witness:
  "sr_handle_hwinfo (\<lambda>_. example_if 9) (hw_message [example_if 1, example_if 2]) [] =
    Inr ([example_if 1, example_if 2], 6) \<and>
   sr_handle_hwinfo (\<lambda>_. example_if 9) (hw_message [example_if 1, unended_if]) [] = Inl OutOfBounds"
proof -
  have a: "\<forall>i \<in> set [example_if 1, example_if 2]. hw_fits i" "length (hw_message [example_if 1, example_if 2]) \<le> 10000"
    "\<forall>i \<in> set [example_if 1, example_if 2]. named i"
    by code_simp+
  have b: "\<forall>i \<in> set [example_if 1, unended_if]. hw_fits i" "length (hw_message [example_if 1, unended_if]) \<le> 10000"
    "\<not> named unended_if"
    by code_simp+
  show ?thesis
    using hwinfo_roundtrip [OF a(1,2), of "[]"] hwinfo_roundtrip [OF b(1,2), of "[]"] a(3) b(3) by simp
qed

end
