(* ===== verification/ArpCache.thy ===== *)
theory ArpCache
  imports Routing
begin

text \<open>
  The ARP cache (\<^verbatim>\<open>router/sr_arpcache.c\<close>): a fixed array of IP-to-MAC mappings and the linked list
  of outstanding requests, each with the packets that wait for the reply. The linked lists are
  lists in the order of their \<^verbatim>\<open>next\<close> pointers. A request is identified by its IP address: the
  queue holds one request per address (\<open>arp_ok\<close>). Times are the values of \<^verbatim>\<open>time(NULL)\<close>.
\<close>

section \<open>State\<close>

record sr_packet =
  pk_buf :: "u8 list"
  pk_iface :: name

record sr_arpentry =
  ae_mac :: "u8 list"
  ae_ip :: u32
  ae_added :: int
  ae_valid :: bool

record sr_arpreq =
  rq_ip :: u32
  rq_sent :: int
  rq_times_sent :: u32
  rq_packets :: "sr_packet list"

record sr_arpcache =
  entries :: "sr_arpentry list"
  requests :: "sr_arpreq list"

definition SR_ARPCACHE_SZ :: nat where "SR_ARPCACHE_SZ = 100"
definition SR_ARPCACHE_TO :: int where "SR_ARPCACHE_TO = 15"

section \<open>Operations\<close>

definition sr_arpcache_init :: sr_arpcache where
  "sr_arpcache_init =
    \<lparr>entries = replicate SR_ARPCACHE_SZ \<lparr>ae_mac = replicate 6 0, ae_ip = 0, ae_added = 0, ae_valid = False\<rparr>,
     requests = []\<rparr>"

fun lookup_walk :: "u32 \<Rightarrow> sr_arpentry list \<Rightarrow> sr_arpentry option \<Rightarrow> sr_arpentry option" where
  "lookup_walk ip [] entry = entry"
| "lookup_walk ip (a # as) entry =
    lookup_walk ip as (if ae_valid a \<and> ae_ip a = ip then Some a else entry)"

definition sr_arpcache_lookup :: "sr_arpcache \<Rightarrow> u32 \<Rightarrow> sr_arpentry option" where
  "sr_arpcache_lookup c ip = lookup_walk ip (entries c) None"

fun add_packet :: "u32 \<Rightarrow> sr_packet \<Rightarrow> sr_arpreq list \<Rightarrow> sr_arpreq list" where
  "add_packet ip pkt [] = []"
| "add_packet ip pkt (r # rs) =
    (if rq_ip r = ip then r\<lparr>rq_packets := pkt # rq_packets r\<rparr> # rs else r # add_packet ip pkt rs)"

definition find_or_add :: "u32 \<Rightarrow> sr_arpreq list \<Rightarrow> sr_arpreq list" where
  "find_or_add ip rs =
    (if \<exists>r \<in> set rs. rq_ip r = ip then rs
     else \<lparr>rq_ip = ip, rq_sent = 0, rq_times_sent = 0, rq_packets = []\<rparr> # rs)"

definition queue_packet :: "sr_arpcache \<Rightarrow> u32 \<Rightarrow> sr_packet \<Rightarrow> sr_arpcache" where
  "queue_packet c ip pkt = c\<lparr>requests := add_packet ip pkt (find_or_add ip (requests c))\<rparr>"

definition sr_arpcache_queuereq :: "sr_arpcache \<Rightarrow> u32 \<Rightarrow> u8 list \<Rightarrow> name \<Rightarrow> sr_arpcache res" where
  "sr_arpcache_queuereq c ip packet iface =
    (if packet = [] then Inr (c\<lparr>requests := find_or_add ip (requests c)\<rparr>)
     else rbind (strncpy 32 iface) (\<lambda>n. Inr (queue_packet c ip \<lparr>pk_buf = packet, pk_iface = n\<rparr>)))"

fun take_req :: "u32 \<Rightarrow> sr_arpreq list \<Rightarrow> sr_arpreq option \<times> sr_arpreq list" where
  "take_req ip [] = (None, [])"
| "take_req ip (r # rs) =
    (if rq_ip r = ip then (Some r, rs) else let (q, rs') = take_req ip rs in (q, r # rs'))"

fun fill_slot :: "sr_arpentry \<Rightarrow> sr_arpentry list \<Rightarrow> sr_arpentry list" where
  "fill_slot e [] = []"
| "fill_slot e (a # as) = (if \<not> ae_valid a then e # as else a # fill_slot e as)"

definition sr_arpcache_insert :: "int \<Rightarrow> sr_arpcache \<Rightarrow> u8 list \<Rightarrow> u32 \<Rightarrow> sr_arpreq option \<times> sr_arpcache" where
  "sr_arpcache_insert now c mac ip =
    (let (req, rs) = take_req ip (requests c)
     in (req, c\<lparr>requests := rs,
       entries := fill_slot \<lparr>ae_mac = mac, ae_ip = ip, ae_added = now, ae_valid = True\<rparr> (entries c)\<rparr>))"

definition sr_arpreq_destroy :: "sr_arpcache \<Rightarrow> u32 \<Rightarrow> sr_arpcache" where
  "sr_arpreq_destroy c ip = c\<lparr>requests := snd (take_req ip (requests c))\<rparr>"

definition arp_expire :: "int \<Rightarrow> sr_arpcache \<Rightarrow> sr_arpcache" where
  "arp_expire curtime c = c\<lparr>entries := map (\<lambda>a.
    if ae_valid a \<and> curtime - ae_added a > SR_ARPCACHE_TO then a\<lparr>ae_valid := False\<rparr> else a) (entries c)\<rparr>"

section \<open>Contents of the cache\<close>

definition valid_ips :: "sr_arpcache \<Rightarrow> u32 list" where
  "valid_ips c = map ae_ip (filter ae_valid (entries c))"

definition packet_ok :: "sr_packet \<Rightarrow> bool" where
  "packet_ok p \<longleftrightarrow> pk_buf p \<noteq> [] \<and> name_ok 32 (pk_iface p)"

definition req_ok :: "sr_arpreq \<Rightarrow> bool" where
  "req_ok r \<longleftrightarrow> rq_packets r \<noteq> [] \<and> rq_times_sent r \<le> 4 \<and> (\<forall>p \<in> set (rq_packets r). packet_ok p)"

definition arp_ok :: "sr_arpcache \<Rightarrow> bool" where
  "arp_ok c \<longleftrightarrow> length (entries c) = SR_ARPCACHE_SZ \<and> distinct (valid_ips c) \<and>
     (\<forall>a \<in> set (entries c). length (ae_mac a) = 6) \<and>
     distinct (map rq_ip (requests c)) \<and> (\<forall>r \<in> set (requests c). req_ok r)"

definition req_for :: "sr_arpcache \<Rightarrow> u32 \<Rightarrow> sr_arpreq option" where
  "req_for c ip = find (\<lambda>r. rq_ip r = ip) (requests c)"

definition waiting :: "sr_arpcache \<Rightarrow> u32 \<Rightarrow> sr_packet list" where
  "waiting c ip = (case req_for c ip of None \<Rightarrow> [] | Some r \<Rightarrow> rq_packets r)"

definition arp_mac :: "sr_arpcache \<Rightarrow> u32 \<Rightarrow> u8 list option" where
  "arp_mac c ip = map_option ae_mac (sr_arpcache_lookup c ip)"

subsection \<open>Entries\<close>

lemma lookup_walk_SomeD:
  "lookup_walk ip as e = Some a \<Longrightarrow> e = Some a \<or> (a \<in> set as \<and> ae_valid a \<and> ae_ip a = ip)"
  by (induction as arbitrary: e) (auto split: if_splits)

lemma lookup_walk_None_iff:
  "lookup_walk ip as e = None \<longleftrightarrow> e = None \<and> (\<forall>a \<in> set as. ae_valid a \<longrightarrow> ae_ip a \<noteq> ip)"
  by (induction as arbitrary: e) auto

lemma lookup_walk_absent:
  "\<forall>a \<in> set as. ae_valid a \<longrightarrow> ae_ip a \<noteq> ip \<Longrightarrow> lookup_walk ip as e = e"
  by (induction as) auto

lemma lookup_SomeD:
  assumes "sr_arpcache_lookup c ip = Some a"
  shows "a \<in> set (entries c)" "ae_valid a" "ae_ip a = ip"
  using lookup_walk_SomeD [of ip "entries c" None a] assms by (auto simp: sr_arpcache_lookup_def)

lemma lookup_None_iff: "sr_arpcache_lookup c ip = None \<longleftrightarrow> ip \<notin> set (valid_ips c)"
  by (auto simp: sr_arpcache_lookup_def lookup_walk_None_iff valid_ips_def)

text \<open>With one valid entry per address, the lookup finds it wherever it stands.\<close>

lemma lookup_walk_unique:
  assumes "distinct (map ae_ip (filter ae_valid as))" and "a \<in> set as" and "ae_valid a"
  shows "lookup_walk (ae_ip a) as e = Some a"
  using assms
proof (induction as arbitrary: e)
  case (Cons b as)
  show ?case
  proof (cases "b = a")
    case True
    with Cons.prems have "\<forall>x \<in> set as. ae_valid x \<longrightarrow> ae_ip x \<noteq> ae_ip a" by (auto simp: image_iff)
    then show ?thesis using True Cons.prems by (simp add: lookup_walk_absent)
  qed (use Cons in \<open>auto split: if_splits\<close>)
qed simp

lemma lookup_unique_iff:
  assumes "distinct (valid_ips c)"
  shows "sr_arpcache_lookup c ip = Some a \<longleftrightarrow> a \<in> set (entries c) \<and> ae_valid a \<and> ae_ip a = ip"
  using lookup_SomeD [of c ip a] lookup_walk_unique [of "entries c" a None] assms
  by (auto simp: sr_arpcache_lookup_def valid_ips_def)

lemma lookup_walk_fill_slot:
  assumes "ae_valid e" and "\<exists>a \<in> set as. \<not> ae_valid a" and "\<forall>a \<in> set as. ae_valid a \<longrightarrow> ae_ip a \<noteq> ae_ip e"
  shows "lookup_walk ip (fill_slot e as) x = (if ip = ae_ip e then Some e else lookup_walk ip as x)"
  using assms
proof (induction as arbitrary: x)
  case (Cons a as)
  then show ?case by (cases "ae_valid a") (auto simp: lookup_walk_absent)
qed simp

lemma fill_slot_full: "\<forall>a \<in> set as. ae_valid a \<Longrightarrow> fill_slot e as = as"
  by (induction as) auto

lemma length_fill_slot [simp]: "length (fill_slot e as) = length as"
  by (induction as) auto

lemma set_fill_slot: "a \<in> set (fill_slot e as) \<Longrightarrow> a = e \<or> a \<in> set as"
  by (induction as) (auto split: if_splits)

lemma distinct_fill_slot:
  assumes "ae_valid e" and "\<forall>a \<in> set as. ae_valid a \<longrightarrow> ae_ip a \<noteq> ae_ip e"
    and "distinct (map ae_ip (filter ae_valid as))"
  shows "distinct (map ae_ip (filter ae_valid (fill_slot e as)))"
  using assms
proof (induction as)
  case (Cons a as)
  then show ?case by (cases "ae_valid a") (auto dest!: set_fill_slot)
qed simp

lemma filter_expire:
  "filter ae_valid (entries (arp_expire now c)) =
   filter (\<lambda>a. now - ae_added a \<le> SR_ARPCACHE_TO) (filter ae_valid (entries c))"
proof -
  let ?f = "\<lambda>a. if ae_valid a \<and> now - ae_added a > SR_ARPCACHE_TO then a\<lparr>ae_valid := False\<rparr> else a"
  have "filter ae_valid (map ?f as) = filter (\<lambda>a. now - ae_added a \<le> SR_ARPCACHE_TO) (filter ae_valid as)" for as
    by (induction as) auto
  then show ?thesis by (simp add: arp_expire_def)
qed

lemma distinct_expire: "distinct (valid_ips c) \<Longrightarrow> distinct (valid_ips (arp_expire now c))"
  unfolding valid_ips_def filter_expire by (rule distinct_map_filter)

lemma lookup_expire:
  assumes "distinct (valid_ips c)"
  shows "sr_arpcache_lookup (arp_expire now c) ip = Some a \<longleftrightarrow>
    sr_arpcache_lookup c ip = Some a \<and> now - ae_added a \<le> SR_ARPCACHE_TO"
proof -
  have iff: "sr_arpcache_lookup d ip = Some a \<longleftrightarrow> a \<in> set (filter ae_valid (entries d)) \<and> ae_ip a = ip"
    if "distinct (valid_ips d)" for d
    using lookup_unique_iff [OF that] by auto
  show ?thesis unfolding iff [OF assms] iff [OF distinct_expire [OF assms]] filter_expire by auto
qed

subsection \<open>Requests\<close>

lemma find_add_packet:
  "find (\<lambda>r. rq_ip r = x) (add_packet ip pkt rs) =
    map_option (\<lambda>r. if x = ip then r\<lparr>rq_packets := pkt # rq_packets r\<rparr> else r) (find (\<lambda>r. rq_ip r = x) rs)"
  by (induction rs) (auto simp: option.map_ident)

lemma find_find_or_add:
  "find (\<lambda>r. rq_ip r = x) (find_or_add ip rs) =
    (case find (\<lambda>r. rq_ip r = x) rs of Some r \<Rightarrow> Some r
     | None \<Rightarrow> if x = ip then Some \<lparr>rq_ip = ip, rq_sent = 0, rq_times_sent = 0, rq_packets = []\<rparr> else None)"
proof (cases "\<exists>r \<in> set rs. rq_ip r = ip")
  case False
  then have "find (\<lambda>r. rq_ip r = ip) rs = None" by (auto simp: find_None_iff)
  with False show ?thesis by (auto simp: find_or_add_def split: option.split)
qed (auto simp: find_or_add_def find_None_iff split: option.splits)

lemma waiting_queue:
  "waiting (queue_packet c ip pkt) x = (if x = ip then pkt # waiting c ip else waiting c x)"
  by (auto simp: waiting_def req_for_def queue_packet_def find_add_packet find_find_or_add
      split: option.splits)

lemma lookup_queue [simp]: "sr_arpcache_lookup (queue_packet c ip pkt) = sr_arpcache_lookup c"
  by (simp add: sr_arpcache_lookup_def queue_packet_def fun_eq_iff)

lemma fst_take_req: "fst (take_req ip rs) = find (\<lambda>r. rq_ip r = ip) rs"
  by (induction rs) (auto split: prod.splits)

lemma snd_take_req:
  "distinct (map rq_ip rs) \<Longrightarrow> snd (take_req ip rs) = filter (\<lambda>r. rq_ip r \<noteq> ip) rs"
  by (induction rs) (auto simp: image_iff split: prod.splits intro!: filter_True [symmetric])

lemma find_filter_neq:
  "find (\<lambda>r. rq_ip r = x) (filter (\<lambda>r. rq_ip r \<noteq> ip) rs) = (if x = ip then None else find (\<lambda>r. rq_ip r = x) rs)"
  by (induction rs) auto

lemma insert_parts:
  "fst (sr_arpcache_insert now c mac ip) = req_for c ip"
  "requests (snd (sr_arpcache_insert now c mac ip)) = snd (take_req ip (requests c))"
  "entries (snd (sr_arpcache_insert now c mac ip)) =
     fill_slot \<lparr>ae_mac = mac, ae_ip = ip, ae_added = now, ae_valid = True\<rparr> (entries c)"
  by (simp_all add: sr_arpcache_insert_def req_for_def fst_take_req [symmetric] split: prod.splits)

lemma waiting_removed:
  assumes "requests d = snd (take_req ip (requests c))" and "distinct (map rq_ip (requests c))"
  shows "waiting d x = (if x = ip then [] else waiting c x)"
  using assms by (simp add: waiting_def req_for_def snd_take_req find_filter_neq)

subsection \<open>The invariant\<close>

lemma arp_okD:
  assumes "arp_ok c"
  shows "length (entries c) = SR_ARPCACHE_SZ" "distinct (valid_ips c)"
    "\<And>a. a \<in> set (entries c) \<Longrightarrow> length (ae_mac a) = 6"
    "distinct (map rq_ip (requests c))" "\<And>r. r \<in> set (requests c) \<Longrightarrow> req_ok r"
  using assms by (auto simp: arp_ok_def)

lemma arp_ok_init: "arp_ok sr_arpcache_init"
  by (simp add: arp_ok_def sr_arpcache_init_def valid_ips_def)

lemma arp_ok_expire:
  assumes "arp_ok c"
  shows "arp_ok (arp_expire now c)"
proof -
  have "distinct (valid_ips (arp_expire now c))" using assms by (intro distinct_expire arp_okD)
  then show ?thesis using assms by (auto simp: arp_ok_def arp_expire_def)
qed

lemma map_ip_add_packet [simp]: "map rq_ip (add_packet ip pkt rs) = map rq_ip rs"
  by (induction rs) auto

lemma req_ok_packet: "req_ok r \<Longrightarrow> packet_ok p \<Longrightarrow> req_ok (r\<lparr>rq_packets := p # rq_packets r\<rparr>)"
  by (simp add: req_ok_def)

lemma add_packet_req_ok:
  "Ball (set rs) req_ok \<Longrightarrow> packet_ok pkt \<Longrightarrow> Ball (set (add_packet ip pkt (find_or_add ip rs))) req_ok"
proof -
  assume pkt: "packet_ok pkt"
  have "Ball (set (add_packet ip pkt rs)) req_ok" if "Ball (set rs) req_ok" for rs
    using that by (induction rs) (simp_all add: req_ok_packet pkt)
  moreover have "req_ok \<lparr>rq_ip = ip, rq_sent = 0, rq_times_sent = 0, rq_packets = [pkt]\<rparr>"
    using pkt by (simp add: req_ok_def)
  moreover assume "Ball (set rs) req_ok"
  ultimately show ?thesis by (simp add: find_or_add_def)
qed

lemma arp_ok_queue:
  assumes "arp_ok c" and "packet_ok pkt"
  shows "arp_ok (queue_packet c ip pkt)"
proof -
  have "distinct (map rq_ip (find_or_add ip (requests c)))"
    using arp_okD(4) [OF assms(1)] by (auto simp: find_or_add_def)
  moreover have "\<forall>r \<in> set (requests (queue_packet c ip pkt)). req_ok r"
    using add_packet_req_ok [of "requests c"] assms by (auto simp: queue_packet_def arp_ok_def)
  ultimately show ?thesis using assms(1) by (simp add: arp_ok_def queue_packet_def valid_ips_def)
qed

lemma arp_ok_requests:
  "arp_ok c \<Longrightarrow> distinct (map rq_ip rs) \<Longrightarrow> Ball (set rs) req_ok \<Longrightarrow> arp_ok (c\<lparr>requests := rs\<rparr>)"
  by (simp add: arp_ok_def valid_ips_def)

lemma arp_ok_removed:
  assumes "arp_ok c"
  shows "arp_ok (c\<lparr>requests := snd (take_req ip (requests c))\<rparr>)"
  using assms by (auto simp: arp_ok_def snd_take_req valid_ips_def intro: distinct_map_filter)

lemma arp_ok_insert:
  assumes "arp_ok c" and "length mac = 6" and "sr_arpcache_lookup c ip = None"
  shows "arp_ok (snd (sr_arpcache_insert now c mac ip))"
proof -
  let ?e = "\<lparr>ae_mac = mac, ae_ip = ip, ae_added = now, ae_valid = True\<rparr>"
  have "\<forall>a \<in> set (entries c). ae_valid a \<longrightarrow> ae_ip a \<noteq> ip"
    using assms(3) by (simp add: sr_arpcache_lookup_def lookup_walk_None_iff)
  then have "distinct (map ae_ip (filter ae_valid (fill_slot ?e (entries c))))"
    using assms(1) by (intro distinct_fill_slot) (auto simp: arp_ok_def valid_ips_def)
  moreover have "length (ae_mac a) = 6" if "a \<in> set (fill_slot ?e (entries c))" for a
    using set_fill_slot [OF that] assms by (auto simp: arp_ok_def)
  ultimately show ?thesis
    using arp_ok_removed [OF assms(1), of ip] by (auto simp: arp_ok_def valid_ips_def insert_parts)
qed

section \<open>The cache as a neighbour table\<close>

text \<open>
  What the router relies on: packets wait per address until the address is learnt, which hands all
  of them over and leaves the packets of other addresses alone.
\<close>

locale neighbour_table =
  fixes ok :: "'t \<Rightarrow> bool"
    and mac_of :: "'t \<Rightarrow> u32 \<Rightarrow> u8 list option"
    and pending :: "'t \<Rightarrow> u32 \<Rightarrow> sr_packet list"
    and enqueue :: "'t \<Rightarrow> u32 \<Rightarrow> sr_packet \<Rightarrow> 't"
    and learn :: "'t \<Rightarrow> u8 list \<Rightarrow> u32 \<Rightarrow> sr_packet list \<times> 't"
  assumes ok_enqueue: "ok t \<Longrightarrow> packet_ok p \<Longrightarrow> ok (enqueue t ip p)"
    and ok_learn: "ok t \<Longrightarrow> length mac = 6 \<Longrightarrow> mac_of t ip = None \<Longrightarrow> ok (snd (learn t mac ip))"
    and mac_enqueue: "mac_of (enqueue t ip p) = mac_of t"
    and pending_enqueue: "pending (enqueue t ip p) x = (if x = ip then p # pending t ip else pending t x)"
    and learn_pending: "fst (learn t mac ip) = pending t ip"
    and pending_learn: "ok t \<Longrightarrow> pending (snd (learn t mac ip)) x = (if x = ip then [] else pending t x)"
begin

definition enqueue_all :: "u32 \<Rightarrow> sr_packet list \<Rightarrow> 't \<Rightarrow> 't" where
  "enqueue_all ip ps t = fold (\<lambda>p t. enqueue t ip p) ps t"

lemma pending_enqueue_all:
  "pending (enqueue_all ip ps t) x = (if x = ip then rev ps @ pending t ip else pending t x)"
  by (induction ps arbitrary: t) (auto simp: enqueue_all_def pending_enqueue)

lemma mac_enqueue_all: "mac_of (enqueue_all ip ps t) = mac_of t"
  by (induction ps arbitrary: t) (auto simp: enqueue_all_def mac_enqueue)

lemma ok_enqueue_all: "ok t \<Longrightarrow> Ball (set ps) packet_ok \<Longrightarrow> ok (enqueue_all ip ps t)"
  by (induction ps arbitrary: t) (auto simp: enqueue_all_def ok_enqueue)

lemma release:
  assumes "ok t" and "Ball (set ps) packet_ok"
  shows "fst (learn (enqueue_all ip ps t) mac ip) = rev ps @ pending t ip"
    and "pending (snd (learn (enqueue_all ip ps t) mac ip)) x = (if x = ip then [] else pending t x)"
  using assms by (auto simp: learn_pending pending_learn ok_enqueue_all pending_enqueue_all)

end

definition learn_mac :: "int \<Rightarrow> sr_arpcache \<Rightarrow> u8 list \<Rightarrow> u32 \<Rightarrow> sr_packet list \<times> sr_arpcache" where
  "learn_mac now c mac ip =
    (let (req, c) = sr_arpcache_insert now c mac ip
     in (case req of None \<Rightarrow> [] | Some r \<Rightarrow> rq_packets r, c))"

lemma learn_mac_parts:
  "fst (learn_mac now c mac ip) = waiting c ip"
  "snd (learn_mac now c mac ip) = snd (sr_arpcache_insert now c mac ip)"
  using insert_parts(1) [of now c mac ip] by (auto simp: learn_mac_def waiting_def split: prod.splits)

interpretation arp: neighbour_table arp_ok arp_mac waiting queue_packet "learn_mac now" for now
proof unfold_locales
  show "arp_mac (queue_packet t ip p) = arp_mac t" for t ip p
    by (simp add: arp_mac_def fun_eq_iff)
  show "waiting (snd (learn_mac now t mac ip)) x = (if x = ip then [] else waiting t x)" if "arp_ok t" for t mac ip x
    unfolding learn_mac_parts by (rule waiting_removed) (use that in \<open>simp_all add: insert_parts arp_okD\<close>)
qed (auto simp: arp_ok_queue arp_ok_insert arp_mac_def learn_mac_parts waiting_queue)

section \<open>Properties\<close>

text \<open>
  Packets that wait for an address are all released when the address is learnt, the youngest
  first, in front of those that waited before; no packet of another address is released or lost.
\<close>

theorem queued_packets_released:
  assumes "arp_ok c" and "Ball (set ps) packet_ok"
    and "d = fold (\<lambda>p c. queue_packet c ip p) ps c"
  shows "fst (learn_mac now d mac ip) = rev ps @ waiting c ip \<and>
    waiting (snd (sr_arpcache_insert now d mac ip)) x = (if x = ip then [] else waiting c x)"
proof -
  have d: "d = neighbour_table.enqueue_all queue_packet ip ps c"
    using assms(3) by (simp add: arp.enqueue_all_def)
  have "waiting (snd (learn_mac now d mac ip)) x = (if x = ip then [] else waiting c x)"
    unfolding d by (rule arp.release(2) [OF assms(1,2)])
  moreover have "fst (learn_mac now d mac ip) = rev ps @ waiting c ip"
    unfolding d by (rule arp.release(1) [OF assms(1,2)])
  ultimately show ?thesis by (simp only: learn_mac_parts(2) simp_thms)
qed

definition example_packet :: "u8 \<Rightarrow> sr_packet" where
  "example_packet k = \<lparr>pk_buf = [k, 0, 0], pk_iface = [101, k, 0]\<rparr>"

theorem queued_packets_released_witness:
  "fst (learn_mac 5 (fold (\<lambda>p c. queue_packet c 7 p) [example_packet 1, example_packet 2] sr_arpcache_init) [0, 0, 0, 0, 0, 1] 7) =
    [example_packet 2, example_packet 1]"
proof -
  have "Ball (set [example_packet 1, example_packet 2]) packet_ok"
    by (simp add: packet_ok_def example_packet_def name_ok_def)
  from queued_packets_released [OF arp_ok_init this refl, of 5 7 "[0, 0, 0, 0, 0, 1]"]
  show ?thesis by (simp add: waiting_def req_for_def sr_arpcache_init_def)
qed

text \<open>
  A learnt address is found by the next lookup while an entry of the array is free, and
  nothing else changes; with all hundred entries in use the mapping is dropped silently.
\<close>

theorem lookup_after_insert:
  assumes "arp_ok c" and "sr_arpcache_lookup c ip = None"
  shows "sr_arpcache_lookup (snd (sr_arpcache_insert now c mac ip)) x =
    (if length (valid_ips c) < SR_ARPCACHE_SZ \<and> x = ip
     then Some \<lparr>ae_mac = mac, ae_ip = ip, ae_added = now, ae_valid = True\<rparr> else sr_arpcache_lookup c x)"
proof -
  let ?e = "\<lparr>ae_mac = mac, ae_ip = ip, ae_added = now, ae_valid = True\<rparr>"
  have l: "sr_arpcache_lookup (snd (sr_arpcache_insert now c mac ip)) x =
      lookup_walk x (fill_slot ?e (entries c)) None"
    by (simp add: sr_arpcache_lookup_def insert_parts)
  have full: "length (valid_ips c) < SR_ARPCACHE_SZ \<longleftrightarrow> (\<exists>a \<in> set (entries c). \<not> ae_valid a)"
    using arp_okD(1) [OF assms(1)] length_filter_less [of _ "entries c" ae_valid]
    by (metis filter_True length_map order_less_irrefl valid_ips_def)
  show ?thesis
  proof (cases "\<exists>a \<in> set (entries c). \<not> ae_valid a")
    case True
    have "\<forall>a \<in> set (entries c). ae_valid a \<longrightarrow> ae_ip a \<noteq> ae_ip ?e"
      using assms(2) by (simp add: sr_arpcache_lookup_def lookup_walk_None_iff)
    from lookup_walk_fill_slot [OF _ True this, of x None] True show ?thesis
      unfolding l full by (simp add: sr_arpcache_lookup_def)
  next
    case False
    then show ?thesis by (simp only: l full fill_slot_full) (simp add: fill_slot_full sr_arpcache_lookup_def)
  qed
qed

theorem lookup_after_insert_witness:
  "sr_arpcache_lookup (snd (sr_arpcache_insert 5 sr_arpcache_init [0, 0, 0, 0, 0, 1] 7)) 7 =
    Some \<lparr>ae_mac = [0, 0, 0, 0, 0, 1], ae_ip = 7, ae_added = 5, ae_valid = True\<rparr>"
proof -
  have "sr_arpcache_lookup sr_arpcache_init 7 = None"
    by (simp add: lookup_None_iff valid_ips_def sr_arpcache_init_def)
  from lookup_after_insert [OF arp_ok_init this, of 5 "[0, 0, 0, 0, 0, 1]" 7]
  show ?thesis by (simp add: valid_ips_def sr_arpcache_init_def SR_ARPCACHE_SZ_def)
qed

text \<open>
  A mapping answers lookups for fifteen seconds and not longer: after a pass of the timeout
  thread exactly the mappings of at most that age are left.
\<close>

theorem entry_lifetime:
  assumes "arp_ok c"
  shows "sr_arpcache_lookup (arp_expire now c) ip =
    (case sr_arpcache_lookup c ip of None \<Rightarrow> None
     | Some a \<Rightarrow> if now - ae_added a \<le> SR_ARPCACHE_TO then Some a else None)"
proof -
  note e = lookup_expire [OF arp_okD(2) [OF assms], of now ip]
  show ?thesis
    by (cases "sr_arpcache_lookup (arp_expire now c) ip") (use e in \<open>auto split: option.splits\<close>)
qed

theorem entry_lifetime_witness:
  "let c = snd (sr_arpcache_insert 5 sr_arpcache_init [0, 0, 0, 0, 0, 1] 7) in
    sr_arpcache_lookup (arp_expire 20 c) 7 \<noteq> None \<and> sr_arpcache_lookup (arp_expire 21 c) 7 = None"
proof -
  let ?c = "snd (sr_arpcache_insert 5 sr_arpcache_init [0, 0, 0, 0, 0, 1] 7)"
  have "sr_arpcache_lookup sr_arpcache_init 7 = None"
    by (simp add: lookup_None_iff valid_ips_def sr_arpcache_init_def)
  then have ok: "arp_ok ?c" by (intro arp_ok_insert arp_ok_init) simp_all
  have "sr_arpcache_lookup ?c 7 = Some \<lparr>ae_mac = [0, 0, 0, 0, 0, 1], ae_ip = 7, ae_added = 5, ae_valid = True\<rparr>"
    by code_simp
  then show ?thesis
    by (simp add: Let_def entry_lifetime [OF ok] SR_ARPCACHE_TO_def)
qed

end
