(* ===== verification/Router.thy ===== *)
theory Router
  imports ArpCache
begin

text \<open>
  The router (\<^verbatim>\<open>router/sr_router.c\<close>), the retries of the ARP thread (\<^verbatim>\<open>sr_arpcache_sweepreqs\<close> and
  the loop body of \<^verbatim>\<open>sr_arpcache_timeout\<close> in \<^verbatim>\<open>router/sr_arpcache.c\<close>) and the frame input and
  output of \<^verbatim>\<open>router/sr_vns_comm.c\<close>. A packet is the list of the bytes of its buffer, so that
  the C argument \<^verbatim>\<open>len\<close> is its length; an access behind the end is a fault. \<open>sent\<close> collects
  the messages written to the server. The current time is an argument.
\<close>

section \<open>State\<close>

text \<open>
  The part of \<^verbatim>\<open>struct sr_instance\<close> that routing uses; \<open>sent\<close> stands for the socket. The other
  fields (user, host, topology, server address, log file) belong to the session with the server.
\<close>

record sr_instance =
  if_list :: "sr_if list"
  routing_table :: "sr_rt list"
  cache :: sr_arpcache
  sent :: "u8 list list"

definition ethertype_arp :: u16 where "ethertype_arp = 0x0806"
definition ethertype_ip :: u16 where "ethertype_ip = 0x0800"
definition arp_op_request :: u16 where "arp_op_request = 1"
definition arp_op_reply :: u16 where "arp_op_reply = 2"
definition arp_hrd_ethernet :: u16 where "arp_hrd_ethernet = 1"
definition ip_protocol_icmp :: u8 where "ip_protocol_icmp = 1"
definition ip_protocol_tcp :: u8 where "ip_protocol_tcp = 6"
definition ip_protocol_udp :: u8 where "ip_protocol_udp = 0x11"
definition INIT_TTL :: u8 where "INIT_TTL = 255"

section \<open>Header fields\<close>

text \<open>Offsets of the fields: Ethernet header, then ARP or IP header, then ICMP header.\<close>

definition eth_type :: "u8 list \<Rightarrow> u16 res" where "eth_type p = ld16 p 12"
definition eth_shost :: "u8 list \<Rightarrow> u8 list res" where "eth_shost p = ldn 6 p 6"
definition set_dhost :: "u8 list \<Rightarrow> u8 list \<Rightarrow> u8 list res" where "set_dhost p mac = stn p 0 mac"
definition set_shost :: "u8 list \<Rightarrow> u8 list \<Rightarrow> u8 list res" where "set_shost p mac = stn p 6 mac"
definition ar_op :: "u8 list \<Rightarrow> u16 res" where "ar_op p = ld16 p 20"
definition ar_sha :: "u8 list \<Rightarrow> u8 list res" where "ar_sha p = ldn 6 p 22"
definition ar_sip :: "u8 list \<Rightarrow> u32 res" where "ar_sip p = ld32 p 28"
definition ar_tip :: "u8 list \<Rightarrow> u32 res" where "ar_tip p = ld32 p 38"
definition ip_ttl :: "u8 list \<Rightarrow> u8 res" where "ip_ttl p = ld8 p 22"
definition ip_p :: "u8 list \<Rightarrow> u8 res" where "ip_p p = ld8 p 23"
definition ip_src :: "u8 list \<Rightarrow> u32 res" where "ip_src p = ld32 p 26"
definition ip_dst :: "u8 list \<Rightarrow> u32 res" where "ip_dst p = ld32 p 30"
definition set_ip_ttl :: "u8 list \<Rightarrow> u8 \<Rightarrow> u8 list res" where "set_ip_ttl p t = stn p 22 [t]"
definition set_ip_sum :: "u8 list \<Rightarrow> u16 \<Rightarrow> u8 list res" where "set_ip_sum p s = stn p 24 (bytes16 s)"
definition icmp_type :: "u8 list \<Rightarrow> u8 res" where "icmp_type p = ld8 p 34"

text \<open>The IP header with its options: \<^verbatim>\<open>4*ip_hl\<close> bytes from offset 14.\<close>

definition ip_header :: "u8 list \<Rightarrow> u8 list res" where
  "ip_header p = rbind (ld8 p 14) (\<lambda>b. ldn (4 * unat (b AND 0xf)) p 14)"

section \<open>Classification of packets\<close>

definition packet_is_not_arp_or_ip :: "u8 list \<Rightarrow> bool res" where
  "packet_is_not_arp_or_ip p =
    rbind (eth_type p) (\<lambda>t. Inr (t \<noteq> htons ethertype_arp \<and> t \<noteq> htons ethertype_ip))"

definition packet_is_arp_req :: "u8 list \<Rightarrow> bool res" where
  "packet_is_arp_req p = rbind (eth_type p) (\<lambda>t.
    if t = htons ethertype_arp then rbind (ar_op p) (\<lambda>op. Inr (op = htons arp_op_request)) else Inr False)"

definition packet_is_arp_reply :: "u8 list \<Rightarrow> bool res" where
  "packet_is_arp_reply p = rbind (eth_type p) (\<lambda>t.
    if t = htons ethertype_arp then rbind (ar_op p) (\<lambda>op. Inr (op = htons arp_op_reply)) else Inr False)"

definition packet_is_icmp_echo_req :: "u8 list \<Rightarrow> bool res" where
  "packet_is_icmp_echo_req p = rbind (eth_type p) (\<lambda>t.
    if t \<noteq> htons ethertype_ip then Inr False else
    rbind (ip_p p) (\<lambda>pr. if pr \<noteq> ip_protocol_icmp then Inr False else
    rbind (icmp_type p) (\<lambda>ty. Inr (ty = 8))))"

definition packet_is_tcp_udp :: "u8 list \<Rightarrow> bool res" where
  "packet_is_tcp_udp p = rbind (eth_type p) (\<lambda>t.
    if t \<noteq> htons ethertype_ip then Inr False else
    rbind (ip_p p) (\<lambda>pr. Inr (pr = ip_protocol_tcp \<or> pr = ip_protocol_udp)))"

fun if_walk_ip :: "sr_if list \<Rightarrow> u8 list \<Rightarrow> bool res" where
  "if_walk_ip [] p = Inr False"
| "if_walk_ip (i # is) p = rbind (ip_dst p) (\<lambda>d. if if_ip i = d then Inr True else if_walk_ip is p)"

definition sr_packet_is_ip_to_us :: "sr_instance \<Rightarrow> u8 list \<Rightarrow> bool res" where
  "sr_packet_is_ip_to_us sr p = rbind (eth_type p) (\<lambda>t.
    if t \<noteq> htons ethertype_ip then Inr False else if_walk_ip (if_list sr) p)"

definition check_ip_packet_corrupt :: "u8 list \<Rightarrow> bool res" where
  "check_ip_packet_corrupt p = rbind (ip_header p) (\<lambda>h.
    rbind (ld16 h 10) (\<lambda>sum.
    rbind (stn h 10 (bytes16 0)) (\<lambda>h. Inr (cksum h \<noteq> sum))))"

definition check_icmp_packet_corrupt :: "u8 list \<Rightarrow> bool res" where
  "check_icmp_packet_corrupt h =
    rbind (ld16 h 2) (\<lambda>sum. rbind (stn h 2 (bytes16 0)) (\<lambda>h. Inr (cksum h \<noteq> sum)))"

section \<open>Output\<close>

definition sr_ether_addrs_match_interface :: "sr_instance \<Rightarrow> u8 list \<Rightarrow> name \<Rightarrow> bool res" where
  "sr_ether_addrs_match_interface sr buf name =
    rbind (sr_get_interface (if_list sr) name) (\<lambda>iface.
    case iface of None \<Rightarrow> Inr False
    | Some i \<Rightarrow> rbind (eth_shost buf) (\<lambda>a. Inr (a = if_addr i)))"

definition vns_frame :: "name \<Rightarrow> u8 list \<Rightarrow> u8 list" where
  "vns_frame n buf = bytes32 (htonl (of_nat (length buf + 24))) @ bytes32 (htonl 4) @ n @ buf"

definition sr_send_packet :: "sr_instance \<Rightarrow> u8 list \<Rightarrow> name \<Rightarrow> (sr_instance \<times> int) res" where
  "sr_send_packet sr buf iface =
    (if length buf < 14 then Inr (sr, -1) else
     rbind (strncpy 16 iface) (\<lambda>n.
     rbind (sr_ether_addrs_match_interface sr buf iface) (\<lambda>ok.
     if \<not> ok then Inr (sr, -1) else Inr (sr\<lparr>sent := sent sr @ [vns_frame n buf]\<rparr>, 0))))"

text \<open>The callers ignore the result.\<close>

definition emit :: "sr_instance \<Rightarrow> u8 list \<Rightarrow> name \<Rightarrow> sr_instance res" where
  "emit sr buf iface = rbind (sr_send_packet sr buf iface) (\<lambda>r. Inr (fst r))"

text \<open>
  The headers of packets the router originates. The payload of \<^verbatim>\<open>payload_len\<close> bytes behind the
  header of \<^verbatim>\<open>sr_prepare_ip_packet\<close> is memory that every caller fills completely; the model
  returns the header, and the callers append their payload.
\<close>

definition ip_hdr_bytes :: "u16 \<Rightarrow> u8 \<Rightarrow> u16 \<Rightarrow> u32 \<Rightarrow> u32 \<Rightarrow> u8 list" where
  "ip_hdr_bytes ip_len proto cs src dst =
    [0x45, 0] @ bytes16 (htons ip_len) @ bytes16 0 @ bytes16 0 @ [INIT_TTL, proto] @ bytes16 cs @
    bytes32 src @ bytes32 dst"

definition sr_prepare_ip_packet ::
  "sr_instance \<Rightarrow> nat \<Rightarrow> u32 \<Rightarrow> u8 list \<Rightarrow> u32 \<Rightarrow> u8 \<Rightarrow> name \<Rightarrow> u8 list res" where
  "sr_prepare_ip_packet sr payload_len dest_ip dest_mac src_ip protocol interface =
    rbind (sr_get_interface (if_list sr) interface) (\<lambda>iface.
    case iface of None \<Rightarrow> Inl AssertFailed
    | Some i \<Rightarrow>
      let src = (if src_ip = 0 then if_ip i else src_ip);
          hdr = (\<lambda>sum. ip_hdr_bytes (of_nat (20 + payload_len)) protocol sum src dest_ip)
      in Inr (dest_mac @ if_addr i @ bytes16 (htons ethertype_ip) @ hdr (cksum (hdr 0))))"

definition sr_prepare_arp_packet ::
  "sr_instance \<Rightarrow> name \<Rightarrow> u8 list \<Rightarrow> u16 \<Rightarrow> u8 list \<Rightarrow> u32 \<Rightarrow> u8 list res" where
  "sr_prepare_arp_packet sr interface dest_mac arp_op arp_tha arp_tip =
    rbind (sr_get_interface (if_list sr) interface) (\<lambda>iface.
    case iface of None \<Rightarrow> Inl AssertFailed
    | Some i \<Rightarrow> Inr (dest_mac @ if_addr i @ bytes16 (htons ethertype_arp) @
        bytes16 (htons arp_hrd_ethernet) @ bytes16 (htons ethertype_ip) @ [6, 4] @
        bytes16 (htons arp_op) @ if_addr i @ bytes32 (if_ip i) @ arp_tha @ bytes32 arp_tip))"

definition sr_send_arp_request :: "sr_instance \<Rightarrow> u32 \<Rightarrow> name \<Rightarrow> sr_instance res" where
  "sr_send_arp_request sr ip interface =
    rbind (sr_prepare_arp_packet sr interface (replicate 6 0xff) arp_op_request (replicate 6 0) ip)
      (\<lambda>buf. emit sr buf interface)"

definition sr_send_arp_response :: "sr_instance \<Rightarrow> u8 list \<Rightarrow> name \<Rightarrow> sr_instance res" where
  "sr_send_arp_response sr p interface =
    rbind (eth_shost p) (\<lambda>shost. rbind (ar_sha p) (\<lambda>sha. rbind (ar_sip p) (\<lambda>sip.
    rbind (sr_prepare_arp_packet sr interface shost arp_op_reply sha sip)
      (\<lambda>buf. emit sr buf interface))))"

section \<open>ICMP\<close>

definition icmp_t08_bytes :: "u16 \<Rightarrow> u16 \<Rightarrow> u16 \<Rightarrow> u8 list" where
  "icmp_t08_bytes cs ident sq = [0, 0] @ bytes16 cs @ bytes16 ident @ bytes16 sq"

definition icmp_t11_bytes :: "u8 \<Rightarrow> u8 \<Rightarrow> u16 \<Rightarrow> u8 list \<Rightarrow> u8 list" where
  "icmp_t11_bytes type code cs data = [type, code] @ bytes16 cs @ bytes32 0 @ data"

definition sr_send_icmp_response :: "sr_instance \<Rightarrow> u8 list \<Rightarrow> name \<Rightarrow> sr_instance res" where
  "sr_send_icmp_response sr p interface =
    rbind (check_icmp_packet_corrupt (drop 34 p)) (\<lambda>bad.
    if bad then Inr sr else
    rbind (ip_src p) (\<lambda>src. rbind (eth_shost p) (\<lambda>shost. rbind (ip_dst p) (\<lambda>dst.
    rbind (sr_prepare_ip_packet sr 8 src shost dst ip_protocol_icmp interface) (\<lambda>hdr.
    rbind (ld16 p 38) (\<lambda>ident. rbind (ld16 p 40) (\<lambda>sq.
    emit sr (hdr @ icmp_t08_bytes (cksum (icmp_t08_bytes 0 ident sq)) ident sq) interface)))))))"

text \<open>The body of a type 3 or 11 message: 20 bytes of header and 8 bytes of data of the packet.\<close>

definition icmp_error_body :: "u8 \<Rightarrow> u8 \<Rightarrow> u8 list \<Rightarrow> u8 list res" where
  "icmp_error_body type code p =
    rbind (ldn 20 p 14) (\<lambda>h. rbind (ldn 8 p 34) (\<lambda>d.
    Inr (icmp_t11_bytes type code (cksum (icmp_t11_bytes type code 0 (h @ d))) (h @ d))))"

definition send_icmp_error :: "u8 \<Rightarrow> u8 \<Rightarrow> sr_instance \<Rightarrow> u8 list \<Rightarrow> name \<Rightarrow> sr_instance res" where
  "send_icmp_error type code sr p interface =
    rbind (ip_src p) (\<lambda>src. rbind (eth_shost p) (\<lambda>shost.
    rbind (sr_prepare_ip_packet sr 36 src shost 0 ip_protocol_icmp interface) (\<lambda>hdr.
    rbind (icmp_error_body type code p) (\<lambda>icmp. emit sr (hdr @ icmp) interface))))"

definition sr_send_icmp_net_unreachable :: "sr_instance \<Rightarrow> u8 list \<Rightarrow> name \<Rightarrow> sr_instance res" where
  "sr_send_icmp_net_unreachable = send_icmp_error 3 0"

definition sr_send_icmp_time_exceeded :: "sr_instance \<Rightarrow> u8 list \<Rightarrow> name \<Rightarrow> sr_instance res" where
  "sr_send_icmp_time_exceeded = send_icmp_error 11 0"

definition sr_send_icmp_port_unreachable :: "sr_instance \<Rightarrow> u8 list \<Rightarrow> name \<Rightarrow> sr_instance res" where
  "sr_send_icmp_port_unreachable = send_icmp_error 3 3"

text \<open>The packet goes out to its next hop, or waits for the next hop's address.\<close>

definition sr_send_icmp_host_unreachable :: "sr_instance \<Rightarrow> u8 list \<Rightarrow> sr_instance res" where
  "sr_send_icmp_host_unreachable sr p =
    rbind (ip_src p) (\<lambda>src.
    case sr_rt_lookup_ip (routing_table sr) src of None \<Rightarrow> Inl NullDeref
    | Some entry \<Rightarrow>
      rbind (sr_get_interface (if_list sr) (rt_if entry)) (\<lambda>iface.
      case iface of None \<Rightarrow> Inl NullDeref
      | Some i \<Rightarrow>
        rbind (sr_prepare_ip_packet sr 36 src (if_addr i) 0 ip_protocol_icmp (rt_if entry)) (\<lambda>hdr.
        rbind (icmp_error_body 3 1 p) (\<lambda>icmp.
        case sr_arpcache_lookup (cache sr) (rt_gw entry) of
          None \<Rightarrow>
            rbind (sr_arpcache_queuereq (cache sr) (rt_gw entry) (hdr @ icmp) (rt_if entry)) (\<lambda>c.
            sr_send_arp_request (sr\<lparr>cache := c\<rparr>) (rt_gw entry) (rt_if entry))
        | Some a \<Rightarrow>
            rbind (set_dhost (hdr @ icmp) (ae_mac a)) (\<lambda>buf. emit sr buf (rt_if entry))))))"

section \<open>Forwarding\<close>

definition sr_forward_packet :: "sr_instance \<Rightarrow> u8 list \<Rightarrow> name \<Rightarrow> sr_instance res" where
  "sr_forward_packet sr p interface =
    rbind (check_ip_packet_corrupt p) (\<lambda>bad.
    if bad then Inr sr else
    rbind (ip_ttl p) (\<lambda>ttl. rbind (set_ip_ttl p (ttl - 1)) (\<lambda>buf.
    if ttl - 1 = 0 then sr_send_icmp_time_exceeded sr p interface else
    rbind (set_ip_sum buf 0) (\<lambda>buf. rbind (ip_header buf) (\<lambda>h. rbind (set_ip_sum buf (cksum h)) (\<lambda>buf.
    rbind (ip_dst buf) (\<lambda>dst.
    case sr_rt_lookup_ip (routing_table sr) dst of
      None \<Rightarrow> sr_send_icmp_net_unreachable sr p interface
    | Some entry \<Rightarrow>
      rbind (sr_get_interface (if_list sr) (rt_if entry)) (\<lambda>iface.
      case iface of None \<Rightarrow> Inl AssertFailed
      | Some i \<Rightarrow>
        rbind (set_shost buf (if_addr i)) (\<lambda>buf.
        case sr_arpcache_lookup (cache sr) (rt_gw entry) of
          None \<Rightarrow>
            rbind (sr_arpcache_queuereq (cache sr) (rt_gw entry) buf (rt_if entry)) (\<lambda>c.
            sr_send_arp_request (sr\<lparr>cache := c\<rparr>) (rt_gw entry) (rt_if entry))
        | Some a \<Rightarrow>
            rbind (set_dhost buf (ae_mac a)) (\<lambda>buf. emit sr buf (rt_if entry)))))))))))"

section \<open>ARP replies\<close>

definition send_queued :: "u8 list \<Rightarrow> sr_packet \<Rightarrow> sr_instance \<Rightarrow> sr_instance res" where
  "send_queued mac pkt sr = rbind (set_dhost (pk_buf pkt) mac) (\<lambda>buf. emit sr buf (pk_iface pkt))"

definition sr_send_arp_queued_packets :: "sr_instance \<Rightarrow> sr_packet list \<Rightarrow> u8 list \<Rightarrow> sr_instance res" where
  "sr_send_arp_queued_packets sr packets mac = rfold (send_queued mac) packets sr"

definition sr_arp_send_packets :: "sr_instance \<Rightarrow> u8 list \<Rightarrow> u32 \<Rightarrow> sr_instance res" where
  "sr_arp_send_packets sr mac ip =
    (let (req, rs) = take_req ip (requests (cache sr))
     in case req of None \<Rightarrow> Inr sr
        | Some r \<Rightarrow> sr_send_arp_queued_packets (sr\<lparr>cache := (cache sr)\<lparr>requests := rs\<rparr>\<rparr>) (rq_packets r) mac)"

definition sr_handle_arp_reply :: "int \<Rightarrow> sr_instance \<Rightarrow> u8 list \<Rightarrow> sr_instance res" where
  "sr_handle_arp_reply now sr p =
    rbind (ar_sha p) (\<lambda>mac. rbind (ar_sip p) (\<lambda>ip.
    case sr_arpcache_lookup (cache sr) ip of
      None \<Rightarrow>
        let (req, c) = sr_arpcache_insert now (cache sr) mac ip; sr = sr\<lparr>cache := c\<rparr>
        in (case req of None \<Rightarrow> Inr sr | Some r \<Rightarrow> sr_send_arp_queued_packets sr (rq_packets r) mac)
    | Some _ \<Rightarrow> sr_arp_send_packets sr mac ip))"

section \<open>Input\<close>

definition sr_handlepacket :: "int \<Rightarrow> sr_instance \<Rightarrow> u8 list \<Rightarrow> name \<Rightarrow> sr_instance res" where
  "sr_handlepacket now sr p interface =
    rbind (packet_is_not_arp_or_ip p) (\<lambda>other. if other then Inr sr else
    rbind (packet_is_arp_req p) (\<lambda>req. if req then sr_send_arp_response sr p interface else
    rbind (packet_is_arp_reply p) (\<lambda>reply. if reply then sr_handle_arp_reply now sr p else
    rbind (sr_packet_is_ip_to_us sr p) (\<lambda>us.
    if us then
      rbind (packet_is_icmp_echo_req p) (\<lambda>echo. if echo then sr_send_icmp_response sr p interface else
      rbind (packet_is_tcp_udp p) (\<lambda>tu. if tu then sr_send_icmp_port_unreachable sr p interface else Inr sr))
    else sr_forward_packet sr p interface))))"

definition sr_arp_req_not_for_us :: "sr_instance \<Rightarrow> u8 list \<Rightarrow> name \<Rightarrow> bool res" where
  "sr_arp_req_not_for_us sr p interface =
    rbind (sr_get_interface (if_list sr) interface) (\<lambda>iface.
    if length p < 42 then Inr False else
    case iface of None \<Rightarrow> Inl AssertFailed
    | Some i \<Rightarrow>
      rbind (eth_type p) (\<lambda>t. rbind (ar_op p) (\<lambda>op. rbind (ar_tip p) (\<lambda>tip.
      Inr (t = htons ethertype_arp \<and> op = htons arp_op_request \<and> tip \<noteq> if_ip i)))))"

text \<open>
  The branches \<^verbatim>\<open>VNSPACKET\<close> and \<^verbatim>\<open>VNSHWINFO\<close> of \<^verbatim>\<open>sr_read_from_server_expect\<close>, on the whole
  command. The interface name is the pointer behind the 8 bytes of length and type. A command
  that ends before the packet makes the code compute a length that wraps and read behind the end.
\<close>

definition vns_packet :: "int \<Rightarrow> sr_instance \<Rightarrow> u8 list \<Rightarrow> sr_instance res" where
  "vns_packet now sr buf =
    (if length buf < 24 then Inl OutOfBounds else
     rbind (sr_arp_req_not_for_us sr (drop 24 buf) (drop 8 buf)) (\<lambda>n.
     if n then Inr sr else sr_handlepacket now sr (drop 24 buf) (drop 8 buf)))"

definition vns_hwinfo :: "(nat \<Rightarrow> sr_if) \<Rightarrow> sr_instance \<Rightarrow> u8 list \<Rightarrow> (sr_instance \<times> int) res" where
  "vns_hwinfo node sr buf =
    rbind (sr_handle_hwinfo node buf (if_list sr)) (\<lambda>(is, n).
    rbind (sr_verify_routing_table is (routing_table sr)) (\<lambda>bad.
    Inr (sr\<lparr>if_list := is\<rparr>, if bad \<noteq> 0 then -1 else 1)))"

section \<open>Retries\<close>

definition update_req :: "u32 \<Rightarrow> (sr_arpreq \<Rightarrow> sr_arpreq) \<Rightarrow> sr_arpcache \<Rightarrow> sr_arpcache" where
  "update_req ip f c = c\<lparr>requests := map (\<lambda>r. if rq_ip r = ip then f r else r) (requests c)\<rparr>"

definition mark_sent :: "int \<Rightarrow> sr_arpreq \<Rightarrow> sr_arpreq" where
  "mark_sent curtime r = r\<lparr>rq_times_sent := rq_times_sent r + 1, rq_sent := curtime\<rparr>"

definition give_up :: "sr_packet \<Rightarrow> sr_instance \<Rightarrow> sr_instance res" where
  "give_up pkt sr = sr_send_icmp_host_unreachable sr (pk_buf pkt)"

definition sweep_req :: "int \<Rightarrow> u32 \<Rightarrow> sr_instance \<Rightarrow> sr_instance res" where
  "sweep_req curtime ip sr =
    (case req_for (cache sr) ip of None \<Rightarrow> Inr sr
     | Some req \<Rightarrow>
       if rq_sent req > 0 \<and> curtime - rq_sent req < 1 then Inr sr
       else if rq_times_sent req \<ge> 4 then
         rbind (rfold give_up (rq_packets req) sr) (\<lambda>sr. Inr (sr\<lparr>cache := sr_arpreq_destroy (cache sr) ip\<rparr>))
       else (case rq_packets req of [] \<Rightarrow> Inl AssertFailed
         | pkt # _ \<Rightarrow> sr_send_arp_request
             (sr\<lparr>cache := update_req ip (mark_sent curtime) (cache sr)\<rparr>) ip (pk_iface pkt)))"

text \<open>
  The loop visits the requests that were in the queue when it started: those that the host
  unreachable messages add go to the front of the list.
\<close>

definition sr_arpcache_sweepreqs :: "int \<Rightarrow> sr_instance \<Rightarrow> sr_instance res" where
  "sr_arpcache_sweepreqs curtime sr = rfold (sweep_req curtime) (map rq_ip (requests (cache sr))) sr"

definition sr_arpcache_timeout :: "int \<Rightarrow> int \<Rightarrow> sr_instance \<Rightarrow> sr_instance res" where
  "sr_arpcache_timeout t t' sr = sr_arpcache_sweepreqs t' (sr\<lparr>cache := arp_expire t (cache sr)\<rparr>)"

end
