(* ===== verification/RouterInvariant.thy ===== *)
theory RouterInvariant
  imports Router
begin

text \<open>
  What the router sends, and the invariant of its state: well-formed interfaces, routes over
  existing interfaces, the ARP cache, and queued packets that can be answered. From a state with
  this invariant the handling of well-formed frames and the passes of the ARP thread never fault.
\<close>

section \<open>Loads inside a packet\<close>

lemma ld8_Inr [simp]: "i < length p \<Longrightarrow> ld8 p i = Inr (p ! i)"
  by (simp add: ld8_def)

lemma ld16_Inr [simp]: "i + 2 \<le> length p \<Longrightarrow> ld16 p i = Inr (word16 (p ! i) (p ! (i + 1)))"
  by (simp add: ld16_def)

lemma ld32_Inr [simp]:
  "i + 4 \<le> length p \<Longrightarrow> ld32 p i = Inr (word32 (p ! i) (p ! (i + 1)) (p ! (i + 2)) (p ! (i + 3)))"
  by (simp add: ld32_def)

lemmas fields = eth_type_def eth_shost_def ar_op_def ar_sha_def ar_sip_def ar_tip_def ip_ttl_def ip_p_def
  ip_src_def ip_dst_def icmp_type_def

lemma ldn_append: "i + n \<le> length a \<Longrightarrow> ldn n (a @ b) i = ldn n a i"
  by (simp add: ldn_def)

lemma ldn_append2: "length a \<le> i \<Longrightarrow> ldn n (a @ b) i = ldn n b (i - length a)"
  by (auto simp: ldn_def)

section \<open>Packets the router writes\<close>

definition interface_for :: "sr_instance \<Rightarrow> name \<Rightarrow> sr_if option" where
  "interface_for sr name = find (\<lambda>i. cstr 32 (if_name i) = cstr 32 name) (if_list sr)"

definition padded :: "nat \<Rightarrow> name \<Rightarrow> name" where
  "padded n s = (case strncpy n s of Inr t \<Rightarrow> t | Inl _ \<Rightarrow> [])"

definition ifs_ok :: "sr_instance \<Rightarrow> bool" where
  "ifs_ok sr \<longleftrightarrow> (\<forall>i \<in> set (if_list sr). if_ok i)"

definition wire :: "name \<Rightarrow> u8 list \<Rightarrow> u8 list" where
  "wire iface buf = vns_frame (padded 16 iface) buf"

definition put :: "u8 list list \<Rightarrow> sr_instance \<Rightarrow> sr_instance" where
  "put ms sr = sr\<lparr>sent := sent sr @ ms\<rparr>"

definition arp_packet :: "sr_if \<Rightarrow> u8 list \<Rightarrow> u16 \<Rightarrow> u8 list \<Rightarrow> u32 \<Rightarrow> u8 list" where
  "arp_packet i dhost op tha tip = dhost @ if_addr i @ bytes16 (htons ethertype_arp) @
    bytes16 (htons arp_hrd_ethernet) @ bytes16 (htons ethertype_ip) @ [6, 4] @
    bytes16 (htons op) @ if_addr i @ bytes32 (if_ip i) @ tha @ bytes32 tip"

definition arp_request :: "sr_if \<Rightarrow> u32 \<Rightarrow> u8 list" where
  "arp_request i ip = arp_packet i (replicate 6 0xff) arp_op_request (replicate 6 0) ip"

definition icmp_packet :: "sr_if \<Rightarrow> u8 list \<Rightarrow> u32 \<Rightarrow> u32 \<Rightarrow> u8 list \<Rightarrow> u8 list" where
  "icmp_packet i dhost src dst icmp = (let hdr = (\<lambda>s. ip_hdr_bytes (of_nat (20 + length icmp)) ip_protocol_icmp s src dst)
    in dhost @ if_addr i @ bytes16 (htons ethertype_ip) @ hdr (cksum (hdr 0)) @ icmp)"

lemma put_simps [simp]:
  "if_list (put ms sr) = if_list sr" "routing_table (put ms sr) = routing_table sr"
  "cache (put ms sr) = cache sr" "sent (put ms sr) = sent sr @ ms"
  by (simp_all add: put_def)

lemma put_put [simp]: "put a (put b sr) = put (b @ a) sr" "put [] sr = sr"
  by (simp_all add: put_def)

lemma interface_for_put [simp]: "interface_for (put ms sr) = interface_for sr"
  by (simp add: interface_for_def fun_eq_iff)

lemma interface_for_cache [simp]: "interface_for (sr\<lparr>cache := c\<rparr>) = interface_for sr"
  by (simp add: interface_for_def fun_eq_iff)

lemma ifs_ok_simps [simp]: "ifs_ok (put ms sr) = ifs_ok sr" "ifs_ok (sr\<lparr>cache := c\<rparr>) = ifs_ok sr"
  by (simp_all add: ifs_ok_def)

lemma get_interface: "ifs_ok sr \<Longrightarrow> name_ok 32 name \<Longrightarrow> sr_get_interface (if_list sr) name = Inr (interface_for sr name)"
  by (simp add: sr_get_interface_eq ifs_ok_def interface_for_def)

lemma interface_forD:
  assumes "interface_for sr name = Some i" and "ifs_ok sr"
  shows "i \<in> set (if_list sr)" "if_ok i" "length (if_addr i) = 6"
proof -
  show i: "i \<in> set (if_list sr)" using assms(1) by (auto simp: interface_for_def find_Some_iff)
  then show "if_ok i" using assms(2) by (simp add: ifs_ok_def)
  then show "length (if_addr i) = 6" by (rule if_okD)
qed

lemma strncpy_padded: "name_ok n s \<Longrightarrow> strncpy n s = Inr (padded n s)"
  using strncpy_Inr [of n s] by (auto simp: padded_def)

lemma length_padded: "name_ok n s \<Longrightarrow> length (padded n s) = n"
  using strncpy_Inr [of n s] by (auto simp: padded_def)

lemma cstr_padded: "name_ok n s \<Longrightarrow> cstr n (padded n s) = cstr n s"
  using strncpy_Inr [of n s] by (auto simp: padded_def)

text \<open>A packet with the address of its interface as source address is written.\<close>

lemma emit_put:
  assumes "ifs_ok sr" and "name_ok 32 iface" and "interface_for sr iface = Some i"
    and "14 \<le> length buf" and "take 6 (drop 6 buf) = if_addr i"
  shows "emit sr buf iface = Inr (put [wire iface buf] sr)"
  using assms get_interface [OF assms(1,2)] strncpy_padded [OF name_ok_mono [OF _ assms(2)], of 16]
  by (simp add: emit_def sr_send_packet_def sr_ether_addrs_match_interface_def eth_shost_def wire_def put_def)

lemma arp_request_put:
  assumes "ifs_ok sr" and "name_ok 32 iface" and "interface_for sr iface = Some i"
  shows "sr_send_arp_request sr ip iface = Inr (put [wire iface (arp_request i ip)] sr)"
proof -
  have "sr_prepare_arp_packet sr iface (replicate 6 0xff) arp_op_request (replicate 6 0) ip = Inr (arp_request i ip)"
    using assms by (simp add: sr_prepare_arp_packet_def get_interface arp_request_def arp_packet_def)
  moreover have "emit sr (arp_request i ip) iface = Inr (put [wire iface (arp_request i ip)] sr)"
    using interface_forD [OF assms(3,1)]
    by (intro emit_put [OF assms]) (simp_all add: arp_request_def arp_packet_def)
  ultimately show ?thesis by (simp add: sr_send_arp_request_def)
qed

lemma prepare_icmp:
  assumes "ifs_ok sr" and "name_ok 32 iface" and "interface_for sr iface = Some i" and "length icmp = n"
  shows "rbind (sr_prepare_ip_packet sr n dst dhost src ip_protocol_icmp iface) (\<lambda>hdr. f (hdr @ icmp)) =
    f (icmp_packet i dhost (if src = 0 then if_ip i else src) dst icmp)"
  using assms by (simp add: sr_prepare_ip_packet_def get_interface icmp_packet_def Let_def)

lemma length_icmp_packet [simp]:
  "length (icmp_packet i dhost src dst icmp) = length dhost + length (if_addr i) + 22 + length icmp"
  by (simp add: icmp_packet_def Let_def ip_hdr_bytes_def)

definition icmp_error :: "u8 \<Rightarrow> u8 \<Rightarrow> u8 list \<Rightarrow> u8 list" where
  "icmp_error type code p = (let b = (\<lambda>s. icmp_t11_bytes type code s (take 28 (drop 14 p))) in b (cksum (b 0)))"

definition icmp_echo_reply :: "u8 list \<Rightarrow> u8 list" where
  "icmp_echo_reply p = (let b = (\<lambda>s. [0, 0] @ bytes16 s @ take 4 (drop 38 p)) in b (cksum (b 0)))"

abbreviation src_of :: "u8 list \<Rightarrow> u32" where
  "src_of p \<equiv> word32 (p ! 26) (p ! 27) (p ! 28) (p ! 29)"

abbreviation dst_of :: "u8 list \<Rightarrow> u32" where
  "dst_of p \<equiv> word32 (p ! 30) (p ! 31) (p ! 32) (p ! 33)"

abbreviation shost_of :: "u8 list \<Rightarrow> u8 list" where
  "shost_of p \<equiv> take 6 (drop 6 p)"

lemma error_body: "42 \<le> length p \<Longrightarrow> icmp_error_body type code p = Inr (icmp_error type code p)"
proof -
  assume "42 \<le> length p"
  then have "take 20 (drop 14 p) @ take 8 (drop 34 p) = take 28 (drop 14 p)"
    using take_add [of 20 8 "drop 14 p"] by (simp add: add.commute)
  with \<open>42 \<le> length p\<close> show ?thesis by (simp add: icmp_error_body_def icmp_error_def Let_def)
qed

lemma length_icmp_error [simp]: "42 \<le> length p \<Longrightarrow> length (icmp_error type code p) = 36"
  by (simp add: icmp_error_def icmp_t11_bytes_def Let_def)

lemma icmp_packet_shost: "length dhost = 6 \<Longrightarrow> length (if_addr i) = 6 \<Longrightarrow>
    shost_of (icmp_packet i dhost src dst icmp) = if_addr i"
  by (simp add: icmp_packet_def Let_def)

lemma icmp_packet_src:
  assumes "length dhost = 6" and "length (if_addr i) = 6"
  shows "src_of (icmp_packet i dhost src dst icmp) = src"
  using assms by (simp add: icmp_packet_def Let_def ip_hdr_bytes_def bytes16_def nth_append nth_Cons' bytes32_def [of dst])

lemma icmp_error_put:
  assumes "ifs_ok sr" and "name_ok 32 iface" and "interface_for sr iface = Some i" and "42 \<le> length p"
  shows "send_icmp_error type code sr p iface =
    Inr (put [wire iface (icmp_packet i (shost_of p) (if_ip i) (src_of p) (icmp_error type code p))] sr)"
proof -
  note i = interface_forD [OF assms(3,1)]
  let ?q = "icmp_packet i (shost_of p) (if_ip i) (src_of p) (icmp_error type code p)"
  have "emit sr ?q iface = Inr (put [wire iface ?q] sr)"
    using i assms(4) by (intro emit_put [OF assms(1-3)]) (simp_all add: icmp_packet_shost)
  moreover have "send_icmp_error type code sr p iface = emit sr ?q iface"
    using assms(4) prepare_icmp [OF assms(1-3), of "icmp_error type code p" 36 "src_of p" "shost_of p" 0 "\<lambda>b. emit sr b iface"]
    by (simp add: send_icmp_error_def fields error_body)
  ultimately show ?thesis by simp
qed

lemma echo_reply_put:
  assumes "ifs_ok sr" and "name_ok 32 iface" and "interface_for sr iface = Some i" and "42 \<le> length p"
    and "check_icmp_packet_corrupt (drop 34 p) = Inr False"
  shows "sr_send_icmp_response sr p iface =
    Inr (put [wire iface (icmp_packet i (shost_of p) (if dst_of p = 0 then if_ip i else dst_of p) (src_of p)
      (icmp_echo_reply p))] sr)"
proof -
  note i = interface_forD [OF assms(3,1)]
  let ?q = "icmp_packet i (shost_of p) (if dst_of p = 0 then if_ip i else dst_of p) (src_of p) (icmp_echo_reply p)"
  let ?ident = "word16 (p ! 38) (p ! 39)" and ?sq = "word16 (p ! 40) (p ! 41)"
  have "take 4 (drop 38 p) = bytes16 ?ident @ bytes16 ?sq"
  proof -
    have "take 4 (drop 38 p) = [p ! 38, p ! 39, p ! 40, p ! 41]"
      using assms(4) by (intro nth_equalityI) (auto simp: nth_Cons' less_Suc_eq eval_nat_numeral)
    then show ?thesis by simp
  qed
  then have b: "icmp_t08_bytes (cksum (icmp_t08_bytes 0 ?ident ?sq)) ?ident ?sq = icmp_echo_reply p"
    by (simp add: icmp_t08_bytes_def icmp_echo_reply_def Let_def)
  have l: "length (icmp_echo_reply p) = 8" using assms(4) by (simp add: icmp_echo_reply_def Let_def)
  have "emit sr ?q iface = Inr (put [wire iface ?q] sr)"
    using i assms(4) by (intro emit_put [OF assms(1-3)]) (simp_all add: icmp_packet_shost)
  moreover have "sr_send_icmp_response sr p iface = emit sr ?q iface"
    using assms(4,5) prepare_icmp [OF assms(1-3) l, of "src_of p" "shost_of p" "dst_of p" "\<lambda>b. emit sr b iface"]
    by (simp add: sr_send_icmp_response_def fields b)
  ultimately show ?thesis by simp
qed

section \<open>Forwarding\<close>

abbreviation ip_hdr_len :: "u8 list \<Rightarrow> nat" where
  "ip_hdr_len p \<equiv> 4 * unat (p ! 14 AND 0xf)"

text \<open>An IP packet the code can handle: a header of at least 12 bytes and 28 bytes inside the buffer.\<close>

definition ip_wf :: "u8 list \<Rightarrow> bool" where
  "ip_wf p \<longleftrightarrow> 42 \<le> length p \<and> 12 \<le> ip_hdr_len p \<and> 14 + ip_hdr_len p \<le> length p"

definition ip_sum_ok :: "u8 list \<Rightarrow> bool" where
  "ip_sum_ok p \<longleftrightarrow>
    (let h = take (ip_hdr_len p) (drop 14 p) in bytes16 (cksum (h[10 := 0, 11 := 0])) = take 2 (drop 10 h))"

definition fwd_blank :: "u8 list \<Rightarrow> u8 list" where
  "fwd_blank p = p[22 := p ! 22 - 1, 24 := 0, 25 := 0]"

definition fwd_sum :: "u8 list \<Rightarrow> u16" where
  "fwd_sum p = cksum (take (ip_hdr_len p) (drop 14 (fwd_blank p)))"

definition forwarded :: "u8 list \<Rightarrow> u8 list \<Rightarrow> u8 list" where
  "forwarded shost p = take 6 p @ shost @
     drop 12 ((fwd_blank p)[24 := ucast (fwd_sum p), 25 := ucast (drop_bit 8 (fwd_sum p))])"

lemma length_fwd_blank [simp]: "length (fwd_blank p) = length p"
  by (simp add: fwd_blank_def)

lemma ip_header_Inr: "ip_wf p \<Longrightarrow> ip_header p = Inr (take (ip_hdr_len p) (drop 14 p))"
  by (simp add: ip_wf_def ip_header_def)

lemma check_ip: "ip_wf p \<Longrightarrow> check_ip_packet_corrupt p = Inr (\<not> ip_sum_ok p)"
proof -
  assume wf: "ip_wf p"
  let ?h = "take (ip_hdr_len p) (drop 14 p)"
  have len: "12 \<le> length ?h" using wf by (auto simp: ip_wf_def)
  then have "stn ?h 10 (bytes16 0) = Inr (?h[10 := 0, 11 := 0])"
    using stn_two [of 10 ?h 0 0] by (simp add: bytes16_def)
  moreover have "ld16 ?h 10 = Inr (word16 (?h ! 10) (?h ! 11))" using len by simp
  moreover have "take 2 (drop 10 ?h) = [?h ! 10, ?h ! 11]"
    using len by (intro nth_equalityI) (auto simp: nth_Cons' less_Suc_eq eval_nat_numeral)
  moreover have "cksum x \<noteq> word16 a b \<longleftrightarrow> bytes16 (cksum x) \<noteq> [a, b]" for x a b
    by (metis bytes16_word16 nth_Cons_0 nth_Cons_Suc word16_bytes16 One_nat_def)
  ultimately show ?thesis
    by (simp add: check_ip_packet_corrupt_def ip_header_Inr [OF wf] ip_sum_ok_def Let_def del: ld16_Inr stn_Inr)
qed

lemma forwarded_parts:
  assumes "26 \<le> length p" and "length shost = 6"
  shows "length (forwarded shost p) = length p" "shost_of (forwarded shost p) = shost"
    "src_of (forwarded shost p) = src_of p"
  using assms by (simp_all add: forwarded_def fwd_blank_def nth_append)

abbreviation fwd_buf :: "u8 list \<Rightarrow> u8 list" where
  "fwd_buf p \<equiv> (fwd_blank p)[24 := ucast (fwd_sum p), 25 := ucast (drop_bit 8 (fwd_sum p))]"

text \<open>The values that \<^verbatim>\<open>sr_forward_packet\<close> computes on its way to the lookup of the route.\<close>

lemma forward_values:
  assumes "ip_wf p"
  shows "ip_ttl p = Inr (p ! 22)" "set_ip_ttl p (p ! 22 - 1) = Inr (p[22 := p ! 22 - 1])"
    "set_ip_sum (p[22 := p ! 22 - 1]) 0 = Inr (fwd_blank p)"
    "ip_header (fwd_blank p) = Inr (take (ip_hdr_len p) (drop 14 (fwd_blank p)))"
    "set_ip_sum (fwd_blank p) (cksum (take (ip_hdr_len p) (drop 14 (fwd_blank p)))) = Inr (fwd_buf p)"
    "ip_dst (fwd_buf p) = Inr (dst_of p)" "p ! 22 - 1 = 0 \<longleftrightarrow> p ! 22 = 1"
proof -
  let ?b1 = "p[22 := p ! 22 - 1]"
  have len: "42 \<le> length p" using assms by (simp add: ip_wf_def)
  then show "ip_ttl p = Inr (p ! 22)" "set_ip_ttl p (p ! 22 - 1) = Inr ?b1"
    by (simp_all add: ip_ttl_def set_ip_ttl_def stn_one del: stn_Inr)
  show "set_ip_sum ?b1 0 = Inr (fwd_blank p)"
    using len stn_two [of 24 ?b1 0 0] by (simp add: set_ip_sum_def bytes16_def fwd_blank_def del: stn_Inr)
  have "ip_wf (fwd_blank p)" using assms by (simp add: ip_wf_def fwd_blank_def)
  then show "ip_header (fwd_blank p) = Inr (take (ip_hdr_len p) (drop 14 (fwd_blank p)))"
    by (simp add: ip_header_Inr) (simp add: fwd_blank_def)
  show "set_ip_sum (fwd_blank p) (cksum (take (ip_hdr_len p) (drop 14 (fwd_blank p)))) = Inr (fwd_buf p)"
    unfolding fwd_sum_def [symmetric] set_ip_sum_def bytes16_def
    using len stn_two [of 24 "fwd_blank p"] by (simp add: length_fwd_blank del: stn_Inr)
  show "ip_dst (fwd_buf p) = Inr (dst_of p)" using len by (simp add: ip_dst_def fwd_blank_def)
  show "p ! 22 - 1 = 0 \<longleftrightarrow> p ! 22 = 1" by simp
qed

lemma forward_steps:
  assumes "ip_wf p" and "ip_sum_ok p"
  shows "sr_forward_packet sr p iface =
    (if p ! 22 = 1 then sr_send_icmp_time_exceeded sr p iface else
     case sr_rt_lookup_ip (routing_table sr) (dst_of p) of
       None \<Rightarrow> sr_send_icmp_net_unreachable sr p iface
     | Some entry \<Rightarrow> rbind (sr_get_interface (if_list sr) (rt_if entry)) (\<lambda>i.
         case i of None \<Rightarrow> Inl AssertFailed
         | Some i \<Rightarrow> rbind (set_shost (fwd_buf p) (if_addr i)) (\<lambda>buf.
           case sr_arpcache_lookup (cache sr) (rt_gw entry) of
             None \<Rightarrow> rbind (sr_arpcache_queuereq (cache sr) (rt_gw entry) buf (rt_if entry)) (\<lambda>c.
               sr_send_arp_request (sr\<lparr>cache := c\<rparr>) (rt_gw entry) (rt_if entry))
           | Some a \<Rightarrow> rbind (set_dhost buf (ae_mac a)) (\<lambda>buf. emit sr buf (rt_if entry)))))"
  unfolding sr_forward_packet_def
  by (simp only: check_ip [OF assms(1)] assms(2) forward_values [OF assms(1)] rbind_simps if_False not_True_eq_False)

section \<open>The invariant\<close>

definition routable :: "sr_instance \<Rightarrow> u32 \<Rightarrow> bool" where
  "routable sr ip \<longleftrightarrow> sr_rt_lookup_ip (routing_table sr) ip \<noteq> None"

definition known :: "sr_instance \<Rightarrow> name \<Rightarrow> bool" where
  "known sr name \<longleftrightarrow> name_ok 32 name \<and> interface_for sr name \<noteq> None"

definition routes_ok :: "sr_instance \<Rightarrow> bool" where
  "routes_ok sr \<longleftrightarrow> (\<forall>r \<in> set (routing_table sr). known sr (rt_if r))"

definition waiting_ok :: "sr_instance \<Rightarrow> sr_packet \<Rightarrow> bool" where
  "waiting_ok sr p \<longleftrightarrow> 42 \<le> length (pk_buf p) \<and> routable sr (src_of (pk_buf p)) \<and> name_ok 32 (pk_iface p) \<and>
     (\<exists>i. interface_for sr (pk_iface p) = Some i \<and> shost_of (pk_buf p) = if_addr i)"

definition queues :: "(sr_packet \<Rightarrow> bool) \<Rightarrow> sr_arpcache \<Rightarrow> bool" where
  "queues P c \<longleftrightarrow> (\<forall>r \<in> set (requests c). Ball (set (rq_packets r)) P)"

definition router_ok :: "sr_instance \<Rightarrow> bool" where
  "router_ok sr \<longleftrightarrow> ifs_ok sr \<and> (\<forall>i \<in> set (if_list sr). routable sr (if_ip i)) \<and> routes_ok sr \<and>
     arp_ok (cache sr) \<and> queues (waiting_ok sr) (cache sr)"

lemma tables_simps [simp]:
  "routable (put ms sr) = routable sr" "routable (sr\<lparr>cache := c\<rparr>) = routable sr"
  "known (put ms sr) = known sr" "known (sr\<lparr>cache := c\<rparr>) = known sr"
  "routes_ok (put ms sr) = routes_ok sr" "routes_ok (sr\<lparr>cache := c\<rparr>) = routes_ok sr"
  "waiting_ok (put ms sr) = waiting_ok sr" "waiting_ok (sr\<lparr>cache := c\<rparr>) = waiting_ok sr"
  by (simp_all add: routable_def known_def routes_ok_def waiting_ok_def fun_eq_iff)

lemma router_ok_put [simp]: "router_ok (put ms sr) = router_ok sr"
  by (simp add: router_ok_def)

lemma router_ok_cache:
  "router_ok sr \<Longrightarrow> arp_ok c \<Longrightarrow> queues (waiting_ok sr) c \<Longrightarrow> router_ok (sr\<lparr>cache := c\<rparr>)"
  by (simp add: router_ok_def)

lemma router_okD:
  assumes "router_ok sr"
  shows "ifs_ok sr" "arp_ok (cache sr)" "queues (waiting_ok sr) (cache sr)"
    "r \<in> set (routing_table sr) \<Longrightarrow> known sr (rt_if r)" "i \<in> set (if_list sr) \<Longrightarrow> routable sr (if_ip i)"
  using assms by (auto simp: router_ok_def routes_ok_def)

lemma knownE:
  assumes "known sr name"
  obtains i where "interface_for sr name = Some i" "name_ok 32 name"
  using assms by (auto simp: known_def)

lemma lookup_known:
  assumes "router_ok sr" and "sr_rt_lookup_ip (routing_table sr) ip = Some e"
  obtains i where "interface_for sr (rt_if e) = Some i" "name_ok 32 (rt_if e)"
  using router_okD(4) [OF assms(1) rt_lookup_SomeD(2) [OF assms(2)]] by (rule knownE)

lemma interface_for_padded: "name_ok 32 n \<Longrightarrow> interface_for sr (padded 32 n) = interface_for sr n"
  by (simp add: interface_for_def cstr_padded)

subsection \<open>Queues\<close>

lemma queues_add_packet:
  "P pkt \<Longrightarrow> \<forall>r \<in> set rs. Ball (set (rq_packets r)) P \<Longrightarrow>
   \<forall>r \<in> set (add_packet ip pkt rs). Ball (set (rq_packets r)) P"
  by (induction rs) simp_all

lemma queues_queue: "queues P c \<Longrightarrow> P pkt \<Longrightarrow> queues P (queue_packet c ip pkt)"
  unfolding queues_def queue_packet_def by (simp, rule queues_add_packet) (simp_all add: find_or_add_def)

lemma set_take_req: "set (snd (take_req ip rs)) \<subseteq> set rs"
  by (induction rs) (auto split: prod.splits)

lemma queues_removed: "queues P c \<Longrightarrow> requests d = snd (take_req ip (requests c)) \<Longrightarrow> queues P d"
  using set_take_req [of ip "requests c"] by (auto simp: queues_def)

lemma queues_waiting: "queues P c \<Longrightarrow> Ball (set (waiting c ip)) P"
  by (auto simp: queues_def waiting_def req_for_def find_Some_iff find_Some_iff2 split: option.splits)

lemma queuereq_Inr:
  assumes "buf \<noteq> []" and "name_ok 32 iface"
  shows "sr_arpcache_queuereq c ip buf iface = Inr (queue_packet c ip \<lparr>pk_buf = buf, pk_iface = padded 32 iface\<rparr>)"
  using assms by (simp add: sr_arpcache_queuereq_def strncpy_padded)

lemma queue_ok:
  assumes "router_ok sr" and "waiting_ok sr \<lparr>pk_buf = buf, pk_iface = iface\<rparr>"
  shows "router_ok (sr\<lparr>cache := queue_packet (cache sr) ip \<lparr>pk_buf = buf, pk_iface = padded 32 iface\<rparr>\<rparr>)"
proof -
  let ?p = "\<lparr>pk_buf = buf, pk_iface = padded 32 iface\<rparr>"
  have "waiting_ok sr ?p" "packet_ok ?p"
    using assms(2) by (auto simp: waiting_ok_def packet_ok_def interface_for_padded length_padded name_ok_def)
  then show ?thesis by (intro router_ok_cache arp_ok_queue queues_queue router_okD assms(1))
qed

subsection \<open>To the next hop\<close>

definition next_hop :: "sr_rt \<Rightarrow> sr_if \<Rightarrow> u8 list \<Rightarrow> sr_instance \<Rightarrow> sr_instance" where
  "next_hop e i buf sr =
    (case sr_arpcache_lookup (cache sr) (rt_gw e) of
       None \<Rightarrow> put [wire (rt_if e) (arp_request i (rt_gw e))]
         (sr\<lparr>cache := queue_packet (cache sr) (rt_gw e) \<lparr>pk_buf = buf, pk_iface = padded 32 (rt_if e)\<rparr>\<rparr>)
     | Some a \<Rightarrow> put [wire (rt_if e) (ae_mac a @ drop 6 buf)] sr)"

lemma next_hop_code:
  assumes "router_ok sr" and "interface_for sr (rt_if e) = Some i" and "name_ok 32 (rt_if e)"
    and "14 \<le> length buf" and "shost_of buf = if_addr i"
  shows "(case sr_arpcache_lookup (cache sr) (rt_gw e) of
      None \<Rightarrow> rbind (sr_arpcache_queuereq (cache sr) (rt_gw e) buf (rt_if e)) (\<lambda>c.
        sr_send_arp_request (sr\<lparr>cache := c\<rparr>) (rt_gw e) (rt_if e))
    | Some a \<Rightarrow> rbind (set_dhost buf (ae_mac a)) (\<lambda>buf. emit sr buf (rt_if e))) = Inr (next_hop e i buf sr)"
proof (cases "sr_arpcache_lookup (cache sr) (rt_gw e)")
  case None
  have "buf \<noteq> []" using assms(4) by auto
  with assms(1-3) show ?thesis
    by (simp add: None next_hop_def queuereq_Inr arp_request_put router_okD)
next
  case (Some a)
  have mac: "length (ae_mac a) = 6"
    using lookup_SomeD(1) [OF Some] arp_okD(3) [OF router_okD(2) [OF assms(1)]] by blast
  have "emit sr (ae_mac a @ drop 6 buf) (rt_if e) = Inr (put [wire (rt_if e) (ae_mac a @ drop 6 buf)] sr)"
    using assms(4,5) mac by (intro emit_put [OF router_okD(1) [OF assms(1)] assms(3,2)]) simp_all
  then show ?thesis using assms(4) mac by (simp add: Some next_hop_def set_dhost_def)
qed

lemma next_hop_ok:
  assumes "router_ok sr" and "interface_for sr (rt_if e) = Some i" and "name_ok 32 (rt_if e)"
    and "42 \<le> length buf" and "shost_of buf = if_addr i" and "routable sr (src_of buf)"
  shows "router_ok (next_hop e i buf sr)"
proof (cases "sr_arpcache_lookup (cache sr) (rt_gw e)")
  case None
  have "waiting_ok sr \<lparr>pk_buf = buf, pk_iface = rt_if e\<rparr>" using assms by (simp add: waiting_ok_def)
  from queue_ok [OF assms(1) this] show ?thesis by (simp add: next_hop_def None)
qed (use assms(1) in \<open>simp add: next_hop_def\<close>)

lemma next_hop_tables [simp]: "if_list (next_hop e i buf sr) = if_list sr" "routing_table (next_hop e i buf sr) = routing_table sr"
  by (simp_all add: next_hop_def split: option.splits)

section \<open>The handlers\<close>

lemma forward_put:
  assumes "router_ok sr" and "ip_wf p" and "ip_sum_ok p" and "interface_for sr iface = Some j" and "name_ok 32 iface"
  shows "sr_forward_packet sr p iface = Inr
    (if p ! 22 = 1
     then put [wire iface (icmp_packet j (shost_of p) (if_ip j) (src_of p) (icmp_error 11 0 p))] sr
     else case sr_rt_lookup_ip (routing_table sr) (dst_of p) of
       None \<Rightarrow> put [wire iface (icmp_packet j (shost_of p) (if_ip j) (src_of p) (icmp_error 3 0 p))] sr
     | Some e \<Rightarrow> (let i = the (interface_for sr (rt_if e)) in next_hop e i (forwarded (if_addr i) p) sr))"
proof -
  have len: "42 \<le> length p" using assms(2) by (simp add: ip_wf_def)
  note err = icmp_error_put [OF router_okD(1) [OF assms(1)] assms(5,4) len]
  show ?thesis
  proof (cases "sr_rt_lookup_ip (routing_table sr) (dst_of p)")
    case None
    then show ?thesis
      by (simp add: forward_steps [OF assms(2,3)] sr_send_icmp_time_exceeded_def sr_send_icmp_net_unreachable_def err)
  next
    case (Some e)
    obtain i where i: "interface_for sr (rt_if e) = Some i" "name_ok 32 (rt_if e)"
      using lookup_known [OF assms(1) Some] .
    note addr = interface_forD(3) [OF i(1) router_okD(1) [OF assms(1)]]
    have shost: "set_shost ((fwd_blank p)[24 := ucast (fwd_sum p), 25 := ucast (drop_bit 8 (fwd_sum p))]) (if_addr i) =
        Inr (forwarded (if_addr i) p)"
      using len addr by (simp add: set_shost_def forwarded_def fwd_blank_def)
    have "14 \<le> length (forwarded (if_addr i) p)" "shost_of (forwarded (if_addr i) p) = if_addr i"
      using forwarded_parts [of p "if_addr i"] len addr by simp_all
    note nh = next_hop_code [OF assms(1) i this]
    show ?thesis
      by (simp add: forward_steps [OF assms(2,3)] sr_send_icmp_time_exceeded_def err Some
          get_interface [OF router_okD(1) [OF assms(1)] i(2)] i(1) shost nh)
  qed
qed

lemma host_unreachable_put:
  assumes "router_ok sr" and "42 \<le> length p" and "sr_rt_lookup_ip (routing_table sr) (src_of p) = Some e"
    and "interface_for sr (rt_if e) = Some i" and "name_ok 32 (rt_if e)"
  shows "sr_send_icmp_host_unreachable sr p = Inr
    (next_hop e i (icmp_packet i (if_addr i) (if_ip i) (src_of p) (icmp_error 3 1 p)) sr)"
proof -
  note ok = router_okD(1) [OF assms(1)]
  note addr = interface_forD(3) [OF assms(4) ok]
  let ?q = "icmp_packet i (if_addr i) (if_ip i) (src_of p) (icmp_error 3 1 p)"
  let ?f = "\<lambda>buf. case sr_arpcache_lookup (cache sr) (rt_gw e) of
      None \<Rightarrow> rbind (sr_arpcache_queuereq (cache sr) (rt_gw e) buf (rt_if e)) (\<lambda>c.
        sr_send_arp_request (sr\<lparr>cache := c\<rparr>) (rt_gw e) (rt_if e))
    | Some a \<Rightarrow> rbind (set_dhost buf (ae_mac a)) (\<lambda>buf. emit sr buf (rt_if e))"
  have "14 \<le> length ?q" "shost_of ?q = if_addr i" using addr assms(2) by (simp_all add: icmp_packet_shost)
  note nh = next_hop_code [OF assms(1,4,5) this]
  note prep = prepare_icmp [OF ok assms(5,4) length_icmp_error [OF assms(2)], of "src_of p" "if_addr i" 0 ?f]
  have src: "ip_src p = Inr (src_of p)" using assms(2) by (simp add: ip_src_def)
  show ?thesis
    unfolding sr_send_icmp_host_unreachable_def
    by (simp add: src assms(3,4) get_interface [OF ok assms(5)] error_body [OF assms(2)] prep nh)
qed

lemma send_queued_put:
  assumes "ifs_ok sr" and "Ball (set ps) (waiting_ok sr)" and "length mac = 6"
  shows "rfold (send_queued mac) ps sr = Inr (put (map (\<lambda>p. wire (pk_iface p) (mac @ drop 6 (pk_buf p))) ps) sr)"
  using assms
proof (induction ps arbitrary: sr)
  case (Cons p ps)
  obtain i where p: "42 \<le> length (pk_buf p)" "name_ok 32 (pk_iface p)" "interface_for sr (pk_iface p) = Some i"
    "shost_of (pk_buf p) = if_addr i"
    using Cons.prems(2) by (auto simp: waiting_ok_def)
  have "emit sr (mac @ drop 6 (pk_buf p)) (pk_iface p) = Inr (put [wire (pk_iface p) (mac @ drop 6 (pk_buf p))] sr)"
    using p Cons.prems(3) by (intro emit_put [OF Cons.prems(1) p(2,3)]) simp_all
  then have "send_queued mac p sr = Inr (put [wire (pk_iface p) (mac @ drop 6 (pk_buf p))] sr)"
    using p(1) Cons.prems(3) by (simp add: send_queued_def set_dhost_def)
  with Cons.IH [of "put [wire (pk_iface p) (mac @ drop 6 (pk_buf p))] sr"] Cons.prems show ?case by simp
qed simp

definition arp_learn :: "int \<Rightarrow> sr_arpcache \<Rightarrow> u8 list \<Rightarrow> u32 \<Rightarrow> sr_arpcache" where
  "arp_learn now c mac ip =
    (if sr_arpcache_lookup c ip = None then snd (sr_arpcache_insert now c mac ip)
     else c\<lparr>requests := snd (take_req ip (requests c))\<rparr>)"

lemma arp_learn_ok:
  assumes "arp_ok c" and "length mac = 6"
  shows "arp_ok (arp_learn now c mac ip)"
  using assms by (auto simp: arp_learn_def intro: arp_ok_insert arp_ok_removed)

lemma arp_learn_requests: "requests (arp_learn now c mac ip) = snd (take_req ip (requests c))"
  by (simp add: arp_learn_def insert_parts)

text \<open>The packets that wait for an address, as they are written when it is known.\<close>

definition released :: "sr_arpcache \<Rightarrow> u8 list \<Rightarrow> u32 \<Rightarrow> u8 list list" where
  "released c mac ip = map (\<lambda>q. wire (pk_iface q) (mac @ drop 6 (pk_buf q))) (waiting c ip)"

lemma send_waiting:
  assumes "router_ok sr" and "length mac = 6"
  shows "sr_send_arp_queued_packets (sr\<lparr>cache := c\<rparr>) (waiting (cache sr) ip) mac =
    Inr (put (released (cache sr) mac ip) (sr\<lparr>cache := c\<rparr>))"
  unfolding sr_send_arp_queued_packets_def released_def
  by (rule send_queued_put) (use assms queues_waiting [OF router_okD(3)] router_okD(1) in simp_all)

lemma arp_send_packets_put:
  assumes "router_ok sr" and "length mac = 6"
  shows "sr_arp_send_packets sr mac ip = Inr (put (released (cache sr) mac ip)
    (sr\<lparr>cache := (cache sr)\<lparr>requests := snd (take_req ip (requests (cache sr)))\<rparr>\<rparr>))"
proof -
  have none: "snd (take_req ip rs) = rs" if "find (\<lambda>r. rq_ip r = ip) rs = None" for rs
    using that by (induction rs) (auto split: if_splits prod.splits)
  have "sr_arp_send_packets sr mac ip = sr_send_arp_queued_packets
      (sr\<lparr>cache := (cache sr)\<lparr>requests := snd (take_req ip (requests (cache sr)))\<rparr>\<rparr>) (waiting (cache sr) ip) mac"
    using fst_take_req [of ip "requests (cache sr)"] none [of "requests (cache sr)"]
    by (auto simp: sr_arp_send_packets_def waiting_def req_for_def sr_send_arp_queued_packets_def
        split: prod.splits option.splits)
  then show ?thesis by (simp add: send_waiting [OF assms])
qed

lemma arp_reply_put:
  assumes "router_ok sr" and "42 \<le> length p"
    and "mac = take 6 (drop 22 p)" and "ip = word32 (p ! 28) (p ! 29) (p ! 30) (p ! 31)"
  shows "sr_handle_arp_reply now sr p = Inr
    (put (map (\<lambda>q. wire (pk_iface q) (mac @ drop 6 (pk_buf q))) (waiting (cache sr) ip))
      (sr\<lparr>cache := arp_learn now (cache sr) mac ip\<rparr>))"
proof -
  have mac: "ar_sha p = Inr mac" "ar_sip p = Inr ip" "length mac = 6"
    using assms(2-4) by (simp_all add: fields)
  note send = send_waiting [OF assms(1) mac(3), unfolded released_def]
  show ?thesis
  proof (cases "sr_arpcache_lookup (cache sr) ip")
    case None
    have "sr_handle_arp_reply now sr p = sr_send_arp_queued_packets (sr\<lparr>cache := snd (sr_arpcache_insert now (cache sr) mac ip)\<rparr>)
        (waiting (cache sr) ip) mac"
      using insert_parts(1) [of now "cache sr" mac ip]
      by (auto simp: sr_handle_arp_reply_def mac None waiting_def sr_send_arp_queued_packets_def
          split: prod.splits option.splits)
    then show ?thesis by (simp add: send arp_learn_def None)
  next
    case (Some a)
    then show ?thesis
      using arp_send_packets_put [OF assms(1) mac(3)]
      by (simp add: sr_handle_arp_reply_def mac arp_learn_def released_def)
  qed
qed

end
