(* ===== verification/RouterSafety.thy ===== *)
theory RouterSafety
  imports RouterInvariant
begin

text \<open>
  The whole router: handling of a frame and passes of the ARP thread keep the invariant and never
  fault, and what they write to the server.
\<close>

section \<open>Classification\<close>

abbreviation type_of :: "u8 list \<Rightarrow> u16" where
  "type_of p \<equiv> word16 (p ! 12) (p ! 13)"

abbreviation op_of :: "u8 list \<Rightarrow> u16" where
  "op_of p \<equiv> word16 (p ! 20) (p ! 21)"

definition to_us :: "sr_instance \<Rightarrow> u8 list \<Rightarrow> bool" where
  "to_us sr p \<longleftrightarrow> type_of p = htons ethertype_ip \<and> (\<exists>i \<in> set (if_list sr). if_ip i = dst_of p)"

lemma if_walk_ip_Inr: "34 \<le> length p \<Longrightarrow> if_walk_ip is p = Inr (\<exists>i \<in> set is. if_ip i = dst_of p)"
  by (induction "is") (auto simp: fields)

lemma classify:
  assumes "42 \<le> length p"
  shows "packet_is_not_arp_or_ip p = Inr (type_of p \<noteq> htons ethertype_arp \<and> type_of p \<noteq> htons ethertype_ip)"
    "packet_is_arp_req p = Inr (type_of p = htons ethertype_arp \<and> op_of p = htons arp_op_request)"
    "packet_is_arp_reply p = Inr (type_of p = htons ethertype_arp \<and> op_of p = htons arp_op_reply)"
    "sr_packet_is_ip_to_us sr p = Inr (to_us sr p)"
    "packet_is_icmp_echo_req p = Inr (type_of p = htons ethertype_ip \<and> p ! 23 = ip_protocol_icmp \<and> p ! 34 = 8)"
    "packet_is_tcp_udp p = Inr (type_of p = htons ethertype_ip \<and> (p ! 23 = ip_protocol_tcp \<or> p ! 23 = ip_protocol_udp))"
  using assms
  by (simp_all add: packet_is_not_arp_or_ip_def packet_is_arp_req_def packet_is_arp_reply_def fields
      sr_packet_is_ip_to_us_def if_walk_ip_Inr to_us_def packet_is_icmp_echo_req_def packet_is_tcp_udp_def)

text \<open>The handler as one case distinction over a packet that holds all the headers it looks at.\<close>

lemma handlepacket_cases:
  assumes "42 \<le> length p"
  shows "sr_handlepacket now sr p iface =
    (if type_of p = htons ethertype_arp then
       (if op_of p = htons arp_op_request then sr_send_arp_response sr p iface
        else if op_of p = htons arp_op_reply then sr_handle_arp_reply now sr p
        else sr_forward_packet sr p iface)
     else if type_of p \<noteq> htons ethertype_ip then Inr sr
     else if \<not> to_us sr p then sr_forward_packet sr p iface
     else if p ! 23 = ip_protocol_icmp \<and> p ! 34 = 8 then sr_send_icmp_response sr p iface
     else if p ! 23 = ip_protocol_tcp \<or> p ! 23 = ip_protocol_udp then sr_send_icmp_port_unreachable sr p iface
     else Inr sr)"
proof -
  have "ethertype_arp \<noteq> ethertype_ip" by (simp add: ethertype_arp_def ethertype_ip_def)
  then have "\<not> to_us sr p" if "type_of p = htons ethertype_arp" using that by (simp add: to_us_def)
  with \<open>ethertype_arp \<noteq> ethertype_ip\<close> show ?thesis
    by (auto simp: sr_handlepacket_def classify [OF assms])
qed

text \<open>
  A frame the router can handle: long enough for the headers, and for what it may forward (an ARP
  packet with an unknown operation is treated like an IP packet) a complete header and a source
  that has a route.
\<close>

definition frame_ok :: "sr_instance \<Rightarrow> u8 list \<Rightarrow> bool" where
  "frame_ok sr p \<longleftrightarrow> 42 \<le> length p \<and>
     (type_of p = htons ethertype_ip \<longrightarrow> ip_wf p \<and> routable sr (src_of p)) \<and>
     (type_of p = htons ethertype_arp \<longrightarrow> op_of p = htons arp_op_request \<or> op_of p = htons arp_op_reply)"

definition same_tables :: "sr_instance \<Rightarrow> sr_instance \<Rightarrow> bool" where
  "same_tables sr sr' \<longleftrightarrow> if_list sr' = if_list sr \<and> routing_table sr' = routing_table sr"

lemma same_tables_simps [simp]:
  "same_tables sr sr" "same_tables sr (put ms sr)" "same_tables sr (sr\<lparr>cache := c\<rparr>)"
  "same_tables sr (next_hop e i buf sr)" "same_tables sr (put ms (sr\<lparr>cache := c\<rparr>))"
  by (simp_all add: same_tables_def)

lemma same_tables_trans: "same_tables a b \<Longrightarrow> same_tables b c \<Longrightarrow> same_tables a c"
  by (simp add: same_tables_def)

lemma same_tablesD:
  assumes "same_tables sr sr'"
  shows "interface_for sr' = interface_for sr" "routable sr' = routable sr" "known sr' = known sr"
    "waiting_ok sr' = waiting_ok sr" "frame_ok sr' = frame_ok sr"
  using assms by (simp_all add: same_tables_def interface_for_def routable_def known_def waiting_ok_def frame_ok_def fun_eq_iff)

text \<open>The outcome of a step that went well.\<close>

definition fine :: "sr_instance \<Rightarrow> sr_instance res \<Rightarrow> bool" where
  "fine sr r \<longleftrightarrow> (\<exists>sr'. r = Inr sr' \<and> router_ok sr' \<and> same_tables sr sr')"

lemma fineI: "r = Inr sr' \<Longrightarrow> router_ok sr' \<Longrightarrow> same_tables sr sr' \<Longrightarrow> fine sr r"
  by (auto simp: fine_def)

lemma arp_response_put:
  assumes "ifs_ok sr" and "name_ok 32 iface" and "interface_for sr iface = Some i" and "42 \<le> length p"
  shows "sr_send_arp_response sr p iface = Inr (put [wire iface (arp_packet i (shost_of p) arp_op_reply
    (take 6 (drop 22 p)) (word32 (p ! 28) (p ! 29) (p ! 30) (p ! 31)))] sr)" (is "_ = Inr (put [wire _ ?q] _)")
proof -
  have "emit sr ?q iface = Inr (put [wire iface ?q] sr)"
    using interface_forD [OF assms(3,1)] assms(4) by (intro emit_put [OF assms(1-3)]) (simp_all add: arp_packet_def)
  then show ?thesis
    using assms by (simp add: sr_send_arp_response_def fields sr_prepare_arp_packet_def get_interface arp_packet_def)
qed

lemma forward_fine:
  assumes "router_ok sr" and "ip_wf p" and "routable sr (src_of p)" and "known sr iface"
  shows "fine sr (sr_forward_packet sr p iface)"
proof (cases "ip_sum_ok p")
  case False
  then have "sr_forward_packet sr p iface = Inr sr"
    by (simp add: sr_forward_packet_def check_ip [OF assms(2)])
  with assms(1) show ?thesis by (simp add: fine_def)
next
  case True
  obtain j where j: "interface_for sr iface = Some j" "name_ok 32 iface" using assms(4) by (rule knownE)
  note f = forward_put [OF assms(1,2) True j]
  show ?thesis
  proof (cases "sr_rt_lookup_ip (routing_table sr) (dst_of p)")
    case None
    with assms(1) show ?thesis by (simp add: f fine_def)
  next
    case (Some e)
    obtain i where i: "interface_for sr (rt_if e) = Some i" "name_ok 32 (rt_if e)"
      using lookup_known [OF assms(1) Some] .
    have "42 \<le> length p" using assms(2) by (simp add: ip_wf_def)
    then have "router_ok (next_hop e i (forwarded (if_addr i) p) sr)"
      using forwarded_parts [of p "if_addr i"] interface_forD [OF i(1) router_okD(1) [OF assms(1)]] assms(3)
      by (intro next_hop_ok [OF assms(1) i]) simp_all
    with assms(1) show ?thesis by (simp add: f fine_def Some i(1))
  qed
qed

lemma arp_reply_fine:
  assumes "router_ok sr" and "42 \<le> length p"
  shows "fine sr (sr_handle_arp_reply now sr p)"
proof (rule fineI [OF arp_reply_put [OF assms refl refl]])
  let ?c = "arp_learn now (cache sr) (take 6 (drop 22 p)) (word32 (p ! 28) (p ! 29) (p ! 30) (p ! 31))"
  have "arp_ok ?c" using assms by (intro arp_learn_ok router_okD) simp_all
  moreover have "queues (waiting_ok sr) ?c"
    by (rule queues_removed [OF router_okD(3) [OF assms(1)] arp_learn_requests])
  ultimately have "router_ok (sr\<lparr>cache := ?c\<rparr>)" by (rule router_ok_cache [OF assms(1)])
  then show "router_ok (put ms (sr\<lparr>cache := ?c\<rparr>))" for ms by simp
qed simp

lemma handlepacket_fine:
  assumes "router_ok sr" and "frame_ok sr p" and "known sr iface"
  shows "fine sr (sr_handlepacket now sr p iface)"
proof -
  have len: "42 \<le> length p" using assms(2) by (simp add: frame_ok_def)
  obtain j where j: "interface_for sr iface = Some j" "name_ok 32 iface" using assms(3) by (rule knownE)
  note ok = router_okD(1) [OF assms(1)]
  have put: "fine sr (Inr (put ms sr))" and nop: "fine sr (Inr sr)" for ms using assms(1) by (simp_all add: fine_def)
  have "\<exists>b. check_icmp_packet_corrupt (drop 34 p) = Inr b"
    using len by (simp add: check_icmp_packet_corrupt_def)
  then consider "check_icmp_packet_corrupt (drop 34 p) = Inr True" | "check_icmp_packet_corrupt (drop 34 p) = Inr False"
    by fastforce
  then have echo: "fine sr (sr_send_icmp_response sr p iface)"
  proof cases
    case 1
    then show ?thesis by (simp add: sr_send_icmp_response_def nop)
  qed (simp add: echo_reply_put [OF ok j(2,1) len] put)
  show ?thesis
    using assms(2) echo
    by (auto simp: handlepacket_cases [OF len] arp_response_put [OF ok j(2,1) len] put nop
        sr_send_icmp_port_unreachable_def icmp_error_put [OF ok j(2,1) len] frame_ok_def
        intro!: arp_reply_fine [OF assms(1) len] forward_fine [OF assms(1) _ _ assms(3)])
qed

section \<open>Retries\<close>

lemma give_up_put:
  assumes "router_ok sr" and "waiting_ok sr pkt"
  obtains e i where "sr_rt_lookup_ip (routing_table sr) (src_of (pk_buf pkt)) = Some e"
    and "interface_for sr (rt_if e) = Some i" and "name_ok 32 (rt_if e)"
    and "give_up pkt sr = Inr (next_hop e i
      (icmp_packet i (if_addr i) (if_ip i) (src_of (pk_buf pkt)) (icmp_error 3 1 (pk_buf pkt))) sr)"
    and "router_ok (next_hop e i (icmp_packet i (if_addr i) (if_ip i) (src_of (pk_buf pkt)) (icmp_error 3 1 (pk_buf pkt))) sr)"
proof -
  let ?p = "pk_buf pkt"
  have len: "42 \<le> length ?p" using assms(2) by (simp add: waiting_ok_def)
  obtain e where e: "sr_rt_lookup_ip (routing_table sr) (src_of ?p) = Some e"
    using assms(2) by (auto simp: waiting_ok_def routable_def)
  obtain i where i: "interface_for sr (rt_if e) = Some i" "name_ok 32 (rt_if e)"
    using lookup_known [OF assms(1) e] .
  note d = interface_forD [OF i(1) router_okD(1) [OF assms(1)]]
  have "router_ok (next_hop e i (icmp_packet i (if_addr i) (if_ip i) (src_of ?p) (icmp_error 3 1 ?p)) sr)"
    using d len router_okD(5) [OF assms(1) d(1)]
    by (intro next_hop_ok [OF assms(1) i]) (simp_all add: icmp_packet_shost icmp_packet_src)
  then show ?thesis
    using that [OF e i] host_unreachable_put [OF assms(1) len e i] by (simp add: give_up_def)
qed

lemma give_up_all_fine:
  assumes "router_ok sr" and "Ball (set ps) (waiting_ok sr)"
  shows "fine sr (rfold give_up ps sr)"
proof -
  have "\<exists>t. rfold give_up ps sr = Inr t \<and> (router_ok t \<and> same_tables sr t)"
  proof (rule rfold_total)
    show "router_ok sr \<and> same_tables sr sr" using assms(1) by simp
    fix pkt s assume "pkt \<in> set ps" and s: "router_ok s \<and> same_tables sr s"
    then have "waiting_ok s pkt" using assms(2) same_tablesD(4) [of sr s] by simp
    with s show "\<exists>t. give_up pkt s = Inr t \<and> router_ok t \<and> same_tables sr t"
      by (elim give_up_put [rotated]) (auto intro: same_tables_trans)
  qed
  then show ?thesis by (auto simp: fine_def)
qed

lemma mark_sent_simps [simp]:
  "rq_ip (mark_sent t r) = rq_ip r" "rq_packets (mark_sent t r) = rq_packets r"
  "rq_times_sent (mark_sent t r) = rq_times_sent r + 1" "rq_sent (mark_sent t r) = t"
  by (simp_all add: mark_sent_def)

lemma resend_ok:
  assumes "router_ok sr" and "req_for (cache sr) ip = Some req" and "rq_times_sent req < 4"
  shows "router_ok (sr\<lparr>cache := update_req ip (mark_sent t) (cache sr)\<rparr>)"
proof (rule router_ok_cache [OF assms(1)])
  note ok = router_okD(2) [OF assms(1)]
  have req: "req \<in> set (requests (cache sr))" "rq_ip req = ip"
    using assms(2) by (auto simp: req_for_def find_Some_iff)
  have times: "rq_times_sent req + 1 \<le> 4"
    using assms(3) by (simp add: word_less_nat_alt word_le_nat_alt unat_word_ariths)
  have "req_ok (mark_sent t r)" if r: "r \<in> set (requests (cache sr))" "rq_ip r = ip" for r
  proof -
    have "r = req" using r req arp_okD(4) [OF ok] by (metis distinct_map inj_onD)
    then show ?thesis using arp_okD(5) [OF ok r(1)] times by (simp add: req_ok_def)
  qed
  then have "Ball (set (requests (update_req ip (mark_sent t) (cache sr)))) req_ok"
    using arp_okD(5) [OF ok] by (simp add: update_req_def ball_Un)
  moreover have "map rq_ip (requests (update_req ip (mark_sent t) (cache sr))) = map rq_ip (requests (cache sr))"
    by (simp add: update_req_def)
  ultimately have "arp_ok ((cache sr)\<lparr>requests := requests (update_req ip (mark_sent t) (cache sr))\<rparr>)"
    using arp_okD(4) [OF ok] by (intro arp_ok_requests [OF ok]) simp_all
  then show "arp_ok (update_req ip (mark_sent t) (cache sr))" by (simp add: update_req_def)
  show "queues (waiting_ok sr) (update_req ip (mark_sent t) (cache sr))"
    using router_okD(3) [OF assms(1)] by (auto simp: queues_def update_req_def ball_Un)
qed

lemma sweep_req_fine:
  assumes "router_ok sr"
  shows "fine sr (sweep_req t ip sr)"
proof (cases "req_for (cache sr) ip")
  case None
  with assms show ?thesis by (simp add: sweep_req_def fine_def)
next
  case (Some req)
  note q = router_okD(3) [OF assms]
  have req: "req \<in> set (requests (cache sr))" using Some by (auto simp: req_for_def find_Some_iff)
  then have ps: "Ball (set (rq_packets req)) (waiting_ok sr)" using q by (simp add: queues_def)
  consider "rq_sent req > 0 \<and> t - rq_sent req < 1" | "\<not> (rq_sent req > 0 \<and> t - rq_sent req < 1)" "rq_times_sent req \<ge> 4"
    | "\<not> (rq_sent req > 0 \<and> t - rq_sent req < 1)" "rq_times_sent req < 4" by force
  then show ?thesis
  proof cases
    case 1
    with assms show ?thesis by (simp add: sweep_req_def fine_def Some)
  next
    case 2
    obtain s where s: "rfold give_up (rq_packets req) sr = Inr s" "router_ok s" "same_tables sr s"
      using give_up_all_fine [OF assms ps] by (auto simp: fine_def)
    have "router_ok (s\<lparr>cache := sr_arpreq_destroy (cache s) ip\<rparr>)"
      using s(2) by (intro router_ok_cache) (auto simp: sr_arpreq_destroy_def intro: arp_ok_removed router_okD queues_removed)
    with 2 s show ?thesis by (simp add: sweep_req_def fine_def Some) (auto intro: same_tables_trans)
  next
    case 3
    obtain pkt ps' where pkt: "rq_packets req = pkt # ps'"
      using arp_okD(5) [OF router_okD(2) [OF assms] req] by (cases "rq_packets req") (auto simp: req_ok_def)
    let ?s = "sr\<lparr>cache := update_req ip (mark_sent t) (cache sr)\<rparr>"
    have ok: "router_ok ?s" by (rule resend_ok [OF assms Some 3(2)])
    obtain i where i: "name_ok 32 (pk_iface pkt)" "interface_for sr (pk_iface pkt) = Some i"
      using ps pkt by (auto simp: waiting_ok_def)
    then have "sr_send_arp_request ?s ip (pk_iface pkt) = Inr (put [wire (pk_iface pkt) (arp_request i ip)] ?s)"
      using router_okD(1) [OF assms] by (intro arp_request_put) simp_all
    moreover have "sweep_req t ip sr = sr_send_arp_request ?s ip (pk_iface pkt)"
      using 3(2) unfolding sweep_req_def Some option.case if_not_P [OF 3(1)] pkt list.case
      by (simp add: not_le [symmetric])
    ultimately show ?thesis using ok by (simp add: fine_def)
  qed
qed

lemma timeout_fine:
  assumes "router_ok sr"
  shows "fine sr (sr_arpcache_timeout t t' sr)"
proof -
  let ?s = "sr\<lparr>cache := arp_expire t (cache sr)\<rparr>"
  have "queues (waiting_ok sr) (arp_expire t (cache sr))"
    using router_okD(3) [OF assms] by (simp add: queues_def arp_expire_def)
  then have ok: "router_ok ?s" by (intro router_ok_cache assms arp_ok_expire router_okD)
  have "\<exists>u. rfold (sweep_req t') (map rq_ip (requests (cache ?s))) ?s = Inr u \<and> (router_ok u \<and> same_tables sr u)"
  proof (rule rfold_total)
    fix ip s assume s: "router_ok s \<and> same_tables sr s"
    then obtain u where "sweep_req t' ip s = Inr u" "router_ok u" "same_tables s u"
      using sweep_req_fine [of s t' ip] by (auto simp: fine_def)
    with s show "\<exists>u. sweep_req t' ip s = Inr u \<and> router_ok u \<and> same_tables sr u" by (auto intro: same_tables_trans)
  qed (use ok in simp)
  then show ?thesis by (auto simp: fine_def sr_arpcache_timeout_def sr_arpcache_sweepreqs_def)
qed

section \<open>Runs\<close>

datatype event = Frame int "u8 list" name | Tick int int

fun router_step :: "event \<Rightarrow> sr_instance \<Rightarrow> sr_instance res" where
  "router_step (Frame now p iface) sr = sr_handlepacket now sr p iface"
| "router_step (Tick t t') sr = sr_arpcache_timeout t t' sr"

fun event_ok :: "sr_instance \<Rightarrow> event \<Rightarrow> bool" where
  "event_ok sr (Frame now p iface) \<longleftrightarrow> frame_ok sr p \<and> known sr iface"
| "event_ok sr (Tick t t') \<longleftrightarrow> True"

lemma router_step_fine: "router_ok sr \<Longrightarrow> event_ok sr e \<Longrightarrow> fine sr (router_step e sr)"
  by (cases e) (simp_all add: handlepacket_fine timeout_fine)

lemma router_run_fine:
  assumes "router_ok sr" and "Ball (set es) (event_ok sr)"
  shows "fine sr (rfold router_step es sr)"
proof -
  have ev: "event_ok s = event_ok sr" if "same_tables sr s" for s
    by (rule ext, rename_tac e, case_tac e) (simp_all add: same_tablesD [OF that])
  have "\<exists>t. rfold router_step es sr = Inr t \<and> (router_ok t \<and> same_tables sr t)"
  proof (rule rfold_total)
    fix e s assume "e \<in> set es" and s: "router_ok s \<and> same_tables sr s"
    then have "event_ok s e" using assms(2) ev [of s] by simp
    then obtain u where "router_step e s = Inr u" "router_ok u" "same_tables s u"
      using router_step_fine s by (auto simp: fine_def)
    with s show "\<exists>u. router_step e s = Inr u \<and> router_ok u \<and> same_tables sr u" by (auto intro: same_tables_trans)
  qed (use assms in simp)
  then show ?thesis by (auto simp: fine_def)
qed

end
