(* ===== verification/RouterProperties.thy ===== *)
theory RouterProperties
  imports RouterSafety
begin

text \<open>
  The properties of the router: absence of faults over runs, what leaves the router, the effect of
  forwarding, the way of a packet through the ARP queue, and the protection of IP headers.
\<close>

section \<open>Only interface addresses leave the router\<close>

definition from_interface :: "sr_instance \<Rightarrow> u8 list \<Rightarrow> bool" where
  "from_interface sr m \<longleftrightarrow> (\<exists>i \<in> set (if_list sr). \<exists>n buf. length n = 16 \<and> 14 \<le> length buf \<and>
     m = vns_frame n buf \<and> shost_of buf = if_addr i)"

definition grows :: "sr_instance \<Rightarrow> sr_instance \<Rightarrow> bool" where
  "grows sr sr' \<longleftrightarrow> same_tables sr sr' \<and> (\<exists>ms. sent sr' = sent sr @ ms \<and> Ball (set ms) (from_interface sr))"

lemma grows_refl [simp]: "grows sr sr" "grows sr (sr\<lparr>cache := c\<rparr>)"
  by (simp_all add: grows_def)

lemma grows_trans: "grows a b \<Longrightarrow> grows b c \<Longrightarrow> grows a c"
proof -
  have "from_interface b = from_interface a" if "same_tables a b"
    using that by (simp add: from_interface_def same_tables_def fun_eq_iff)
  then show "grows a b \<Longrightarrow> grows b c \<Longrightarrow> grows a c"
    by (auto simp: grows_def intro: same_tables_trans)
qed

lemma grows_cache: "grows (sr\<lparr>cache := c\<rparr>) sr' \<Longrightarrow> grows sr sr'"
  by (rule grows_trans [OF grows_refl(2)])

lemma strncpy_length: "strncpy n s = Inr t \<Longrightarrow> length t = n"
  by (induction n s arbitrary: t rule: strncpy.induct) (auto simp: rbind_Inr_iff split: if_splits)

lemma match_TrueD:
  assumes "sr_ether_addrs_match_interface sr buf iface = Inr True"
  shows "\<exists>i \<in> set (if_list sr). shost_of buf = if_addr i"
proof -
  from assms obtain i where "sr_get_interface (if_list sr) iface = Inr (Some i)" "eth_shost buf = Inr (if_addr i)"
    by (auto simp: sr_ether_addrs_match_interface_def rbind_Inr_iff split: option.splits)
  then show ?thesis
    by (intro bexI [of _ i]) (auto simp: eth_shost_def ldn_def split: if_splits dest: sr_get_interface_SomeD)
qed

lemma send_packet_cases:
  assumes "sr_send_packet sr buf iface = Inr (sr', k)"
  shows "sr' = sr \<or> (\<exists>n. strncpy 16 iface = Inr n \<and> 14 \<le> length buf \<and>
    sr_ether_addrs_match_interface sr buf iface = Inr True \<and> sr' = sr\<lparr>sent := sent sr @ [vns_frame n buf]\<rparr>)"
  using assms unfolding sr_send_packet_def rbind_def
  by (cases "strncpy 16 iface"; cases "sr_ether_addrs_match_interface sr buf iface") (simp_all split: if_splits)

lemma emit_grows:
  assumes "emit sr buf iface = Inr sr'"
  shows "grows sr sr'"
proof -
  from assms obtain k where k: "sr_send_packet sr buf iface = Inr (sr', k)"
    by (auto simp only: emit_def rbind_Inr_iff sum.inject) simp
  consider "sr' = sr" | n i where "strncpy 16 iface = Inr n" "i \<in> set (if_list sr)" "14 \<le> length buf"
    "shost_of buf = if_addr i" "sr' = sr\<lparr>sent := sent sr @ [vns_frame n buf]\<rparr>"
    using send_packet_cases [OF k] match_TrueD by blast
  then show ?thesis
  proof cases
    case (2 n i)
    have "length n = 16" using 2(1) by (rule strncpy_length)
    with 2 have "from_interface sr (vns_frame n buf)" unfolding from_interface_def by blast
    then have "grows sr (sr\<lparr>sent := sent sr @ [vns_frame n buf]\<rparr>)"
      unfolding grows_def by (intro conjI exI [of _ "[vns_frame n buf]"]) (simp_all add: same_tables_def)
    then show ?thesis by (simp only: 2(5))
  qed simp
qed

lemma option_case_Inr: "(case x of None \<Rightarrow> f | Some y \<Rightarrow> g y) = Inr z \<longleftrightarrow>
    (x = None \<and> f = Inr z) \<or> (\<exists>y. x = Some y \<and> g y = Inr z)"
  by (cases x) auto

lemma if_Inr: "(if b then x else y) = Inr z \<longleftrightarrow> (b \<and> x = Inr z) \<or> (\<not> b \<and> y = Inr z)"
  by simp

lemmas steps_Inr = rbind_Inr_iff option_case_Inr if_Inr

lemma request_grows: "sr_send_arp_request sr ip iface = Inr sr' \<Longrightarrow> grows sr sr'"
  by (auto simp only: sr_send_arp_request_def steps_Inr dest: emit_grows)

lemma error_grows: "send_icmp_error type code sr p iface = Inr sr' \<Longrightarrow> grows sr sr'"
  by (auto simp only: send_icmp_error_def steps_Inr dest: emit_grows)

lemma response_grows: "sr_send_arp_response sr p iface = Inr sr' \<Longrightarrow> grows sr sr'"
  by (auto simp only: sr_send_arp_response_def steps_Inr dest: emit_grows)

lemma echo_grows: "sr_send_icmp_response sr p iface = Inr sr' \<Longrightarrow> grows sr sr'"
  by (auto simp only: sr_send_icmp_response_def steps_Inr sum.inject grows_refl dest: emit_grows)

lemma resolve_grows:
  "(case sr_arpcache_lookup c ip of
      None \<Rightarrow> rbind q (\<lambda>c. sr_send_arp_request (sr\<lparr>cache := c\<rparr>) ip iface)
    | Some a \<Rightarrow> rbind (f a) (\<lambda>buf. emit sr buf iface)) = Inr sr' \<Longrightarrow> grows sr sr'"
  by (auto simp only: steps_Inr dest!: emit_grows request_grows grows_cache)

lemma unreachable_grows: "sr_send_icmp_host_unreachable sr p = Inr sr' \<Longrightarrow> grows sr sr'"
  by (auto simp: sr_send_icmp_host_unreachable_def rbind_Inr_iff split: option.splits
      dest: emit_grows request_grows grows_cache)

lemma forward_grows: "sr_forward_packet sr p iface = Inr sr' \<Longrightarrow> grows sr sr'"
  by (auto simp: sr_forward_packet_def sr_send_icmp_time_exceeded_def sr_send_icmp_net_unreachable_def
      rbind_Inr_iff split: option.splits if_splits dest: emit_grows request_grows grows_cache error_grows)

lemma queued_grows: "sr_send_arp_queued_packets sr ps mac = Inr sr' \<Longrightarrow> grows sr sr'"
proof (induction ps arbitrary: sr)
  case (Cons p ps)
  then show ?case
    by (fastforce simp: sr_send_arp_queued_packets_def send_queued_def rbind_Inr_iff dest: emit_grows intro: grows_trans)
qed (simp add: sr_send_arp_queued_packets_def)

lemma reply_grows: "sr_handle_arp_reply now sr p = Inr sr' \<Longrightarrow> grows sr sr'"
  by (auto simp: sr_handle_arp_reply_def sr_arp_send_packets_def rbind_Inr_iff Let_def
      split: option.splits prod.splits dest: queued_grows grows_cache)

lemma handlepacket_grows: "sr_handlepacket now sr p iface = Inr sr' \<Longrightarrow> grows sr sr'"
  by (auto simp: sr_handlepacket_def sr_send_icmp_port_unreachable_def rbind_Inr_iff split: if_splits
      dest: response_grows reply_grows echo_grows error_grows forward_grows)

lemma rfold_grows:
  assumes "rfold f xs sr = Inr sr'" and "\<And>x s t. f x s = Inr t \<Longrightarrow> grows s t"
  shows "grows sr sr'"
  using assms(1) by (rule rfold_inv [where P = "grows sr"]) (auto intro: grows_trans assms(2))

lemma sweep_req_grows: "sweep_req t ip sr = Inr sr' \<Longrightarrow> grows sr sr'"
proof -
  have "grows s u" if "give_up pkt s = Inr u" for pkt s u
    using that unfolding give_up_def by (rule unreachable_grows)
  then have all: "grows s u" if "rfold give_up ps s = Inr u" for ps s u
    using that by (rule rfold_grows [rotated])
  show "sweep_req t ip sr = Inr sr' \<Longrightarrow> grows sr sr'"
    by (auto simp: sweep_req_def rbind_Inr_iff split: option.splits if_splits list.splits
        dest!: all request_grows grows_cache intro: grows_trans)
qed

lemma step_grows: "router_step e sr = Inr sr' \<Longrightarrow> grows sr sr'"
proof (cases e)
  case (Tick t t')
  assume "router_step e sr = Inr sr'"
  then have "rfold (sweep_req t') (map rq_ip (requests (arp_expire t (cache sr)))) (sr\<lparr>cache := arp_expire t (cache sr)\<rparr>) = Inr sr'"
    by (simp add: Tick sr_arpcache_timeout_def sr_arpcache_sweepreqs_def)
  then show ?thesis by (rule grows_cache [OF rfold_grows]) (rule sweep_req_grows)
qed (simp add: handlepacket_grows)

lemma run_grows: "rfold router_step es sr = Inr sr' \<Longrightarrow> grows sr sr'"
  by (erule rfold_grows) (rule step_grows)

section \<open>The checksum of a header\<close>

definition sum_field_ok :: "u8 list \<Rightarrow> bool" where
  "sum_field_ok h \<longleftrightarrow> bytes16 (cksum (h[10 := 0, 11 := 0])) = take 2 (drop 10 h)"

lemma ip_sum_ok_field: "ip_sum_ok p = sum_field_ok (take (ip_hdr_len p) (drop 14 p))"
  by (simp add: ip_sum_ok_def sum_field_ok_def Let_def)

lemma bytes_htons: "ucast (drop_bit 8 (htons c)) = (ucast c :: u8)" "ucast (htons c) = (ucast (drop_bit 8 c) :: u8)"
  unfolding htons_def by (rule bit_word_eqI; auto simp: bit_simps dest: bit_imp_le_length)+

text \<open>A header with the right field sums up to ones, which is the check of RFC 1071.\<close>

lemma sum_field_verifies:
  assumes "sum_field_ok h" and "12 \<le> length h" and "length h < 65536"
  shows "fold_carry (sum_words h 0) = 0xffff"
proof -
  let ?xs = "take 10 h" and ?ys = "drop 12 h" and ?b = "h[10 := 0, 11 := 0]"
  have b: "?b = ?xs @ [0, 0] @ ?ys"
    using assms(2) by (intro nth_equalityI) (auto simp: nth_append nth_list_update nth_Cons' intro!: arg_cong [where f = "(!) h"])
  have "take 2 (drop 10 h) @ ?ys = drop 10 h" using append_take_drop_id [of 2 "drop 10 h"] by simp
  then have "h = ?xs @ take 2 (drop 10 h) @ ?ys" using append_take_drop_id [of 10 h] by simp
  moreover have "take 2 (drop 10 h) = [ucast (drop_bit 8 (htons (cksum ?b))), ucast (htons (cksum ?b))]"
    using assms(1) by (simp add: sum_field_ok_def bytes16_def bytes_htons)
  ultimately have "h = ?xs @ [ucast (drop_bit 8 (htons (cksum ?b))), ucast (htons (cksum ?b))] @ ?ys" by simp
  moreover have "fold_carry (sum_words (?xs @ [ucast (drop_bit 8 (htons (cksum ?b))), ucast (htons (cksum ?b))] @ ?ys) 0) = 0xffff"
    using assms(2,3) by (intro cksum_verifies) (simp_all add: b)
  ultimately show ?thesis by simp
qed

lemma word_sum_update:
  "k < length h \<Longrightarrow> word_sum (h[k := b]) + (if even k then 256 else 1) * unat (h ! k) =
    word_sum h + (if even k then 256 else 1) * unat b"
proof (induction h arbitrary: k rule: word_sum.induct)
  case (1 x y ds)
  consider "k = 0" | "k = 1" | j where "k = Suc (Suc j)" by (metis One_nat_def not0_implies_Suc)
  then show ?case
  proof cases
    case (3 j)
    then show ?thesis using "1.IH" [of j] "1.prems" by simp
  qed auto
qed auto

lemma cksum_update:
  assumes "k < length h" and "length h < 65536" and "b \<noteq> h ! k"
  shows "cksum (h[k := b]) \<noteq> cksum h"
proof
  assume eq: "cksum (h[k := b]) = cksum h"
  define w :: nat where "w = (if even k then 256 else 1)"
  let ?c = "unat (htons (cksum h))"
  have "word_sum h < 2 ^ 32" "word_sum (h[k := b]) < 2 ^ 32"
    using word_sum_bound [of h] word_sum_bound [of "h[k := b]"] assms(2) by simp_all
  then have m: "(word_sum h + ?c) mod 65535 = 0" "(word_sum (h[k := b]) + ?c) mod 65535 = 0"
    using unat_cksum(1) [of h] unat_cksum(1) [of "h[k := b]"] eq by simp_all
  have u: "word_sum (h[k := b]) + w * unat (h ! k) = word_sum h + w * unat b"
    unfolding w_def by (rule word_sum_update [OF assms(1)])
  have "int 65535 dvd int (word_sum (h[k := b]) + ?c)" "int 65535 dvd int (word_sum h + ?c)"
    using m by (simp_all only: int_dvd_int_iff mod_eq_0_iff_dvd)
  then have "int 65535 dvd int (word_sum (h[k := b]) + ?c) - int (word_sum h + ?c)" by (rule dvd_diff)
  then have "65535 dvd int (word_sum (h[k := b])) - int (word_sum h)" by simp
  moreover have "int (word_sum (h[k := b])) - int (word_sum h) = int w * (int (unat b) - int (unat (h ! k)))"
    using arg_cong [OF u, of int] by (simp add: algebra_simps)
  ultimately have d: "65535 dvd int w * (int (unat b) - int (unat (h ! k)))" by simp
  have "\<bar>int (unat b) - int (unat (h ! k))\<bar> \<le> 255"
    using unat_u8_less [of b] unat_u8_less [of "h ! k"] by linarith
  moreover have "0 < w" "w \<le> 256" by (simp_all add: w_def)
  ultimately have "\<bar>int w * (int (unat b) - int (unat (h ! k)))\<bar> < 65535"
    using mult_mono [of "int w" 256 "\<bar>int (unat b) - int (unat (h ! k))\<bar>" 255] by (simp add: abs_mult)
  with d have "int w * (int (unat b) - int (unat (h ! k))) = 0" by (metis dvd_imp_le_int leD abs_of_nonneg zero_le_numeral)
  then have "int (unat b) = int (unat (h ! k))" using \<open>0 < w\<close> by (metis eq_iff_diff_eq_0 mult_eq_0_iff of_nat_0_less_iff less_irrefl)
  then show False using assms(3) by (simp only: of_nat_eq_iff word_unat_eq_iff)
qed

lemma sum_field_update:
  assumes "sum_field_ok h" and "k < length h" and "12 \<le> length h" and "length h < 65536" and "b \<noteq> h ! k"
  shows "\<not> sum_field_ok (h[k := b])"
proof (cases "k = 10 \<or> k = 11")
  case True
  then have "(h[k := b])[10 := 0, 11 := 0] = h[10 := 0, 11 := 0]"
    using list_update_swap [of 10 11 h] by (auto simp: list_update_swap)
  moreover have "take 2 (drop 10 (h[k := b])) \<noteq> take 2 (drop 10 h)"
  proof
    assume "take 2 (drop 10 (h[k := b])) = take 2 (drop 10 h)"
    then have "take 2 (drop 10 (h[k := b])) ! (k - 10) = take 2 (drop 10 h) ! (k - 10)" by simp
    then show False using True assms(2,5) by auto
  qed
  ultimately show ?thesis using assms(1) by (simp add: sum_field_ok_def)
next
  case False
  then have "(h[k := b])[10 := 0, 11 := 0] = (h[10 := 0, 11 := 0])[k := b]"
    by (simp add: list_update_swap)
  moreover have "cksum ((h[10 := 0, 11 := 0])[k := b]) \<noteq> cksum (h[10 := 0, 11 := 0])"
    using False assms by (intro cksum_update) simp_all
  moreover have "take 2 (drop 10 (h[k := b])) = take 2 (drop 10 h)"
    using False by (intro nth_equalityI) (auto simp: nth_list_update dest!: less_2_cases)
  ultimately show ?thesis
    using assms(1) word16_bytes16 unfolding sum_field_ok_def by metis
qed

lemma word_sum_split:
  assumes "12 \<le> length h"
  shows "word_sum h = word_sum (h[10 := 0, 11 := 0]) + unat (htons (word16 (h ! 10) (h ! 11)))"
proof -
  let ?f = "htons (word16 (h ! 10) (h ! 11))"
  have "word_sum (h[10 := 0]) + 256 * unat (h ! 10) = word_sum h" using word_sum_update [of 10 h 0] assms by simp
  moreover have "word_sum (h[10 := 0, 11 := 0]) + unat (h ! 11) = word_sum (h[10 := 0])"
    using word_sum_update [of 11 "h[10 := 0]" 0] assms by simp
  moreover have "unat ?f = 256 * unat (h ! 10) + unat (h ! 11)"
  proof -
    have b: "ucast ?f = (h ! 11)" "ucast (drop_bit 8 ?f) = (h ! 10)"
      using bytes16_word16 [of "h ! 10" "h ! 11"] by (simp_all add: bytes_htons bytes16_def)
    have lt: "unat ?f < 65536" using unsigned_less [of ?f, where 'a = nat] by simp
    have "unat (drop_bit 8 ?f) = unat ?f div 256"
      by (simp only: unsigned_drop_bit_eq) (use lt in \<open>simp add: drop_bit_eq_div take_bit_nat_eq_self\<close>)
    then have "unat (ucast (drop_bit 8 ?f) :: u8) = unat ?f div 256"
      using lt by (simp only: unsigned_ucast_eq) (simp add: take_bit_eq_mod less_mult_imp_div_less)
    moreover have "unat (ucast ?f :: u8) = unat ?f mod 256"
      by (simp only: unsigned_ucast_eq) (simp add: take_bit_eq_mod)
    ultimately show ?thesis by (simp only: b) simp
  qed
  ultimately show ?thesis by simp
qed

lemma residue_unique:
  assumes "(s + f) mod 65535 = 0" and "(s + c) mod 65535 = 0" and "0 < f" "f \<le> 65535" "0 < c" "c \<le> (65535 :: nat)"
  shows "f = c"
proof -
  have "int 65535 dvd int (s + f)" "int 65535 dvd int (s + c)"
    using assms(1,2) by (simp_all only: int_dvd_int_iff mod_eq_0_iff_dvd)
  then have "int 65535 dvd int (s + f) - int (s + c)" by (rule dvd_diff)
  then have d: "65535 dvd int f - int c" by simp
  have "\<bar>int f - int c\<bar> < 65535" using assms(3-6) by linarith
  with d have "int f - int c = 0" by (metis abs_ge_self abs_of_nonneg dvd_imp_le_int leD zero_le_numeral)
  then show ?thesis by simp
qed

lemma sum_field_iff:
  assumes "12 \<le> length h" and "length h < 65536"
  shows "sum_field_ok h \<longleftrightarrow> fold_carry (sum_words h 0) = 0xffff \<and> (h ! 10, h ! 11) \<noteq> (0, 0)"
proof -
  let ?b = "h[10 := 0, 11 := 0]" and ?w = "word16 (h ! 10) (h ! 11)"
  have t: "take 2 (drop 10 h) = [h ! 10, h ! 11]"
    using assms(1) by (intro nth_equalityI) (auto simp: nth_Cons' less_Suc_eq eval_nat_numeral)
  have field: "sum_field_ok h \<longleftrightarrow> cksum ?b = ?w"
    unfolding sum_field_ok_def t by (metis bytes16_word16 word16_bytes16 nth_Cons_0 nth_Cons_Suc One_nat_def)
  have b: "word_sum ?b < 2 ^ 32" "word_sum h < 2 ^ 32"
    using word_sum_bound [of ?b] word_sum_bound [of h] assms(2) by simp_all
  note c = unat_cksum [OF b(1)]
  have zero: "?w = 0 \<longleftrightarrow> (h ! 10, h ! 11) = (0, 0)"
  proof -
    have "?w = word16 0 0 \<longleftrightarrow> [h ! 10, h ! 11] = [0, 0]" by (metis bytes16_word16 list.inject)
    then show ?thesis by (simp add: word16_def)
  qed
  show ?thesis
  proof
    assume ok: "sum_field_ok h"
    then have "?w \<noteq> 0" using c(2) htons_const(1) by (metis field)
    with sum_field_verifies [OF ok assms] zero show "fold_carry (sum_words h 0) = 0xffff \<and> (h ! 10, h ! 11) \<noteq> (0, 0)"
      by simp
  next
    assume v: "fold_carry (sum_words h 0) = 0xffff \<and> (h ! 10, h ! 11) \<noteq> (0, 0)"
    have "word_sum h mod 65535 = 0"
      using fold_carry_mod [of "sum_words h 0"] sum_words_word_sum [of h 0] b(2) v by simp
    then have f: "(word_sum ?b + unat (htons ?w)) mod 65535 = 0" by (simp only: word_sum_split [OF assms(1)])
    have le: "unat x \<le> 65535" for x :: u16 using unsigned_less [of x, where 'a = nat] by simp
    have "htons ?w \<noteq> 0" using v zero htons_const(1) htons_eq_iff by metis
    then have pos: "0 < unat (htons ?w)" "0 < unat (htons (cksum ?b))" using c(2) by (simp_all only: unat_gt_0 simp_thms)
    have "unat (htons ?w) = unat (htons (cksum ?b))" by (rule residue_unique [OF f c(1) pos(1) le pos(2) le])
    then have "?w = cksum ?b" by (simp only: word_unat_eq_iff [symmetric] htons_eq_iff)
    then show "sum_field_ok h" by (simp only: field)
  qed
qed

lemma forwarded_sum:
  assumes "ip_wf p" and "length shost = 6"
  shows "ip_sum_ok (forwarded shost p)"
proof -
  let ?f = "forwarded shost p" and ?hb = "take (ip_hdr_len p) (drop 14 (fwd_blank p))"
  have len: "42 \<le> length p" "12 \<le> ip_hdr_len p" "14 + ip_hdr_len p \<le> length p" using assms(1) by (simp_all add: ip_wf_def)
  have n: "ip_hdr_len ?f = ip_hdr_len p"
    using len assms(2) by (simp add: forwarded_def nth_append) (simp add: fwd_blank_def)
  have "drop 14 ?f = (drop 14 (fwd_blank p))[10 := ucast (fwd_sum p), 11 := ucast (drop_bit 8 (fwd_sum p))]"
    using len assms(2) by (simp add: forwarded_def drop_update_swap)
  then have h: "take (ip_hdr_len ?f) (drop 14 ?f) = ?hb[10 := ucast (fwd_sum p), 11 := ucast (drop_bit 8 (fwd_sum p))]"
    by (simp only: n take_update_swap)
  have hb: "length ?hb = ip_hdr_len p" using len by simp
  have "?hb ! 10 = 0" "?hb ! 11 = 0" using len by (simp_all add: fwd_blank_def)
  then have "?hb[10 := 0, 11 := 0] = ?hb" by (metis list_update_id)
  moreover have "(xs[10 := x, 11 := y])[10 := 0, 11 := 0] = xs[10 := 0, 11 := 0]" for x y and xs :: "u8 list"
    using list_update_swap [of 11 10 "xs[10 := x]" y 0] by simp
  ultimately have "(?hb[10 := x, 11 := y])[10 := 0, 11 := 0] = ?hb" for x y by simp
  moreover have "take 2 (drop 10 (?hb[10 := x, 11 := y])) = [x, y]" for x y
    using hb len(2) by (intro nth_equalityI) (auto simp: nth_Cons' less_Suc_eq eval_nat_numeral)
  ultimately show ?thesis by (simp only: ip_sum_ok_field sum_field_ok_def h fwd_sum_def bytes16_def)
qed

section \<open>The packets of the router are valid\<close>

lemma icmp_packet_fields:
  assumes "length dhost = 6" and "length (if_addr i) = 6"
  shows "type_of (icmp_packet i dhost src dst icmp) = htons ethertype_ip"
    "icmp_packet i dhost src dst icmp ! 14 = 0x45"
    "icmp_packet i dhost src dst icmp ! 22 = INIT_TTL"
    "icmp_packet i dhost src dst icmp ! 23 = ip_protocol_icmp"
    "dst_of (icmp_packet i dhost src dst icmp) = dst"
  using assms
  by (simp_all add: icmp_packet_def Let_def ip_hdr_bytes_def bytes16_def nth_append nth_Cons' bytes32_def [of src]
      word16_bytes16 [of "htons ethertype_ip", unfolded bytes16_def, simplified])

lemma icmp_packet_wf:
  assumes "length dhost = 6" and "length (if_addr i) = 6" and "8 \<le> length icmp"
  shows "ip_wf (icmp_packet i dhost src dst icmp)"
  using assms icmp_packet_fields(2) [OF assms(1,2), of src dst icmp] by (simp add: ip_wf_def)

lemma icmp_packet_sum:
  assumes "length dhost = 6" and "length (if_addr i) = 6"
  shows "ip_sum_ok (icmp_packet i dhost src dst icmp)"
proof -
  let ?h = "\<lambda>s. ip_hdr_bytes (of_nat (20 + length icmp)) ip_protocol_icmp s src dst"
  let ?c = "cksum (?h 0)"
  have l: "length (ip_hdr_bytes n pr s a b) = 20" for n pr s a b by (simp add: ip_hdr_bytes_def)
  have "take (ip_hdr_len (icmp_packet i dhost src dst icmp)) (drop 14 (icmp_packet i dhost src dst icmp)) = ?h ?c"
    using assms by (simp add: icmp_packet_fields(2) [OF assms]) (simp add: icmp_packet_def Let_def l)
  moreover have "(?h s)[10 := 0, 11 := 0] = ?h 0" for s by (simp add: ip_hdr_bytes_def bytes16_def)
  moreover have "take 2 (drop 10 (?h s)) = bytes16 s" for s by (simp add: ip_hdr_bytes_def bytes16_def)
  ultimately show ?thesis by (simp only: ip_sum_ok_field sum_field_ok_def)
qed

lemma icmp_packet_parts:
  assumes "length dhost = 6" and "length (if_addr i) = 6"
  shows "take 6 (icmp_packet i dhost src dst icmp) = dhost" "drop 34 (icmp_packet i dhost src dst icmp) = icmp"
  using assms by (simp_all add: icmp_packet_def Let_def ip_hdr_bytes_def)

section \<open>A small router\<close>

definition ex_router :: sr_instance where
  "ex_router = \<lparr>if_list = [example_if 1, example_if 2],
     routing_table = [\<lparr>rt_dest = 0, rt_gw = 9, rt_mask = 0xffffff00, rt_if = if_name (example_if 2)\<rparr>],
     cache = sr_arpcache_init, sent = []\<rparr>"

definition ex_packet :: "u8 list" where
  "ex_packet = icmp_packet (example_if 5) (if_addr (example_if 1)) 3 4 (replicate 8 0)"

definition ex_reply :: "u8 list" where
  "ex_reply = arp_packet \<lparr>if_name = [], if_addr = [0, 0, 0, 0, 0, 9], if_ip = 9\<rparr> (if_addr (example_if 2))
     arp_op_reply (if_addr (example_if 2)) 2"

lemma ex_if_simps [simp]: "length (if_addr (example_if k)) = 6" "if_ip (example_if k) = ucast k"
  by (simp_all add: example_if_def)

lemma ex_interface: "interface_for ex_router (if_name (example_if 1)) = Some (example_if 1)"
    "interface_for ex_router (if_name (example_if 2)) = Some (example_if 2)"
  by code_simp+

lemma ex_name_ok: "name_ok 32 (if_name (example_if k))"
  by (simp add: example_if_def name_ok_def)

lemma ex_lookup: "sr_rt_lookup_ip (routing_table ex_router) 4 = Some (routing_table ex_router ! 0)"
  "sr_rt_lookup_ip (routing_table ex_router) 3 = Some (routing_table ex_router ! 0)"
  "sr_rt_lookup_ip (routing_table ex_router) 1 = Some (routing_table ex_router ! 0)"
  "sr_rt_lookup_ip (routing_table ex_router) 2 = Some (routing_table ex_router ! 0)"
  by code_simp+

lemma ex_router_ok: "router_ok ex_router"
proof -
  have "ifs_ok ex_router" by (simp add: ifs_ok_def ex_router_def if_ok_def ex_name_ok)
  moreover have "\<forall>i \<in> set (if_list ex_router). routable ex_router (if_ip i)"
    using ex_lookup(3,4) by (simp add: ex_router_def routable_def)
  moreover have "routes_ok ex_router"
    using ex_interface ex_name_ok by (simp add: routes_ok_def known_def) (simp add: ex_router_def)
  ultimately show ?thesis
    by (simp add: router_ok_def arp_ok_init queues_def ex_router_def sr_arpcache_init_def)
      (simp add: arp_ok_init [unfolded sr_arpcache_init_def])
qed

definition ex_router2 :: sr_instance where
  "ex_router2 = ex_router\<lparr>cache := snd (sr_arpcache_insert 0 sr_arpcache_init [0, 0, 0, 0, 0, 9] 9)\<rparr>"

lemma ex_lookup_empty: "sr_arpcache_lookup (cache ex_router) ip = None"
  by (simp add: lookup_None_iff valid_ips_def ex_router_def sr_arpcache_init_def)

lemma ex_router2_ok: "router_ok ex_router2"
proof -
  have init: "sr_arpcache_init = cache ex_router" by (simp add: ex_router_def)
  have "arp_ok (cache ex_router)" by (rule router_okD [OF ex_router_ok])
  then have "arp_ok (snd (sr_arpcache_insert 0 sr_arpcache_init [0, 0, 0, 0, 0, 9] 9))"
    unfolding init by (intro arp_ok_insert) (simp_all add: ex_lookup_empty)
  then show ?thesis unfolding ex_router2_def
    by (intro router_ok_cache ex_router_ok) (simp_all add: queues_def insert_parts sr_arpcache_init_def)
qed

lemma ex_router2_lookup: "map_option ae_ip (sr_arpcache_lookup (cache ex_router2) 9) = Some 9"
  by code_simp

lemma ex_known: "known ex_router (if_name (example_if 1))" "known ex_router (if_name (example_if 2))"
  by (simp_all add: known_def ex_interface ex_name_ok)

lemma ex_packet_fields:
  "length ex_packet = 42" "ip_wf ex_packet" "ip_sum_ok ex_packet" "src_of ex_packet = 3" "dst_of ex_packet = 4"
  "type_of ex_packet = htons ethertype_ip" "ex_packet ! 22 = 255" "ip_hdr_len ex_packet = 20"
  by (simp_all add: ex_packet_def icmp_packet_wf icmp_packet_sum icmp_packet_src icmp_packet_fields INIT_TTL_def)

lemma ex_packet_ok: "frame_ok ex_router ex_packet" "\<not> to_us ex_router ex_packet"
proof -
  have "ethertype_arp \<noteq> ethertype_ip" by (simp add: ethertype_arp_def ethertype_ip_def)
  then show "frame_ok ex_router ex_packet"
    by (simp add: frame_ok_def ex_packet_fields routable_def ex_lookup)
  show "\<not> to_us ex_router ex_packet" by (simp add: to_us_def ex_packet_fields) (simp add: ex_router_def)
qed

lemma ex_reply_ok: "frame_ok sr ex_reply"
proof -
  have "type_of ex_reply = htons ethertype_arp" "op_of ex_reply = htons arp_op_reply" "length ex_reply = 42"
    by code_simp+
  then show ?thesis by (simp add: frame_ok_def ethertype_arp_def ethertype_ip_def)
qed

text \<open>A router that knows the address of 9 and is about to give up a packet for 8, whose source is reached over 9.\<close>

definition race_router :: sr_instance where
  "race_router = ex_router2\<lparr>cache := (cache ex_router2)\<lparr>requests :=
     [\<lparr>rq_ip = 8, rq_sent = 10, rq_times_sent = 4,
       rq_packets = [\<lparr>pk_buf = forwarded (if_addr (example_if 2)) ex_packet, pk_iface = if_name (example_if 2)\<rparr>]\<rparr>]\<rparr>\<rparr>"

lemma race_router_ok: "router_ok race_router"
proof -
  let ?p = "\<lparr>pk_buf = forwarded (if_addr (example_if 2)) ex_packet, pk_iface = if_name (example_if 2)\<rparr>"
  have "waiting_ok ex_router ?p"
    using forwarded_parts [of ex_packet "if_addr (example_if 2)"]
    by (simp add: waiting_ok_def ex_packet_fields routable_def ex_lookup ex_name_ok ex_interface)
  moreover have "packet_ok ?p"
    using forwarded_parts(1) [of ex_packet "if_addr (example_if 2)"] by (auto simp: packet_ok_def ex_packet_fields ex_name_ok)
  ultimately show ?thesis
    using ex_router2_ok unfolding race_router_def
    by (intro router_ok_cache) (auto simp: queues_def router_ok_def arp_ok_def req_ok_def valid_ips_def ex_router2_def)
qed

section \<open>Properties\<close>

text \<open>
  The router never faults: from a state with the invariant, any sequence of well-formed
  frames on its interfaces and passes of the ARP thread runs to the end, without an access outside
  a buffer, a null pointer or a failed assertion, and keeps the invariant.
\<close>

theorem router_never_faults:
  assumes "router_ok sr" and "Ball (set es) (event_ok sr)"
  shows "\<exists>sr'. rfold router_step es sr = Inr sr' \<and> router_ok sr' \<and>
    if_list sr' = if_list sr \<and> routing_table sr' = routing_table sr"
  using router_run_fine [OF assms] by (auto simp: fine_def same_tables_def)

theorem router_never_faults_witness:
  "\<exists>sr'. rfold router_step [Frame 1 ex_packet (if_name (example_if 1)), Tick 2 2,
     Frame 3 ex_reply (if_name (example_if 2)), Tick 30 30] ex_router = Inr sr' \<and> router_ok sr'"
proof -
  have "Ball (set [Frame 1 ex_packet (if_name (example_if 1)), Tick 2 2,
     Frame 3 ex_reply (if_name (example_if 2)), Tick 30 30]) (event_ok ex_router)"
    by (simp add: ex_packet_ok ex_reply_ok ex_known)
  from router_never_faults [OF ex_router_ok this] show ?thesis by blast
qed

text \<open>
  C26: Every message the router writes, whatever it receives, is a frame whose Ethernet source is
  the address of one of its interfaces; the interfaces and the routes never change, and nothing
  that was written is taken back.
\<close>

theorem sent_from_interfaces:
  assumes "rfold router_step es sr = Inr sr'"
  shows "\<exists>ms. sent sr' = sent sr @ ms \<and> (\<forall>m \<in> set ms. \<exists>i \<in> set (if_list sr). \<exists>n buf.
    length n = 16 \<and> 14 \<le> length buf \<and> m = vns_frame n buf \<and> shost_of buf = if_addr i)"
  using run_grows [OF assms] by (simp add: grows_def from_interface_def)

theorem sent_from_interfaces_witness:
  "\<exists>sr'. rfold router_step [Frame 1 ex_packet (if_name (example_if 1))] ex_router = Inr sr' \<and>
    (\<forall>m \<in> set (sent sr'). \<exists>i \<in> set (if_list ex_router). \<exists>n buf. m = vns_frame n buf \<and> shost_of buf = if_addr i)"
proof -
  have "event_ok ex_router (Frame 1 ex_packet (if_name (example_if 1)))" by (simp add: ex_packet_ok ex_known)
  then obtain sr' where r: "rfold router_step [Frame 1 ex_packet (if_name (example_if 1))] ex_router = Inr sr'"
    using router_run_fine [OF ex_router_ok, of "[Frame 1 ex_packet (if_name (example_if 1))]"] by (auto simp: fine_def)
  have "sent ex_router = []" by (simp add: ex_router_def)
  with sent_from_interfaces [OF r] r show ?thesis by (auto 0 4)
qed

text \<open>
  C27: Forwarding: a valid packet for another host, with a hop left and a known next hop, leaves on
  the interface of its longest-prefix route as the same packet but for the two Ethernet addresses,
  a TTL one smaller and a checksum that is right again.
\<close>

theorem forward_effect:
  assumes "router_ok sr" and "frame_ok sr p" and "known sr iface"
    and "type_of p = htons ethertype_ip" and "\<not> to_us sr p" and "ip_sum_ok p" and "p ! 22 \<noteq> 1"
    and "sr_rt_lookup_ip (routing_table sr) (dst_of p) = Some e"
    and "sr_arpcache_lookup (cache sr) (rt_gw e) = Some a"
  shows "\<exists>i buf. sr_handlepacket now sr p iface =
      Inr (sr\<lparr>sent := sent sr @ [vns_frame (padded 16 (rt_if e)) buf]\<rparr>) \<and>
    interface_for sr (rt_if e) = Some i \<and> length buf = length p \<and> take 6 buf = ae_mac a \<and>
    shost_of buf = if_addr i \<and> buf ! 22 = p ! 22 - 1 \<and> ip_sum_ok buf \<and>
    (\<forall>k < length p. 12 \<le> k \<and> k \<notin> {22, 24, 25} \<longrightarrow> buf ! k = p ! k)"
proof -
  have wf: "ip_wf p" "42 \<le> length p" using assms(2,4) by (simp_all add: frame_ok_def)
  obtain j where j: "interface_for sr iface = Some j" "name_ok 32 iface" using assms(3) by (rule knownE)
  obtain i where i: "interface_for sr (rt_if e) = Some i" "name_ok 32 (rt_if e)"
    using lookup_known [OF assms(1,8)] .
  note addr = interface_forD(3) [OF i(1) router_okD(1) [OF assms(1)]]
  have mac: "length (ae_mac a) = 6"
    using lookup_SomeD(1) [OF assms(9)] arp_okD(3) [OF router_okD(2) [OF assms(1)]] by blast
  have "ethertype_arp \<noteq> ethertype_ip" by (simp add: ethertype_arp_def ethertype_ip_def)
  then have s: "sr_handlepacket now sr p iface = Inr (put [wire (rt_if e) (ae_mac a @ drop 6 (forwarded (if_addr i) p))] sr)"
    using assms(4-9) by (simp add: handlepacket_cases [OF wf(2)] forward_put [OF assms(1) wf(1) assms(6) j] i(1) next_hop_def)
  let ?f = "forwarded (if_addr i) p" and ?buf = "ae_mac a @ drop 6 (forwarded (if_addr i) p)"
  have f: "length ?f = length p" "shost_of ?f = if_addr i" using forwarded_parts [of p "if_addr i"] wf(2) addr by simp_all
  have nth: "?buf ! k = ?f ! k" if "6 \<le> k" "k < length p" for k
    using that f mac by (simp add: nth_append)
  have d: "drop 12 ?f = drop 12 ((fwd_blank p)[24 := ucast (fwd_sum p), 25 := ucast (drop_bit 8 (fwd_sum p))])"
    using wf(2) addr by (simp add: forwarded_def)
  have fk: "?f ! k = (fwd_blank p)[24 := ucast (fwd_sum p), 25 := ucast (drop_bit 8 (fwd_sum p))] ! k" if "12 \<le> k" "k < length p" for k
    using arg_cong [OF d, of "\<lambda>l. l ! (k - 12)"] that f(1) by simp
  have "ip_sum_ok ?buf = ip_sum_ok ?f"
  proof -
    have "drop 14 ?buf = drop 14 ?f" using mac by simp
    then show ?thesis using nth [of 14] wf(2) by (simp add: ip_sum_ok_def)
  qed
  then have "ip_sum_ok ?buf" using forwarded_sum [OF wf(1) addr] by simp
  moreover have "?buf ! 22 = p ! 22 - 1" using nth [of 22] fk [of 22] wf(2) by (simp add: fwd_blank_def)
  moreover have "?buf ! k = p ! k" if "k < length p" "12 \<le> k" "k \<notin> {22, 24, 25}" for k
    using nth [of k] fk [of k] that by (simp add: fwd_blank_def)
  moreover have "shost_of ?buf = if_addr i" "length ?buf = length p" "take 6 ?buf = ae_mac a"
    using f mac wf(2) by simp_all
  ultimately show ?thesis using s i(1) by (intro exI [of _ i] exI [of _ ?buf]) (simp add: put_def wire_def)
qed

theorem forward_effect_witness:
  "\<exists>buf. sr_handlepacket 1 ex_router2 ex_packet (if_name (example_if 1)) =
      Inr (ex_router2\<lparr>sent := sent ex_router2 @ [vns_frame (padded 16 (if_name (example_if 2))) buf]\<rparr>) \<and>
    buf ! 22 = 254 \<and> ip_sum_ok buf"
proof -
  have t: "frame_ok ex_router2 = frame_ok ex_router" "known ex_router2 = known ex_router"
    "to_us ex_router2 = to_us ex_router" "routing_table ex_router2 = routing_table ex_router"
    using same_tablesD [of ex_router ex_router2] by (simp_all add: ex_router2_def to_us_def fun_eq_iff)
  have e: "sr_rt_lookup_ip (routing_table ex_router2) (dst_of ex_packet) = Some (routing_table ex_router ! 0)"
    by (simp add: t ex_packet_fields ex_lookup)
  have gw: "rt_gw (routing_table ex_router ! 0) = 9" "rt_if (routing_table ex_router ! 0) = if_name (example_if 2)"
    by (simp_all add: ex_router_def)
  obtain a where a: "sr_arpcache_lookup (cache ex_router2) (rt_gw (routing_table ex_router ! 0)) = Some a"
    using ex_router2_lookup by (auto simp: gw)
  have "frame_ok ex_router2 ex_packet" "known ex_router2 (if_name (example_if 1))" "\<not> to_us ex_router2 ex_packet"
    "type_of ex_packet = htons ethertype_ip" "ip_sum_ok ex_packet" "ex_packet ! 22 \<noteq> 1"
    by (simp_all add: t ex_packet_ok ex_known ex_packet_fields)
  from forward_effect [OF ex_router2_ok this(1,2,4,3,5,6) e a, of 1]
  show ?thesis by (auto simp: gw ex_packet_fields)
qed

text \<open>
  C28: A packet for a next hop without a known address is not lost: the router asks for the
  address with a broadcast on the outgoing interface, and when the answer comes it writes the
  forwarded packet to the address of the answer, before packets that were waiting longer.
\<close>

theorem delivered_after_reply:
  assumes "router_ok sr" and "frame_ok sr p" and "known sr iface"
    and "type_of p = htons ethertype_ip" and "\<not> to_us sr p" and "ip_sum_ok p" and "p ! 22 \<noteq> 1"
    and "sr_rt_lookup_ip (routing_table sr) (dst_of p) = Some e"
    and "interface_for sr (rt_if e) = Some i"
    and "sr_arpcache_lookup (cache sr) (rt_gw e) = None"
    and "42 \<le> length r" and "type_of r = htons ethertype_arp" and "op_of r = htons arp_op_reply"
    and "word32 (r ! 28) (r ! 29) (r ! 30) (r ! 31) = rt_gw e"
  shows "\<exists>sr'. rfold router_step [Frame t p iface, Frame t' r iface'] sr = Inr sr' \<and>
    sent sr' = sent sr @ [wire (rt_if e) (arp_request i (rt_gw e)),
        wire (padded 32 (rt_if e)) (take 6 (drop 22 r) @ drop 6 (forwarded (if_addr i) p))] @
      map (\<lambda>q. wire (pk_iface q) (take 6 (drop 22 r) @ drop 6 (pk_buf q))) (waiting (cache sr) (rt_gw e)) \<and>
    waiting (cache sr') (rt_gw e) = []"
proof -
  have wf: "ip_wf p" "42 \<le> length p" "routable sr (src_of p)" using assms(2,4) by (simp_all add: frame_ok_def)
  obtain j where j: "interface_for sr iface = Some j" "name_ok 32 iface" using assms(3) by (rule knownE)
  have n: "name_ok 32 (rt_if e)" using lookup_known [OF assms(1,8)] by blast
  note addr = interface_forD(3) [OF assms(9) router_okD(1) [OF assms(1)]]
  have ne: "ethertype_arp \<noteq> ethertype_ip" "arp_op_request \<noteq> arp_op_reply"
    by (simp_all add: ethertype_arp_def ethertype_ip_def arp_op_request_def arp_op_reply_def)
  let ?f = "forwarded (if_addr i) p" and ?mac = "take 6 (drop 22 r)"
  let ?s = "next_hop e i ?f sr" and ?pkt = "\<lparr>pk_buf = forwarded (if_addr i) p, pk_iface = padded 32 (rt_if e)\<rparr>"
  have s: "sr_handlepacket t sr p iface = Inr ?s"
    using assms(4-9) ne by (simp add: handlepacket_cases [OF wf(2)] forward_put [OF assms(1) wf(1) assms(6) j])
  have ok: "router_ok ?s"
    using forwarded_parts [of p "if_addr i"] addr wf by (intro next_hop_ok [OF assms(1,9) n]) simp_all
  have c: "cache ?s = queue_packet (cache sr) (rt_gw e) ?pkt" "sent ?s = sent sr @ [wire (rt_if e) (arp_request i (rt_gw e))]"
    using assms(10) by (simp_all add: next_hop_def)
  have r: "sr_handlepacket t' ?s r iface' = Inr (put
      (map (\<lambda>q. wire (pk_iface q) (?mac @ drop 6 (pk_buf q))) (waiting (cache ?s) (rt_gw e)))
      (?s\<lparr>cache := arp_learn t' (cache ?s) ?mac (rt_gw e)\<rparr>))" (is "_ = Inr ?u")
    using arp_reply_put [OF ok assms(11) refl refl] assms(12-14) ne by (simp add: handlepacket_cases [OF assms(11)])
  have "waiting (cache ?u) (rt_gw e) = []"
    using waiting_removed [OF arp_learn_requests arp_okD(4) [OF router_okD(2) [OF ok]]] by simp
  then show ?thesis by (intro exI [of _ ?u]) (simp add: s r c waiting_queue)
qed

theorem delivered_after_reply_witness:
  "\<exists>sr'. rfold router_step [Frame 1 ex_packet (if_name (example_if 1)), Frame 2 ex_reply (if_name (example_if 2))] ex_router
      = Inr sr' \<and> length (sent sr') = 2"
proof -
  have e: "sr_rt_lookup_ip (routing_table ex_router) (dst_of ex_packet) = Some (routing_table ex_router ! 0)"
    by (simp add: ex_packet_fields ex_lookup)
  have gw: "rt_gw (routing_table ex_router ! 0) = 9" "rt_if (routing_table ex_router ! 0) = if_name (example_if 2)"
    by (simp_all add: ex_router_def)
  have i: "interface_for ex_router (rt_if (routing_table ex_router ! 0)) = Some (example_if 2)"
    by (simp only: gw ex_interface)
  have r: "42 \<le> length ex_reply" "type_of ex_reply = htons ethertype_arp" "op_of ex_reply = htons arp_op_reply"
    "word32 (ex_reply ! 28) (ex_reply ! 29) (ex_reply ! 30) (ex_reply ! 31) = rt_gw (routing_table ex_router ! 0)"
    by code_simp+
  have "ip_sum_ok ex_packet" "ex_packet ! 22 \<noteq> 1" "type_of ex_packet = htons ethertype_ip" by (simp_all add: ex_packet_fields)
  from delivered_after_reply [OF ex_router_ok ex_packet_ok(1) ex_known(1) this(3) ex_packet_ok(2) this(1,2) e i ex_lookup_empty r]
  obtain sr' where "rfold router_step [Frame 1 ex_packet (if_name (example_if 1)), Frame 2 ex_reply (if_name (example_if 2))] ex_router = Inr sr'"
    "length (sent sr') = 2 + length (waiting (cache ex_router) (rt_gw (routing_table ex_router ! 0)))"
    by (force simp: ex_router_def)
  moreover have "waiting (cache ex_router) x = []" for x
    by (simp add: waiting_def req_for_def ex_router_def sr_arpcache_init_def)
  ultimately show ?thesis by auto
qed

text \<open>
  C29: Errors are reported to the sender: a packet in transit whose TTL runs out (type 11 code 0) or
  that has no route (type 3 code 0), and a TCP or UDP packet for the router (type 3 code 3), is
  answered on its own interface with a message of that type, with a right header checksum, that
  quotes the header and the first 8 bytes of the packet.
\<close>

theorem errors_reported:
  assumes "router_ok sr" and "frame_ok sr p" and "interface_for sr iface = Some j" and "name_ok 32 iface"
    and "type_of p = htons ethertype_ip"
    and "\<not> to_us sr p \<and> ip_sum_ok p \<and> p ! 22 = 1 \<and> (ty, co) = (11, 0) \<or>
      \<not> to_us sr p \<and> ip_sum_ok p \<and> p ! 22 \<noteq> 1 \<and> \<not> routable sr (dst_of p) \<and> (ty, co) = (3, 0) \<or>
      to_us sr p \<and> p ! 23 \<in> {ip_protocol_tcp, ip_protocol_udp} \<and> (ty, co) = (3, 3)"
  shows "\<exists>buf. sr_handlepacket now sr p iface = Inr (sr\<lparr>sent := sent sr @ [vns_frame (padded 16 iface) buf]\<rparr>) \<and>
    take 6 buf = shost_of p \<and> src_of buf = if_ip j \<and> dst_of buf = src_of p \<and> ip_sum_ok buf \<and>
    take 2 (drop 34 buf) = [ty, co] \<and> drop 42 buf = take 28 (drop 14 p)"
proof -
  have ne: "ethertype_arp \<noteq> ethertype_ip" "ip_protocol_tcp \<noteq> ip_protocol_icmp" "ip_protocol_udp \<noteq> ip_protocol_icmp"
    by (simp_all add: ethertype_arp_def ethertype_ip_def ip_protocol_tcp_def ip_protocol_udp_def ip_protocol_icmp_def)
  have wf: "ip_wf p" "42 \<le> length p" using assms(2,5) by (simp_all add: frame_ok_def)
  note ok = router_okD(1) [OF assms(1)]
  note addr = interface_forD(3) [OF assms(3) ok]
  let ?q = "icmp_packet j (shost_of p) (if_ip j) (src_of p) (icmp_error ty co p)"
  have "sr_handlepacket now sr p iface = Inr (put [wire iface ?q] sr)"
    using assms(6)
  proof (elim disjE conjE)
    assume "to_us sr p" "p ! 23 \<in> {ip_protocol_tcp, ip_protocol_udp}" "(ty, co) = (3, 3)"
    then show ?thesis using assms(5) ne
      by (auto simp: handlepacket_cases [OF wf(2)] sr_send_icmp_port_unreachable_def icmp_error_put [OF ok assms(4,3) wf(2)])
  qed (use assms(5) ne in \<open>auto simp: handlepacket_cases [OF wf(2)] forward_put [OF assms(1) wf(1) _ assms(3,4)] routable_def\<close>)
  moreover have "take 2 (icmp_error ty co p) = [ty, co]" "drop 8 (icmp_error ty co p) = take 28 (drop 14 p)"
    by (simp_all add: icmp_error_def icmp_t11_bytes_def Let_def)
  moreover have "drop 42 ?q = drop 8 (drop 34 ?q)" by simp
  ultimately show ?thesis
    using wf(2) addr by (intro exI [of _ ?q]) (simp add: put_def wire_def icmp_packet_parts icmp_packet_src icmp_packet_fields icmp_packet_sum)
qed

definition ex_expired :: "u8 list" where
  "ex_expired = icmp_packet (example_if 5) (if_addr (example_if 1)) 3 0x100 (replicate 8 0)"

theorem errors_reported_witness:
  "\<exists>buf. sr_handlepacket 1 ex_router ex_expired (if_name (example_if 1)) =
      Inr (ex_router\<lparr>sent := sent ex_router @ [vns_frame (padded 16 (if_name (example_if 1))) buf]\<rparr>) \<and>
    dst_of buf = 3 \<and> take 2 (drop 34 buf) = [3, 0]"
proof -
  have f: "type_of ex_expired = htons ethertype_ip" "ip_wf ex_expired" "ip_sum_ok ex_expired" "src_of ex_expired = 3"
    "dst_of ex_expired = 0x100" "ex_expired ! 22 = 255" "length ex_expired = 42"
    by (simp_all add: ex_expired_def icmp_packet_wf icmp_packet_sum icmp_packet_src icmp_packet_fields INIT_TTL_def)
  have "ethertype_arp \<noteq> ethertype_ip" by (simp add: ethertype_arp_def ethertype_ip_def)
  then have ok: "frame_ok ex_router ex_expired" by (simp add: frame_ok_def f routable_def ex_lookup)
  have us: "\<not> to_us ex_router ex_expired" by (simp add: to_us_def f) (simp add: ex_router_def)
  have "sr_rt_lookup_ip (routing_table ex_router) 0x100 = None" by code_simp
  then have "\<not> to_us ex_router ex_expired \<and> ip_sum_ok ex_expired \<and> ex_expired ! 22 = 1 \<and> (3, 0) = (11 :: u8, 0 :: u8) \<or>
      \<not> to_us ex_router ex_expired \<and> ip_sum_ok ex_expired \<and> ex_expired ! 22 \<noteq> 1 \<and>
        \<not> routable ex_router (dst_of ex_expired) \<and> (3, 0) = (3 :: u8, 0 :: u8) \<or>
      to_us ex_router ex_expired \<and> ex_expired ! 23 \<in> {ip_protocol_tcp, ip_protocol_udp} \<and> (3, 0) = (3 :: u8, 3 :: u8)"
    using us by (simp add: f routable_def)
  from errors_reported [OF ex_router_ok ok ex_interface(1) ex_name_ok f(1) this, of 1]
  show ?thesis by (auto simp: f)
qed

text \<open>
  C30: An echo request for the router with a right ICMP checksum is answered: the reply carries its
  identifier and sequence number to its source, from the address it was sent to. A request with a
  wrong checksum is dropped. (The data of the request is not returned: the reply has 42 bytes.)
\<close>

theorem echo_answered:
  assumes "router_ok sr" and "frame_ok sr p" and "interface_for sr iface = Some j" and "name_ok 32 iface"
    and "to_us sr p" and "p ! 23 = ip_protocol_icmp" and "p ! 34 = 8" and "dst_of p \<noteq> 0"
  shows "(check_icmp_packet_corrupt (drop 34 p) = Inr True \<longrightarrow> sr_handlepacket now sr p iface = Inr sr) \<and>
    (check_icmp_packet_corrupt (drop 34 p) = Inr False \<longrightarrow>
      (\<exists>buf. sr_handlepacket now sr p iface = Inr (sr\<lparr>sent := sent sr @ [vns_frame (padded 16 iface) buf]\<rparr>) \<and>
        length buf = 42 \<and> take 6 buf = shost_of p \<and> src_of buf = dst_of p \<and> dst_of buf = src_of p \<and> ip_sum_ok buf \<and>
        take 2 (drop 34 buf) = [0, 0] \<and> drop 38 buf = take 4 (drop 38 p)))"
proof -
  have ty: "type_of p = htons ethertype_ip" using assms(5) by (simp add: to_us_def)
  have ne: "ethertype_arp \<noteq> ethertype_ip" by (simp add: ethertype_arp_def ethertype_ip_def)
  have len: "42 \<le> length p" using assms(2) by (simp add: frame_ok_def)
  note ok = router_okD(1) [OF assms(1)]
  note addr = interface_forD(3) [OF assms(3) ok]
  let ?q = "icmp_packet j (shost_of p) (dst_of p) (src_of p) (icmp_echo_reply p)"
  have h: "sr_handlepacket now sr p iface = sr_send_icmp_response sr p iface"
    using assms(5-7) ty ne by (simp add: handlepacket_cases [OF len])
  have "take 2 (icmp_echo_reply p) = [0, 0]" "drop 4 (icmp_echo_reply p) = take 4 (drop 38 p)" "length (icmp_echo_reply p) = 8"
    using len by (simp_all add: icmp_echo_reply_def Let_def)
  moreover have "drop 38 ?q = drop 4 (drop 34 ?q)" by simp
  ultimately have q: "length ?q = 42" "take 6 ?q = shost_of p" "src_of ?q = dst_of p" "dst_of ?q = src_of p" "ip_sum_ok ?q"
    "take 2 (drop 34 ?q) = [0, 0]" "drop 38 ?q = take 4 (drop 38 p)"
    using len addr by (simp_all add: icmp_packet_parts icmp_packet_src icmp_packet_fields icmp_packet_sum)
  have "sr_send_icmp_response sr p iface = Inr (sr\<lparr>sent := sent sr @ [vns_frame (padded 16 iface) ?q]\<rparr>)"
    if "check_icmp_packet_corrupt (drop 34 p) = Inr False"
    using echo_reply_put [OF ok assms(4,3) len that] assms(8) by (simp add: put_def wire_def)
  moreover have "sr_send_icmp_response sr p iface = Inr sr" if "check_icmp_packet_corrupt (drop 34 p) = Inr True"
    using that by (simp add: sr_send_icmp_response_def)
  ultimately show ?thesis using q unfolding h by blast
qed

definition ex_echo :: "u8 list" where
  "ex_echo = icmp_packet (example_if 5) (if_addr (example_if 1)) 3 1
    ([8, 0] @ bytes16 (cksum [8, 0, 0, 0, 0, 7, 0, 1]) @ [0, 7, 0, 1])"

theorem echo_answered_witness:
  "\<exists>buf. sr_handlepacket 1 ex_router ex_echo (if_name (example_if 1)) =
      Inr (ex_router\<lparr>sent := sent ex_router @ [vns_frame (padded 16 (if_name (example_if 1))) buf]\<rparr>) \<and>
    dst_of buf = 3 \<and> drop 38 buf = [0, 7, 0, 1]"
proof -
  let ?b = "[8, 0] @ bytes16 (cksum [8, 0, 0, 0, 0, 7, 0, 1]) @ [0, 7, 0, 1 :: u8]"
  have f: "type_of ex_echo = htons ethertype_ip" "ip_wf ex_echo" "src_of ex_echo = 3"
    "dst_of ex_echo = 1" "ex_echo ! 23 = ip_protocol_icmp" "length ex_echo = 42"
    by (simp_all add: ex_echo_def icmp_packet_wf icmp_packet_src icmp_packet_fields)
  have d: "drop 34 ex_echo = ?b" unfolding ex_echo_def by (rule icmp_packet_parts) simp_all
  have "ethertype_arp \<noteq> ethertype_ip" by (simp add: ethertype_arp_def ethertype_ip_def)
  then have ok: "frame_ok ex_router ex_echo" by (simp add: frame_ok_def f routable_def ex_lookup)
  have us: "to_us ex_router ex_echo" by (simp add: to_us_def f) (simp add: ex_router_def)
  have "drop 34 ex_echo ! 0 = 8" by (simp add: d)
  then have e: "ex_echo ! 34 = 8" using f(6) by simp
  have "drop 38 ex_echo = drop 4 (drop 34 ex_echo)" by simp
  then have i: "drop 38 ex_echo = [0, 7, 0, 1]" by (simp only: d) (simp add: bytes16_def)
  have "check_icmp_packet_corrupt ?b = Inr False" by code_simp
  with echo_answered [OF ex_router_ok ok ex_interface(1) ex_name_ok us f(5) e, of 1] show ?thesis
    by (auto simp: f d i)
qed

text \<open>
  C31: The checksum test of forwarding, which recomputes the field, agrees with the verification of
  RFC 1071 (the words of the header add up to ones), except that a header whose field is zero is
  rejected even when it adds up: \<^verbatim>\<open>cksum\<close> never yields zero.
\<close>

theorem checksum_equivalence:
  assumes "ip_wf p" and "h = take (ip_hdr_len p) (drop 14 p)"
  shows "check_ip_packet_corrupt p = Inr (\<not> (fold_carry (sum_words h 0) = 0xffff \<and> (p ! 24, p ! 25) \<noteq> (0, 0)))"
proof -
  have "unat (p ! 14 AND 0xf) \<le> unat (p ! 14)" using word_and_le2 [of "p ! 14" 15] by (simp add: word_le_nat_alt)
  then have "ip_hdr_len p < 65536" using unat_u8_less [of "p ! 14"] by simp
  moreover have "12 \<le> ip_hdr_len p" "14 + ip_hdr_len p \<le> length p" using assms(1) by (simp_all add: ip_wf_def)
  ultimately have h: "12 \<le> length h" "length h < 65536" "h ! 10 = p ! 24" "h ! 11 = p ! 25"
    by (auto simp: assms(2))
  show ?thesis
    using sum_field_iff [OF h(1,2)] by (simp add: check_ip [OF assms(1)] ip_sum_ok_field assms(2) [symmetric] h(3,4))
qed

theorem checksum_equivalence_witness:
  "check_ip_packet_corrupt ex_packet = Inr False \<and>
   fold_carry (sum_words (take 20 (drop 14 ex_packet)) 0) = 0xffff"
proof -
  have "check_ip_packet_corrupt ex_packet = Inr False"
    by (simp add: check_ip ex_packet_fields)
  with checksum_equivalence [OF ex_packet_fields(2) refl] show ?thesis by (simp add: ex_packet_fields(8))
qed

text \<open>
  C32: No packet is forwarded with a damaged header: when one byte of a valid header (behind the byte
  that holds its length) is replaced by another value, the router drops the packet and its state is
  unchanged.
\<close>

theorem damaged_header_dropped:
  assumes "ip_wf p" and "ip_sum_ok p" and "14 < k" and "k < 14 + ip_hdr_len p" and "b \<noteq> p ! k"
  shows "sr_forward_packet sr (p[k := b]) iface = Inr sr"
proof -
  let ?q = "p[k := b]" and ?h = "take (ip_hdr_len p) (drop 14 p)"
  have n: "ip_hdr_len ?q = ip_hdr_len p" using assms(3) by simp
  then have wf: "ip_wf ?q" using assms(1) by (simp add: ip_wf_def)
  have "unat (p ! 14 AND 0xf) \<le> unat (p ! 14)" using word_and_le2 [of "p ! 14" 15] by (simp add: word_le_nat_alt)
  then have "ip_hdr_len p < 65536" using unat_u8_less [of "p ! 14"] by simp
  moreover have "12 \<le> ip_hdr_len p" "14 + ip_hdr_len p \<le> length p" using assms(1) by (simp_all add: ip_wf_def)
  ultimately have "\<not> sum_field_ok (?h[k - 14 := b])"
    using assms(2-5) by (intro sum_field_update) (auto simp: ip_sum_ok_field)
  moreover have "take (ip_hdr_len p) (drop 14 ?q) = ?h[k - 14 := b]"
    using assms(3) by (simp add: drop_update_swap take_update_swap)
  ultimately have "\<not> ip_sum_ok ?q" by (simp only: ip_sum_ok_field n not_False_eq_True)
  then show ?thesis by (simp add: sr_forward_packet_def check_ip [OF wf])
qed

theorem damaged_header_dropped_witness:
  "sr_forward_packet ex_router (ex_packet[22 := 7]) (if_name (example_if 1)) = Inr ex_router"
  by (rule damaged_header_dropped) (simp_all add: ex_packet_fields)

text \<open>
  What giving up a packet must do: the sender is reached over the route back to it; the message says
  that the host is unreachable, and is written to the next hop when its address is known, and parked
  behind a new ARP request for it otherwise.
\<close>

definition route_back :: "sr_instance \<Rightarrow> sr_packet \<Rightarrow> sr_rt" where
  "route_back sr pkt = the (sr_rt_lookup_ip (routing_table sr) (src_of (pk_buf pkt)))"

definition unreachable :: "sr_instance \<Rightarrow> sr_packet \<Rightarrow> u8 list" where
  "unreachable sr pkt = (let i = the (interface_for sr (rt_if (route_back sr pkt)))
     in icmp_packet i (if_addr i) (if_ip i) (src_of (pk_buf pkt)) (icmp_error 3 1 (pk_buf pkt)))"

definition report :: "sr_instance \<Rightarrow> sr_packet \<Rightarrow> u8 list" where
  "report sr pkt = (let e = route_back sr pkt in
     case sr_arpcache_lookup (cache sr) (rt_gw e) of
       Some a \<Rightarrow> wire (rt_if e) (ae_mac a @ drop 6 (unreachable sr pkt))
     | None \<Rightarrow> wire (rt_if e) (arp_request (the (interface_for sr (rt_if e))) (rt_gw e)))"

definition parked :: "sr_instance \<Rightarrow> u32 \<Rightarrow> sr_packet list \<Rightarrow> sr_packet list" where
  "parked sr ip ps = (if sr_arpcache_lookup (cache sr) ip = None
     then map (\<lambda>pkt. \<lparr>pk_buf = unreachable sr pkt, pk_iface = padded 32 (rt_if (route_back sr pkt))\<rparr>)
       (filter (\<lambda>pkt. rt_gw (route_back sr pkt) = ip) ps)
     else [])"

lemma give_up_effect:
  assumes "router_ok sr" and "waiting_ok sr pkt"
  obtains s where "give_up pkt sr = Inr s" and "router_ok s" and "same_tables sr s"
    and "sent s = sent sr @ [report sr pkt]"
    and "entries (cache s) = entries (cache sr)"
    and "\<And>x. waiting (cache s) x = parked sr x [pkt] @ waiting (cache sr) x"
proof -
  obtain e i where e: "sr_rt_lookup_ip (routing_table sr) (src_of (pk_buf pkt)) = Some e" "interface_for sr (rt_if e) = Some i"
    and g: "give_up pkt sr = Inr (next_hop e i (icmp_packet i (if_addr i) (if_ip i) (src_of (pk_buf pkt)) (icmp_error 3 1 (pk_buf pkt))) sr)"
    and ok: "router_ok (next_hop e i (icmp_packet i (if_addr i) (if_ip i) (src_of (pk_buf pkt)) (icmp_error 3 1 (pk_buf pkt))) sr)"
    by (rule give_up_put [OF assms])
  have u: "icmp_packet i (if_addr i) (if_ip i) (src_of (pk_buf pkt)) (icmp_error 3 1 (pk_buf pkt)) = unreachable sr pkt"
    by (simp add: unreachable_def route_back_def e)
  have q: "entries (queue_packet c ip p) = entries c" for c ip p by (simp add: queue_packet_def)
  show ?thesis
    by (rule that [OF g [unfolded u] ok [unfolded u]])
      (auto simp: next_hop_def report_def parked_def route_back_def e waiting_queue q Let_def split: option.split)
qed

lemma report_same:
  assumes "same_tables sr s" and "sr_arpcache_lookup (cache s) = sr_arpcache_lookup (cache sr)"
  shows "report s = report sr" "parked s = parked sr"
proof -
  have r: "route_back s = route_back sr" using assms(1) by (simp add: route_back_def same_tables_def fun_eq_iff)
  note i = same_tablesD(1) [OF assms(1)]
  have u: "unreachable s = unreachable sr" by (intro ext) (simp only: unreachable_def r i)
  show "report s = report sr" "parked s = parked sr"
    by (intro ext, simp only: report_def parked_def r i u assms(2))+
qed

lemma give_up_all_effect:
  assumes "router_ok sr" and "Ball (set ps) (waiting_ok sr)"
  shows "\<exists>s. rfold give_up ps sr = Inr s \<and> router_ok s \<and> same_tables sr s \<and> sent s = sent sr @ map (report sr) ps \<and>
    entries (cache s) = entries (cache sr) \<and>
    (\<forall>x. waiting (cache s) x = rev (parked sr x ps) @ waiting (cache sr) x)"
  using assms
proof (induction ps arbitrary: sr)
  case Nil
  then show ?case by (simp add: parked_def)
next
  case (Cons p ps)
  obtain s where s: "give_up p sr = Inr s" "router_ok s" "same_tables sr s" "sent s = sent sr @ [report sr p]"
    "entries (cache s) = entries (cache sr)"
    "\<And>x. waiting (cache s) x = parked sr x [p] @ waiting (cache sr) x"
    using give_up_effect [OF Cons.prems(1), of p] Cons.prems(2) by auto
  have l: "sr_arpcache_lookup (cache s) = sr_arpcache_lookup (cache sr)"
    using s(5) by (simp add: sr_arpcache_lookup_def fun_eq_iff)
  have "Ball (set ps) (waiting_ok s)" using Cons.prems(2) same_tablesD(4) [OF s(3)] by simp
  from Cons.IH [OF s(2) this] obtain t where t: "rfold give_up ps s = Inr t" "router_ok t" "same_tables s t"
    "sent t = sent s @ map (report sr) ps" "entries (cache t) = entries (cache s)"
    "\<forall>x. waiting (cache t) x = rev (parked sr x ps) @ waiting (cache s) x"
    by (auto simp: report_same [OF s(3) l])
  have "parked sr x (p # ps) = parked sr x [p] @ parked sr x ps" "length (parked sr x [p]) \<le> 1" for x
    by (simp_all add: parked_def)
  moreover have "rev (parked sr x [p]) = parked sr x [p]" for x by (simp add: parked_def)
  ultimately show ?case
    using t s by (intro exI [of _ t]) (auto intro: same_tables_trans)
qed

lemma unreachable_fields:
  assumes "router_ok sr" and "waiting_ok sr pkt"
  obtains e i where "sr_rt_lookup_ip (routing_table sr) (src_of (pk_buf pkt)) = Some e" and "interface_for sr (rt_if e) = Some i"
    and "report sr pkt = (case sr_arpcache_lookup (cache sr) (rt_gw e) of
        Some a \<Rightarrow> wire (rt_if e) (ae_mac a @ drop 6 (unreachable sr pkt))
      | None \<Rightarrow> wire (rt_if e) (arp_request i (rt_gw e)))"
    and "shost_of (unreachable sr pkt) = if_addr i" and "src_of (unreachable sr pkt) = if_ip i"
    and "dst_of (unreachable sr pkt) = src_of (pk_buf pkt)" and "ip_sum_ok (unreachable sr pkt)"
    and "take 2 (drop 34 (unreachable sr pkt)) = [3, 1]"
    and "drop 42 (unreachable sr pkt) = take 28 (drop 14 (pk_buf pkt))"
proof -
  let ?p = "pk_buf pkt"
  obtain e i where e: "sr_rt_lookup_ip (routing_table sr) (src_of ?p) = Some e" "interface_for sr (rt_if e) = Some i"
    by (rule give_up_put [OF assms])
  have addr: "length (if_addr i) = 6" by (rule interface_forD(3) [OF e(2) router_okD(1) [OF assms(1)]])
  have len: "42 \<le> length ?p" using assms(2) by (simp add: waiting_ok_def)
  let ?q = "icmp_packet i (if_addr i) (if_ip i) (src_of ?p) (icmp_error 3 1 ?p)"
  have u: "unreachable sr pkt = ?q" by (simp add: unreachable_def route_back_def e)
  have "take 2 (icmp_error 3 1 ?p) = [3, 1]" "drop 8 (icmp_error 3 1 ?p) = take 28 (drop 14 ?p)"
    by (simp_all add: icmp_error_def icmp_t11_bytes_def Let_def)
  moreover have "drop 42 ?q = drop 8 (drop 34 ?q)" by simp
  moreover have "report sr pkt = (case sr_arpcache_lookup (cache sr) (rt_gw e) of
        Some a \<Rightarrow> wire (rt_if e) (ae_mac a @ drop 6 (unreachable sr pkt))
      | None \<Rightarrow> wire (rt_if e) (arp_request i (rt_gw e)))" by (simp add: report_def route_back_def e Let_def split: option.split)
  ultimately show ?thesis
    using len addr that [OF e]
    by (simp add: u icmp_packet_parts icmp_packet_shost icmp_packet_src icmp_packet_fields icmp_packet_sum)
qed

lemma sweep_retry:
  assumes "router_ok sr" and "req_for (cache sr) ip = Some req"
    and "\<not> (0 < rq_sent req \<and> t - rq_sent req < 1)" and less: "rq_times_sent req < 4"
  shows "\<exists>i. interface_for sr (pk_iface (hd (rq_packets req))) = Some i \<and>
    sweep_req t ip sr = Inr (put [wire (pk_iface (hd (rq_packets req))) (arp_request i ip)]
      (sr\<lparr>cache := update_req ip (mark_sent t) (cache sr)\<rparr>))"
proof -
  have req: "req \<in> set (requests (cache sr))" using assms(2) by (auto simp: req_for_def find_Some_iff)
  have rok: "req_ok req" using arp_okD(5) [OF router_okD(2) [OF assms(1)] req] .
  have ps: "Ball (set (rq_packets req)) (waiting_ok sr)" using router_okD(3) [OF assms(1)] req by (simp add: queues_def)
  obtain pkt qs where pkt: "rq_packets req = pkt # qs" using rok by (cases "rq_packets req") (auto simp: req_ok_def)
  obtain i where i: "name_ok 32 (pk_iface pkt)" "interface_for sr (pk_iface pkt) = Some i"
    using ps pkt by (auto simp: waiting_ok_def)
  let ?s = "sr\<lparr>cache := update_req ip (mark_sent t) (cache sr)\<rparr>"
  have "sr_send_arp_request ?s ip (pk_iface pkt) = Inr (put [wire (pk_iface pkt) (arp_request i ip)] ?s)"
    using i router_okD(1) [OF assms(1)] by (intro arp_request_put) simp_all
  moreover have "sweep_req t ip sr = sr_send_arp_request ?s ip (pk_iface pkt)"
    using less unfolding sweep_req_def assms(2) option.case if_not_P [OF assms(3)] pkt list.case
    by (simp add: not_le [symmetric])
  ultimately show ?thesis using i(2) by (simp add: pkt)
qed

lemma sweep_drop:
  assumes "router_ok sr" and "req_for (cache sr) ip = Some req"
    and "\<not> (0 < rq_sent req \<and> t - rq_sent req < 1)" and ge: "\<not> rq_times_sent req < 4"
  shows "\<exists>s. sweep_req t ip sr = Inr s \<and>
    if_list s = if_list sr \<and> routing_table s = routing_table sr \<and> entries (cache s) = entries (cache sr) \<and>
    req_for (cache s) ip = None \<and> sent s = sent sr @ map (report sr) (rq_packets req) \<and>
    (\<forall>x. waiting (cache s) x = (if x = ip then [] else rev (parked sr x (rq_packets req)) @ waiting (cache sr) x))"
proof -
  have req: "req \<in> set (requests (cache sr))" using assms(2) by (auto simp: req_for_def find_Some_iff)
  have ps: "Ball (set (rq_packets req)) (waiting_ok sr)" using router_okD(3) [OF assms(1)] req by (simp add: queues_def)
  obtain s where s: "rfold give_up (rq_packets req) sr = Inr s" "router_ok s" "same_tables sr s"
    "sent s = sent sr @ map (report sr) (rq_packets req)" "entries (cache s) = entries (cache sr)"
    "\<forall>x. waiting (cache s) x = rev (parked sr x (rq_packets req)) @ waiting (cache sr) x"
    using give_up_all_effect [OF assms(1) ps] by blast
  let ?c = "sr_arpreq_destroy (cache s) ip"
  note d = arp_okD(4) [OF router_okD(2) [OF s(2)]]
  have "sweep_req t ip sr = Inr (s\<lparr>cache := ?c\<rparr>)"
    using ge unfolding sweep_req_def assms(2) option.case if_not_P [OF assms(3)]
    by (simp add: not_less s(1))
  moreover have "req_for ?c ip = None"
    by (simp add: req_for_def sr_arpreq_destroy_def snd_take_req [OF d] find_filter_neq)
  moreover have "waiting ?c x = (if x = ip then [] else waiting (cache s) x)" for x
    by (rule waiting_removed [OF _ d]) (simp add: sr_arpreq_destroy_def)
  moreover have "entries ?c = entries (cache s)" by (simp add: sr_arpreq_destroy_def)
  ultimately show ?thesis using s(3-6) by (intro exI [of _ "s\<lparr>cache := ?c\<rparr>"]) (simp add: same_tables_def)
qed

text \<open>
  C33: The retry of an unanswered request that is due (never repeated, or at least a second ago): up to
  the fourth time the request is sent again on the interface of its youngest packet and counted. A
  request that has been repeated four times (the sending when a packet is queued is not counted) is
  removed with the packets that waited for it, each of which is reported: for every packet, in
  order, one message is written on the interface of the route back to its sender. The report is an
  ICMP message of type 3 code 1 (host unreachable) from that interface to the sender, with a right
  header checksum, that quotes the header and the first 8 bytes of the packet. It is what is written
  when the address of the next hop is known; otherwise what is written is an ARP request for the next
  hop, and the report waits behind it, youngest first, unless it needs the very address that is given
  up, and then it is lost with the request.
\<close>

theorem request_retried_or_dropped:
  assumes "router_ok sr" and "req_for (cache sr) ip = Some req"
    and "\<not> (0 < rq_sent req \<and> t - rq_sent req < 1)"
  shows "(rq_times_sent req < 4 \<longrightarrow> (\<exists>i. interface_for sr (pk_iface (hd (rq_packets req))) = Some i \<and>
      sweep_req t ip sr = Inr (put [wire (pk_iface (hd (rq_packets req))) (arp_request i ip)]
        (sr\<lparr>cache := update_req ip (mark_sent t) (cache sr)\<rparr>)))) \<and>
    (\<not> rq_times_sent req < 4 \<longrightarrow> rq_times_sent req = 4 \<and> (\<exists>s. sweep_req t ip sr = Inr s \<and>
      if_list s = if_list sr \<and> routing_table s = routing_table sr \<and> entries (cache s) = entries (cache sr) \<and>
      req_for (cache s) ip = None \<and> sent s = sent sr @ map (report sr) (rq_packets req) \<and>
      (\<forall>x. waiting (cache s) x = (if x = ip then [] else rev (parked sr x (rq_packets req)) @ waiting (cache sr) x)))) \<and>
    (\<forall>pkt \<in> set (rq_packets req). \<exists>e i q. sr_rt_lookup_ip (routing_table sr) (src_of (pk_buf pkt)) = Some e \<and>
      interface_for sr (rt_if e) = Some i \<and> shost_of q = if_addr i \<and> src_of q = if_ip i \<and>
      dst_of q = src_of (pk_buf pkt) \<and> ip_sum_ok q \<and> take 2 (drop 34 q) = [3, 1] \<and>
      drop 42 q = take 28 (drop 14 (pk_buf pkt)) \<and>
      (case sr_arpcache_lookup (cache sr) (rt_gw e) of
        Some a \<Rightarrow> report sr pkt = vns_frame (padded 16 (rt_if e)) (ae_mac a @ drop 6 q)
      | None \<Rightarrow> report sr pkt = vns_frame (padded 16 (rt_if e)) (arp_request i (rt_gw e)) \<and>
          \<lparr>pk_buf = q, pk_iface = padded 32 (rt_if e)\<rparr> \<in> set (parked sr (rt_gw e) (rq_packets req))))"
proof -
  have req: "req \<in> set (requests (cache sr))" using assms(2) by (auto simp: req_for_def find_Some_iff)
  have rok: "req_ok req" using arp_okD(5) [OF router_okD(2) [OF assms(1)] req] .
  have ps: "Ball (set (rq_packets req)) (waiting_ok sr)" using router_okD(3) [OF assms(1)] req by (simp add: queues_def)
  have retry: "\<exists>i. interface_for sr (pk_iface (hd (rq_packets req))) = Some i \<and>
      sweep_req t ip sr = Inr (put [wire (pk_iface (hd (rq_packets req))) (arp_request i ip)]
        (sr\<lparr>cache := update_req ip (mark_sent t) (cache sr)\<rparr>))" if "rq_times_sent req < 4"
    by (rule sweep_retry [OF assms that])
  have drop: "rq_times_sent req = 4 \<and> (\<exists>s. sweep_req t ip sr = Inr s \<and>
      if_list s = if_list sr \<and> routing_table s = routing_table sr \<and> entries (cache s) = entries (cache sr) \<and>
      req_for (cache s) ip = None \<and> sent s = sent sr @ map (report sr) (rq_packets req) \<and>
      (\<forall>x. waiting (cache s) x = (if x = ip then [] else rev (parked sr x (rq_packets req)) @ waiting (cache sr) x)))"
    if ge: "\<not> rq_times_sent req < 4"
  proof -
    from sweep_drop [OF assms ge] show ?thesis using ge rok by (simp add: req_ok_def order_antisym not_less)
  qed
  have "\<exists>e i q. sr_rt_lookup_ip (routing_table sr) (src_of (pk_buf pkt)) = Some e \<and>
      interface_for sr (rt_if e) = Some i \<and> shost_of q = if_addr i \<and> src_of q = if_ip i \<and>
      dst_of q = src_of (pk_buf pkt) \<and> ip_sum_ok q \<and> take 2 (drop 34 q) = [3, 1] \<and>
      drop 42 q = take 28 (drop 14 (pk_buf pkt)) \<and>
      (case sr_arpcache_lookup (cache sr) (rt_gw e) of
        Some a \<Rightarrow> report sr pkt = vns_frame (padded 16 (rt_if e)) (ae_mac a @ drop 6 q)
      | None \<Rightarrow> report sr pkt = vns_frame (padded 16 (rt_if e)) (arp_request i (rt_gw e)) \<and>
          \<lparr>pk_buf = q, pk_iface = padded 32 (rt_if e)\<rparr> \<in> set (parked sr (rt_gw e) (rq_packets req)))"
    if pkt: "pkt \<in> set (rq_packets req)" for pkt
  proof -
    obtain e i where e: "sr_rt_lookup_ip (routing_table sr) (src_of (pk_buf pkt)) = Some e" "interface_for sr (rt_if e) = Some i"
      and u: "report sr pkt = (case sr_arpcache_lookup (cache sr) (rt_gw e) of
        Some a \<Rightarrow> wire (rt_if e) (ae_mac a @ drop 6 (unreachable sr pkt))
      | None \<Rightarrow> wire (rt_if e) (arp_request i (rt_gw e)))"
        "shost_of (unreachable sr pkt) = if_addr i" "src_of (unreachable sr pkt) = if_ip i"
        "dst_of (unreachable sr pkt) = src_of (pk_buf pkt)" "ip_sum_ok (unreachable sr pkt)"
        "take 2 (drop 34 (unreachable sr pkt)) = [3, 1]"
        "drop 42 (unreachable sr pkt) = take 28 (drop 14 (pk_buf pkt))"
      by (rule unreachable_fields [OF assms(1) bspec [OF ps pkt]])
    have "route_back sr pkt = e" by (simp add: route_back_def e)
    then have "\<lparr>pk_buf = unreachable sr pkt, pk_iface = padded 32 (rt_if e)\<rparr> \<in> set (parked sr (rt_gw e) (rq_packets req))"
      if "sr_arpcache_lookup (cache sr) (rt_gw e) = None" using that pkt by (auto simp: parked_def intro!: image_eqI)
    then show ?thesis
      by (intro exI [of _ e] exI [of _ i] exI [of _ "unreachable sr pkt"] conjI e u(2-7))
        (simp add: u(1) wire_def split: option.split)
  qed
  with retry drop show ?thesis by blast
qed

text \<open>The first request for 9 is sent again; a packet for 8 that is given up is reported to its source 3.\<close>

theorem request_retried_or_dropped_witness:
  "(\<exists>s. sr_handlepacket 1 ex_router ex_packet (if_name (example_if 1)) = Inr s \<and>
    (\<exists>m. sweep_req 2 9 s = Inr (put [m] (s\<lparr>cache := update_req 9 (mark_sent 2) (cache s)\<rparr>)))) \<and>
   (\<exists>s q. sweep_req 20 8 race_router = Inr s \<and> req_for (cache s) 8 = None \<and>
    sent s = [vns_frame (padded 16 (if_name (example_if 2))) ([0, 0, 0, 0, 0, 9] @ drop 6 q)] \<and>
    dst_of q = 3 \<and> take 2 (drop 34 q) = [3, 1])"
proof
  show "\<exists>s. sr_handlepacket 1 ex_router ex_packet (if_name (example_if 1)) = Inr s \<and>
    (\<exists>m. sweep_req 2 9 s = Inr (put [m] (s\<lparr>cache := update_req 9 (mark_sent 2) (cache s)\<rparr>)))"
  proof -
    obtain s where s: "sr_handlepacket 1 ex_router ex_packet (if_name (example_if 1)) = Inr s" "router_ok s"
      using handlepacket_fine [OF ex_router_ok ex_packet_ok(1) ex_known(1)] by (auto simp: fine_def)
    have "map_option rq_times_sent (req_for (cache s) 9) = Some 0 \<and> map_option rq_sent (req_for (cache s) 9) = Some 0"
    proof -
      have "ethertype_arp \<noteq> ethertype_ip" by (simp add: ethertype_arp_def ethertype_ip_def)
      then have "s = next_hop (routing_table ex_router ! 0) (example_if 2) (forwarded (if_addr (example_if 2)) ex_packet) ex_router"
        using s(1) ex_packet_ok(2)
        by (simp add: handlepacket_cases ex_packet_fields ex_lookup forward_put [OF ex_router_ok ex_packet_fields(2,3) ex_interface(1) ex_name_ok])
          (simp add: ex_router_def ex_interface [unfolded ex_router_def] Let_def)
      then show ?thesis
        by (simp add: next_hop_def ex_lookup_empty)
          (simp add: req_for_def ex_router_def sr_arpcache_init_def queue_packet_def find_or_add_def)
    qed
    then obtain req where req: "req_for (cache s) 9 = Some req" "rq_times_sent req = 0" "rq_sent req = 0" by auto
    have "\<not> (0 < rq_sent req \<and> 2 - rq_sent req < 1)" "rq_times_sent req < 4" using req by simp_all
    with request_retried_or_dropped [OF s(2) req(1), of 2] s(1) show ?thesis by blast
  qed
  let ?pkt = "\<lparr>pk_buf = forwarded (if_addr (example_if 2)) ex_packet, pk_iface = if_name (example_if 2)\<rparr>"
  let ?req = "\<lparr>rq_ip = 8, rq_sent = 10, rq_times_sent = 4, rq_packets = [?pkt]\<rparr>"
  have req: "req_for (cache race_router) 8 = Some ?req" by (simp add: req_for_def race_router_def)
  have due: "\<not> (0 < rq_sent ?req \<and> 20 - rq_sent ?req < 1)" by simp
  have rt: "routing_table race_router = routing_table ex_router" "interface_for race_router = interface_for ex_router"
    "sr_arpcache_lookup (cache race_router) = sr_arpcache_lookup (cache ex_router2)" "sent race_router = []"
    by (simp_all add: race_router_def ex_router2_def interface_for_def fun_eq_iff sr_arpcache_lookup_def)
      (simp add: ex_router_def)
  have gw: "rt_gw (routing_table ex_router ! 0) = 9" "rt_if (routing_table ex_router ! 0) = if_name (example_if 2)"
    by (simp_all add: ex_router_def)
  have src: "src_of (pk_buf ?pkt) = 3"
    using forwarded_parts [of ex_packet "if_addr (example_if 2)"] by (simp add: ex_packet_fields)
  have mac: "map_option ae_mac (sr_arpcache_lookup (cache ex_router2) 9) = Some [0, 0, 0, 0, 0, 9]" by code_simp
  note p = request_retried_or_dropped [OF race_router_ok req due]
  obtain s where s: "sweep_req 20 8 race_router = Inr s" "req_for (cache s) 8 = None" "sent s = [report race_router ?pkt]"
    using p rt(4) by auto
  have "?pkt \<in> set (rq_packets ?req)" by simp
  from bspec [OF conjunct2 [OF conjunct2 [OF p]] this] obtain e q where
    e: "sr_rt_lookup_ip (routing_table race_router) (src_of (pk_buf ?pkt)) = Some e" and
    q: "dst_of q = src_of (pk_buf ?pkt)" "take 2 (drop 34 q) = [3, 1]" and
    r: "\<And>a. sr_arpcache_lookup (cache race_router) (rt_gw e) = Some a \<Longrightarrow>
      report race_router ?pkt = vns_frame (padded 16 (rt_if e)) (ae_mac a @ drop 6 q)"
    by fastforce
  have "e = routing_table ex_router ! 0" using e unfolding rt src ex_lookup by simp
  then have "report race_router ?pkt = vns_frame (padded 16 (if_name (example_if 2))) ([0, 0, 0, 0, 0, 9] @ drop 6 q)"
    using r mac by (auto simp: rt gw)
  moreover have "dst_of q = 3" using q(1) unfolding src .
  moreover note q(2)
  ultimately show "\<exists>s q. sweep_req 20 8 race_router = Inr s \<and> req_for (cache s) 8 = None \<and>
    sent s = [vns_frame (padded 16 (if_name (example_if 2))) ([0, 0, 0, 0, 0, 9] @ drop 6 q)] \<and>
    dst_of q = 3 \<and> take 2 (drop 34 q) = [3, 1]" using s by (intro exI [of _ s] exI [of _ q]) simp
qed

end
