(* ===== verification/Interleave.thy ===== *)
theory Interleave
  imports RouterProperties "HOL-Library.Multiset"
begin

text \<open>
  The router and the ARP thread side by side. A handler (\<^verbatim>\<open>router/sr_router.c\<close>) is cut where it takes
  or gives up the lock of the cache and where it writes to the server; a pass of the thread
  (\<^verbatim>\<open>sr_arpcache_timeout\<close>) holds the lock and may come at any cut.
\<close>

section \<open>Handlers in steps\<close>

text \<open>
  What is left to do: a packet whose next hop has been looked up, a request to be written, a reply whose
  sender has been looked up, packets to be written with their address.
\<close>

datatype handler =
    Ready
  | Forwarding "u8 list" sr_rt "sr_arpentry option"
  | Requesting u32 name
  | Learning int "u8 list" u32 bool
  | Releasing "u8 list" "sr_packet list"

definition finished :: "sr_instance res \<Rightarrow> (handler \<times> sr_instance) res" where
  "finished r = rbind r (\<lambda>sr. Inr (Ready, sr))"

text \<open>The handlers up to their lookup in the cache; those without one are a single step.\<close>

definition forward_start :: "sr_instance \<Rightarrow> u8 list \<Rightarrow> name \<Rightarrow> (handler \<times> sr_instance) res" where
  "forward_start sr p interface =
    rbind (check_ip_packet_corrupt p) (\<lambda>bad.
    if bad then Inr (Ready, sr) else
    rbind (ip_ttl p) (\<lambda>ttl. rbind (set_ip_ttl p (ttl - 1)) (\<lambda>buf.
    if ttl - 1 = 0 then finished (sr_send_icmp_time_exceeded sr p interface) else
    rbind (set_ip_sum buf 0) (\<lambda>buf. rbind (ip_header buf) (\<lambda>h. rbind (set_ip_sum buf (cksum h)) (\<lambda>buf.
    rbind (ip_dst buf) (\<lambda>dst.
    case sr_rt_lookup_ip (routing_table sr) dst of
      None \<Rightarrow> finished (sr_send_icmp_net_unreachable sr p interface)
    | Some entry \<Rightarrow>
      rbind (sr_get_interface (if_list sr) (rt_if entry)) (\<lambda>iface.
      case iface of None \<Rightarrow> Inl AssertFailed
      | Some i \<Rightarrow>
        rbind (set_shost buf (if_addr i)) (\<lambda>buf.
        Inr (Forwarding buf entry (sr_arpcache_lookup (cache sr) (rt_gw entry)), sr))))))))))"

definition reply_start :: "int \<Rightarrow> sr_instance \<Rightarrow> u8 list \<Rightarrow> (handler \<times> sr_instance) res" where
  "reply_start now sr p =
    rbind (ar_sha p) (\<lambda>mac. rbind (ar_sip p) (\<lambda>ip.
    Inr (Learning now mac ip (sr_arpcache_lookup (cache sr) ip \<noteq> None), sr)))"

definition handle_start :: "int \<Rightarrow> sr_instance \<Rightarrow> u8 list \<Rightarrow> name \<Rightarrow> (handler \<times> sr_instance) res" where
  "handle_start now sr p interface =
    rbind (packet_is_not_arp_or_ip p) (\<lambda>other. if other then Inr (Ready, sr) else
    rbind (packet_is_arp_req p) (\<lambda>req. if req then finished (sr_send_arp_response sr p interface) else
    rbind (packet_is_arp_reply p) (\<lambda>reply. if reply then reply_start now sr p else
    rbind (sr_packet_is_ip_to_us sr p) (\<lambda>us.
    if us then
      rbind (packet_is_icmp_echo_req p) (\<lambda>echo. if echo then finished (sr_send_icmp_response sr p interface) else
      rbind (packet_is_tcp_udp p) (\<lambda>tu. if tu then finished (sr_send_icmp_port_unreachable sr p interface) else Inr (Ready, sr)))
    else forward_start sr p interface))))"

fun hstep :: "handler \<Rightarrow> sr_instance \<Rightarrow> (handler \<times> sr_instance) res" where
  "hstep Ready sr = Inr (Ready, sr)"
| "hstep (Forwarding buf entry None) sr =
    rbind (sr_arpcache_queuereq (cache sr) (rt_gw entry) buf (rt_if entry)) (\<lambda>c.
    Inr (Requesting (rt_gw entry) (rt_if entry), sr\<lparr>cache := c\<rparr>))"
| "hstep (Forwarding buf entry (Some a)) sr =
    finished (rbind (set_dhost buf (ae_mac a)) (\<lambda>buf. emit sr buf (rt_if entry)))"
| "hstep (Requesting ip interface) sr = finished (sr_send_arp_request sr ip interface)"
| "hstep (Learning now mac ip True) sr = finished (sr_arp_send_packets sr mac ip)"
| "hstep (Learning now mac ip False) sr =
    (let (req, c) = sr_arpcache_insert now (cache sr) mac ip
     in Inr (case req of None \<Rightarrow> Ready | Some r \<Rightarrow> Releasing mac (rq_packets r), sr\<lparr>cache := c\<rparr>))"
| "hstep (Releasing mac []) sr = Inr (Ready, sr)"
| "hstep (Releasing mac (pkt # ps)) sr = rbind (send_queued mac pkt sr) (\<lambda>sr. Inr (Releasing mac ps, sr))"

text \<open>
  The two threads: a frame arrives (while the router thread is busy it is left in the socket), the router thread
  goes on, or the ARP thread makes a pass.
\<close>

datatype action = Begin int "u8 list" name | Proceed | Pass int int

fun act :: "action \<Rightarrow> handler \<times> sr_instance \<Rightarrow> (handler \<times> sr_instance) res" where
  "act (Begin now p interface) (h, sr) = (if h = Ready then handle_start now sr p interface else Inr (h, sr))"
| "act Proceed (h, sr) = hstep h sr"
| "act (Pass t t') (h, sr) = rbind (sr_arpcache_timeout t t' sr) (\<lambda>sr. Inr (h, sr))"

section \<open>Without passes in between\<close>

text \<open>All the steps that are left, one after the other.\<close>

fun finish :: "handler \<Rightarrow> sr_instance \<Rightarrow> sr_instance res" where
  "finish Ready sr = Inr sr"
| "finish (Forwarding buf entry None) sr =
    rbind (sr_arpcache_queuereq (cache sr) (rt_gw entry) buf (rt_if entry)) (\<lambda>c.
    sr_send_arp_request (sr\<lparr>cache := c\<rparr>) (rt_gw entry) (rt_if entry))"
| "finish (Forwarding buf entry (Some a)) sr = rbind (set_dhost buf (ae_mac a)) (\<lambda>buf. emit sr buf (rt_if entry))"
| "finish (Requesting ip interface) sr = sr_send_arp_request sr ip interface"
| "finish (Learning now mac ip True) sr = sr_arp_send_packets sr mac ip"
| "finish (Learning now mac ip False) sr =
    (let (req, c) = sr_arpcache_insert now (cache sr) mac ip; sr = sr\<lparr>cache := c\<rparr>
     in (case req of None \<Rightarrow> Inr sr | Some r \<Rightarrow> sr_send_arp_queued_packets sr (rq_packets r) mac))"
| "finish (Releasing mac ps) sr = sr_send_arp_queued_packets sr ps mac"

lemma finished_finish [simp]: "rbind (finished r) (\<lambda>(h, sr). finish h sr) = r"
  by (cases r) (simp_all add: finished_def)

lemma rbind_assoc: "rbind (rbind r f) g = rbind r (\<lambda>x. rbind (f x) g)"
  by (cases r) simp_all

lemma rbind_if: "rbind (if b then r else s) g = (if b then rbind r g else rbind s g)"
  by simp

lemma rbind_option: "rbind (case x of None \<Rightarrow> r | Some y \<Rightarrow> k y) g = (case x of None \<Rightarrow> rbind r g | Some y \<Rightarrow> rbind (k y) g)"
  by (simp split: option.split)

lemmas rbind_distrib = rbind_assoc rbind_if rbind_option

lemma finish_step: "rbind (hstep h sr) (\<lambda>(h, sr). finish h sr) = finish h sr"
  by (cases "(h, sr)" rule: hstep.cases)
    (simp_all add: rbind_distrib sr_send_arp_queued_packets_def split: prod.splits option.splits)

lemma finish_forwarding:
  "finish (Forwarding buf entry x) sr =
    (case x of
      None \<Rightarrow> rbind (sr_arpcache_queuereq (cache sr) (rt_gw entry) buf (rt_if entry)) (\<lambda>c.
        sr_send_arp_request (sr\<lparr>cache := c\<rparr>) (rt_gw entry) (rt_if entry))
    | Some a \<Rightarrow> rbind (set_dhost buf (ae_mac a)) (\<lambda>buf. emit sr buf (rt_if entry)))"
  by (cases x) simp_all

lemma forward_finish: "rbind (forward_start sr p interface) (\<lambda>(h, sr). finish h sr) = sr_forward_packet sr p interface"
  unfolding forward_start_def sr_forward_packet_def
  by (simp only: rbind_distrib rbind_simps split_conv finished_finish finish_forwarding finish.simps(1))

lemma reply_finish: "rbind (reply_start now sr p) (\<lambda>(h, sr). finish h sr) = sr_handle_arp_reply now sr p"
proof -
  have "finish (Learning now mac ip (x \<noteq> None)) sr = (case x of
      None \<Rightarrow> let (req, c) = sr_arpcache_insert now (cache sr) mac ip; sr = sr\<lparr>cache := c\<rparr>
        in (case req of None \<Rightarrow> Inr sr | Some r \<Rightarrow> sr_send_arp_queued_packets sr (rq_packets r) mac)
    | Some _ \<Rightarrow> sr_arp_send_packets sr mac ip)" for mac ip and x :: "sr_arpentry option"
    by (cases x) simp_all
  then show ?thesis by (simp add: reply_start_def sr_handle_arp_reply_def rbind_distrib)
qed

lemma handle_finish: "rbind (handle_start now sr p interface) (\<lambda>(h, sr). finish h sr) = sr_handlepacket now sr p interface"
  unfolding handle_start_def sr_handlepacket_def
  by (simp only: rbind_distrib rbind_simps split_conv finished_finish forward_finish reply_finish finish.simps(1))

text \<open>With no other action the thread does all that is left, and then stays as it is.\<close>

definition settles :: "handler \<Rightarrow> sr_instance \<Rightarrow> bool" where
  "settles h sr \<longleftrightarrow> (\<exists>n. \<forall>m \<ge> n. rfold act (replicate m Proceed) (h, sr) = finished (finish h sr))"

lemma proceed_ready [simp]: "rfold act (replicate m Proceed) (Ready, sr) = Inr (Ready, sr)"
  by (induction m) simp_all

lemma settles_last:
  assumes "hstep h sr = finished (finish h sr)"
  shows "settles h sr"
  unfolding settles_def
proof (intro exI [of _ "Suc 0"] allI impI)
  fix m assume "Suc 0 \<le> m"
  then show "rfold act (replicate m Proceed) (h, sr) = finished (finish h sr)"
    using assms by (cases m; cases "finish h sr") (simp_all add: finished_def)
qed

lemma settles_next:
  assumes step: "hstep h sr = Inr (h', sr')" and "settles h' sr'"
  shows "settles h sr"
proof -
  obtain n where n: "\<forall>m \<ge> n. rfold act (replicate m Proceed) (h', sr') = finished (finish h' sr')"
    using assms(2) unfolding settles_def by blast
  have "finish h sr = finish h' sr'" using finish_step [of h sr] step by simp
  then have "rfold act (replicate m Proceed) (h, sr) = finished (finish h sr)" if "Suc n \<le> m" for m
    using that n step by (cases m) simp_all
  then show ?thesis unfolding settles_def by blast
qed

lemma settles_fault: "hstep h sr = Inl f \<Longrightarrow> settles h sr"
  by (rule settles_last) (use finish_step [of h sr] in \<open>cases "finish h sr"; simp add: finished_def\<close>)

lemma settles_releasing: "settles (Releasing mac ps) sr"
proof (induction ps arbitrary: sr)
  case Nil
  show ?case by (rule settles_last) (simp add: finished_def sr_send_arp_queued_packets_def)
next
  case (Cons pkt ps)
  show ?case
  proof (cases "send_queued mac pkt sr")
    case (Inl f)
    then show ?thesis by (intro settles_fault [of _ _ f]) simp
  next
    case (Inr sr')
    then show ?thesis by (intro settles_next [OF _ Cons.IH]) simp
  qed
qed

lemma settles_one_step: "settles Ready sr" "settles (Requesting ip interface) sr"
  by (rule settles_last; simp add: finished_def)+

lemma settles_all: "settles h sr"
proof (cases "(h, sr)" rule: hstep.cases)
  case (2 buf entry sr2)
  show ?thesis
  proof (cases "sr_arpcache_queuereq (cache sr) (rt_gw entry) buf (rt_if entry)")
    case (Inl f)
    with 2 show ?thesis by (intro settles_fault [of _ _ f]) simp
  next
    case (Inr c)
    with 2 have "hstep h sr = Inr (Requesting (rt_gw entry) (rt_if entry), sr\<lparr>cache := c\<rparr>)" by simp
    then show ?thesis by (rule settles_next) (rule settles_one_step)
  qed
next
  case (6 now mac ip sr2)
  obtain req c where "sr_arpcache_insert now (cache sr) mac ip = (req, c)" by (cases "sr_arpcache_insert now (cache sr) mac ip")
  with 6 have "hstep h sr = Inr (case req of None \<Rightarrow> Ready | Some r \<Rightarrow> Releasing mac (rq_packets r), sr\<lparr>cache := c\<rparr>)" by simp
  then show ?thesis by (rule settles_next) (simp add: settles_one_step settles_releasing split: option.split)
qed (use settles_one_step settles_releasing settles_last [of h sr] in \<open>auto simp: finished_def\<close>)

section \<open>What was written before does not matter\<close>

definition pre :: "u8 list list \<Rightarrow> sr_instance \<Rightarrow> sr_instance" where
  "pre xs sr = sr\<lparr>sent := xs @ sent sr\<rparr>"

lemma pre_simps [simp]:
  "if_list (pre xs sr) = if_list sr" "routing_table (pre xs sr) = routing_table sr" "cache (pre xs sr) = cache sr"
  "sent (pre xs sr) = xs @ sent sr" "(pre xs sr)\<lparr>cache := c\<rparr> = pre xs (sr\<lparr>cache := c\<rparr>)" "put ms (pre xs sr) = pre xs (put ms sr)"
  by (simp_all add: pre_def put_def)

definition oblivious :: "(sr_instance \<Rightarrow> sr_instance res) \<Rightarrow> bool" where
  "oblivious f \<longleftrightarrow> (\<forall>xs sr. f (pre xs sr) = rbind (f sr) (\<lambda>s. Inr (pre xs s)))"

lemma emit_pre: "emit (pre xs sr) buf iface = rbind (emit sr buf iface) (\<lambda>s. Inr (pre xs s))"
proof -
  have "sr_send_packet (pre xs sr) buf iface = rbind (sr_send_packet sr buf iface) (\<lambda>(s, k). Inr (pre xs s, k))"
    by (simp add: sr_send_packet_def sr_ether_addrs_match_interface_def rbind_def pre_def split: sum.split)
  then show ?thesis by (simp add: emit_def rbind_assoc split_def)
qed

lemma request_pre: "sr_send_arp_request (pre xs sr) ip iface = rbind (sr_send_arp_request sr ip iface) (\<lambda>s. Inr (pre xs s))"
  by (simp add: sr_send_arp_request_def sr_prepare_arp_packet_def emit_pre rbind_assoc)

lemma unreachable_pre:
  "sr_send_icmp_host_unreachable (pre xs sr) p = rbind (sr_send_icmp_host_unreachable sr p) (\<lambda>s. Inr (pre xs s))"
  unfolding sr_send_icmp_host_unreachable_def sr_prepare_ip_packet_def
  by (simp only: rbind_distrib rbind_simps pre_simps emit_pre request_pre)

lemma rfold_pre:
  assumes "\<And>x. oblivious (f x)"
  shows "oblivious (rfold f xs)"
  unfolding oblivious_def
proof (induction xs)
  case (Cons x xs)
  then show ?case using assms [of x] by (simp add: oblivious_def rbind_assoc)
qed simp

lemma sweep_pre: "oblivious (sweep_req t ip)"
proof -
  have "oblivious (rfold give_up ps)" for ps
    by (rule rfold_pre) (simp add: oblivious_def give_up_def unreachable_pre)
  then show ?thesis
    by (auto simp: oblivious_def sweep_req_def request_pre rbind_assoc split: option.split list.split)
qed

lemma pass_pre: "oblivious (sr_arpcache_timeout t t')"
proof -
  have "oblivious (rfold (sweep_req t') ips)" for ips by (rule rfold_pre) (rule sweep_pre)
  then show ?thesis by (simp add: oblivious_def sr_arpcache_timeout_def sr_arpcache_sweepreqs_def)
qed

text \<open>Two routers that have written the same messages, in whatever order.\<close>

definition like :: "sr_instance \<Rightarrow> sr_instance \<Rightarrow> bool" where
  "like sr sr' \<longleftrightarrow> if_list sr' = if_list sr \<and> routing_table sr' = routing_table sr \<and> cache sr' = cache sr \<and>
     mset (sent sr') = mset (sent sr)"

lemma like_simps [simp]: "like sr sr"
  "like sr sr' \<Longrightarrow> like (put ms sr) (put ms sr')" "like sr sr' \<Longrightarrow> like (sr\<lparr>cache := c\<rparr>) (sr'\<lparr>cache := c\<rparr>)"
  by (simp_all add: like_def)

lemma likeE:
  assumes "like sr sr'"
  obtains xs ys core where "sr = pre xs core" "sr' = pre ys core" "sent core = []" "mset xs = mset ys"
proof
  show "sr = pre (sent sr) (sr\<lparr>sent := []\<rparr>)" "sr' = pre (sent sr') (sr\<lparr>sent := []\<rparr>)" using assms by (simp_all add: pre_def like_def)
  show "mset (sent sr) = mset (sent sr')" using assms by (simp add: like_def)
qed simp

lemma oblivious_like:
  assumes "oblivious f" and "like sr sr'" and "f sr = Inr s"
  shows "\<exists>s'. f sr' = Inr s' \<and> like s s'"
proof -
  obtain xs ys core where c: "sr = pre xs core" "sr' = pre ys core" "sent core = []" "mset xs = mset ys"
    using likeE [OF assms(2)] .
  from assms(1,3) c(1,2) obtain u where "f core = Inr u" "s = pre xs u" "f sr' = Inr (pre ys u)"
    by (auto simp: oblivious_def rbind_Inr_iff)
  with c(4) show ?thesis by (simp add: like_def)
qed

section \<open>A pass adds no address\<close>

lemma emit_cache: "emit sr buf iface = Inr sr' \<Longrightarrow> cache sr' = cache sr"
  using send_packet_cases [of sr buf iface] by (fastforce simp: emit_def rbind_Inr_iff)

lemma request_cache: "sr_send_arp_request sr ip iface = Inr sr' \<Longrightarrow> cache sr' = cache sr"
  by (auto simp only: sr_send_arp_request_def steps_Inr dest: emit_cache)

lemma queuereq_entries: "sr_arpcache_queuereq c ip buf iface = Inr d \<Longrightarrow> entries d = entries c"
  by (auto simp: sr_arpcache_queuereq_def queue_packet_def rbind_Inr_iff split: if_splits)

lemma give_up_entries: "give_up pkt sr = Inr sr' \<Longrightarrow> entries (cache sr') = entries (cache sr)"
  by (auto simp: give_up_def sr_send_icmp_host_unreachable_def rbind_Inr_iff split: option.splits
      dest!: emit_cache request_cache queuereq_entries)

lemma sweep_entries: "sweep_req t ip sr = Inr sr' \<Longrightarrow> entries (cache sr') = entries (cache sr)"
proof -
  have all: "entries (cache s') = entries (cache s)" if "rfold give_up ps s = Inr s'" for ps s s'
    using that by (rule rfold_inv [where P = "\<lambda>u. entries (cache u) = entries (cache s)"]) (simp_all add: give_up_entries)
  show "sweep_req t ip sr = Inr sr' \<Longrightarrow> entries (cache sr') = entries (cache sr)"
    by (auto simp: sweep_req_def rbind_Inr_iff sr_arpreq_destroy_def update_req_def split: option.splits if_splits list.splits
        dest!: all request_cache)
qed

lemma pass_entries:
  assumes "sr_arpcache_timeout t t' sr = Inr sr'"
  shows "entries (cache sr') = entries (arp_expire t (cache sr))"
  using assms unfolding sr_arpcache_timeout_def sr_arpcache_sweepreqs_def
  by (rule rfold_inv [where P = "\<lambda>u. entries (cache u) = entries (arp_expire t (cache sr))"]) (simp_all add: sweep_entries)

lemma lookup_entries: "entries c = entries d \<Longrightarrow> sr_arpcache_lookup c ip = sr_arpcache_lookup d ip"
  by (simp add: sr_arpcache_lookup_def)

lemma pass_lookup_None:
  assumes "sr_arpcache_timeout t t' sr = Inr sr'" and "sr_arpcache_lookup (cache sr) ip = None"
  shows "sr_arpcache_lookup (cache sr') ip = None"
proof -
  have "ip \<notin> set (valid_ips (cache sr))" using assms(2) by (simp add: lookup_None_iff)
  then have "ip \<notin> set (valid_ips (arp_expire t (cache sr)))" by (auto simp: valid_ips_def filter_expire)
  then show ?thesis using lookup_entries [OF pass_entries [OF assms(1)]] by (simp add: lookup_None_iff)
qed

section \<open>What a handler still has to write\<close>

fun handler_ok :: "sr_instance \<Rightarrow> handler \<Rightarrow> bool" where
  "handler_ok sr Ready \<longleftrightarrow> True"
| "handler_ok sr (Forwarding buf entry x) \<longleftrightarrow> waiting_ok sr \<lparr>pk_buf = buf, pk_iface = rt_if entry\<rparr> \<and>
     (\<forall>a. x = Some a \<longrightarrow> length (ae_mac a) = 6)"
| "handler_ok sr (Requesting ip interface) \<longleftrightarrow> known sr interface"
| "handler_ok sr (Learning now mac ip found) \<longleftrightarrow> length mac = 6"
| "handler_ok sr (Releasing mac ps) \<longleftrightarrow> length mac = 6 \<and> Ball (set ps) (waiting_ok sr)"

text \<open>Handlers that have not changed the cache yet.\<close>

fun pending :: "handler \<Rightarrow> bool" where
  "pending (Forwarding buf entry None) = True"
| "pending (Learning now mac ip found) = True"
| "pending h = False"

fun owed :: "sr_instance \<Rightarrow> handler \<Rightarrow> u8 list list" where
  "owed sr (Forwarding buf entry (Some a)) = [wire (rt_if entry) (ae_mac a @ drop 6 buf)]"
| "owed sr (Requesting ip interface) = [wire interface (arp_request (the (interface_for sr interface)) ip)]"
| "owed sr (Releasing mac ps) = map (\<lambda>q. wire (pk_iface q) (mac @ drop 6 (pk_buf q))) ps"
| "owed sr h = []"

lemma handler_tables:
  assumes "same_tables sr sr'"
  shows "handler_ok sr' h = handler_ok sr h" "owed sr' h = owed sr h"
  using same_tablesD [OF assms] by (cases "(sr, h)" rule: handler_ok.cases; simp)
    (cases "(sr, h)" rule: owed.cases; simp add: same_tablesD [OF assms])

lemma send_queued_one:
  assumes "ifs_ok sr" and "waiting_ok sr pkt" and "length mac = 6"
  shows "send_queued mac pkt sr = Inr (put [wire (pk_iface pkt) (mac @ drop 6 (pk_buf pkt))] sr)"
  using send_queued_put [OF assms(1) _ assms(3), of "[pkt]"] assms(2) by (auto simp: rbind_Inr_iff)

lemma hstep_owed:
  assumes "router_ok sr" and "handler_ok sr h" and "\<not> pending h"
  shows "\<exists>h' ms. hstep h sr = Inr (h', put ms sr) \<and> \<not> pending h' \<and> handler_ok sr h' \<and> owed sr h = ms @ owed sr h'"
proof (cases "(h, sr)" rule: hstep.cases)
  case (3 buf entry a sr2)
  obtain i where w: "42 \<le> length buf" "name_ok 32 (rt_if entry)" "interface_for sr (rt_if entry) = Some i" "shost_of buf = if_addr i"
    "length (ae_mac a) = 6" using assms(2) 3 by (auto simp: waiting_ok_def)
  have "emit sr (ae_mac a @ drop 6 buf) (rt_if entry) = Inr (put [wire (rt_if entry) (ae_mac a @ drop 6 buf)] sr)"
    using w by (intro emit_put [OF router_okD(1) [OF assms(1)] w(2,3)]) simp_all
  with w 3 show ?thesis by (simp add: set_dhost_def finished_def)
next
  case (4 ip interface sr2)
  then obtain i where i: "interface_for sr interface = Some i" "name_ok 32 interface" using assms(2) by (auto elim: knownE)
  with 4 show ?thesis using arp_request_put [OF router_okD(1) [OF assms(1)] i(2,1)] by (simp add: finished_def)
next
  case (8 mac pkt ps sr2)
  then have "send_queued mac pkt sr = Inr (put [wire (pk_iface pkt) (mac @ drop 6 (pk_buf pkt))] sr)"
    using assms(2) by (intro send_queued_one router_okD(1) [OF assms(1)]) simp_all
  with 8 assms(2) show ?thesis by simp
qed (use assms(3) in simp_all)

text \<open>The step that changes the cache does so in a way that depends on the cache and the tables only.\<close>

definition twin :: "sr_instance \<Rightarrow> sr_instance \<Rightarrow> bool" where
  "twin sr u \<longleftrightarrow> router_ok u \<and> same_tables sr u \<and> cache u = cache sr"

fun fresh :: "sr_instance \<Rightarrow> handler \<Rightarrow> bool" where
  "fresh sr (Forwarding buf entry None) \<longleftrightarrow> sr_arpcache_lookup (cache sr) (rt_gw entry) = None"
| "fresh sr (Learning now mac ip found) \<longleftrightarrow> found = (sr_arpcache_lookup (cache sr) ip \<noteq> None)"
| "fresh sr h \<longleftrightarrow> True"

fun absent :: "sr_instance \<Rightarrow> handler \<Rightarrow> bool" where
  "absent sr (Learning now mac ip False) \<longleftrightarrow> sr_arpcache_lookup (cache sr) ip = None"
| "absent sr h \<longleftrightarrow> True"

lemma fresh_absent: "fresh sr h \<Longrightarrow> absent sr h"
  by (cases "(sr, h)" rule: absent.cases) simp_all

lemma settled_absent: "\<not> pending h \<Longrightarrow> absent sr h"
  by (cases "(sr, h)" rule: absent.cases) simp_all

lemma hstep_pending:
  assumes "router_ok sr" and "handler_ok sr h" and "pending h" and "absent sr h"
  shows "\<exists>h' ms c. \<not> pending h' \<and> handler_ok sr h' \<and> router_ok (sr\<lparr>cache := c\<rparr>) \<and>
    (\<forall>u. twin sr u \<longrightarrow> hstep h u = Inr (h', put ms (u\<lparr>cache := c\<rparr>)) \<and>
      finish h u = Inr (put (ms @ owed sr h') (u\<lparr>cache := c\<rparr>)))"
proof (cases "(h, sr)" rule: hstep.cases)
  case (2 buf entry sr2)
  let ?c = "queue_packet (cache sr) (rt_gw entry) \<lparr>pk_buf = buf, pk_iface = padded 32 (rt_if entry)\<rparr>"
  have w: "waiting_ok sr \<lparr>pk_buf = buf, pk_iface = rt_if entry\<rparr>" using assms(2) 2 by simp
  then obtain i where i: "name_ok 32 (rt_if entry)" "interface_for sr (rt_if entry) = Some i"
    by (auto simp: waiting_ok_def)
  have ne: "buf \<noteq> []" using w by (auto simp: waiting_ok_def)
  have "hstep h u = Inr (Requesting (rt_gw entry) (rt_if entry), put [] (u\<lparr>cache := ?c\<rparr>)) \<and>
      finish h u = Inr (put ([] @ owed sr (Requesting (rt_gw entry) (rt_if entry))) (u\<lparr>cache := ?c\<rparr>))" if "twin sr u" for u
  proof -
    have u: "ifs_ok u" "cache u = cache sr" "interface_for u (rt_if entry) = Some i"
      using that router_okD(1) i(2) by (auto simp: twin_def same_tablesD)
    show ?thesis using 2 i u ne by (simp add: queuereq_Inr arp_request_put)
  qed
  moreover have "handler_ok sr (Requesting (rt_gw entry) (rt_if entry))" "\<not> pending (Requesting (rt_gw entry) (rt_if entry))"
    using i by (simp_all add: known_def)
  moreover have "router_ok (sr\<lparr>cache := ?c\<rparr>)" by (rule queue_ok [OF assms(1) w])
  ultimately show ?thesis by blast
next
  case (5 now mac ip sr2)
  let ?c = "(cache sr)\<lparr>requests := snd (take_req ip (requests (cache sr)))\<rparr>"
  have "hstep h u = Inr (Ready, put (released (cache sr) mac ip) (u\<lparr>cache := ?c\<rparr>)) \<and>
      finish h u = Inr (put (released (cache sr) mac ip @ owed sr Ready) (u\<lparr>cache := ?c\<rparr>))" if "twin sr u" for u
    using that 5 assms(2) arp_send_packets_put [of u mac ip] by (simp add: twin_def finished_def)
  moreover have "router_ok (sr\<lparr>cache := ?c\<rparr>)"
    by (intro router_ok_cache arp_ok_removed queues_removed [OF router_okD(3)] router_okD assms(1)) simp
  moreover have "handler_ok sr Ready" "\<not> pending Ready" by simp_all
  ultimately show ?thesis by blast
next
  case (6 now mac ip sr2)
  define c where "c = snd (sr_arpcache_insert now (cache sr) mac ip)"
  let ?h = "case req_for (cache sr) ip of None \<Rightarrow> Ready | Some r \<Rightarrow> Releasing mac (rq_packets r)"
  have mac: "length mac = 6" and none: "sr_arpcache_lookup (cache sr) ip = None" using assms(2,4) 6 by simp_all
  have ins: "sr_arpcache_insert now (cache sr) mac ip = (req_for (cache sr) ip, c)"
    using insert_parts(1) [of now "cache sr" mac ip] by (simp add: prod_eq_iff c_def)
  have owed: "owed sr ?h = released (cache sr) mac ip" by (simp add: released_def waiting_def split: option.split)
  have "hstep h u = Inr (?h, put [] (u\<lparr>cache := c\<rparr>)) \<and> finish h u = Inr (put ([] @ owed sr ?h) (u\<lparr>cache := c\<rparr>))"
    if u: "twin sr u" for u
  proof -
    have "finish h u = (case req_for (cache sr) ip of None \<Rightarrow> Inr (u\<lparr>cache := c\<rparr>)
        | Some r \<Rightarrow> sr_send_arp_queued_packets (u\<lparr>cache := c\<rparr>) (rq_packets r) mac)"
      using 6 u ins by (simp add: twin_def Let_def)
    also have "\<dots> = sr_send_arp_queued_packets (u\<lparr>cache := c\<rparr>) (waiting (cache u) ip) mac"
      using u by (simp add: waiting_def twin_def sr_send_arp_queued_packets_def split: option.split)
    also have "\<dots> = Inr (put (released (cache sr) mac ip) (u\<lparr>cache := c\<rparr>))"
      using send_waiting [of u mac] u mac by (simp add: twin_def)
    finally show ?thesis using 6 u ins owed by (simp add: twin_def)
  qed
  moreover have "router_ok (sr\<lparr>cache := c\<rparr>)"
    using arp_learn_ok [OF router_okD(2) [OF assms(1)] mac, of now ip] none
    by (intro router_ok_cache queues_removed [OF router_okD(3)] assms(1)) (simp_all add: arp_learn_def insert_parts c_def)
  moreover have "handler_ok sr ?h" "\<not> pending ?h"
    using mac queues_waiting [OF router_okD(3) [OF assms(1)], of ip] by (simp_all add: waiting_def split: option.split)
  ultimately show ?thesis by blast
qed (use assms(3) in simp_all)

section \<open>The start of a handler\<close>

text \<open>What a frame leads to: messages only, a packet to be forwarded, or a reply; it depends on the tables only.\<close>

datatype plan = Write "u8 list list" | Send "u8 list" sr_rt | Learn "u8 list" u32

fun begun :: "int \<Rightarrow> plan \<Rightarrow> sr_instance \<Rightarrow> handler \<times> sr_instance" where
  "begun now (Write ms) sr = (Ready, put ms sr)"
| "begun now (Send buf entry) sr = (Forwarding buf entry (sr_arpcache_lookup (cache sr) (rt_gw entry)), sr)"
| "begun now (Learn mac ip) sr = (Learning now mac ip (sr_arpcache_lookup (cache sr) ip \<noteq> None), sr)"

fun plan_ok :: "sr_instance \<Rightarrow> plan \<Rightarrow> bool" where
  "plan_ok sr (Write ms) \<longleftrightarrow> True"
| "plan_ok sr (Send buf entry) \<longleftrightarrow> waiting_ok sr \<lparr>pk_buf = buf, pk_iface = rt_if entry\<rparr>"
| "plan_ok sr (Learn mac ip) \<longleftrightarrow> length mac = 6"

definition plan_for :: "int \<Rightarrow> sr_instance \<Rightarrow> u8 list \<Rightarrow> name \<Rightarrow> plan \<Rightarrow> bool" where
  "plan_for now sr p iface pl \<longleftrightarrow> plan_ok sr pl \<and>
     (\<forall>u. router_ok u \<and> same_tables sr u \<longrightarrow> handle_start now u p iface = Inr (begun now pl u))"

lemma forward_start_steps:
  assumes "ip_wf p"
  shows "forward_start sr p iface =
    (if \<not> ip_sum_ok p then Inr (Ready, sr)
     else if p ! 22 = 1 then finished (sr_send_icmp_time_exceeded sr p iface) else
     case sr_rt_lookup_ip (routing_table sr) (dst_of p) of
       None \<Rightarrow> finished (sr_send_icmp_net_unreachable sr p iface)
     | Some entry \<Rightarrow> rbind (sr_get_interface (if_list sr) (rt_if entry)) (\<lambda>i.
         case i of None \<Rightarrow> Inl AssertFailed
         | Some i \<Rightarrow> rbind (set_shost (fwd_buf p) (if_addr i)) (\<lambda>buf.
             Inr (Forwarding buf entry (sr_arpcache_lookup (cache sr) (rt_gw entry)), sr))))"
  unfolding forward_start_def
  by (simp only: check_ip [OF assms] forward_values [OF assms] rbind_simps)

lemma forward_start_plan:
  assumes "router_ok sr" and "ip_wf p" and "routable sr (src_of p)" and "known sr iface"
  shows "\<exists>pl. plan_ok sr pl \<and> (\<forall>u. router_ok u \<and> same_tables sr u \<longrightarrow> forward_start u p iface = Inr (begun now pl u))"
proof -
  have len: "42 \<le> length p" using assms(2) by (simp add: ip_wf_def)
  obtain j where j: "interface_for sr iface = Some j" "name_ok 32 iface" using assms(4) by (rule knownE)
  have err: "finished (send_icmp_error type code u p iface) =
      Inr (Ready, put [wire iface (icmp_packet j (shost_of p) (if_ip j) (src_of p) (icmp_error type code p))] u)"
    if "router_ok u" "same_tables sr u" for u type code
    using icmp_error_put [OF router_okD(1) [OF that(1)] j(2) _ len, of j] j(1) same_tablesD(1) [OF that(2)]
    by (simp add: finished_def)
  note steps = forward_start_steps [OF assms(2)]
  show ?thesis
  proof (cases "ip_sum_ok p")
    case False
    then have "forward_start u p iface = Inr (begun now (Write []) u)" for u by (simp add: steps)
    then show ?thesis using plan_ok.simps(1) by blast
  next
    case True
    show ?thesis
    proof (cases "p ! 22 = 1 \<or> sr_rt_lookup_ip (routing_table sr) (dst_of p) = None")
      case t: True
      define ms where "ms = [wire iface (icmp_packet j (shost_of p) (if_ip j) (src_of p) (icmp_error (if p ! 22 = 1 then 11 else 3) 0 p))]"
      have "forward_start u p iface = Inr (begun now (Write ms) u)" if "router_ok u" "same_tables sr u" for u
        using t True that(2) unfolding steps ms_def
        by (cases "p ! 22 = 1") (simp_all add: sr_send_icmp_time_exceeded_def sr_send_icmp_net_unreachable_def err [OF that] same_tables_def)
      then show ?thesis using plan_ok.simps(1) by blast
    next
      case f: False
      then obtain e where e: "p ! 22 \<noteq> 1" "sr_rt_lookup_ip (routing_table sr) (dst_of p) = Some e" by blast
      obtain i where i: "interface_for sr (rt_if e) = Some i" "name_ok 32 (rt_if e)" using lookup_known [OF assms(1) e(2)] .
      have addr: "length (if_addr i) = 6" using interface_forD(3) [OF i(1) router_okD(1) [OF assms(1)]] .
      have shost: "set_shost (fwd_buf p) (if_addr i) = Inr (forwarded (if_addr i) p)"
        using len addr by (simp add: set_shost_def forwarded_def fwd_blank_def)
      have "forward_start u p iface = Inr (begun now (Send (forwarded (if_addr i) p) e) u)"
        if "router_ok u" "same_tables sr u" for u
      proof -
        have "sr_get_interface (if_list u) (rt_if e) = Inr (Some i)"
          using get_interface [OF router_okD(1) [OF that(1)] i(2)] i(1) same_tablesD(1) [OF that(2)] by simp
        moreover have "sr_rt_lookup_ip (routing_table u) (dst_of p) = Some e" using e(2) that(2) by (simp add: same_tables_def)
        ultimately show ?thesis using e(1) True by (simp add: steps shost)
      qed
      moreover have "plan_ok sr (Send (forwarded (if_addr i) p) e)"
        using forwarded_parts [of p "if_addr i"] len addr i assms(3) by (simp add: waiting_ok_def)
      ultimately show ?thesis by blast
    qed
  qed
qed

lemma handle_start_cases:
  assumes "42 \<le> length p"
  shows "handle_start now sr p iface =
    (if type_of p = htons ethertype_arp then
       (if op_of p = htons arp_op_request then finished (sr_send_arp_response sr p iface)
        else if op_of p = htons arp_op_reply then reply_start now sr p
        else forward_start sr p iface)
     else if type_of p \<noteq> htons ethertype_ip then Inr (Ready, sr)
     else if \<not> to_us sr p then forward_start sr p iface
     else if p ! 23 = ip_protocol_icmp \<and> p ! 34 = 8 then finished (sr_send_icmp_response sr p iface)
     else if p ! 23 = ip_protocol_tcp \<or> p ! 23 = ip_protocol_udp then finished (sr_send_icmp_port_unreachable sr p iface)
     else Inr (Ready, sr))"
proof -
  have "ethertype_arp \<noteq> ethertype_ip" by (simp add: ethertype_arp_def ethertype_ip_def)
  then have "\<not> to_us sr p" if "type_of p = htons ethertype_arp" using that by (simp add: to_us_def)
  with \<open>ethertype_arp \<noteq> ethertype_ip\<close> show ?thesis
    by (auto simp: handle_start_def classify [OF assms])
qed

lemma plan_writes:
  "(\<And>u. router_ok u \<Longrightarrow> same_tables sr u \<Longrightarrow> handle_start now u p iface = finished (Inr (put ms u))) \<Longrightarrow>
    \<exists>pl. plan_for now sr p iface pl"
  unfolding plan_for_def by (intro exI [of _ "Write ms"]) (simp add: finished_def)

lemma same_here:
  assumes "router_ok u" and "same_tables sr u"
  shows "ifs_ok u" "interface_for u iface = interface_for sr iface" "to_us u p = to_us sr p"
  using router_okD(1) [OF assms(1)] same_tablesD(1) [OF assms(2)] assms(2) by (simp_all add: to_us_def same_tables_def)

lemma arp_not_ip: "htons ethertype_arp \<noteq> htons ethertype_ip"
  by (simp add: ethertype_arp_def ethertype_ip_def)

lemma start_arp:
  assumes "router_ok sr" and "frame_ok sr p" and j: "interface_for sr iface = Some j" "name_ok 32 iface"
    and arp: "type_of p = htons ethertype_arp"
  shows "\<exists>pl. plan_for now sr p iface pl"
proof -
  have len: "42 \<le> length p" using assms(2) by (simp add: frame_ok_def)
  show ?thesis
  proof (cases "op_of p = htons arp_op_request")
    case req: True
    show ?thesis
      by (rule plan_writes) (simp add: handle_start_cases [OF len] same_here(1,2) arp req j arp_response_put [OF _ j(2) _ len])
  next
    case False
    then have rep: "op_of p = htons arp_op_reply" using assms(2) arp by (simp add: frame_ok_def)
    let ?mac = "take 6 (drop 22 p)" and ?ip = "word32 (p ! 28) (p ! 29) (p ! 30) (p ! 31)"
    have "handle_start now u p iface = Inr (begun now (Learn ?mac ?ip) u)" for u
      using len False rep by (simp add: handle_start_cases [OF len] arp reply_start_def fields)
    moreover have "plan_ok sr (Learn ?mac ?ip)" using len by simp
    ultimately show ?thesis unfolding plan_for_def by blast
  qed
qed

lemma start_to_us:
  assumes "router_ok sr" and "frame_ok sr p" and j: "interface_for sr iface = Some j" "name_ok 32 iface"
    and us: "to_us sr p"
  shows "\<exists>pl. plan_for now sr p iface pl"
proof -
  have len: "42 \<le> length p" using assms(2) by (simp add: frame_ok_def)
  have ip: "type_of p = htons ethertype_ip" using us by (simp add: to_us_def)
  let ?echo = "p ! 23 = ip_protocol_icmp \<and> p ! 34 = 8" and ?tu = "p ! 23 = ip_protocol_tcp \<or> p ! 23 = ip_protocol_udp"
  have st: "handle_start now u p iface = (if ?echo then finished (sr_send_icmp_response u p iface)
      else if ?tu then finished (sr_send_icmp_port_unreachable u p iface) else Inr (Ready, u))"
    if "router_ok u" "same_tables sr u" for u
    using handle_start_cases [OF len, of now u iface] same_here(3) [OF that] us ip arp_not_ip by auto
  show ?thesis
  proof (cases ?echo)
    case True
    have "\<exists>b. check_icmp_packet_corrupt (drop 34 p) = Inr b" using len by (simp add: check_icmp_packet_corrupt_def)
    then obtain b where b: "check_icmp_packet_corrupt (drop 34 p) = Inr b" by blast
    show ?thesis
    proof (cases b)
      case True
      then show ?thesis by (intro plan_writes [of _ _ _ _ "[]"]) (simp add: st \<open>?echo\<close> sr_send_icmp_response_def b)
    next
      case False
      then show ?thesis
        using b by (intro plan_writes) (simp add: st \<open>?echo\<close> same_here(1,2) j echo_reply_put [OF _ j(2) _ len])
    qed
  next
    case echo: False
    show ?thesis
    proof (cases ?tu)
      case True
      then show ?thesis
        by (intro plan_writes)
          (simp add: st echo sr_send_icmp_port_unreachable_def same_here(1,2) j icmp_error_put [OF _ j(2) _ len])
    next
      case False
      then show ?thesis by (intro plan_writes [of _ _ _ _ "[]"]) (simp add: st echo finished_def)
    qed
  qed
qed

lemma start_plan:
  assumes "router_ok sr" and "frame_ok sr p" and "known sr iface"
  shows "\<exists>pl. plan_for now sr p iface pl"
proof -
  have len: "42 \<le> length p" using assms(2) by (simp add: frame_ok_def)
  obtain j where j: "interface_for sr iface = Some j" "name_ok 32 iface" using assms(3) by (rule knownE)
  consider "type_of p = htons ethertype_arp" | "to_us sr p" | "type_of p = htons ethertype_ip" "\<not> to_us sr p" |
    "type_of p \<noteq> htons ethertype_arp" "type_of p \<noteq> htons ethertype_ip" by blast
  then show ?thesis
  proof cases
    case 1
    then show ?thesis by (rule start_arp [OF assms(1,2) j])
  next
    case 2
    then show ?thesis by (rule start_to_us [OF assms(1,2) j])
  next
    case 3
    have "ip_wf p" "routable sr (src_of p)" using assms(2) 3(1) by (simp_all add: frame_ok_def)
    from forward_start_plan [OF assms(1) this assms(3)] obtain pl where
      pl: "plan_ok sr pl" "\<forall>u. router_ok u \<and> same_tables sr u \<longrightarrow> forward_start u p iface = Inr (begun now pl u)" by blast
    have "handle_start now u p iface = forward_start u p iface" if "router_ok u" "same_tables sr u" for u
      using same_here(3) [OF that, of p] 3 arp_not_ip by (simp add: handle_start_cases [OF len])
    with pl have "plan_for now sr p iface pl" by (simp add: plan_for_def)
    then show ?thesis by blast
  next
    case 4
    then show ?thesis by (intro plan_writes [of _ _ _ _ "[]"]) (simp add: handle_start_cases [OF len] finished_def)
  qed
qed

section \<open>Any interleaving is safe\<close>

fun action_ok :: "sr_instance \<Rightarrow> action \<Rightarrow> bool" where
  "action_ok sr (Begin now p interface) \<longleftrightarrow> frame_ok sr p \<and> known sr interface"
| "action_ok sr a \<longleftrightarrow> True"

lemma action_tables: "same_tables sr sr' \<Longrightarrow> action_ok sr' a = action_ok sr a"
  by (cases a) (simp_all add: same_tablesD)

lemma begun_ok:
  assumes "router_ok sr" and "plan_ok sr pl" and "begun now pl sr = (h, sr')"
  shows "router_ok sr'" "same_tables sr sr'" "handler_ok sr' h" "absent sr' h" "fresh sr' h"
proof -
  have mac: "length (ae_mac a) = 6" if "sr_arpcache_lookup (cache sr) ip = Some a" for ip a
    using lookup_SomeD(1) [OF that] arp_okD(3) [OF router_okD(2) [OF assms(1)]] by blast
  have "router_ok sr' \<and> same_tables sr sr' \<and> handler_ok sr' h \<and> fresh sr' h"
  proof (cases pl)
    case (Send buf entry)
    then have "h = Forwarding buf entry (sr_arpcache_lookup (cache sr) (rt_gw entry))" "sr' = sr" using assms(3) by auto
    with Send assms(1,2) mac [of "rt_gw entry"] show ?thesis
      by (cases "sr_arpcache_lookup (cache sr) (rt_gw entry)") simp_all
  qed (use assms in auto)
  then show "router_ok sr'" "same_tables sr sr'" "handler_ok sr' h" "fresh sr' h" "absent sr' h" by (simp_all add: fresh_absent)
qed

lemma pass_absent:
  assumes "sr_arpcache_timeout t t' sr = Inr sr'" and "absent sr h"
  shows "absent sr' h"
  using assms by (cases "(sr, h)" rule: absent.cases) (simp_all add: pass_lookup_None)

lemma act_fine:
  assumes "router_ok sr" and "handler_ok sr h" and "absent sr h" and "action_ok sr a"
  shows "\<exists>h' sr'. act a (h, sr) = Inr (h', sr') \<and> router_ok sr' \<and> same_tables sr sr' \<and> handler_ok sr' h' \<and> absent sr' h'"
proof (cases a)
  case (Begin now p iface)
  show ?thesis
  proof (cases "h = Ready")
    case True
    obtain pl where "plan_for now sr p iface pl"
      using start_plan [OF assms(1), of p iface now] assms(4) Begin by auto
    then have pl: "plan_ok sr pl" "handle_start now sr p iface = Inr (begun now pl sr)"
      using assms(1) by (simp_all add: plan_for_def)
    obtain h' sr' where "begun now pl sr = (h', sr')" by (cases "begun now pl sr")
    with begun_ok [OF assms(1) pl(1) this] pl(2) True Begin show ?thesis by simp
  qed (use assms Begin in simp)
next
  case Proceed
  show ?thesis
  proof (cases "pending h")
    case True
    from hstep_pending [OF assms(1,2) this assms(3)] obtain h' ms c where
      h': "\<not> pending h'" "handler_ok sr h'" "router_ok (sr\<lparr>cache := c\<rparr>)" "hstep h sr = Inr (h', put ms (sr\<lparr>cache := c\<rparr>))"
      using assms(1) by (auto simp: twin_def)
    moreover have "same_tables sr (put ms (sr\<lparr>cache := c\<rparr>))" by simp
    ultimately show ?thesis
      using Proceed handler_tables(1) [of sr "put ms (sr\<lparr>cache := c\<rparr>)"] settled_absent by simp
  next
    case False
    from hstep_owed [OF assms(1,2) this] obtain h' ms where
      h': "hstep h sr = Inr (h', put ms sr)" "\<not> pending h'" "handler_ok sr h'" by blast
    moreover have "same_tables sr (put ms sr)" by simp
    ultimately show ?thesis
      using Proceed assms(1) handler_tables(1) [of sr "put ms sr"] settled_absent by simp
  qed
next
  case (Pass t t')
  from timeout_fine [OF assms(1)] obtain sr' where s: "sr_arpcache_timeout t t' sr = Inr sr'" "router_ok sr'" "same_tables sr sr'"
    by (auto simp: fine_def)
  with pass_absent [OF s(1) assms(3)] handler_tables(1) [OF s(3)] assms(2) Pass show ?thesis by simp
qed

section \<open>Any interleaving is a sequence\<close>

text \<open>The frames that are taken up, and the passes that are made, as events of the router without interleaving.\<close>

fun taken :: "action \<Rightarrow> handler \<Rightarrow> event list" where
  "taken (Begin now p interface) h = (if h = Ready then [Frame now p interface] else [])"
| "taken a h = []"

fun served :: "action list \<Rightarrow> handler \<times> sr_instance \<Rightarrow> event list" where
  "served [] st = []"
| "served (a # as) st = taken a (fst st) @ (case act a st of Inl f \<Rightarrow> [] | Inr st' \<Rightarrow> served as st')"

fun is_tick :: "event \<Rightarrow> bool" where
  "is_tick (Tick t t') = True"
| "is_tick (Frame now p interface) = False"

fun ticks_of :: "action list \<Rightarrow> event list" where
  "ticks_of [] = []"
| "ticks_of (Pass t t' # as) = Tick t t' # ticks_of as"
| "ticks_of (a # as) = ticks_of as"

text \<open>
  The one race that shows: a reply whose sender is in the cache already, and a pass that drops that sender before
  the handler goes on. \<open>calm\<close> says that it does not occur.
\<close>

fun steady :: "handler \<times> sr_instance \<Rightarrow> bool" where
  "steady (Learning now mac ip True, sr) \<longleftrightarrow> sr_arpcache_lookup (cache sr) ip \<noteq> None"
| "steady st \<longleftrightarrow> True"

fun calm :: "action list \<Rightarrow> handler \<times> sr_instance \<Rightarrow> bool" where
  "calm [] st \<longleftrightarrow> True"
| "calm (a # as) st \<longleftrightarrow> (case act a st of Inl f \<Rightarrow> True | Inr st' \<Rightarrow> steady st' \<and> calm as st')"

text \<open>The router in steps, beside the one that handles a frame at once: at the step that changes the cache.\<close>

definition follows :: "event list \<Rightarrow> handler \<Rightarrow> sr_instance \<Rightarrow> sr_instance \<Rightarrow> bool" where
  "follows f h sr sr' \<longleftrightarrow> router_ok sr \<and> handler_ok sr h \<and>
     (if pending h then fresh sr h \<and> like sr sr' \<and> (\<exists>now p iface pl. f = [Frame now p iface] \<and>
        plan_for now sr p iface pl \<and> begun now pl sr = (h, sr))
      else f = [] \<and> like (put (owed sr h) sr) sr')"

lemma like_trans: "like a b \<Longrightarrow> like b c \<Longrightarrow> like a c"
  by (simp add: like_def)

lemma like_put: "mset ms = mset ms' \<Longrightarrow> like sr sr' \<Longrightarrow> like (put ms sr) (put ms' sr')"
  by (simp add: like_def)

lemma like_pre: "like (put ms sr) (pre ms sr)" "like (pre ms sr) (put ms sr)"
  by (simp_all add: like_def)

lemma like_same: "like sr sr' \<Longrightarrow> same_tables sr sr'"
  by (simp add: like_def same_tables_def)

lemma like_twin: "like sr sr' \<Longrightarrow> router_ok sr \<Longrightarrow> twin sr sr'"
  by (simp add: twin_def like_def same_tables_def router_ok_def ifs_ok_def routable_def routes_ok_def
      known_def interface_for_def queues_def waiting_ok_def)

lemma finish_owed:
  assumes "router_ok sr" and "handler_ok sr h" and "\<not> pending h"
  shows "finish h sr = Inr (put (owed sr h) sr)"
proof (cases "\<exists>mac ps. h = Releasing mac ps")
  case True
  with assms show ?thesis by (auto simp: sr_send_arp_queued_packets_def intro!: send_queued_put router_okD)
next
  case False
  from hstep_owed [OF assms] obtain h' ms where h': "hstep h sr = Inr (h', put ms sr)" "owed sr h = ms @ owed sr h'" by blast
  have "h' = Ready"
    using h'(1) assms(3) False by (cases "(h, sr)" rule: hstep.cases) (auto simp: finished_def rbind_Inr_iff)
  with h' finish_step [of h sr] show ?thesis by simp
qed

lemma plan_for_tables: "plan_for now sr p iface pl \<Longrightarrow> same_tables sr sr' \<Longrightarrow> plan_for now sr' p iface pl"
  unfolding plan_for_def by (cases pl) (auto simp: same_tablesD intro: same_tables_trans)

lemma begun_again:
  assumes "begun now pl sr = (h, sr)" and "pending h" and "fresh sr' h"
  shows "begun now pl sr' = (h, sr')"
  using assms by (cases pl) (auto split: option.splits elim!: pending.elims)

lemma follows_pass:
  assumes f: "follows f h sr sr'" and p: "sr_arpcache_timeout t t' sr = Inr s" and "steady (h, s)"
  shows "\<exists>s'. router_step (Tick t t') sr' = Inr s' \<and> follows f h s s'"
proof -
  have ok: "router_ok sr" "handler_ok sr h" using f by (simp_all add: follows_def)
  have s: "router_ok s" "same_tables sr s" using timeout_fine [OF ok(1), of t t'] p by (auto simp: fine_def)
  note h = handler_tables [OF s(2)]
  show ?thesis
  proof (cases "pending h")
    case True
    then obtain now q iface pl where pl: "f = [Frame now q iface]" "plan_for now sr q iface pl" "begun now pl sr = (h, sr)"
      and fr: "fresh sr h" and l: "like sr sr'" using f unfolding follows_def by auto
    obtain s' where s': "sr_arpcache_timeout t t' sr' = Inr s'" "like s s'" using oblivious_like [OF pass_pre l p] by blast
    have "fresh s h"
      using fr True assms(3) by (cases "(sr, h)" rule: fresh.cases; cases "\<exists>now mac ip. h = Learning now mac ip True")
        (auto simp: pass_lookup_None [OF p])
    then have "follows f h s s'"
      unfolding follows_def using True s(1) ok(2) h(1) s'(2) pl(1) plan_for_tables [OF pl(2) s(2)]
        begun_again [OF pl(3) True] by auto
    with s'(1) show ?thesis by simp
  next
    case False
    then have l: "like (put (owed sr h) sr) sr'" and fn: "f = []" using f by (simp_all add: follows_def)
    have "sr_arpcache_timeout t t' (pre (owed sr h) sr) = Inr (pre (owed sr h) s)"
      using pass_pre p by (simp add: oblivious_def)
    from oblivious_like [OF pass_pre like_trans [OF like_pre(2) l] this] obtain s' where
      s': "sr_arpcache_timeout t t' sr' = Inr s'" "like (pre (owed sr h) s) s'" by blast
    have "like (put (owed s h) s) s'" using like_trans [OF like_pre(1) s'(2)] h(2) by simp
    with False s(1) ok(2) h(1) fn s'(1) show ?thesis by (simp add: follows_def)
  qed
qed

lemma follows_proceed:
  assumes f: "follows f h sr sr'"
  shows "\<exists>h' s s'. hstep h sr = Inr (h', s) \<and> rfold router_step f sr' = Inr s' \<and> follows [] h' s s'"
proof -
  have ok: "router_ok sr" "handler_ok sr h" using f by (simp_all add: follows_def)
  show ?thesis
  proof (cases "pending h")
    case True
    then obtain now q iface pl where pl: "f = [Frame now q iface]" "plan_for now sr q iface pl" "begun now pl sr = (h, sr)"
      and fr: "fresh sr h" and l: "like sr sr'" using f unfolding follows_def by auto
    obtain h' ms c where h': "\<not> pending h'" "handler_ok sr h'" "router_ok (sr\<lparr>cache := c\<rparr>)"
      "\<forall>u. twin sr u \<longrightarrow> hstep h u = Inr (h', put ms (u\<lparr>cache := c\<rparr>)) \<and> finish h u = Inr (put (ms @ owed sr h') (u\<lparr>cache := c\<rparr>))"
      using hstep_pending [OF ok True fresh_absent [OF fr]] by blast
    have tw: "twin sr sr" "twin sr sr'" using ok(1) like_twin [OF l ok(1)] by (simp_all add: twin_def)
    have "fresh sr' h" using fr l by (cases "(sr, h)" rule: fresh.cases) (simp_all add: like_def)
    then have "handle_start now sr' q iface = Inr (h, sr')"
      using pl(2) tw(2) begun_again [OF pl(3) True] by (simp add: plan_for_def twin_def)
    then have "router_step (Frame now q iface) sr' = Inr (put (ms @ owed sr h') (sr'\<lparr>cache := c\<rparr>))"
      using handle_finish [of now sr' q iface] h'(4) tw(2) by simp
    moreover have "hstep h sr = Inr (h', put ms (sr\<lparr>cache := c\<rparr>))" using h'(4) tw(1) by blast
    moreover have "like (put (owed sr h') (put ms (sr\<lparr>cache := c\<rparr>))) (put (ms @ owed sr h') (sr'\<lparr>cache := c\<rparr>))"
      using l by (simp add: like_def)
    moreover have "same_tables sr (put ms (sr\<lparr>cache := c\<rparr>))" by simp
    ultimately show ?thesis
      using h'(1-3) pl(1) handler_tables [of sr "put ms (sr\<lparr>cache := c\<rparr>)" h'] by (simp add: follows_def)
  next
    case False
    then have l: "like (put (owed sr h) sr) sr'" and fn: "f = []" using f by (simp_all add: follows_def)
    obtain h' ms where h': "hstep h sr = Inr (h', put ms sr)" "\<not> pending h'" "handler_ok sr h'" "owed sr h = ms @ owed sr h'"
      using hstep_owed [OF ok False] by blast
    have "same_tables sr (put ms sr)" by simp
    then have "follows [] h' (put ms sr) sr'"
      using h' ok(1) l handler_tables [of sr "put ms sr" h'] by (simp add: follows_def)
    with h'(1) fn show ?thesis by simp
  qed
qed

lemma follows_begin:
  assumes f: "follows [] Ready sr sr'" and p: "frame_ok sr p" "known sr iface"
  shows "\<exists>h s s' es f. handle_start now sr p iface = Inr (h, s) \<and> rfold router_step es sr' = Inr s' \<and>
    follows f h s s' \<and> es @ f = [Frame now p iface]"
proof -
  have ok: "router_ok sr" and l: "like sr sr'" using f by (simp_all add: follows_def)
  obtain pl where pl: "plan_for now sr p iface pl" using start_plan [OF ok p] by blast
  have tw: "twin sr sr'" by (rule like_twin [OF l ok])
  obtain h s where b: "begun now pl sr = (h, s)" by (cases "begun now pl sr")
  note b_ok = begun_ok [OF ok _ b]
  have st: "handle_start now sr p iface = Inr (h, s)" "handle_start now sr' p iface = Inr (begun now pl sr')" "plan_ok sr pl"
    using pl ok tw b by (simp_all add: plan_for_def twin_def)
  show ?thesis
  proof (cases "pending h")
    case True
    then have "s = sr" using b by (cases pl) auto
    moreover have "follows [Frame now p iface] h sr sr'"
      using True b_ok [OF st(3)] l pl b \<open>s = sr\<close> unfolding follows_def by auto
    ultimately show ?thesis using st(1) by (intro exI [of _ h] exI [of _ sr] exI [of _ sr'] exI [of _ "[]"] exI [of _ "[Frame now p iface]"]) simp
  next
    case False
    have "\<exists>s'. sr_handlepacket now sr' p iface = Inr s' \<and> like (put (owed s h) s) s'"
    proof (cases pl)
      case (Write ms)
      then have "h = Ready" "s = put ms sr" using b by simp_all
      with Write show ?thesis using handle_finish [of now sr' p iface, symmetric] st(2) l by simp
    next
      case (Send buf e)
      then have b': "begun now pl sr' = (h, sr')" "s = sr" using b tw by (auto simp: twin_def)
      have "handler_ok sr' h" "router_ok sr'" using b_ok(3) [OF st(3)] b'(2) handler_tables(1) [OF like_same [OF l]] tw
        by (simp_all add: twin_def)
      then have "sr_handlepacket now sr' p iface = Inr (put (owed sr' h) sr')"
        using handle_finish [of now sr' p iface] st(2) b'(1) finish_owed [OF _ _ False] by simp
      then show ?thesis using l b'(2) handler_tables(2) [OF like_same [OF l]] by simp
    qed (use False b in auto)
    then obtain s' where s': "sr_handlepacket now sr' p iface = Inr s'" "like (put (owed s h) s) s'" by blast
    then have "follows [] h s s'" using False b_ok [OF st(3)] by (simp add: follows_def)
    with st(1) s'(1) show ?thesis by (intro exI [of _ h] exI [of _ s] exI [of _ s'] exI [of _ "[Frame now p iface]"] exI [of _ "[]"]) simp
  qed
qed

lemma follows_act:
  assumes f: "follows f h sr sr'" and a: "action_ok sr a" and "act a (h, sr) = Inr (h', s)" and "steady (h', s)"
  shows "\<exists>s' es g. rfold router_step es sr' = Inr s' \<and> follows g h' s s' \<and>
    filter (Not \<circ> is_tick) es @ g = f @ taken a h \<and> filter is_tick es = ticks_of [a]"
proof -
  have fr: "filter (Not \<circ> is_tick) f = f" "filter is_tick f = []" using f by (auto simp: follows_def split: if_splits)
  show ?thesis
  proof (cases a)
    case (Begin now p iface)
    show ?thesis
    proof (cases "h = Ready")
      case True
      then have "f = []" using f by (simp add: follows_def)
      with follows_begin [of sr sr' p iface now] f a assms(3) True Begin obtain s' es g where
        r: "rfold router_step es sr' = Inr s'" "follows g h' s s'" "es @ g = [Frame now p iface]" by auto
      then have "filter (Not \<circ> is_tick) es = es" "filter is_tick es = []" by (auto simp: append_eq_Cons_conv)
      with r True Begin \<open>f = []\<close> show ?thesis by (intro exI [of _ s'] exI [of _ es] exI [of _ g]) simp
    next
      case False
      with assms(3) f Begin show ?thesis by (intro exI [of _ sr'] exI [of _ "[]"] exI [of _ f]) simp
    qed
  next
    case Proceed
    from follows_proceed [OF f] assms(3) Proceed obtain s' where "rfold router_step f sr' = Inr s'" "follows [] h' s s'" by auto
    with fr Proceed show ?thesis by (intro exI [of _ s'] exI [of _ f] exI [of _ "[]"]) simp
  next
    case (Pass t t')
    then have p: "sr_arpcache_timeout t t' sr = Inr s" "h' = h" using assms(3) by (auto simp: rbind_Inr_iff)
    from follows_pass [OF f p(1)] assms(4) p(2) obtain s' where "router_step (Tick t t') sr' = Inr s'" "follows f h s s'" by auto
    with Pass p(2) show ?thesis by (intro exI [of _ s'] exI [of _ "[Tick t t']"] exI [of _ f]) simp
  qed
qed

lemma acts_fine:
  assumes "router_ok sr" and "handler_ok sr h" and "absent sr h" and "Ball (set as) (action_ok sr)"
  shows "\<exists>h' s. rfold act as (h, sr) = Inr (h', s) \<and> router_ok s \<and> same_tables sr s"
proof -
  let ?P = "\<lambda>(h, s). router_ok s \<and> handler_ok s h \<and> absent s h \<and> same_tables sr s"
  have "\<exists>u. rfold act as (h, sr) = Inr u \<and> ?P u"
  proof (rule rfold_total)
    show "?P (h, sr)" using assms(1-3) by simp
    fix a u assume a: "a \<in> set as" and u: "?P u"
    obtain g s where us: "u = (g, s)" by (cases u)
    with u have s: "router_ok s" "handler_ok s g" "absent s g" "same_tables sr s" by simp_all
    have "action_ok s a" using assms(4) a action_tables [OF s(4)] by simp
    from act_fine [OF s(1-3) this] obtain g' s' where "act a (g, s) = Inr (g', s')" "router_ok s'" "same_tables s s'"
      "handler_ok s' g'" "absent s' g'" by blast
    with us s(4) show "\<exists>u'. act a u = Inr u' \<and> ?P u'" by (auto intro: same_tables_trans)
  qed
  then show ?thesis by auto
qed

lemma follows_acts:
  assumes "follows f h sr sr'" and "Ball (set as) (action_ok sr)" and "rfold act as (h, sr) = Inr (h', s)" and "calm as (h, sr)"
  shows "\<exists>s' es g. rfold router_step es sr' = Inr s' \<and> follows g h' s s' \<and>
    filter (Not \<circ> is_tick) es @ g = f @ served as (h, sr) \<and> filter is_tick es = ticks_of as"
  using assms
proof (induction as arbitrary: f h sr sr')
  case Nil
  then show ?case by (intro exI [of _ sr'] exI [of _ "[]"] exI [of _ f]) simp
next
  case (Cons a as)
  obtain h1 s1 where a: "act a (h, sr) = Inr (h1, s1)" and as: "rfold act as (h1, s1) = Inr (h', s)"
    using Cons.prems(3) by (auto simp: rbind_Inr_iff)
  have ok: "router_ok sr" "handler_ok sr h" "absent sr h" "action_ok sr a"
    using Cons.prems(1,2) by (auto simp: follows_def split: if_splits intro: fresh_absent settled_absent)
  have t: "same_tables sr s1" using act_fine [OF ok] a by auto
  have st: "steady (h1, s1)" "calm as (h1, s1)" using Cons.prems(4) a by simp_all
  from follows_act [OF Cons.prems(1) ok(4) a st(1)] obtain u es f1 where
    1: "rfold router_step es sr' = Inr u" "follows f1 h1 s1 u" "filter (Not \<circ> is_tick) es @ f1 = f @ taken a h"
      "filter is_tick es = ticks_of [a]" by blast
  have "Ball (set as) (action_ok s1)" using Cons.prems(2) action_tables [OF t] by simp
  from Cons.IH [OF 1(2) this as st(2)] obtain s' es' g where
    2: "rfold router_step es' u = Inr s'" "follows g h' s s'" "filter (Not \<circ> is_tick) es' @ g = f1 @ served as (h1, s1)"
      "filter is_tick es' = ticks_of as" by blast
  have "rfold router_step (es @ es') sr' = Inr s'" using 1(1) 2(1) by (simp add: rfold_append)
  moreover have "filter (Not \<circ> is_tick) (es @ es') @ g = f @ served (a # as) (h, sr)"
    using 1(3) 2(3) a by (metis append.assoc filter_append served.simps(2) fst_conv sum.case(2))
  moreover have "filter is_tick (es @ es') = ticks_of (a # as)"
    using 1(4) 2(4) by (cases a) simp_all
  ultimately show ?case using 2(2) by blast
qed

text \<open>A packet, then the reply for its next hop, with a pass at every cut.\<close>

definition example_acts :: "action list" where
  "example_acts = [Begin 1 ex_packet (if_name (example_if 1)), Pass 2 2, Proceed, Pass 3 3, Proceed,
     Begin 4 ex_reply (if_name (example_if 2)), Pass 5 5, Proceed, Pass 6 6, Proceed, Proceed]"

lemma example_acts_ok: "Ball (set example_acts) (action_ok ex_router)"
  by (simp add: example_acts_def ex_packet_ok ex_reply_ok ex_known)

lemma example_acts_calm: "calm example_acts (Ready, ex_router)"
  by code_simp

lemma example_acts_end: "\<exists>s. rfold act example_acts (Ready, ex_router) = Inr (Ready, s)"
proof -
  have "(case rfold act example_acts (Ready, ex_router) of Inl f \<Rightarrow> False | Inr (h, s) \<Rightarrow> h = Ready)" by code_simp
  then show ?thesis by (auto split: sum.splits)
qed

section \<open>The race\<close>

definition race_acts :: "action list" where
  "race_acts = [Begin 20 ex_reply (if_name (example_if 2)), Pass 20 20, Proceed]"

text \<open>Whether nothing waits, and whether 9 is forgotten.\<close>

definition outcome :: "sr_instance \<Rightarrow> bool \<times> bool" where
  "outcome sr = (requests (cache sr) = [], sr_arpcache_lookup (cache sr) 9 = None)"

lemma race_runs:
  "map_sum id (map_prod id outcome) (rfold act race_acts (Ready, race_router)) = Inr (Ready, True, True)"
  "map_sum id outcome (rfold router_step [Frame 20 ex_reply (if_name (example_if 2)), Tick 20 20] race_router) = Inr (False, True)"
  "map_sum id outcome (rfold router_step [Tick 20 20, Frame 20 ex_reply (if_name (example_if 2))] race_router) = Inr (True, False)"
  by code_simp+

lemma race_served: "served race_acts (Ready, race_router) = [Frame 20 ex_reply (if_name (example_if 2))]"
  by code_simp

lemma one_of_each:
  assumes "filter P xs = [a]" and "filter (Not \<circ> P) xs = [b]"
  shows "xs = [a, b] \<or> xs = [b, a]"
proof -
  have "length xs = 2" using assms sum_length_filter_compl [of P xs] by (simp add: comp_def)
  then obtain x y where "xs = [x, y]" by (auto simp: length_Suc_conv numeral_2_eq_2)
  with assms show ?thesis by (auto split: if_splits)
qed

section \<open>Properties\<close>

text \<open>
  C25: The steps are the handlers: a frame that arrives while the thread is ready, handled in steps
  with nothing in between, has exactly the effect of \<^verbatim>\<open>sr_handlepacket\<close>, faults included.
\<close>

theorem steps_are_handlers:
  "\<exists>n. \<forall>k. rfold act (Begin now p interface # replicate (n + k) Proceed) (Ready, sr) =
    rbind (sr_handlepacket now sr p interface) (\<lambda>sr. Inr (Ready, sr))"
proof (cases "handle_start now sr p interface")
  case (Inl f)
  then show ?thesis using handle_finish [of now sr p interface] by (auto simp: rbind_def split: sum.splits)
next
  case (Inr r)
  obtain h sr' where r: "r = (h, sr')" by (cases r)
  obtain n where "\<forall>m \<ge> n. rfold act (replicate m Proceed) (h, sr') = finished (finish h sr')" using settles_all [unfolded settles_def] by blast
  then show ?thesis using handle_finish [of now sr p interface] Inr by (intro exI [of _ n]) (simp add: r finished_def)
qed

text \<open>
  C23: The router never faults beside the ARP thread: whenever the thread makes its passes, also between the
  lookup of a handler and what the handler does with the result, no access goes wrong, no assertion fails,
  and the invariant is kept.
\<close>

theorem interleaving_safe:
  assumes "router_ok sr" and "Ball (set as) (action_ok sr)"
  shows "\<exists>h sr'. rfold act as (Ready, sr) = Inr (h, sr') \<and> router_ok sr' \<and>
    if_list sr' = if_list sr \<and> routing_table sr' = routing_table sr"
proof -
  have "handler_ok sr Ready" "absent sr Ready" by simp_all
  from acts_fine [OF assms(1) this assms(2)] show ?thesis by (auto simp: same_tables_def)
qed

theorem interleaving_safe_witness: "\<exists>h sr'. rfold act example_acts (Ready, ex_router) = Inr (h, sr') \<and>
    router_ok sr' \<and> if_list sr' = if_list ex_router \<and> routing_table sr' = routing_table ex_router"
  by (rule interleaving_safe [OF ex_router_ok example_acts_ok])

text \<open>
  C22: Handlers are atomic: a run of the router beside the ARP thread, in which no reply loses the entry it has
  just found, ends with the cache, and with the messages written up to their order, of a run in which
  every frame is handled at once, the frames and the passes each in their order.
\<close>

theorem interleaving_is_sequence:
  assumes "router_ok sr" and "Ball (set as) (action_ok sr)" and "calm as (Ready, sr)"
    and "rfold act as (Ready, sr) = Inr (Ready, s)"
  shows "\<exists>es s'. rfold router_step es sr = Inr s' \<and> cache s' = cache s \<and> mset (sent s') = mset (sent s) \<and>
    filter (Not \<circ> is_tick) es = served as (Ready, sr) \<and> filter is_tick es = ticks_of as"
proof -
  have "follows [] Ready sr sr" using assms(1) by (simp add: follows_def)
  from follows_acts [OF this assms(2,4,3)] show ?thesis by (auto simp: follows_def like_def)
qed

theorem interleaving_is_sequence_witness: "\<exists>es s s'. rfold act example_acts (Ready, ex_router) = Inr (Ready, s) \<and>
    rfold router_step es ex_router = Inr s' \<and> cache s' = cache s \<and> mset (sent s') = mset (sent s) \<and>
    filter is_tick es = [Tick 2 2, Tick 3 3, Tick 5 5, Tick 6 6]"
proof -
  obtain s where s: "rfold act example_acts (Ready, ex_router) = Inr (Ready, s)" using example_acts_end by blast
  have "ticks_of example_acts = [Tick 2 2, Tick 3 3, Tick 5 5, Tick 6 6]" by (simp add: example_acts_def)
  with interleaving_is_sequence [OF ex_router_ok example_acts_ok example_acts_calm s] s show ?thesis by metis
qed

text \<open>
  C24: Without that condition handlers are not atomic: a reply finds the entry of its sender, a pass drops the entry
  and queues an ICMP error for the same sender, and the reply then sends that message. The sender is left
  unknown with nothing waiting for it, which neither order of the whole reply and the pass leads to.
\<close>

theorem reply_race:
  "router_ok race_router \<and> \<not> calm race_acts (Ready, race_router) \<and>
   (\<exists>s. rfold act race_acts (Ready, race_router) = Inr (Ready, s) \<and>
     sr_arpcache_lookup (cache s) 9 = None \<and> requests (cache s) = [] \<and>
     \<not> (\<exists>es s'. rfold router_step es race_router = Inr s' \<and> cache s' = cache s \<and>
       filter (Not \<circ> is_tick) es = served race_acts (Ready, race_router) \<and> filter is_tick es = ticks_of race_acts))"
proof (intro conjI)
  show "router_ok race_router" by (rule race_router_ok)
  show "\<not> calm race_acts (Ready, race_router)" by code_simp
  obtain s where s: "rfold act race_acts (Ready, race_router) = Inr (Ready, s)" "outcome s = (True, True)"
    using race_runs(1) by (cases "rfold act race_acts (Ready, race_router)") auto
  have "\<not> (rfold router_step es race_router = Inr s' \<and> cache s' = cache s)"
    if es: "filter (Not \<circ> is_tick) es = served race_acts (Ready, race_router)" "filter is_tick es = ticks_of race_acts" for es s'
  proof -
    have "es = [Tick 20 20, Frame 20 ex_reply (if_name (example_if 2))] \<or> es = [Frame 20 ex_reply (if_name (example_if 2)), Tick 20 20]"
      using es by (intro one_of_each [where P = is_tick]) (simp_all add: race_served, simp add: race_acts_def)
    then have "outcome s' \<noteq> (True, True)" if "rfold router_step es race_router = Inr s'"
      using race_runs(2,3) that by auto
    with s(2) show ?thesis by (auto simp: outcome_def)
  qed
  with s show "\<exists>s. rfold act race_acts (Ready, race_router) = Inr (Ready, s) \<and>
     sr_arpcache_lookup (cache s) 9 = None \<and> requests (cache s) = [] \<and>
     \<not> (\<exists>es s'. rfold router_step es race_router = Inr s' \<and> cache s' = cache s \<and>
       filter (Not \<circ> is_tick) es = served race_acts (Ready, race_router) \<and> filter is_tick es = ticks_of race_acts)"
    by (auto simp: outcome_def)
qed

end
