(* ===== verification/Sha1.thy ===== *)
theory Sha1
  imports Prelude
begin

text \<open>
  The SHA-1 implementation used for the authentication with the server (\<^verbatim>\<open>router/sha1.c\<close>): the
  context, the block function, the byte-wise input, padding and the result; and the digest as
  FIPS 180-4 defines it, which they compute.
\<close>

section \<open>The code\<close>

type_synonym sha1_digest = "u32 \<times> u32 \<times> u32 \<times> u32 \<times> u32"

record sha1_context =
  Message_Digest :: sha1_digest
  Length_Low :: u32
  Length_High :: u32
  Message_Block :: "u8 list"
  Message_Block_Index :: nat
  Computed :: bool
  Corrupted :: bool

definition SHA1CircularShift :: "nat \<Rightarrow> u32 \<Rightarrow> u32" where
  "SHA1CircularShift bits word = (push_bit bits word AND 0xFFFFFFFF) OR drop_bit (32 - bits) word"

definition SHA1Reset :: "sha1_context \<Rightarrow> sha1_context" where
  "SHA1Reset c = c\<lparr>Length_Low := 0, Length_High := 0, Message_Block_Index := 0,
     Message_Digest := (0x67452301, 0xEFCDAB89, 0x98BADCFE, 0x10325476, 0xC3D2E1F0),
     Computed := False, Corrupted := False\<rparr>"

subsection \<open>A block\<close>

definition block_word :: "u8 list \<Rightarrow> nat \<Rightarrow> u32" where
  "block_word blk t = push_bit 24 (ucast (blk ! (t * 4))) OR push_bit 16 (ucast (blk ! (t * 4 + 1))) OR
     push_bit 8 (ucast (blk ! (t * 4 + 2))) OR ucast (blk ! (t * 4 + 3))"

definition next_word :: "nat \<Rightarrow> u32 list \<Rightarrow> u32 list" where
  "next_word t W = W @ [SHA1CircularShift 1 (W ! (t - 3) XOR W ! (t - 8) XOR W ! (t - 14) XOR W ! (t - 16))]"

definition word_sequence :: "u8 list \<Rightarrow> u32 list" where
  "word_sequence blk = fold next_word [16..<80] (map (block_word blk) [0..<16])"

definition sha_round :: "(u32 \<Rightarrow> u32 \<Rightarrow> u32 \<Rightarrow> u32) \<Rightarrow> u32 \<Rightarrow> u32 \<Rightarrow> sha1_digest \<Rightarrow> sha1_digest" where
  "sha_round f k w s = (case s of (A, B, C, D, E) \<Rightarrow>
     (SHA1CircularShift 5 A + f B C D + E + w + k, A, SHA1CircularShift 30 B, C, D))"

definition f_choose :: "u32 \<Rightarrow> u32 \<Rightarrow> u32 \<Rightarrow> u32" where
  "f_choose B C D = (B AND C) OR (NOT B AND D)"

definition f_parity :: "u32 \<Rightarrow> u32 \<Rightarrow> u32 \<Rightarrow> u32" where
  "f_parity B C D = B XOR C XOR D"

definition f_majority :: "u32 \<Rightarrow> u32 \<Rightarrow> u32 \<Rightarrow> u32" where
  "f_majority B C D = (B AND C) OR (B AND D) OR (C AND D)"

definition sha_loops :: "u32 list \<Rightarrow> sha1_digest \<Rightarrow> sha1_digest" where
  "sha_loops W s =
    (let s = fold (\<lambda>t. sha_round f_choose 0x5A827999 (W ! t)) [0..<20] s;
         s = fold (\<lambda>t. sha_round f_parity 0x6ED9EBA1 (W ! t)) [20..<40] s;
         s = fold (\<lambda>t. sha_round f_majority 0x8F1BBCDC (W ! t)) [40..<60] s
     in fold (\<lambda>t. sha_round f_parity 0xCA62C1D6 (W ! t)) [60..<80] s)"

definition add_digest :: "sha1_digest \<Rightarrow> sha1_digest \<Rightarrow> sha1_digest" where
  "add_digest x y = (case (x, y) of ((a, b, c, d, e), (A, B, C, D, E)) \<Rightarrow> (a + A, b + B, c + C, d + D, e + E))"

definition SHA1ProcessMessageBlock :: "sha1_context \<Rightarrow> sha1_context" where
  "SHA1ProcessMessageBlock c =
    c\<lparr>Message_Digest := add_digest (Message_Digest c) (sha_loops (word_sequence (Message_Block c)) (Message_Digest c)),
      Message_Block_Index := 0\<rparr>"

subsection \<open>Input\<close>

definition put_byte :: "u8 \<Rightarrow> sha1_context \<Rightarrow> sha1_context res" where
  "put_byte b c = rbind (arr_set (Message_Block c) (Message_Block_Index c) b) (\<lambda>blk.
     Inr (c\<lparr>Message_Block := blk, Message_Block_Index := Message_Block_Index c + 1\<rparr>))"

definition count_bits :: "sha1_context \<Rightarrow> sha1_context" where
  "count_bits c =
    (let low = Length_Low c + 8; high = (if low = 0 then Length_High c + 1 else Length_High c)
     in c\<lparr>Length_Low := low, Length_High := high,
          Corrupted := (if low = 0 \<and> high = 0 then True else Corrupted c)\<rparr>)"

definition input_byte :: "u8 \<Rightarrow> sha1_context \<Rightarrow> sha1_context res" where
  "input_byte b c =
    (if Corrupted c then Inr c else
     rbind (put_byte b c) (\<lambda>c. let c = count_bits c in
     Inr (if Message_Block_Index c = 64 then SHA1ProcessMessageBlock c else c)))"

definition SHA1Input :: "u8 list \<Rightarrow> sha1_context \<Rightarrow> sha1_context res" where
  "SHA1Input message_array c =
    (if message_array = [] then Inr c
     else if Computed c \<or> Corrupted c then Inr (c\<lparr>Corrupted := True\<rparr>)
     else rfold input_byte message_array c)"

subsection \<open>Padding and result\<close>

definition fill_zeros :: "nat \<Rightarrow> sha1_context \<Rightarrow> sha1_context res" where
  "fill_zeros limit c = rfold (\<lambda>_. put_byte 0) [Message_Block_Index c..<limit] c"

definition be32 :: "u32 \<Rightarrow> u8 list" where
  "be32 x = [ucast (drop_bit 24 x), ucast (drop_bit 16 x), ucast (drop_bit 8 x), ucast x]"

definition store_length :: "sha1_context \<Rightarrow> sha1_context" where
  "store_length c = c\<lparr>Message_Block := fold (\<lambda>(i, b) blk. blk[i := b])
     (zip [56..<64] (be32 (Length_High c) @ be32 (Length_Low c))) (Message_Block c)\<rparr>"

definition SHA1PadMessage :: "sha1_context \<Rightarrow> sha1_context res" where
  "SHA1PadMessage c =
    rbind (if Message_Block_Index c > 55
       then rbind (put_byte 0x80 c) (\<lambda>c. rbind (fill_zeros 64 c) (\<lambda>c. fill_zeros 56 (SHA1ProcessMessageBlock c)))
       else rbind (put_byte 0x80 c) (fill_zeros 56)) (\<lambda>c.
    Inr (SHA1ProcessMessageBlock (store_length c)))"

definition SHA1Result :: "sha1_context \<Rightarrow> (sha1_context \<times> int) res" where
  "SHA1Result c =
    (if Corrupted c then Inr (c, 0)
     else if \<not> Computed c then rbind (SHA1PadMessage c) (\<lambda>c. Inr (c\<lparr>Computed := True\<rparr>, 1))
     else Inr (c, 1))"

section \<open>FIPS 180-4\<close>

definition Ch :: "u32 \<Rightarrow> u32 \<Rightarrow> u32 \<Rightarrow> u32" where "Ch x y z = (x AND y) XOR (NOT x AND z)"
definition Parity :: "u32 \<Rightarrow> u32 \<Rightarrow> u32 \<Rightarrow> u32" where "Parity x y z = x XOR y XOR z"
definition Maj :: "u32 \<Rightarrow> u32 \<Rightarrow> u32 \<Rightarrow> u32" where "Maj x y z = (x AND y) XOR (x AND z) XOR (y AND z)"

definition fips_f :: "nat \<Rightarrow> u32 \<Rightarrow> u32 \<Rightarrow> u32 \<Rightarrow> u32" where
  "fips_f t = (if t < 20 then Ch else if t < 40 then Parity else if t < 60 then Maj else Parity)"

definition fips_K :: "nat \<Rightarrow> u32" where
  "fips_K t = (if t < 20 then 0x5A827999 else if t < 40 then 0x6ED9EBA1 else if t < 60 then 0x8F1BBCDC else 0xCA62C1D6)"

fun fips_W :: "u8 list \<Rightarrow> nat \<Rightarrow> u32" where
  "fips_W M t = (if t < 16 then word_rcat [M ! (4 * t), M ! (4 * t + 1), M ! (4 * t + 2), M ! (4 * t + 3)]
     else word_rotl 1 (fips_W M (t - 3) XOR fips_W M (t - 8) XOR fips_W M (t - 14) XOR fips_W M (t - 16)))"

definition fips_step :: "u8 list \<Rightarrow> nat \<Rightarrow> sha1_digest \<Rightarrow> sha1_digest" where
  "fips_step M t s = (case s of (a, b, c, d, e) \<Rightarrow>
     (word_rotl 5 a + fips_f t b c d + e + fips_K t + fips_W M t, a, word_rotl 30 b, c, d))"

definition fips_compress :: "sha1_digest \<Rightarrow> u8 list \<Rightarrow> sha1_digest" where
  "fips_compress H M = add_digest H (fold (fips_step M) [0..<80] H)"

function fips_blocks :: "sha1_digest \<Rightarrow> u8 list \<Rightarrow> sha1_digest" where
  "fips_blocks H m = (if length m < 64 then H else fips_blocks (fips_compress H (take 64 m)) (drop 64 m))"
  by pat_completeness auto
termination by (relation "measure (\<lambda>(_, m). length m)") auto

declare fips_W.simps [simp del] fips_blocks.simps [simp del]

definition fips_pad :: "u8 list \<Rightarrow> u8 list" where
  "fips_pad m = m @ [0x80] @ replicate ((119 - length m mod 64) mod 64) 0 @
     map (\<lambda>i. of_nat (8 * length m div 256 ^ (7 - i))) [0..<8]"

definition fips_sha1 :: "u8 list \<Rightarrow> sha1_digest" where
  "fips_sha1 m = fips_blocks (0x67452301, 0xEFCDAB89, 0x98BADCFE, 0x10325476, 0xC3D2E1F0) (fips_pad m)"

section \<open>The block function\<close>

lemma circular_shift:
  assumes "0 < n" and "n < 32"
  shows "SHA1CircularShift n w = word_rotl n w"
proof -
  have "SHA1CircularShift n w = push_bit n w OR drop_bit (32 - n) w"
  proof -
    have ones: "(0xFFFFFFFF :: u32) = - 1" by simp
    show ?thesis unfolding SHA1CircularShift_def ones by simp
  qed
  also have "\<dots> = word_rotl n w"
  proof (rule bit_word_eqI)
    fix i assume "i < LENGTH(32)"
    then have i: "i < 32" by simp
    have "(i + (32 - n)) mod 32 = (if i < n then 32 - n + i else i - n)"
    proof (cases "i < n")
      case False
      then have e: "i + (32 - n) = (i - n) + 32" using assms by simp
      have "(i + (32 - n)) mod 32 = (i - n) mod 32" unfolding e by (rule mod_add_self2)
      then show ?thesis using False i by simp
    qed (use assms in simp)
    then show "bit (push_bit n w OR drop_bit (32 - n) w) i = bit (word_rotl n w) i"
      using assms i by (cases "i < n") (auto simp: bit_word_rotl_iff bit_simps dest: bit_imp_le_length)
  qed
  finally show ?thesis .
qed

lemma f_fips: "f_choose = Ch" "f_parity = Parity" "f_majority = Maj"
  unfolding f_choose_def Ch_def f_parity_def Parity_def f_majority_def Maj_def
  by (intro ext bit_word_eqI; auto simp: bit_simps)+

lemma byte_add_or: "ucast (x :: u8) + push_bit 8 y = (ucast x OR push_bit 8 y :: u32)"
proof (rule disjunctive_add_eq_or)
  show "ucast x AND push_bit 8 y = (0 :: u32)"
    by (rule bit_word_eqI) (auto simp: bit_simps dest: bit_imp_le_length)
qed

lemma block_word_rcat: "block_word M t = word_rcat [M ! (4 * t), M ! (4 * t + 1), M ! (4 * t + 2), M ! (4 * t + 3)]"
proof -
  have "word_rcat [a, b, c, d] = (ucast d + push_bit 8 (ucast c + push_bit 8 (ucast b + push_bit 8 (ucast a))) :: u32)"
    for a b c d :: u8
    by (simp add: word_rcat_def push_bit_eq_mult algebra_simps)
  then have "word_rcat [a, b, c, d] = push_bit 24 (ucast a) OR push_bit 16 (ucast b) OR push_bit 8 (ucast c) OR (ucast d :: u32)"
    for a b c d :: u8
    by (simp only: byte_add_or) (simp add: push_bit_or or.commute or.left_commute or.assoc)
  then show ?thesis by (simp add: block_word_def mult.commute)
qed

lemma sequence_prefix:
  "16 \<le> n \<Longrightarrow> fold next_word [16..<n] (map (block_word M) [0..<16]) = map (fips_W M) [0..<n]"
proof (induction n rule: dec_induct)
  case base
  show ?case by (simp add: block_word_rcat fips_W.simps [of M])
next
  case (step n)
  have "next_word n (map (fips_W M) [0..<n]) = map (fips_W M) [0..<n] @ [fips_W M n]"
    using step.hyps by (simp add: next_word_def circular_shift fips_W.simps [of M n])
  with step show ?case by simp
qed

lemma word_sequence_nth: "t < 80 \<Longrightarrow> word_sequence M ! t = fips_W M t"
  using sequence_prefix [of 80 M] by (simp add: word_sequence_def)

lemma sha_round_fips:
  "t < 80 \<Longrightarrow> f = fips_f t \<Longrightarrow> k = fips_K t \<Longrightarrow> sha_round f k (word_sequence M ! t) s = fips_step M t s"
  by (cases s) (simp add: sha_round_def fips_step_def word_sequence_nth circular_shift add_ac)

lemma fold_eq: "(\<And>x s. x \<in> set xs \<Longrightarrow> f x s = g x s) \<Longrightarrow> fold f xs s = fold g xs s"
  by (induction xs arbitrary: s) auto

lemma upt_join: "i \<le> j \<Longrightarrow> j \<le> k \<Longrightarrow> [i..<j] @ [j..<k] = [i..<k]"
  using upt_add_eq_append [of i j "k - j"] by simp

lemma sha_loops_fips: "sha_loops (word_sequence M) s = fold (fips_step M) [0..<80] s"
proof -
  have "[0..<80] = [0..<20] @ [20..<40] @ [40..<60] @ [60..<80 :: nat]"
    using upt_join [of 0 20 80] upt_join [of 20 40 80] upt_join [of 40 60 80] by (simp del: upt_rec_numeral)
  moreover have "fold (\<lambda>t. sha_round f_choose 0x5A827999 (word_sequence M ! t)) [0..<20] s = fold (fips_step M) [0..<20] s" for s
    by (rule fold_eq) (auto intro!: sha_round_fips simp: fips_f_def fips_K_def f_fips)
  moreover have "fold (\<lambda>t. sha_round f_parity 0x6ED9EBA1 (word_sequence M ! t)) [20..<40] s = fold (fips_step M) [20..<40] s" for s
    by (rule fold_eq) (auto intro!: sha_round_fips simp: fips_f_def fips_K_def f_fips)
  moreover have "fold (\<lambda>t. sha_round f_majority 0x8F1BBCDC (word_sequence M ! t)) [40..<60] s = fold (fips_step M) [40..<60] s" for s
    by (rule fold_eq) (auto intro!: sha_round_fips simp: fips_f_def fips_K_def f_fips)
  moreover have "fold (\<lambda>t. sha_round f_parity 0xCA62C1D6 (word_sequence M ! t)) [60..<80] s = fold (fips_step M) [60..<80] s" for s
    by (rule fold_eq) (auto intro!: sha_round_fips simp: fips_f_def fips_K_def f_fips)
  ultimately show ?thesis by (simp only: sha_loops_def Let_def fold_append comp_apply)
qed

lemma process_block:
  "SHA1ProcessMessageBlock c =
    c\<lparr>Message_Digest := fips_compress (Message_Digest c) (Message_Block c), Message_Block_Index := 0\<rparr>"
  by (simp add: SHA1ProcessMessageBlock_def fips_compress_def sha_loops_fips)

section \<open>Input and padding\<close>

lemma fips_blocks_short: "length r < 64 \<Longrightarrow> fips_blocks H r = H"
  by (simp add: fips_blocks.simps)

lemma fips_blocks_one: "length b = 64 \<Longrightarrow> fips_blocks H (b @ r) = fips_blocks (fips_compress H b) r"
  by (simp add: fips_blocks.simps [of H "b @ r"])

lemma fips_blocks_append: "64 dvd length a \<Longrightarrow> fips_blocks H (a @ b) = fips_blocks (fips_blocks H a) b"
proof (induction H a rule: fips_blocks.induct)
  case (1 H a)
  show ?case
  proof (cases "length a < 64")
    case True
    then have "a = []" using 1(2) by (auto dest: dvd_imp_le)
    then show ?thesis by (simp add: fips_blocks_short)
  next
    case False
    then have "64 dvd length (drop 64 a)" using 1(2) by (simp add: dvd_minus_self)
    from 1(1) [OF False this] False show ?thesis by (simp add: fips_blocks.simps [of H])
  qed
qed

abbreviation "sha1_start \<equiv> (0x67452301, 0xEFCDAB89, 0x98BADCFE, 0x10325476, 0xC3D2E1F0) :: sha1_digest"

abbreviation whole :: "u8 list \<Rightarrow> nat" where
  "whole m \<equiv> 64 * (length m div 64)"

text \<open>The block holds the bytes \<open>r\<close>; two contexts agree on everything but the block.\<close>

definition holds :: "u8 list \<Rightarrow> sha1_context \<Rightarrow> bool" where
  "holds r c \<longleftrightarrow> length (Message_Block c) = 64 \<and> Message_Block_Index c = length r \<and>
     take (length r) (Message_Block c) = r"

definition agree :: "sha1_context \<Rightarrow> sha1_context \<Rightarrow> bool" where
  "agree c d \<longleftrightarrow> Message_Digest c = Message_Digest d \<and> Length_Low c = Length_Low d \<and>
     Length_High c = Length_High d \<and> Computed c = Computed d \<and> Corrupted c = Corrupted d"

definition absorbed :: "u8 list \<Rightarrow> sha1_context \<Rightarrow> bool" where
  "absorbed m c \<longleftrightarrow> holds (drop (whole m) m) c \<and> Message_Digest c = fips_blocks sha1_start (take (whole m) m) \<and>
     unat (Length_High c) * 2 ^ 32 + unat (Length_Low c) = 8 * length m \<and> \<not> Computed c \<and> \<not> Corrupted c"

lemma put_byte_holds:
  assumes "holds r c" and "length r < 64"
  shows "\<exists>c'. put_byte b c = Inr c' \<and> holds (r @ [b]) c' \<and> agree c c'"
proof -
  have "take (Suc (length r)) ((Message_Block c)[length r := b]) = r @ [b]"
    using assms by (simp add: holds_def take_Suc_conv_app_nth)
  then show ?thesis using assms by (simp add: put_byte_def holds_def agree_def)
qed

lemma agree_trans: "agree a b \<Longrightarrow> agree b c \<Longrightarrow> agree a c"
  by (simp add: agree_def)

lemma fill_zeros_holds:
  assumes "holds r c" and "length r \<le> limit" and "limit \<le> 64"
  shows "\<exists>c'. fill_zeros limit c = Inr c' \<and> holds (r @ replicate (limit - length r) 0) c' \<and> agree c c'"
proof -
  have "\<exists>c'. rfold (\<lambda>_. put_byte 0) xs c = Inr c' \<and> holds (r @ replicate (length xs) 0) c' \<and> agree c c'"
    if "holds r c" "length r + length xs \<le> 64" for xs :: "nat list" and r c
    using that
  proof (induction xs arbitrary: r c)
    case (Cons x xs)
    obtain d where d: "put_byte 0 c = Inr d" "holds (r @ [0]) d" "agree c d"
      using put_byte_holds [OF Cons.prems(1)] Cons.prems(2) by auto
    obtain e where "rfold (\<lambda>_. put_byte 0) xs d = Inr e" "holds ((r @ [0]) @ replicate (length xs) 0) e" "agree d e"
      using Cons.IH [OF d(2)] Cons.prems(2) by auto
    then show ?case using d by (auto intro: agree_trans)
  qed (simp add: agree_def)
  from this [OF assms(1), of "[length r..<limit]"] assms show ?thesis by (simp add: fill_zeros_def holds_def)
qed

lemma count_bits_value:
  assumes "unat (Length_High c) * 2 ^ 32 + unat (Length_Low c) = 8 * n" and "8 * (n + 1) < 2 ^ 64" and "\<not> Corrupted c"
  shows "unat (Length_High (count_bits c)) * 2 ^ 32 + unat (Length_Low (count_bits c)) = 8 * (n + 1)"
    and "\<not> Corrupted (count_bits c)"
proof -
  let ?l = "Length_Low c" and ?h = "Length_High c"
  have lt: "unat ?l < 4294967296" "unat ?h < 4294967296"
    using unsigned_less [of ?l, where 'a = nat] unsigned_less [of ?h, where 'a = nat] by simp_all
  have low: "unat (?l + 8) = (unat ?l + 8) mod 4294967296" by (simp add: unat_word_ariths)
  have high: "unat (?h + 1) = (unat ?h + 1) mod 4294967296" by (simp add: unat_word_ariths)
  have eq: "unat ?h * 4294967296 + unat ?l = 8 * n" using assms(1) by simp
  have z: "?l + 8 = 0 \<longleftrightarrow> unat (?l + 8) = 0" "?h + 1 = 0 \<longleftrightarrow> unat (?h + 1) = 0" by (simp_all only: unat_eq_0)
  consider "unat ?l + 8 < 4294967296" | "unat ?l + 8 = 4294967296"
  proof -
    have "8 dvd unat ?h * 4294967296 + unat ?l" by (simp only: eq dvd_triv_left)
    moreover have "8 dvd unat ?h * 4294967296" by (rule dvd_mult) simp
    ultimately have "8 dvd unat ?l" by (simp only: dvd_add_right_iff)
    then obtain k where "unat ?l = 8 * k" ..
    with lt have "k < 536870912" by simp
    then consider "k < 536870911" | "k = 536870911" by linarith
    then show ?thesis using that \<open>unat ?l = 8 * k\<close> by cases simp_all
  qed
  then have "unat (Length_High (count_bits c)) * 2 ^ 32 + unat (Length_Low (count_bits c)) = 8 * (n + 1) \<and> \<not> Corrupted (count_bits c)"
  proof cases
    case 1
    then have "unat (?l + 8) = unat ?l + 8" using low by simp
    with z(1) eq assms(3) show ?thesis by (simp add: count_bits_def Let_def)
  next
    case 2
    then have l: "?l + 8 = 0" using low z(1) by simp
    have "unat ?h + 1 < 4294967296" using eq assms(2) 2 by simp
    then have "unat (?h + 1) = unat ?h + 1" using high by simp
    with z(2) l eq 2 assms(3) show ?thesis by (simp add: count_bits_def Let_def)
  qed
  then show "unat (Length_High (count_bits c)) * 2 ^ 32 + unat (Length_Low (count_bits c)) = 8 * (n + 1)"
    and "\<not> Corrupted (count_bits c)" by auto
qed

lemma count_bits_simps [simp]:
  "Message_Block (count_bits c) = Message_Block c" "Message_Block_Index (count_bits c) = Message_Block_Index c"
  "Message_Digest (count_bits c) = Message_Digest c" "Computed (count_bits c) = Computed c"
  by (simp_all add: count_bits_def Let_def)

lemma whole_append:
  assumes "length m mod 64 < 63"
  shows "whole (m @ [b]) = whole m" "take (whole m) (m @ [b]) = take (whole m) m"
    "drop (whole m) (m @ [b]) = drop (whole m) m @ [b]"
proof -
  show "whole (m @ [b]) = whole m" using assms by (simp add: div_Suc mod_Suc)
qed simp_all

lemma whole_full:
  assumes "length m mod 64 = 63"
  shows "whole (m @ [b]) = length m + 1"
proof -
  have "whole m + 63 = length m" using mult_div_mod_eq [of 64 "length m"] unfolding assms .
  then have e: "length m + 1 = 64 * (length m div 64 + 1)" by simp
  then have "length (m @ [b]) = 64 * (length m div 64 + 1)" by simp
  then have "whole (m @ [b]) = 64 * (length m div 64 + 1)" by (simp only: nonzero_mult_div_cancel_left)
  with e show ?thesis by simp
qed

lemma length_rest: "length (drop (whole m) m) = length m mod 64"
  by (simp add: minus_mult_div_eq_mod)

lemma input_byte_absorbed:
  assumes "absorbed m c" and "8 * (length m + 1) < 2 ^ 64"
  shows "\<exists>c'. input_byte b c = Inr c' \<and> absorbed (m @ [b]) c'"
proof -
  let ?r = "drop (whole m) m"
  have c: "holds ?r c" "Message_Digest c = fips_blocks sha1_start (take (whole m) m)"
    "unat (Length_High c) * 2 ^ 32 + unat (Length_Low c) = 8 * length m" "\<not> Computed c" "\<not> Corrupted c"
    using assms(1) by (simp_all add: absorbed_def)
  have r: "length ?r = length m mod 64" "length ?r < 64" by (simp_all only: length_rest mod_less_divisor zero_less_numeral)
  obtain d where d: "put_byte b c = Inr d" "holds (?r @ [b]) d" "agree c d"
    using put_byte_holds [OF c(1) r(2)] by blast
  have dn: "unat (Length_High d) * 2 ^ 32 + unat (Length_Low d) = 8 * length m" "\<not> Corrupted d" "\<not> Computed d"
    "Message_Digest d = fips_blocks sha1_start (take (whole m) m)"
    using d(3) c by (simp_all add: agree_def)
  note cnt = count_bits_value [OF dn(1) assms(2) dn(2)]
  have idx: "Message_Block_Index d = length m mod 64 + 1" using d(2) r(1) by (simp add: holds_def)
  have step: "input_byte b c = Inr (if Message_Block_Index d = 64 then SHA1ProcessMessageBlock (count_bits d) else count_bits d)"
    using c(5) d(1) by (simp add: input_byte_def Let_def)
  show ?thesis
  proof (cases "length m mod 64 < 63")
    case True
    then have "absorbed (m @ [b]) (count_bits d)"
      using d(2) cnt dn(3,4) unfolding absorbed_def whole_append(1) [OF True] whole_append(2,3) holds_def by simp
    with True show ?thesis using step idx by simp
  next
    case False
    then have full: "length m mod 64 = 63" using r by simp
    have blk: "Message_Block d = ?r @ [b]" using d(2) full r(1) take_all [of "Message_Block d" 64] by (auto simp: holds_def)
    have m: "m @ [b] = take (whole m) m @ (?r @ [b])" by simp
    have "fips_blocks sha1_start (m @ [b]) = fips_blocks (Message_Digest d) (?r @ [b])"
      unfolding dn(4) by (subst m, rule fips_blocks_append) simp
    also have "\<dots> = fips_compress (Message_Digest d) (?r @ [b])"
      using fips_blocks_one [of "?r @ [b]" "Message_Digest d" "[]"] full r(1) by (simp add: fips_blocks_short)
    finally have "absorbed (m @ [b]) (SHA1ProcessMessageBlock (count_bits d))"
      using cnt dn(3) d(2) unfolding absorbed_def whole_full [OF full] by (simp add: process_block blk holds_def)
    then show ?thesis using step idx full by simp
  qed
qed

lemma input_bytes_absorbed:
  assumes "absorbed m c" and "8 * length (m @ bs) < 2 ^ 64"
  shows "\<exists>c'. rfold input_byte bs c = Inr c' \<and> absorbed (m @ bs) c'"
  using assms
proof (induction bs arbitrary: m c)
  case (Cons b bs)
  obtain d where d: "input_byte b c = Inr d" "absorbed (m @ [b]) d"
    using input_byte_absorbed [OF Cons.prems(1)] Cons.prems(2) by auto
  from Cons.IH [OF d(2)] Cons.prems(2) d(1) show ?case by simp
qed simp

lemma input_absorbed:
  assumes "absorbed m c" and "8 * length (m @ bs) < 2 ^ 64"
  shows "\<exists>c'. SHA1Input bs c = Inr c' \<and> absorbed (m @ bs) c'"
  using input_bytes_absorbed [OF assms] assms(1) by (simp add: SHA1Input_def absorbed_def)

lemma inputs_absorbed:
  assumes "absorbed m c" and "8 * length (m @ concat ps) < 2 ^ 64"
  shows "\<exists>c'. rfold SHA1Input ps c = Inr c' \<and> absorbed (m @ concat ps) c'"
  using assms
proof (induction ps arbitrary: m c)
  case (Cons p ps)
  have "8 * length (m @ p) < 2 ^ 64" using Cons.prems(2) by simp
  then obtain d where d: "SHA1Input p c = Inr d" "absorbed (m @ p) d"
    using input_absorbed [OF Cons.prems(1)] by blast
  from Cons.IH [OF d(2)] Cons.prems(2) d(1) show ?case by simp
qed simp

lemma reset_absorbed: "length (Message_Block c) = 64 \<Longrightarrow> absorbed [] (SHA1Reset c)"
  by (simp add: absorbed_def SHA1Reset_def holds_def fips_blocks_short)

section \<open>The result\<close>

lemma store_length_block:
  assumes "length (Message_Block c) = 64"
  shows "Message_Block (store_length c) = take 56 (Message_Block c) @ be32 (Length_High c) @ be32 (Length_Low c)"
proof -
  define xs ys where "xs = take 56 (Message_Block c)" and "ys = drop 56 (Message_Block c)"
  then have y: "Message_Block c = xs @ ys" "length ys = 8" "length xs = 56" using assms by simp_all
  then obtain a0 a1 a2 a3 a4 a5 a6 a7 where "ys = [a0, a1, a2, a3, a4, a5, a6, a7]"
    by (auto simp: length_Suc_conv eval_nat_numeral)
  with y show ?thesis by (simp add: store_length_def be32_def list_update_append)
qed

lemma byte_of_shift: "of_nat (unat x div 2 ^ j) = (ucast (drop_bit j x) :: u8)" for x :: u32
proof -
  have "unat (drop_bit j x) = unat x div 2 ^ j"
    using unsigned_less [of x, where 'a = nat] by (simp only: unsigned_drop_bit_eq) (simp add: drop_bit_eq_div take_bit_nat_eq_self)
  then show ?thesis by (metis of_nat_unat)
qed

lemma length_bytes_be:
  assumes "unat h * 2 ^ 32 + unat l = n"
  shows "map (\<lambda>i. of_nat (n div 256 ^ (7 - i)) :: u8) [0..<8] = be32 h @ be32 (l :: u32)"
proof -
  let ?h = "unat h" and ?l = "unat l"
  have lt: "?l < 4294967296" using unsigned_less [of l, where 'a = nat] by simp
  have n: "n = ?h * 4294967296 + ?l" using assms by simp
  have hi: "n div 4294967296 = ?h" using lt by (simp add: n)
  have z: "of_nat (256 * k) = (0 :: u8)" for k by (simp only: word_of_nat_eq_0_iff) simp
  have up: "of_nat (n div (4294967296 * 2 ^ j)) = (ucast (drop_bit j h) :: u8)" for j
    by (simp only: div_mult2_eq hi byte_of_shift)
  have low: "of_nat (n div 2 ^ j) = (ucast (drop_bit j l) :: u8)" if "j \<le> 24" for j
  proof -
    have "(4294967296 :: nat) = 2 ^ j * (256 * 2 ^ (24 - j))"
      using that by (simp add: power_add [symmetric] mult.left_commute [of _ 256])
    then have "n = ?l + 2 ^ j * (256 * (2 ^ (24 - j) * ?h))" by (simp add: n)
    then have "n div 2 ^ j = 256 * (2 ^ (24 - j) * ?h) + ?l div 2 ^ j" by simp
    then have "of_nat (n div 2 ^ j) = of_nat (256 * (2 ^ (24 - j) * ?h)) + (of_nat (?l div 2 ^ j) :: u8)" by (simp only: of_nat_add)
    then show ?thesis by (simp only: z byte_of_shift add_0)
  qed
  have "[0..<8] = [0, 1, 2, 3, 4, 5, 6, 7 :: nat]" by (simp add: upt_rec)
  then show ?thesis
    using up [of 24] up [of 16] up [of 8] up [of 0] low [of 24] low [of 16] low [of 8] low [of 0] by (simp add: be32_def)
qed

lemma final_block:
  assumes "holds r c" and "length r = 56"
  shows "Message_Digest (SHA1ProcessMessageBlock (store_length c)) =
    fips_compress (Message_Digest c) (r @ be32 (Length_High c) @ be32 (Length_Low c))"
proof -
  have "take 56 (Message_Block c) = r" "length (Message_Block c) = 64" using assms by (auto simp: holds_def)
  then have "Message_Block (store_length c) = r @ be32 (Length_High c) @ be32 (Length_Low c)"
    by (simp add: store_length_block)
  moreover have "Message_Digest (store_length c) = Message_Digest c" by (simp add: store_length_def)
  ultimately show ?thesis by (simp add: process_block)
qed

lemma pad_rest:
  assumes "r = drop (whole m) m" and "unat h * 2 ^ 32 + unat l = 8 * length m"
  shows "fips_sha1 m = fips_blocks (fips_blocks sha1_start (take (whole m) m))
    (r @ [0x80] @ replicate ((119 - length r) mod 64) 0 @ be32 h @ be32 l)"
proof -
  have "fips_pad m = take (whole m) m @ (r @ [0x80] @ replicate ((119 - length r) mod 64) 0 @ be32 h @ be32 l)"
    using length_bytes_be [OF assms(2)] by (simp add: fips_pad_def assms(1) minus_mult_div_eq_mod)
  moreover have "64 dvd length (take (whole m) m)" by simp
  ultimately show ?thesis by (simp only: fips_sha1_def fips_blocks_append)
qed

lemma length_be32 [simp]: "length (be32 x) = 4"
  by (simp add: be32_def)

lemma pad_message:
  assumes "absorbed m c" and "8 * length m < 2 ^ 64"
  shows "\<exists>c'. SHA1PadMessage c = Inr c' \<and> Message_Digest c' = fips_sha1 m"
proof -
  define r where "r = drop (whole m) m"
  let ?len = "be32 (Length_High c) @ be32 (Length_Low c)"
  have c: "holds r c" "Message_Digest c = fips_blocks sha1_start (take (whole m) m)"
    "unat (Length_High c) * 2 ^ 32 + unat (Length_Low c) = 8 * length m"
    using assms(1) by (simp_all add: absorbed_def r_def)
  note spec = pad_rest [OF r_def c(3), folded c(2)]
  have r: "length r < 64" "Message_Block_Index c = length r"
    using c(1) unfolding r_def length_rest by (simp_all add: holds_def minus_mult_div_eq_mod)
  obtain d where d: "put_byte 0x80 c = Inr d" "holds (r @ [0x80]) d" "agree c d"
    using put_byte_holds [OF c(1) r(1)] by blast
  show ?thesis
  proof (cases "length r > 55")
    case False
    obtain e where e: "fill_zeros 56 d = Inr e" "holds ((r @ [0x80]) @ replicate (56 - length (r @ [0x80])) 0) e" "agree d e"
      using fill_zeros_holds [OF d(2), of 56] False by auto
    let ?b = "r @ [0x80] @ replicate (55 - length r) 0"
    have e': "holds ?b e" "agree c e" using e d(3) by (auto intro: agree_trans)
    have "(119 - length r) mod 64 = 55 - length r" using False by (simp add: mod_if)
    moreover have "length ?b = 56" using False by simp
    ultimately have "fips_sha1 m = fips_compress (Message_Digest c) (?b @ ?len)"
      using spec fips_blocks_one [of "?b @ ?len" "Message_Digest c" "[]"] by (simp add: fips_blocks_short)
    moreover have "Message_Digest (SHA1ProcessMessageBlock (store_length e)) = fips_compress (Message_Digest c) (?b @ ?len)"
      using final_block [OF e'(1) \<open>length ?b = 56\<close>] e'(2) by (simp add: agree_def)
    ultimately show ?thesis using False d(1) e(1) r(2) by (simp add: SHA1PadMessage_def)
  next
    case True
    obtain e where e: "fill_zeros 64 d = Inr e" "holds ((r @ [0x80]) @ replicate (64 - length (r @ [0x80])) 0) e" "agree d e"
      using fill_zeros_holds [OF d(2), of 64] r(1) by auto
    let ?b = "r @ [0x80] @ replicate (63 - length r) 0" and ?z = "replicate 56 (0 :: u8)"
    have lb: "length ?b = 64" using r(1) by simp
    have e': "Message_Block e = ?b" "length (Message_Block e) = 64" "agree c e"
      using e d(3) lb take_all [of "Message_Block e" 64] by (auto simp: holds_def intro: agree_trans)
    let ?p = "SHA1ProcessMessageBlock e"
    have p: "holds [] ?p" "Message_Digest ?p = fips_compress (Message_Digest c) ?b"
      "Length_High ?p = Length_High c" "Length_Low ?p = Length_Low c"
      using e' by (simp_all add: process_block holds_def agree_def)
    obtain g where g: "fill_zeros 56 ?p = Inr g" "holds ?z g" "agree ?p g"
      using fill_zeros_holds [OF p(1), of 56] by auto
    have "119 - length r = 64 + (55 - length r) \<or> 119 - length r = 63 - length r + 56" using r(1) by simp
    then have "(119 - length r) mod 64 = 63 - length r + 56" using True r(1) by simp
    then have "r @ [0x80] @ replicate ((119 - length r) mod 64) 0 @ ?len = ?b @ (?z @ ?len)"
      by (simp only: replicate_add append_assoc)
    then have "fips_sha1 m = fips_compress (fips_compress (Message_Digest c) ?b) (?z @ ?len)"
      using spec fips_blocks_one [OF lb] fips_blocks_one [of "?z @ ?len" _ "[]"] by (simp add: fips_blocks_short)
    moreover have "Message_Digest (SHA1ProcessMessageBlock (store_length g)) = fips_compress (fips_compress (Message_Digest c) ?b) (?z @ ?len)"
      using final_block [OF g(2)] g(3) p by (simp add: agree_def)
    ultimately show ?thesis using True d(1) e(1) g(1) r(2) by (simp add: SHA1PadMessage_def)
  qed
qed

lemma sha1_stream:
  assumes "length (Message_Block c) = 64" and "8 * length (concat ps) < 2 ^ 64"
  shows "\<exists>c' c''. rfold SHA1Input ps (SHA1Reset c) = Inr c' \<and> SHA1Result c' = Inr (c'', 1) \<and>
    Message_Digest c'' = fips_sha1 (concat ps)"
proof -
  obtain c' where c': "rfold SHA1Input ps (SHA1Reset c) = Inr c'" "absorbed (concat ps) c'"
    using inputs_absorbed [OF reset_absorbed [OF assms(1)]] assms(2) by auto
  obtain d where "SHA1PadMessage c' = Inr d" "Message_Digest d = fips_sha1 (concat ps)"
    using pad_message [OF c'(2)] assms(2) by auto
  with c' show ?thesis by (simp add: SHA1Result_def absorbed_def)
qed

section \<open>Properties\<close>

text \<open>
  C40: The digest is SHA-1 as FIPS 180-4 defines it: however a message of less than 2^64 bits is cut
  into pieces, feeding them to a fresh context and asking for the result succeeds and gives the
  digest of the whole message, whatever the block buffer held.
\<close>

theorem sha1_correct:
  assumes "length (Message_Block c) = 64" and "8 * length (concat ps) < 2 ^ 64"
  shows "\<exists>c' c''. rfold SHA1Input ps (SHA1Reset c) = Inr c' \<and> SHA1Result c' = Inr (c'', 1) \<and>
    Message_Digest c'' = fips_sha1 (concat ps)"
  by (rule sha1_stream [OF assms])

definition ex_context :: sha1_context where
  "ex_context = SHA1Reset \<lparr>Message_Digest = sha1_start, Length_Low = 7, Length_High = 0,
     Message_Block = replicate 64 1, Message_Block_Index = 3, Computed = True, Corrupted = True\<rparr>"

theorem sha1_correct_witness:
  "\<exists>c' c''. rfold SHA1Input [[97], [98, 99]] (SHA1Reset ex_context) = Inr c' \<and> SHA1Result c' = Inr (c'', 1) \<and>
    Message_Digest c'' = fips_sha1 [97, 98, 99]"
  using sha1_correct [of ex_context "[[97], [98, 99]]"] by (simp add: ex_context_def SHA1Reset_def)

end
