(* ===== verification/Auth.thy ===== *)
theory Auth
  imports Routing Sha1
begin

text \<open>
  The answer to the authentication request of the server (\<^verbatim>\<open>sr_handle_auth_request\<close> of
  \<^verbatim>\<open>router/sr_vns_comm.c\<close>): the SHA-1 digest of the salt and the user's key.
\<close>

section \<open>The code\<close>

definition AUTH_KEY_LEN :: nat where "AUTH_KEY_LEN = 64"
definition SHA1_LEN :: nat where "SHA1_LEN = 20"

definition strlen :: "name \<Rightarrow> nat res" where
  "strlen s = (if 0 \<in> set s then Inr (length (takeWhile (\<lambda>c. c \<noteq> 0) s)) else Inl OutOfBounds)"

definition digest_bytes :: "sha1_digest \<Rightarrow> u8 list" where
  "digest_bytes d = (case d of (a, b, c, e, f) \<Rightarrow> concat (map (\<lambda>x. bytes32 (htonl x)) [a, b, c, e, f]))"

definition auth_reply :: "name \<Rightarrow> nat \<Rightarrow> sha1_digest \<Rightarrow> u8 list" where
  "auth_reply user len_username d =
    bytes32 (htonl (of_nat (12 + len_username + SHA1_LEN))) @ bytes32 (htonl 256) @
    bytes32 (htonl (of_nat len_username)) @ take len_username user @ digest_bytes d"

text \<open>
  \<open>key\<close> is the buffer after \<^verbatim>\<open>fgets\<close>, or nothing when the file cannot be read; \<open>sha1\<close> is the
  uninitialised context. The result is the message that is sent and the value returned.
\<close>

definition sr_handle_auth_request ::
  "u8 list option \<Rightarrow> name \<Rightarrow> sha1_context \<Rightarrow> u8 list \<Rightarrow> (u8 list option \<times> int) res" where
  "sr_handle_auth_request key user sha1 req =
    (case key of None \<Rightarrow> Inr (None, 0)
     | Some auth_key \<Rightarrow>
       rbind (ld32 req 0) (\<lambda>mLen.
       rbind (ldn (unat (htonl mLen - 8)) req 8) (\<lambda>salt.
       rbind (SHA1Input salt (SHA1Reset sha1)) (\<lambda>c.
       rbind (ldn AUTH_KEY_LEN auth_key 0) (\<lambda>k.
       rbind (SHA1Input k c) (\<lambda>c.
       rbind (SHA1Result c) (\<lambda>(c, ok).
       if ok = 0 then Inr (None, 0) else
       rbind (strlen user) (\<lambda>len_username.
       Inr (Some (auth_reply user len_username (Message_Digest c)), 1)))))))))"

section \<open>The reply\<close>

lemma ld32_at_start: "p = bytes32 x @ q \<Longrightarrow> ld32 p 0 = Inr x"
  by (rule ld32_bytes32) (simp add: ldn_def)

text \<open>
  A request with a salt is answered with the name of the user and the SHA-1 digest of the salt
  followed by the 64 bytes of the key, in network byte order.
\<close>

lemma auth_reply_digest:
  assumes "length salt \<le> 10000" and "length key = 65" and "length (Message_Block sha1) = 64" and "0 \<notin> set user"
    and "req = bytes32 (htonl (of_nat (8 + length salt))) @ t @ salt" and "length t = 4"
  shows "sr_handle_auth_request (Some key) (user @ 0 # rest) sha1 req =
    Inr (Some (bytes32 (htonl (of_nat (32 + length user))) @ bytes32 (htonl 256) @
      bytes32 (htonl (of_nat (length user))) @ user @ digest_bytes (fips_sha1 (salt @ take 64 key))), 1)"
proof -
  have len: "ld32 req 0 = Inr (htonl (of_nat (8 + length salt)))" by (rule ld32_at_start [OF assms(5)])
  have "unat (of_nat (length salt) :: u32) = length salt"
    using assms(1) by (simp only: unsigned_of_nat) (simp add: take_bit_nat_eq_self)
  then have n: "unat (htonl (htonl (of_nat (8 + length salt))) - 8) = length salt" by simp
  have s: "ldn (length salt) req 8 = Inr salt" using assms(5,6) by (simp add: ldn_def)
  have k: "ldn AUTH_KEY_LEN key 0 = Inr (take 64 key)" using assms(2) by (simp add: AUTH_KEY_LEN_def)
  have "8 * length (concat [salt, take 64 key]) < 2 ^ 64" using assms(1,2) by simp
  from sha1_stream [OF assms(3) this] obtain c d where
    "rbind (SHA1Input salt (SHA1Reset sha1)) (SHA1Input (take 64 key)) = Inr c" "SHA1Result c = Inr (d, 1)"
    "Message_Digest d = fips_sha1 (salt @ take 64 key)"
    by (auto simp: rbind_def split: sum.splits)
  then obtain c0 where c: "SHA1Input salt (SHA1Reset sha1) = Inr c0" "SHA1Input (take 64 key) c0 = Inr c"
    "SHA1Result c = Inr (d, 1)" "Message_Digest d = fips_sha1 (salt @ take 64 key)"
    by (auto simp: rbind_Inr_iff)
  have u: "takeWhile (\<lambda>c. c \<noteq> 0) (user @ 0 # rest) = user"
    using assms(4) by (subst takeWhile_append2) auto
  have l: "strlen (user @ 0 # rest) = Inr (length user)" unfolding strlen_def u by simp
  show ?thesis
    unfolding sr_handle_auth_request_def option.case len rbind_simps n s c k prod.case l
    by (simp add: c(4) auth_reply_def SHA1_LEN_def add.commute)
qed

end
