(* ===== verification/RouteFile.thy ===== *)
theory RouteFile
  imports Routing Scan
begin

text \<open>
  The routing table as text: the file that \<^verbatim>\<open>sr_load_rt\<close> reads (\<^verbatim>\<open>router/sr_rt.c\<close>, with
  \<^verbatim>\<open>sr_load_rt_wrap\<close> of \<^verbatim>\<open>router/sr_main.c\<close>) and the table that \<^verbatim>\<open>sr_print_routing_table\<close> prints. The
  standard library's conversions between addresses and dotted notation are written out: parts are
  numbers in C notation (decimal, octal after \<^verbatim>\<open>0\<close>, hexadecimal after \<^verbatim>\<open>0x\<close>), and a last part may
  stand for several bytes.
\<close>

section \<open>Dotted notation\<close>

definition digit_val :: "u8 \<Rightarrow> nat" where
  "digit_val c = (if 48 \<le> c \<and> c \<le> 57 then unat c - 48 else if 97 \<le> c \<and> c \<le> 102 then unat c - 87
     else if 65 \<le> c \<and> c \<le> 70 then unat c - 55 else 99)"

definition read_digits :: "nat \<Rightarrow> u8 list \<Rightarrow> nat \<times> u8 list" where
  "read_digits b s = (foldl (\<lambda>v d. b * v + digit_val d) 0 (takeWhile (\<lambda>c. digit_val c < b) s),
     dropWhile (\<lambda>c. digit_val c < b) s)"

definition c_number :: "u8 list \<Rightarrow> nat \<times> u8 list" where
  "c_number s = (if hd s \<noteq> 48 then read_digits 10 s
     else if length s \<ge> 3 \<and> (s ! 1 = 120 \<or> s ! 1 = 88) \<and> digit_val (s ! 2) < 16 then read_digits 16 (drop 2 s)
     else read_digits 8 s)"

text \<open>\<open>k\<close> dots may still follow; \<open>acc\<close> is the value of the parts so far.\<close>

fun inet_parts :: "nat \<Rightarrow> nat \<Rightarrow> u8 list \<Rightarrow> nat option" where
  "inet_parts k acc s =
    (if s = [] \<or> \<not> is_digit (hd s) then None
     else let (v, t) = c_number s in
       if t \<noteq> [] \<and> hd t = 46 then
         (case k of 0 \<Rightarrow> None | Suc k \<Rightarrow> if v > 255 then None else inet_parts k (256 * acc + v) (tl t))
       else if t \<noteq> [] \<and> \<not> is_space (hd t) then None
       else if v \<ge> 256 ^ Suc k then None
       else Some (256 ^ Suc k * acc + v))"

declare inet_parts.simps [simp del]

definition inet_aton :: "u8 list \<Rightarrow> u32 option" where
  "inet_aton s = map_option (\<lambda>v. htonl (of_nat v)) (inet_parts 3 0 s)"

section \<open>Reading the file\<close>

definition BUFSIZ :: nat where "BUFSIZ = 8192"

text \<open>
  The buffers of the words on a line keep their contents from line to line; \<open>None\<close> stands for a
  buffer that was never written.
\<close>

fun scan_words :: "u8 list \<Rightarrow> u8 list option list \<Rightarrow> u8 list option list res" where
  "scan_words s [] = Inr []"
| "scan_words s (w # ws) = (case scan_word s of None \<Rightarrow> Inr (w # ws)
     | Some (v, t) \<Rightarrow> if length v < 32 then rbind (scan_words t ws) (\<lambda>ws. Inr (Some v # ws)) else Inl OutOfBounds)"

definition word_read :: "u8 list option \<Rightarrow> u8 list res" where
  "word_read w = (case w of None \<Rightarrow> Inl Uninitialised | Some v \<Rightarrow> Inr v)"

record load_state =
  clear_routing_table :: bool
  loaded :: "sr_rt list"
  bufs :: "u8 list option list"

text \<open>One round of the loop; the flag says that the function returns with an error.\<close>

definition load_line :: "u8 list \<Rightarrow> load_state \<Rightarrow> (bool \<times> load_state) res" where
  "load_line line st =
    rbind (scan_words (takeWhile (\<lambda>c. c \<noteq> 0) line) (bufs st)) (\<lambda>ws. let st = st\<lparr>bufs := ws\<rparr> in
    rbind (word_read (ws ! 0)) (\<lambda>dest. case inet_aton dest of None \<Rightarrow> Inr (True, st) | Some dest_addr \<Rightarrow>
    rbind (word_read (ws ! 1)) (\<lambda>gw. case inet_aton gw of None \<Rightarrow> Inr (True, st) | Some gw_addr \<Rightarrow>
    rbind (word_read (ws ! 2)) (\<lambda>m. case inet_aton m of None \<Rightarrow> Inr (True, st) | Some mask_addr \<Rightarrow>
    let rt = (if clear_routing_table st then loaded st else []) in
    rbind (word_read (ws ! 3)) (\<lambda>iface.
    rbind (sr_add_rt_entry rt dest_addr gw_addr mask_addr (iface @ [0])) (\<lambda>rt.
    Inr (False, st\<lparr>clear_routing_table := True, loaded := rt\<rparr>)))))))"

function load_lines :: "u8 list \<Rightarrow> load_state \<Rightarrow> (bool \<times> load_state) res" where
  "load_lines fp st =
    (if fp = [] then Inr (False, st)
     else let line = take (BUFSIZ - 1) (first_line fp) in
       rbind (load_line line st) (\<lambda>(err, st).
       if err then Inr (True, st) else load_lines (drop (length line) fp) st))"
  by auto
termination
  by (relation "measure (length \<circ> fst)") (auto simp: BUFSIZ_def)

declare load_lines.simps [simp del]

definition sr_load_rt :: "u8 list option \<Rightarrow> sr_rt list \<Rightarrow> (sr_rt list \<times> int) res" where
  \<comment> \<open>the contents of the file, if it can be read\<close>
  "sr_load_rt file rt = (case file of None \<Rightarrow> Inr (rt, -1)
     | Some fp \<Rightarrow> rbind (load_lines fp \<lparr>clear_routing_table = False, loaded = rt, bufs = replicate 4 None\<rparr>)
         (\<lambda>(err, st). Inr (loaded st, if err then -1 else 0)))"

section \<open>Printing the table\<close>

definition sr_print_routing_entry :: "sr_rt \<Rightarrow> u8 list res" where
  "sr_print_routing_entry e =
    (if 0 \<in> set (rt_if e) then
       Inr (inet_ntoa (rt_dest e) @ [9, 9] @ inet_ntoa (rt_gw e) @ [9] @ inet_ntoa (rt_mask e) @ [9] @
         takeWhile (\<lambda>c. c \<noteq> 0) (rt_if e) @ [10])
     else Inl OutOfBounds)"

definition print_entries :: "sr_rt list \<Rightarrow> u8 list res" where
  "print_entries rt = rfold (\<lambda>e out. rbind (sr_print_routing_entry e) (\<lambda>l. Inr (out @ l))) rt []"

definition table_header :: "u8 list" where
  "table_header = chars ''Destination'' @ [9] @ chars ''Gateway'' @ [9, 9] @ chars ''Mask'' @ [9] @ chars ''Iface'' @ [10]"

definition sr_print_routing_table :: "sr_rt list \<Rightarrow> u8 list res" where
  "sr_print_routing_table rt =
    (if rt = [] then Inr (chars '' *warning* Routing table empty '' @ [10])
     else rbind (print_entries rt) (\<lambda>out. Inr (table_header @ out)))"

definition sr_load_rt_wrap :: "u8 list option \<Rightarrow> sr_rt list \<Rightarrow> sr_rt list res" where
  "sr_load_rt_wrap file rt =
    rbind (sr_load_rt file rt) (\<lambda>(rt, r). if r \<noteq> 0 then Inl (ExitCall 1)
     else rbind (sr_print_routing_table rt) (\<lambda>_. Inr rt))"

section \<open>Addresses are read back\<close>

lemma digit_val_byte:
  assumes "d < 10"
  shows "digit_val (of_nat (48 + d)) = d"
  using assms digit_byte [OF assms] by (simp add: digit_val_def word_le_nat_alt)

lemma digit_val_less: "is_digit c \<Longrightarrow> digit_val c < 10"
  by (auto simp: is_digit_def digit_val_def word_le_nat_alt)

lemma digit_val_dot [simp]: "digit_val 46 = 99"
  by (simp add: digit_val_def)

lemma decimal_read: "foldl (\<lambda>v d. 10 * v + digit_val d) 0 (decimal n) = n"
proof (induction n rule: decimal.induct)
  case (1 n)
  show ?case
  proof (cases "n < 10")
    case True
    then show ?thesis by (simp only: decimal.simps [of n] if_True foldl.simps digit_val_byte mult_0_right add_0)
  next
    case False
    have "digit_val (of_nat (48 + n mod 10)) = n mod 10" by (rule digit_val_byte) simp
    then show ?thesis using False "1.IH" [OF False]
      by (simp only: decimal.simps [of n] if_False foldl_append foldl.simps) simp
  qed
qed

lemma hd_decimal: "hd (decimal n) = 48 \<longleftrightarrow> n = 0"
proof (induction n rule: decimal.induct)
  case (1 n)
  show ?case
  proof (cases "n < 10")
    case True
    then have "(of_nat (48 + n) :: u8) = 48 \<longleftrightarrow> n = 0" using digit_byte [OF True] by (auto simp: word_unat_eq_iff)
    then show ?thesis using True by (simp only: decimal.simps [of n] if_True list.sel)
  next
    case False
    then show ?thesis using "1.IH" [OF False] by (simp add: decimal.simps [of n] hd_append)
  qed
qed

lemma c_number_decimal:
  assumes "t = [] \<or> hd t = 46"
  shows "c_number (decimal n @ t) = (n, t)"
proof (cases "n = 0")
  case True
  have "decimal n = [48]" by (simp add: True decimal.simps [of 0])
  moreover have "digit_val 48 = 0" by (simp add: digit_val_def)
  ultimately show ?thesis using assms using True by (cases t) (auto simp: c_number_def read_digits_def)
next
  case False
  have d: "\<forall>c \<in> set (decimal n). digit_val c < 10" using decimal_digits digit_val_less by blast
  then have "takeWhile (\<lambda>c. digit_val c < 10) (decimal n @ t) = decimal n"
    "dropWhile (\<lambda>c. digit_val c < 10) (decimal n @ t) = t"
    using assms by (cases t; auto simp: takeWhile_append2 dropWhile_append2)+
  then show ?thesis using False by (simp add: c_number_def hd_append hd_decimal read_digits_def decimal_read)
qed

lemma inet_parts_decimal:
  assumes "n \<le> 255"
  shows "inet_parts (Suc k) acc (decimal n @ 46 # t) = inet_parts k (256 * acc + n) t"
    and "inet_parts 0 acc (decimal n) = Some (256 * acc + n)"
proof -
  have d: "is_digit (hd (decimal n))" using decimal_digits [of n] by simp
  show "inet_parts (Suc k) acc (decimal n @ 46 # t) = inet_parts k (256 * acc + n) t"
    using assms d by (subst inet_parts.simps) (simp add: hd_append c_number_decimal)
  show "inet_parts 0 acc (decimal n) = Some (256 * acc + n)"
    using assms d c_number_decimal [of "[]" n] by (subst inet_parts.simps) simp
qed

lemma word32_sum: "word32 a b c d = ucast a + 2 ^ 8 * ucast b + 2 ^ 16 * ucast c + 2 ^ 24 * ucast d"
proof -
  have "push_bit 24 (ucast d) + (push_bit 16 (ucast c) + (push_bit 8 (ucast b) + ucast a)) =
      (push_bit 24 (ucast d) OR (push_bit 16 (ucast c) OR (push_bit 8 (ucast b) OR ucast a)) :: u32)"
    by (subst disjunctive_add; (auto simp: bit_simps dest: bit_imp_le_length)?)+
  also have "\<dots> = word32 a b c d" by (simp add: word32_def or.commute or.left_commute or.assoc)
  finally show ?thesis by (simp add: push_bit_eq_mult algebra_simps)
qed

lemma unat_byte_le: "unat (v :: u8) \<le> 255"
proof -
  have "unat v < 2 ^ LENGTH(8)" by (rule unsigned_less)
  then show ?thesis by simp
qed

lemma inet_aton_ntoa: "inet_aton (inet_ntoa x) = Some x"
proof -
  obtain a b c d where x: "bytes32 x = [a, b, c, d]" by (simp add: bytes32_def)
  have small: "unat v \<le> 255" for v :: u8 by (rule unat_byte_le)
  have "inet_parts 3 0 (inet_ntoa x) = Some (256 * (256 * (256 * unat a + unat b) + unat c) + unat d)"
    by (simp add: inet_ntoa_def x numeral_3_eq_3 inet_parts_decimal small)
  moreover have "of_nat (256 * (256 * (256 * unat a + unat b) + unat c) + unat d) = word32 d c b a"
    by (simp add: word32_sum algebra_simps)
  moreover have "htonl (word32 d c b a) = word32 a b c d" by (simp add: htonl_def)
  moreover have "word32 a b c d = x" using word32_bytes32 [of x] by (simp add: x)
  ultimately show ?thesis by (simp add: inet_aton_def)
qed

section \<open>The printed table is read back\<close>

text \<open>An entry with the name of an interface, padded to its 32 bytes.\<close>

definition entry_text_ok :: "sr_rt \<Rightarrow> bool" where
  "entry_text_ok e \<longleftrightarrow> (\<exists>n. rt_if e = n @ replicate (32 - length n) 0 \<and> n \<noteq> [] \<and> length n < 32 \<and>
     (\<forall>c \<in> set n. \<not> is_space c \<and> c \<noteq> 0))"

definition entry_line :: "sr_rt \<Rightarrow> u8 list" where
  "entry_line e = inet_ntoa (rt_dest e) @ [9, 9] @ inet_ntoa (rt_gw e) @ [9] @ inet_ntoa (rt_mask e) @ [9] @
     takeWhile (\<lambda>c. c \<noteq> 0) (rt_if e) @ [10]"

lemma entry_text_okE:
  assumes "entry_text_ok e"
  obtains n where "rt_if e = n @ replicate (32 - length n) 0" "n \<noteq> []" "length n < 32"
    "\<forall>c \<in> set n. \<not> is_space c" "0 \<notin> set n" "takeWhile (\<lambda>c. c \<noteq> 0) (rt_if e) = n" "0 \<in> set (rt_if e)"
proof -
  obtain n where n: "rt_if e = n @ replicate (32 - length n) 0" "n \<noteq> []" "length n < 32" "\<forall>c \<in> set n. \<not> is_space c \<and> c \<noteq> 0"
    using assms by (auto simp: entry_text_ok_def)
  obtain m where m: "32 - length n = Suc m" using n(3) by (cases "32 - length n") auto
  have "takeWhile (\<lambda>c. c \<noteq> 0) (rt_if e) = n" "0 \<in> set (rt_if e)" using n(4) by (auto simp: n(1) m takeWhile_append2)
  with n show ?thesis using that by blast
qed

lemma length_decimal: "n \<le> 255 \<Longrightarrow> length (decimal n) \<le> 3"
  by (subst decimal.simps, subst decimal.simps, subst decimal.simps) auto

lemma inet_ntoa_chars: "\<forall>c \<in> set (inet_ntoa a). \<not> is_space c \<and> c \<noteq> 0 \<and> c \<noteq> 10"
proof -
  have "\<not> is_space 46" by (simp add: is_space_def)
  then show ?thesis using decimal_digits unfolding inet_ntoa_def Let_def by auto
qed

lemma inet_ntoa_length: "inet_ntoa a \<noteq> []" "length (inet_ntoa a) \<le> 15"
proof -
  have l: "length (decimal (unat (b :: u8))) \<le> 3" for b by (rule length_decimal) (rule unat_byte_le)
  show "length (inet_ntoa a) \<le> 15"
    using l [of "bytes32 a ! 0"] l [of "bytes32 a ! 1"] l [of "bytes32 a ! 2"] l [of "bytes32 a ! 3"]
    unfolding inet_ntoa_def Let_def length_append list.size by linarith
qed (simp add: inet_ntoa_def Let_def)

lemma scan_words_next:
  assumes "\<forall>c \<in> set pre. is_space c" and "v \<noteq> []" and "length v < 32" and "\<forall>c \<in> set v. \<not> is_space c" and "is_space sp"
  shows "scan_words (pre @ v @ sp # t) (w # ws) = rbind (scan_words (sp # t) ws) (\<lambda>ws. Inr (Some v # ws))"
proof -
  obtain x xs where v: "v = x # xs" using assms(2) by (cases v) auto
  have "skip_space (pre @ v @ sp # t) = v @ sp # t"
    using assms(1,4) unfolding skip_space_def by (simp add: v)
  moreover have "takeWhile (\<lambda>c. \<not> is_space c) (v @ sp # t) = v" "dropWhile (\<lambda>c. \<not> is_space c) (v @ sp # t) = sp # t"
    using assms(4,5) by (auto simp: takeWhile_append2 dropWhile_append2)
  ultimately show ?thesis using assms(2,3) by (simp add: scan_word_def Let_def)
qed

lemma scan_entry_line:
  assumes "entry_text_ok e" and "length ws = 4"
  shows "scan_words (entry_line e) ws = Inr [Some (inet_ntoa (rt_dest e)), Some (inet_ntoa (rt_gw e)),
    Some (inet_ntoa (rt_mask e)), Some (takeWhile (\<lambda>c. c \<noteq> 0) (rt_if e))]"
proof -
  obtain n where n: "rt_if e = n @ replicate (32 - length n) 0" "n \<noteq> []" "length n < 32" "\<forall>c \<in> set n. \<not> is_space c"
    "0 \<notin> set n" "takeWhile (\<lambda>c. c \<noteq> 0) (rt_if e) = n" "0 \<in> set (rt_if e)"
    by (rule entry_text_okE [OF assms(1)])
  obtain w1 w2 w3 w4 where ws: "ws = [w1, w2, w3, w4]"
    using assms(2) by (auto simp: length_Suc_conv numeral_eq_Suc)
  have sp: "is_space 9" "is_space 10" by (simp_all add: is_space_def)
  have a: "length (inet_ntoa x) < 32" "\<forall>c \<in> set (inet_ntoa x). \<not> is_space c" for x
    using inet_ntoa_length(2) [of x] inet_ntoa_chars [of x] by auto
  note nx = scan_words_next [OF _ inet_ntoa_length(1) a sp(1)]
  show ?thesis
    unfolding entry_line_def n(6) ws
    using nx [of "[]" "rt_dest e" "9 # inet_ntoa (rt_gw e) @ 9 # inet_ntoa (rt_mask e) @ 9 # n @ [10]"]
      nx [of "[9, 9]" "rt_gw e" "inet_ntoa (rt_mask e) @ 9 # n @ [10]"] nx [of "[9]" "rt_mask e" "n @ [10]"]
      scan_words_next [of "[9]" n 10 "[]", OF _ n(2,3,4) sp(2)] sp
    by simp
qed

lemma strncpy_string: "0 \<notin> set n \<Longrightarrow> length n < k \<Longrightarrow> strncpy k (n @ [0]) = Inr (n @ replicate (k - length n) 0)"
proof (induction n arbitrary: k)
  case Nil
  then show ?case by (cases k) auto
next
  case (Cons c n)
  then show ?case by (cases k) auto
qed

lemma entry_line_chars:
  assumes "entry_text_ok e"
  shows "first_line (entry_line e @ t) = entry_line e" "takeWhile (\<lambda>c. c \<noteq> 0) (entry_line e) = entry_line e"
    "length (entry_line e) < BUFSIZ" "entry_line e \<noteq> []"
proof -
  obtain n where n: "rt_if e = n @ replicate (32 - length n) 0" "n \<noteq> []" "length n < 32" "\<forall>c \<in> set n. \<not> is_space c"
    "0 \<notin> set n" "takeWhile (\<lambda>c. c \<noteq> 0) (rt_if e) = n" "0 \<in> set (rt_if e)"
    by (rule entry_text_okE [OF assms])
  define body where "body = inet_ntoa (rt_dest e) @ [9, 9] @ inet_ntoa (rt_gw e) @ [9] @ inet_ntoa (rt_mask e) @ [9] @ n"
  have l: "entry_line e = body @ [10]" by (simp add: entry_line_def body_def n(6))
  have "is_space 10" by (simp add: is_space_def)
  then have "10 \<notin> set n" using n(4) by blast
  then have b: "10 \<notin> set body" "0 \<notin> set body" using inet_ntoa_chars n(5) by (auto simp: body_def)
  have t: "takeWhile (\<lambda>c. c \<noteq> 10) (body @ s) = body @ takeWhile (\<lambda>c. c \<noteq> 10) s"
    "dropWhile (\<lambda>c. c \<noteq> 10) (body @ s) = dropWhile (\<lambda>c. c \<noteq> 10) s" for s
    using b(1) by (induction body) auto
  show "first_line (entry_line e @ t) = entry_line e" by (simp add: first_line_def l t)
  show "takeWhile (\<lambda>c. c \<noteq> 0) (entry_line e) = entry_line e" using b(2) by (auto simp: l)
  have "length body < 90" using inet_ntoa_length(2) [of "rt_dest e"] inet_ntoa_length(2) [of "rt_gw e"]
      inet_ntoa_length(2) [of "rt_mask e"] n(3) unfolding body_def length_append list.size by linarith
  then show "length (entry_line e) < BUFSIZ" by (simp add: l BUFSIZ_def)
  show "entry_line e \<noteq> []" by (simp add: l)
qed

definition entry_words :: "sr_rt \<Rightarrow> u8 list option list" where
  "entry_words e = [Some (inet_ntoa (rt_dest e)), Some (inet_ntoa (rt_gw e)), Some (inet_ntoa (rt_mask e)),
     Some (takeWhile (\<lambda>c. c \<noteq> 0) (rt_if e))]"

definition add_entry :: "sr_rt \<Rightarrow> load_state \<Rightarrow> load_state" where
  "add_entry e st = st\<lparr>bufs := entry_words e, clear_routing_table := True,
     loaded := (if clear_routing_table st then loaded st else []) @ [e]\<rparr>"

lemma load_line_words:
  assumes "entry_text_ok e" and "scan_words (takeWhile (\<lambda>c. c \<noteq> 0) line) (bufs st) = Inr (entry_words e)"
  shows "load_line line st = Inr (False, add_entry e st)"
proof -
  obtain n where n: "rt_if e = n @ replicate (32 - length n) 0" "n \<noteq> []" "length n < 32" "\<forall>c \<in> set n. \<not> is_space c"
    "0 \<notin> set n" "takeWhile (\<lambda>c. c \<noteq> 0) (rt_if e) = n" "0 \<in> set (rt_if e)"
    by (rule entry_text_okE [OF assms(1)])
  have "strncpy 32 (n @ [0]) = Inr (rt_if e)" unfolding n(1) by (rule strncpy_string [OF n(5,3)])
  then show ?thesis
    unfolding load_line_def assms(2) entry_words_def n(6)
    by (simp add: word_read_def inet_aton_ntoa sr_add_rt_entry_def add_entry_def entry_words_def n(6) Let_def)
qed

lemma load_lines_entry:
  assumes "entry_text_ok e" and "length (bufs st) = 4"
  shows "load_lines (entry_line e @ t) st = load_lines t (add_entry e st)"
proof -
  note c = entry_line_chars [OF assms(1)]
  have "load_line (entry_line e) st = Inr (False, add_entry e st)"
    by (rule load_line_words [OF assms(1)]) (simp add: c(2) scan_entry_line [OF assms] entry_words_def)
  then show ?thesis using c(3,4) by (subst load_lines.simps) (simp add: c(1) Let_def)
qed

lemma load_lines_entries:
  assumes "Ball (set es) entry_text_ok" and "length (bufs st) = 4"
  shows "load_lines (concat (map entry_line es) @ t) st = load_lines t (fold add_entry es st)"
  using assms by (induction es arbitrary: st) (simp_all add: load_lines_entry add_entry_def entry_words_def)

lemma fold_add_entry:
  "clear_routing_table st \<Longrightarrow> loaded (fold add_entry es st) = loaded st @ es"
  by (induction es arbitrary: st) (simp_all add: add_entry_def)

lemma print_entries_lines:
  assumes "Ball (set es) entry_text_ok"
  shows "print_entries es = Inr (concat (map entry_line es))"
proof -
  let ?f = "\<lambda>e out. rbind (sr_print_routing_entry e) (\<lambda>l. Inr (out @ l))"
  have "rfold ?f es out = Inr (out @ concat (map entry_line es))" for out
    using assms
  proof (induction es arbitrary: out)
    case (Cons e es)
    then have "entry_text_ok e" by simp
    then have "sr_print_routing_entry e = Inr (entry_line e)"
      by (rule entry_text_okE) (simp add: sr_print_routing_entry_def entry_line_def)
    with Cons show ?case by simp
  qed simp
  from this [of "[]"] show ?thesis by (simp add: print_entries_def)
qed

lemma load_lines_printed:
  assumes "Ball (set rt) entry_text_ok" and "rt \<noteq> []"
  shows "sr_load_rt (Some (concat (map entry_line rt))) old = Inr (rt, 0)"
    and "sr_load_rt (Some (concat (map entry_line rt) @ [10])) old = Inr (rt @ [last rt], 0)"
proof -
  let ?st = "\<lparr>clear_routing_table = False, loaded = old, bufs = replicate 4 None\<rparr>"
  let ?out = "concat (map entry_line rt)"
  obtain e es where rt: "rt = e # es" using assms(2) by (cases rt) auto
  obtain fs f where rt': "rt = fs @ [f]" using assms(2) by (cases rt rule: rev_cases) auto
  have st: "clear_routing_table (fold add_entry rt ?st)" "loaded (fold add_entry rt ?st) = rt"
    "bufs (fold add_entry rt ?st) = entry_words f"
  proof -
    show "clear_routing_table (fold add_entry rt ?st)" "bufs (fold add_entry rt ?st) = entry_words f"
      unfolding rt' by (simp_all add: add_entry_def)
    show "loaded (fold add_entry rt ?st) = rt" by (simp add: rt fold_add_entry add_entry_def [of _ ?st])
  qed
  have l: "load_lines (?out @ t) ?st = load_lines t (fold add_entry rt ?st)" for t
    by (rule load_lines_entries [OF assms(1)]) simp
  have f: "entry_text_ok f" using assms(1) by (simp add: rt')
  have "scan_words [10] (w # ws) = Inr (w # ws)" for w ws by (simp add: scan_word_def skip_space_def is_space_def)
  then have "scan_words (takeWhile (\<lambda>c. c \<noteq> 0) [10]) (bufs (fold add_entry rt ?st)) = Inr (entry_words f)"
    unfolding st(3) by (simp add: entry_words_def)
  then have "load_line [10] (fold add_entry rt ?st) = Inr (False, add_entry f (fold add_entry rt ?st))"
    by (rule load_line_words [OF f])
  then have "load_lines [10] (fold add_entry rt ?st) = Inr (False, add_entry f (fold add_entry rt ?st))"
    by (subst load_lines.simps) (simp add: BUFSIZ_def, subst load_lines.simps, simp)
  then show "sr_load_rt (Some (?out @ [10])) old = Inr (rt @ [last rt], 0)"
    unfolding sr_load_rt_def option.case l [of "[10]"] by (simp add: add_entry_def st) (simp add: rt')
  have "load_lines [] s = Inr (False, s)" for s by (subst load_lines.simps) simp
  then show "sr_load_rt (Some ?out) old = Inr (rt, 0)"
    using l [of "[]"] by (simp add: sr_load_rt_def st)
qed

text \<open>The header line of the printed table is read as an entry whose destination is no address.\<close>

lemma load_header: "sr_load_rt (Some (table_header @ out)) old = Inr (old, -1)"
proof -
  let ?st = "\<lparr>clear_routing_table = False, loaded = old, bufs = replicate 4 None\<rparr>"
  have line: "first_line (table_header @ out) = table_header" "take (BUFSIZ - Suc 0) table_header = table_header"
    by (simp_all add: first_line_def table_header_def chars_def BUFSIZ_def)
  have four: "replicate 4 (None :: u8 list option) = [None, None, None, None]" by (simp add: numeral_eq_Suc)
  have "scan_words (takeWhile (\<lambda>c. c \<noteq> 0) table_header) (replicate 4 None) =
      Inr [Some (chars ''Destination''), Some (chars ''Gateway''), Some (chars ''Mask''), Some (chars ''Iface'')]"
    unfolding four table_header_def by (simp add: chars_def scan_word_def skip_space_def is_space_def)
  moreover have "inet_aton (chars ''Destination'') = None"
    by (simp add: inet_aton_def inet_parts.simps chars_def is_digit_def)
  ultimately have "\<exists>ws. load_line table_header ?st = Inr (True, ?st\<lparr>bufs := ws\<rparr>)"
    by (simp add: load_line_def word_read_def)
  moreover have "table_header \<noteq> []" by (simp add: table_header_def)
  ultimately have "\<exists>ws. load_lines (table_header @ out) ?st = Inr (True, ?st\<lparr>bufs := ws\<rparr>)"
    by (subst load_lines.simps) (auto simp: line Let_def)
  then show ?thesis by (auto simp: sr_load_rt_def)
qed

lemma print_table_lines:
  "Ball (set rt) entry_text_ok \<Longrightarrow> rt \<noteq> [] \<Longrightarrow>
    sr_print_routing_table rt = Inr (table_header @ concat (map entry_line rt))"
  by (simp add: sr_print_routing_table_def print_entries_lines)

section \<open>Properties\<close>

text \<open>
  C38: A table whose interface names are text is printed as a header line and one line for each
  entry. What is printed is not a file that the program loads: \<^verbatim>\<open>sr_load_rt\<close> reads the header line as
  an entry, takes \<^verbatim>\<open>Destination\<close> for its address, and returns with an error and the table as it was,
  and the router exits with 1. The lines of the entries alone are loaded as the same table, entry by
  entry and in order, whatever the table was before; and with one empty line more at the end, the
  last entry is loaded twice, because the words of the line before are still in the buffers.
\<close>

theorem rtable_roundtrip:
  assumes "Ball (set rt) entry_text_ok" and "rt \<noteq> []"
  shows "\<exists>entries. sr_print_routing_table rt =
      Inr (chars ''Destination'' @ [9] @ chars ''Gateway'' @ [9, 9] @ chars ''Mask'' @ [9] @ chars ''Iface'' @ [10] @ entries) \<and>
    sr_load_rt (Some (table_header @ entries)) old = Inr (old, -1) \<and>
    sr_load_rt_wrap (Some (table_header @ entries)) old = Inl (ExitCall 1) \<and>
    sr_load_rt (Some entries) old = Inr (rt, 0) \<and>
    sr_load_rt_wrap (Some entries) old = Inr rt \<and>
    sr_load_rt (Some (entries @ [10])) old = Inr (rt @ [last rt], 0)"
proof (rule exI [of _ "concat (map entry_line rt)"], intro conjI)
  let ?entries = "concat (map entry_line rt)"
  show "sr_print_routing_table rt =
      Inr (chars ''Destination'' @ [9] @ chars ''Gateway'' @ [9, 9] @ chars ''Mask'' @ [9] @ chars ''Iface'' @ [10] @ ?entries)"
    using print_table_lines [OF assms] by (simp add: table_header_def)
  show "sr_load_rt_wrap (Some (table_header @ ?entries)) old = Inl (ExitCall 1)"
    by (simp add: sr_load_rt_wrap_def load_header)
  show "sr_load_rt_wrap (Some ?entries) old = Inr rt"
    by (simp add: sr_load_rt_wrap_def load_lines_printed [OF assms] print_table_lines [OF assms])
qed (rule load_header load_lines_printed [OF assms])+

definition example_rt :: "sr_rt list" where
  "example_rt = [\<lparr>rt_dest = 0, rt_gw = 0x0101000A, rt_mask = 0, rt_if = chars ''eth3'' @ replicate 28 0\<rparr>]"

lemma example_rt_ok: "Ball (set example_rt) entry_text_ok"
proof -
  have "entry_text_ok (hd example_rt)"
    unfolding entry_text_ok_def by (rule exI [of _ "chars ''eth3''"]) (simp add: example_rt_def chars_def is_space_def)
  then show ?thesis by (simp add: example_rt_def)
qed

theorem rtable_roundtrip_witness:
  "\<exists>entries. sr_print_routing_table example_rt =
      Inr (chars ''Destination'' @ [9] @ chars ''Gateway'' @ [9, 9] @ chars ''Mask'' @ [9] @ chars ''Iface'' @ [10] @ entries) \<and>
    sr_load_rt (Some (table_header @ entries)) [] = Inr ([], -1) \<and>
    sr_load_rt_wrap (Some (table_header @ entries)) [] = Inl (ExitCall 1) \<and>
    sr_load_rt (Some entries) [] = Inr (example_rt, 0) \<and>
    sr_load_rt_wrap (Some entries) [] = Inr example_rt \<and>
    sr_load_rt (Some (entries @ [10])) [] = Inr (example_rt @ [last example_rt], 0)"
  by (rule rtable_roundtrip [OF example_rt_ok]) (simp add: example_rt_def)

end
