(* ===== verification/Server.thy ===== *)
theory Server
  imports RouterSafety Auth RouteFile
begin

text \<open>
  The session of the router with the server (\<^verbatim>\<open>router/sr_vns_comm.c\<close>) and its main program
  (\<^verbatim>\<open>router/sr_main.c\<close>). The connection is the list of what will happen on it: pieces of data of any
  size (an empty one is the end of the stream, which \<^verbatim>\<open>recv\<close> reports as 0 bytes), interrupted calls,
  errors, and, while the router waits, passes of the ARP thread and the time going on. A command
  that has arrived is handled without interleaving. What has to be read when the list is at its end
  leaves the program waiting.
\<close>

section \<open>State\<close>

datatype net_event = Data "u8 list" | Interrupted | Failed | Pass int int | Elapsed int

text \<open>
  The fields of \<^verbatim>\<open>struct sr_instance\<close> that belong to the session, the contents of the files, the
  current time, and whether the ARP thread has been started.
\<close>

record session =
  router :: sr_instance
  sr_user :: name
  sr_host :: name
  sr_template :: name
  sr_topo_id :: u16
  files :: "name \<Rightarrow> u8 list option"
  now :: int
  arp_thread :: bool

text \<open>What comes from outside: contents of fresh memory and of uninitialised variables, writable files.\<close>

record world =
  node :: "nat \<Rightarrow> sr_if"
  sha1_memory :: sha1_context
  key_memory :: "u8 list"
  writable :: "name \<Rightarrow> bool"
  reachable_server :: bool
  pw_name :: "name option"

definition VNSOPEN :: u32 where "VNSOPEN = 1"
definition VNSCLOSE :: u32 where "VNSCLOSE = 2"
definition VNSPACKET :: u32 where "VNSPACKET = 4"
definition VNSBANNER :: u32 where "VNSBANNER = 8"
definition VNSHWINFO :: u32 where "VNSHWINFO = 16"
definition VNS_RTABLE :: u32 where "VNS_RTABLE = 32"
definition VNS_OPEN_TEMPLATE :: u32 where "VNS_OPEN_TEMPLATE = 64"
definition VNS_AUTH_REQUEST :: u32 where "VNS_AUTH_REQUEST = 128"
definition VNS_AUTH_STATUS :: u32 where "VNS_AUTH_STATUS = 512"
definition IDSIZE :: nat where "IDSIZE = 32"

lemmas command_defs = VNSOPEN_def VNSCLOSE_def VNSPACKET_def VNSBANNER_def VNSHWINFO_def VNS_RTABLE_def
  VNS_OPEN_TEMPLATE_def VNS_AUTH_REQUEST_def VNS_AUTH_STATUS_def

definition send_message :: "u8 list \<Rightarrow> session \<Rightarrow> session" where
  "send_message m s = s\<lparr>router := (router s)\<lparr>sent := sent (router s) @ [m]\<rparr>\<rparr>"

section \<open>Commands of the server\<close>

definition sr_handle_rtable :: "world \<Rightarrow> u8 list \<Rightarrow> session \<Rightarrow> (int \<times> session) res" where
  "sr_handle_rtable w rtable s =
    rbind (strlen (drop 8 rtable)) (\<lambda>l.
    if 7 + l + 1 > 7 + IDSIZE + 1 then Inl OutOfBounds else
    let fn = chars ''rtable.'' @ take l (drop 8 rtable) in
    if \<not> writable w fn then Inr (0, s) else
    rbind (ld32 rtable 0) (\<lambda>mLen.
    rbind (ldn (unat (htonl mLen - 8 - of_nat IDSIZE)) rtable (8 + IDSIZE)) (\<lambda>bs.
    Inr (1, s\<lparr>files := (files s)(fn := Some bs)\<rparr>))))"

text \<open>The buffer for the key after \<^verbatim>\<open>fgets(auth_key, AUTH_KEY_LEN+1, fp)\<close>.\<close>

definition read_key :: "world \<Rightarrow> session \<Rightarrow> u8 list option" where
  "read_key w s = (case files s (chars ''auth_key'') of None \<Rightarrow> None
     | Some fp \<Rightarrow> let line = take AUTH_KEY_LEN (first_line fp) in
         if line = [] then None else Some (line @ 0 # drop (length line + 1) (key_memory w)))"

definition auth_request :: "world \<Rightarrow> u8 list \<Rightarrow> session \<Rightarrow> (int \<times> session) res" where
  "auth_request w req s =
    rbind (sr_handle_auth_request (read_key w s) (sr_user s) (sha1_memory w) req) (\<lambda>(reply, ret).
    Inr (ret, case reply of None \<Rightarrow> s | Some m \<Rightarrow> send_message m s))"

definition sr_handle_auth_status :: "u8 list \<Rightarrow> int res" where
  "sr_handle_auth_status status =
    rbind (ld8 status 8) (\<lambda>auth_ok.
    if auth_ok \<noteq> 0 then Inr (uint auth_ok) else rbind (strlen (drop 9 status)) (\<lambda>_. Inr 0))"

text \<open>
  The part of \<^verbatim>\<open>sr_read_from_server_expect\<close> after a command has been read: the type is converted in
  place, checked and dispatched. Messages that are printed must be terminated in the buffer.
\<close>

definition handle_command :: "world \<Rightarrow> u32 \<Rightarrow> u8 list \<Rightarrow> session \<Rightarrow> (int \<times> session) res" where
  "handle_command w expected_cmd buf s =
    rbind (ld32 buf 4) (\<lambda>t. let command = htonl t in
    rbind (stn buf 4 (bytes32 command)) (\<lambda>buf.
    if expected_cmd \<noteq> 0 \<and> command \<noteq> expected_cmd \<and> command \<noteq> VNSCLOSE then Inr (-1, s)
    else if command = VNSPACKET then
      rbind (vns_packet (now s) (router s) buf) (\<lambda>sr. Inr (1, s\<lparr>router := sr\<rparr>))
    else if command = VNSCLOSE then rbind (strlen (drop 8 buf)) (\<lambda>_. Inr (0, s))
    else if command = VNSBANNER then rbind (strlen (drop 8 buf)) (\<lambda>_. Inr (1, s))
    else if command = VNSHWINFO then
      rbind (vns_hwinfo (node w) (router s) buf) (\<lambda>(sr, ret). Inr (ret, s\<lparr>router := sr\<rparr>))
    else if command = VNS_RTABLE then
      rbind (sr_handle_rtable w buf s) (\<lambda>(ok, s). Inr (if ok = 0 then -1 else 1, s))
    else if command = VNS_AUTH_REQUEST then
      rbind (auth_request w buf s) (\<lambda>(ok, s). Inr (if ok = 0 then -1 else 1, s))
    else if command = VNS_AUTH_STATUS then
      rbind (sr_handle_auth_status buf) (\<lambda>ok. Inr (if ok = 0 then -1 else 1, s))
    else Inr (1, s)))"

section \<open>Reading from the connection\<close>

datatype read_outcome = Got "u8 list" "net_event list" session | Broken "net_event list" session | Blocked session

definition thread_pass :: "int \<Rightarrow> int \<Rightarrow> session \<Rightarrow> session res" where
  "thread_pass t t' s =
    (if arp_thread s then rbind (sr_arpcache_timeout t t' (router s)) (\<lambda>sr. Inr (s\<lparr>router := sr, now := t'\<rparr>))
     else Inr (s\<lparr>now := t'\<rparr>))"

text \<open>The two loops that read the length and the rest of a command: until there are \<open>n\<close> bytes.\<close>

fun read_bytes :: "nat \<Rightarrow> u8 list \<Rightarrow> net_event list \<Rightarrow> session \<Rightarrow> read_outcome res" where
  "read_bytes n got [] s = (if n \<le> length got then Inr (Got got [] s) else Inr (Blocked s))"
| "read_bytes n got (ev # evs) s =
    (if n \<le> length got then Inr (Got got (ev # evs) s)
     else (case ev of
       Data bs \<Rightarrow> let k = n - length got in
         if length bs \<le> k then read_bytes n (got @ bs) evs s
         else Inr (Got (got @ take k bs) (Data (drop k bs) # evs) s)
     | Interrupted \<Rightarrow> read_bytes n got evs s
     | Failed \<Rightarrow> Inr (Broken evs s)
     | Pass t t' \<Rightarrow> rbind (thread_pass t t' s) (read_bytes n got evs)
     | Elapsed t \<Rightarrow> read_bytes n got evs (s\<lparr>now := t\<rparr>)))"

datatype server_result = Returned int "net_event list" session | Waiting session

definition sr_read_from_server_expect :: "world \<Rightarrow> u32 \<Rightarrow> net_event list \<Rightarrow> session \<Rightarrow> server_result res" where
  "sr_read_from_server_expect w expected_cmd evs s =
    rbind (read_bytes 4 [] evs s) (\<lambda>r. case r of
      Blocked s \<Rightarrow> Inr (Waiting s)
    | Broken evs s \<Rightarrow> Inr (Returned (-1) evs s)
    | Got b evs s \<Rightarrow>
        rbind (ld32 b 0) (\<lambda>l. let len = sint (htonl l) in
        if len > 10000 \<or> len < 0 then Inr (Returned (-1) evs s)
        else if len < 4 then Inl OutOfBounds
        else rbind (read_bytes (nat len - 4) [] evs s) (\<lambda>r. case r of
          Blocked s \<Rightarrow> Inr (Waiting s)
        | Broken evs s \<Rightarrow> Inr (Returned (-1) evs s)
        | Got body evs s \<Rightarrow>
            rbind (handle_command w expected_cmd (bytes32 l @ body) s) (\<lambda>(ret, s). Inr (Returned ret evs s)))))"

definition sr_read_from_server :: "world \<Rightarrow> net_event list \<Rightarrow> session \<Rightarrow> server_result res" where
  "sr_read_from_server w evs s = sr_read_from_server_expect w 0 evs s"

section \<open>Connecting\<close>

text \<open>Goes on when the command came, and returns -1 otherwise.\<close>

definition expecting :: "world \<Rightarrow> u32 \<Rightarrow> (net_event list \<Rightarrow> session \<Rightarrow> server_result res) \<Rightarrow>
    net_event list \<Rightarrow> session \<Rightarrow> server_result res" where
  "expecting w cmd k evs s =
    rbind (sr_read_from_server_expect w cmd evs s) (\<lambda>r. case r of
      Waiting s \<Rightarrow> Inr (Waiting s)
    | Returned ret evs s \<Rightarrow> if ret \<noteq> 1 then Inr (Returned (-1) evs s) else k evs s)"

definition open_message :: "session \<Rightarrow> u8 list res" where
  "open_message s =
    rbind (strncpy IDSIZE (sr_host s)) (\<lambda>h.
    rbind (strncpy IDSIZE (sr_user s)) (\<lambda>u.
    Inr (bytes32 (htonl 108) @ bytes32 (htonl VNSOPEN) @ bytes16 (htons (sr_topo_id s)) @ [0, 0] @
      h @ u @ replicate IDSIZE 0)))"

definition open_template_message :: "session \<Rightarrow> u8 list res" where
  "open_template_message s =
    rbind (strncpy 30 (sr_template s)) (\<lambda>t.
    rbind (strncpy IDSIZE (sr_host s)) (\<lambda>h.
    Inr (bytes32 (htonl 70) @ bytes32 (htonl VNS_OPEN_TEMPLATE) @ t @ h)))"

definition sr_connect_to_server :: "world \<Rightarrow> net_event list \<Rightarrow> session \<Rightarrow> server_result res" where
  "sr_connect_to_server w evs s =
    (if \<not> reachable_server w then Inr (Returned (-1) evs s) else
     expecting w VNS_AUTH_REQUEST (expecting w VNS_AUTH_STATUS (\<lambda>evs s.
       rbind (strlen (sr_template s)) (\<lambda>l.
       rbind (if l > 0 then open_template_message s else open_message s) (\<lambda>m. let s = send_message m s in
       if l > 0 then expecting w VNS_RTABLE (\<lambda>evs s. Inr (Returned 0 evs s)) evs s
       else Inr (Returned 0 evs s))))) evs s)"

section \<open>The main loop\<close>

fun event_size :: "net_event \<Rightarrow> nat" where
  "event_size (Data bs) = Suc (length bs)"
| "event_size _ = 1"

abbreviation events_size :: "net_event list \<Rightarrow> nat" where
  "events_size evs \<equiv> sum_list (map event_size evs)"

lemma read_bytes_size:
  "read_bytes n got evs s = Inr (Got b evs' s') \<Longrightarrow>
     events_size evs' \<le> events_size evs \<and> (length got < n \<longrightarrow> events_size evs' < events_size evs) \<and> n \<le> length b"
  "read_bytes n got evs s = Inr (Broken evs' s') \<Longrightarrow> events_size evs' < events_size evs"
proof (induction evs arbitrary: got s)
  case (Cons ev evs)
  { case 1
    then show ?case
      by (cases ev) (fastforce simp: Let_def rbind_Inr_iff split: if_splits dest: Cons.IH(1))+
  next
    case 2
    then show ?case
      by (cases ev) (fastforce simp: Let_def rbind_Inr_iff split: if_splits dest: Cons.IH(2))+ }
qed (auto split: if_splits)

lemma read_command_size:
  assumes "sr_read_from_server_expect w cmd evs s = Inr (Returned ret evs' s')"
  shows "events_size evs' < events_size evs"
proof -
  from assms obtain r where r: "read_bytes 4 [] evs s = Inr r"
    unfolding sr_read_from_server_expect_def by (elim rbind_InrE)
  show ?thesis
  proof (cases r)
    case (Got b evs1 s1)
    have 1: "events_size evs1 < events_size evs" using read_bytes_size(1) [OF r [unfolded Got]] by simp
    from assms obtain l where
      "(let len = sint (htonl l) in
        if len > 10000 \<or> len < 0 then Inr (Returned (-1) evs1 s1)
        else if len < 4 then Inl OutOfBounds
        else rbind (read_bytes (nat len - 4) [] evs1 s1) (\<lambda>r. case r of
          Blocked s \<Rightarrow> Inr (Waiting s)
        | Broken evs s \<Rightarrow> Inr (Returned (-1) evs s)
        | Got body evs s \<Rightarrow>
            rbind (handle_command w cmd (bytes32 l @ body) s) (\<lambda>(ret, s). Inr (Returned ret evs s)))) =
       Inr (Returned ret evs' s')"
      unfolding sr_read_from_server_expect_def r Got rbind_simps read_outcome.case by (elim rbind_InrE)
    then consider "evs' = evs1" | r2 where "read_bytes (nat (sint (htonl l)) - 4) [] evs1 s1 = Inr r2"
      "(case r2 of Blocked s \<Rightarrow> Inr (Waiting s) | Broken evs s \<Rightarrow> Inr (Returned (-1) evs s)
        | Got body evs s \<Rightarrow> rbind (handle_command w cmd (bytes32 l @ body) s) (\<lambda>(ret, s). Inr (Returned ret evs s))) =
       Inr (Returned ret evs' s')"
      unfolding Let_def by (auto split: if_splits elim: rbind_InrE)
    then show ?thesis
    proof cases
      case 2
      then show ?thesis
        using 1 read_bytes_size(1) [of _ _ evs1 s1 _ evs'] read_bytes_size(2) [of _ _ evs1 s1 evs']
        by (cases r2) (fastforce simp: rbind_Inr_iff)+
    qed (use 1 in simp)
  next
    case (Broken evs1 s1)
    with assms read_bytes_size(2) [OF r [unfolded Broken]] show ?thesis
      unfolding sr_read_from_server_expect_def r by simp
  qed (use assms in \<open>simp add: sr_read_from_server_expect_def r\<close>)
qed

lemma rbind_cong [fundef_cong]: "r = r' \<Longrightarrow> (\<And>x. r' = Inr x \<Longrightarrow> f x = g x) \<Longrightarrow> rbind r f = rbind r' g"
  by (cases r') auto

function server_loop :: "world \<Rightarrow> net_event list \<Rightarrow> session \<Rightarrow> server_result res" where
  "server_loop w evs s =
    rbind (sr_read_from_server w evs s) (\<lambda>r. case r of
      Waiting s \<Rightarrow> Inr (Waiting s)
    | Returned ret evs s \<Rightarrow> if ret = 1 then server_loop w evs s else Inr (Returned ret evs s))"
  by auto
termination
  by (relation "measure (\<lambda>(w, evs, s). events_size evs)") (auto simp: sr_read_from_server_def dest: read_command_size)

declare server_loop.simps [simp del]

section \<open>The main program\<close>

text \<open>The options as \<^verbatim>\<open>getopt\<close> yields them, one letter with its argument each; \<^verbatim>\<open>atoi\<close> gives 0 without a number.\<close>

record options =
  opt_host :: name
  opt_user :: "name option"
  opt_rtable :: name
  opt_template :: "name option"
  opt_topo :: int

definition default_options :: options where
  "default_options = \<lparr>opt_host = chars ''vrhost'' @ [0], opt_user = None, opt_rtable = chars ''rtable'',
     opt_template = None, opt_topo = 0\<rparr>"

definition atoi :: "u8 list \<Rightarrow> int" where
  "atoi s = (case scan_int s of None \<Rightarrow> 0 | Some (i, _) \<Rightarrow> i)"

text \<open>Arguments are without their terminating zero; port, server and log file only reach the sockets and the dumper.\<close>

definition main_option :: "char \<times> u8 list \<Rightarrow> options \<Rightarrow> options res" where
  "main_option ca o' = (case ca of (c, optarg) \<Rightarrow>
    if c = CHR ''h'' then Inl (ExitCall 0)
    else if c = CHR ''t'' then Inr (o'\<lparr>opt_topo := atoi optarg\<rparr>)
    else if c = CHR ''v'' then Inr (o'\<lparr>opt_host := optarg @ [0]\<rparr>)
    else if c = CHR ''u'' then Inr (o'\<lparr>opt_user := Some (optarg @ [0])\<rparr>)
    else if c = CHR ''r'' then Inr (o'\<lparr>opt_rtable := optarg\<rparr>)
    else if c = CHR ''T'' then Inr (o'\<lparr>opt_template := Some (optarg @ [0])\<rparr>)
    else Inr o')"

definition sr_set_user :: "world \<Rightarrow> session \<Rightarrow> session res" where
  "sr_set_user w s =
    rbind (strncpy 32 (case pw_name w of None \<Rightarrow> chars ''something_silly'' @ [0] | Some n \<Rightarrow> n)) (\<lambda>u.
    Inr (s\<lparr>sr_user := u\<rparr>))"

text \<open>The contents of \<open>s\<close> before are those of the memory of \<^verbatim>\<open>sr\<close>.\<close>

definition sr_init_instance :: "session \<Rightarrow> session" where
  "sr_init_instance s = s\<lparr>sr_user := (sr_user s)[0 := 0], sr_host := (sr_host s)[0 := 0], sr_topo_id := 0,
     router := (router s)\<lparr>if_list := [], routing_table := []\<rparr>\<rparr>"

definition load_table :: "name \<Rightarrow> session \<Rightarrow> session res" where
  "load_table fn s = rbind (sr_load_rt_wrap (files s fn) (routing_table (router s))) (\<lambda>rt.
     Inr (s\<lparr>router := (router s)\<lparr>routing_table := rt\<rparr>\<rparr>))"

definition sr_init :: "session \<Rightarrow> session" where
  "sr_init s = s\<lparr>router := (router s)\<lparr>cache := sr_arpcache_init\<rparr>, arp_thread := True\<rparr>"

definition prepare_session :: "world \<Rightarrow> options \<Rightarrow> session \<Rightarrow> session res" where
  "prepare_session w opts s =
    (let s = sr_init_instance s in
     rbind (case opt_template opts of
         None \<Rightarrow> load_table (opt_rtable opts) (s\<lparr>sr_template := (sr_template s)[0 := 0]\<rparr>)
       | Some t \<Rightarrow> rbind (strncpy 30 t) (\<lambda>t. Inr (s\<lparr>sr_template := t\<rparr>))) (\<lambda>s.
     rbind (strncpy 32 (opt_host opts)) (\<lambda>h. let s = s\<lparr>sr_topo_id := word_of_int (opt_topo opts), sr_host := h\<rparr> in
     case opt_user opts of None \<Rightarrow> sr_set_user w s
     | Some u \<Rightarrow> rbind (strncpy 32 u) (\<lambda>u. Inr (s\<lparr>sr_user := u\<rparr>)))))"

definition router_main :: "world \<Rightarrow> (char \<times> u8 list) list \<Rightarrow> net_event list \<Rightarrow> session \<Rightarrow> server_result res" where
  "router_main w args evs s =
    rbind (rfold main_option args default_options) (\<lambda>opts.
    rbind (prepare_session w opts s) (\<lambda>s.
    rbind (sr_connect_to_server w evs s) (\<lambda>r. case r of
      Waiting s \<Rightarrow> Inr (Waiting s)
    | Returned ret evs s \<Rightarrow>
      if ret = -1 then Inr (Returned 1 evs s) else
      rbind (load_table (if opt_template opts \<noteq> None \<and> opt_rtable opts = chars ''rtable.vrhost''
          then chars ''rtable.vrhost'' else opt_rtable opts) s) (\<lambda>s.
      rbind (server_loop w evs (sr_init s)) (\<lambda>r. case r of
        Waiting s \<Rightarrow> Inr (Waiting s)
      | Returned _ evs s \<Rightarrow> Inr (Returned 0 evs s))))))"

end
