(* ===== verification/Session.thy ===== *)
theory Session
  imports Server RouterProperties "HOL-Library.Sublist"
begin

text \<open>
  Properties of the session with the server: the stream of bytes is cut into commands however it
  arrives, the main loop never faults on good commands, and the handshake of the connection.
\<close>

section \<open>The stream\<close>

fun stream :: "net_event list \<Rightarrow> u8 list" where
  "stream [] = []"
| "stream (Data bs # evs) = bs @ stream evs"
| "stream (ev # evs) = stream evs"

fun quiet :: "net_event \<Rightarrow> bool" where
  "quiet (Data bs) \<longleftrightarrow> True"
| "quiet Interrupted \<longleftrightarrow> True"
| "quiet ev \<longleftrightarrow> False"

lemma read_bytes_enough: "n \<le> length got \<Longrightarrow> read_bytes n got evs s = Inr (Got got evs s)"
  by (cases evs) simp_all

lemma read_bytes_quiet:
  assumes "list_all quiet evs" and "length got \<le> n" and "n \<le> length got + length (stream evs)"
  shows "\<exists>evs'. read_bytes n got (evs @ later) s = Inr (Got (got @ take (n - length got) (stream evs)) (evs' @ later) s) \<and>
    list_all quiet evs' \<and> stream evs' = drop (n - length got) (stream evs)"
  using assms
proof (induction evs arbitrary: got)
  case Nil
  then show ?case by (intro exI [of _ "[]"]) (simp add: read_bytes_enough)
next
  case (Cons ev evs)
  show ?case
  proof (cases "n \<le> length got")
    case True
    with Cons.prems show ?thesis by (intro exI [of _ "ev # evs"]) simp
  next
    case False
    show ?thesis
    proof (cases ev)
      case (Data bs)
      show ?thesis
      proof (cases "length bs \<le> n - length got")
        case True
        with Cons.prems have "list_all quiet evs" "length (got @ bs) \<le> n" "n \<le> length (got @ bs) + length (stream evs)"
          by (simp_all add: Data)
        from Cons.IH [OF this] True False show ?thesis by (simp add: Data Let_def)
      next
        case F: False
        with Cons.prems False show ?thesis
          by (intro exI [of _ "Data (drop (n - length got) bs) # evs"]) (simp add: Data Let_def)
      qed
    next
      case Interrupted
      with Cons.IH [of got] Cons.prems False show ?thesis by simp
    qed (use Cons.prems in auto)
  qed
qed

lemma read_bytes_blocked:
  "list_all quiet evs \<Longrightarrow> length got + length (stream evs) < n \<Longrightarrow> read_bytes n got evs s = Inr (Blocked s)"
proof (induction evs arbitrary: got)
  case (Cons ev evs)
  then show ?case by (cases ev) (simp_all add: Let_def)
qed simp

definition message_wf :: "u8 list \<Rightarrow> bool" where
  "message_wf m \<longleftrightarrow> 8 \<le> length m \<and> length m \<le> 10000 \<and> take 4 m = bytes32 (htonl (of_nat (length m)))"

lemma message_wfD:
  assumes "message_wf m"
  shows "ld32 (take 4 m) 0 = Inr (htonl (of_nat (length m)))" "sint (of_nat (length m) :: u32) = int (length m)"
    "bytes32 (htonl (of_nat (length m))) = take 4 m" "8 \<le> length m" "length m \<le> 10000"
proof -
  show "ld32 (take 4 m) 0 = Inr (htonl (of_nat (length m)))"
    using assms ld32_at_start [of "take 4 m" _ "[]"] by (simp add: message_wf_def)
  have "int (length m) < 2 ^ 31" using assms by (simp add: message_wf_def)
  then show "sint (of_nat (length m) :: u32) = int (length m)"
    by (simp only: signed_of_nat) (simp add: signed_take_bit_int_eq_self)
qed (use assms in \<open>simp_all add: message_wf_def\<close>)

text \<open>Reading one command, for any outcome of the two loops that fits the stream.\<close>

lemma read_expect_Got:
  assumes "message_wf m" and "read_bytes 4 [] evs s = Inr (Got (take 4 m) evs1 s1)"
  shows "sr_read_from_server_expect w cmd evs s =
    rbind (read_bytes (length m - 4) [] evs1 s1) (\<lambda>r. case r of
      Blocked s \<Rightarrow> Inr (Waiting s) | Broken evs s \<Rightarrow> Inr (Returned (-1) evs s)
    | Got body evs s \<Rightarrow> rbind (handle_command w cmd (take 4 m @ body) s) (\<lambda>(ret, s). Inr (Returned ret evs s)))"
  using message_wfD [OF assms(1)]
  unfolding sr_read_from_server_expect_def assms(2) rbind_simps read_outcome.case message_wfD(1) [OF assms(1)]
  by (simp add: Let_def message_wfD(2) [OF assms(1)])

lemma read_expect_quiet:
  assumes "message_wf m" and "list_all quiet evs" and "stream evs = m @ rest"
  shows "\<exists>evs'. list_all quiet evs' \<and> stream evs' = rest \<and> sr_read_from_server_expect w cmd (evs @ later) s =
    rbind (handle_command w cmd m s) (\<lambda>(ret, s). Inr (Returned ret (evs' @ later) s))"
proof -
  note m = message_wfD [OF assms(1)]
  obtain evs1 where 1: "read_bytes 4 [] (evs @ later) s = Inr (Got (take 4 m) (evs1 @ later) s)" "list_all quiet evs1"
    "stream evs1 = drop 4 m @ rest"
    using read_bytes_quiet [OF assms(2), of "[]" 4 later s] m(4) by (auto simp: assms(3))
  have "length m - 4 \<le> length [] + length (stream evs1)" by (simp add: 1(3) diff_le_mono)
  then obtain evs2 where "read_bytes (length m - 4) [] (evs1 @ later) s = Inr (Got (drop 4 m) (evs2 @ later) s)"
    "list_all quiet evs2" "stream evs2 = rest"
    using read_bytes_quiet [OF 1(2), of "[]" "length m - 4" later s] by (auto simp: 1(3))
  then show ?thesis by (intro exI [of _ evs2]) (simp add: read_expect_Got [OF assms(1) 1(1)])
qed

lemma read_expect_end:
  assumes "list_all quiet evs" and "stream evs = []"
  shows "sr_read_from_server_expect w cmd evs s = Inr (Waiting s)"
  using read_bytes_blocked [OF assms(1), of "[]" 4 s] by (simp add: assms(2) sr_read_from_server_expect_def)

section \<open>The main loop on commands\<close>

fun serve :: "world \<Rightarrow> u8 list list \<Rightarrow> session \<Rightarrow> (int option \<times> session) res" where
  "serve w [] s = Inr (None, s)"
| "serve w (m # ms) s = rbind (handle_command w 0 m s) (\<lambda>(ret, s). if ret = 1 then serve w ms s else Inr (Some ret, s))"

fun outcome :: "server_result \<Rightarrow> int option \<times> session" where
  "outcome (Waiting s) = (None, s)"
| "outcome (Returned ret evs s) = (Some ret, s)"

lemma server_loop_quiet:
  assumes "Ball (set ms) message_wf" and "list_all quiet evs" and "stream evs = concat ms"
  shows "rbind (server_loop w evs s) (\<lambda>r. Inr (outcome r)) = serve w ms s"
  using assms
proof (induction ms arbitrary: evs s)
  case Nil
  then show ?case by (simp add: server_loop.simps [of w evs] sr_read_from_server_def read_expect_end)
next
  case (Cons m ms)
  then obtain evs' where e: "list_all quiet evs'" "stream evs' = concat ms"
    "sr_read_from_server w evs s = rbind (handle_command w 0 m s) (\<lambda>(ret, s). Inr (Returned ret evs' s))"
    using read_expect_quiet [of m evs "concat ms" w 0 "[]" s] by (auto simp: sr_read_from_server_def)
  show ?case
  proof (cases "handle_command w 0 m s")
    case (Inr p)
    then show ?thesis
      using Cons.IH [OF _ e(1,2), of "snd p"] Cons.prems(1)
      by (cases p) (simp add: server_loop.simps [of w evs] e(3))
  qed (simp add: server_loop.simps [of w evs] e(3))
qed

section \<open>Good commands\<close>

text \<open>What the server sends while packets are routed: frames that are good for the router, texts with an end.\<close>

definition command_of :: "u8 list \<Rightarrow> u32" where
  "command_of m = htonl (word32 (m ! 4) (m ! 5) (m ! 6) (m ! 7))"

definition command_ok :: "sr_instance \<Rightarrow> u8 list \<Rightarrow> bool" where
  "command_ok sr m \<longleftrightarrow> message_wf m \<and>
     (command_of m = VNSPACKET \<longrightarrow> frame_ok sr (drop 24 m) \<and> known sr (drop 8 m)) \<and>
     (command_of m = VNSCLOSE \<or> command_of m = VNSBANNER \<longrightarrow> 0 \<in> set (drop 8 m)) \<and>
     command_of m \<notin> {VNSHWINFO, VNS_RTABLE, VNS_AUTH_REQUEST, VNS_AUTH_STATUS}"

lemma handle_command_eq:
  assumes "8 \<le> length m"
  shows "handle_command w cmd m s =
    (let command = command_of m; buf = take 4 m @ bytes32 command @ drop 8 m in
     if cmd \<noteq> 0 \<and> command \<noteq> cmd \<and> command \<noteq> VNSCLOSE then Inr (-1, s)
     else if command = VNSPACKET then
       rbind (vns_packet (now s) (router s) buf) (\<lambda>sr. Inr (1, s\<lparr>router := sr\<rparr>))
     else if command = VNSCLOSE then rbind (strlen (drop 8 m)) (\<lambda>_. Inr (0, s))
     else if command = VNSBANNER then rbind (strlen (drop 8 m)) (\<lambda>_. Inr (1, s))
     else if command = VNSHWINFO then
       rbind (vns_hwinfo (node w) (router s) buf) (\<lambda>(sr, ret). Inr (ret, s\<lparr>router := sr\<rparr>))
     else if command = VNS_RTABLE then
       rbind (sr_handle_rtable w buf s) (\<lambda>(ok, s). Inr (if ok = 0 then -1 else 1, s))
     else if command = VNS_AUTH_REQUEST then
       rbind (auth_request w buf s) (\<lambda>(ok, s). Inr (if ok = 0 then -1 else 1, s))
     else if command = VNS_AUTH_STATUS then
       rbind (sr_handle_auth_status buf) (\<lambda>ok. Inr (if ok = 0 then -1 else 1, s))
     else Inr (1, s))"
proof -
  have "ld32 m 4 = Inr (word32 (m ! 4) (m ! 5) (m ! 6) (m ! 7))" using assms by (simp add: fields)
  moreover have "stn m 4 (bytes32 c) = Inr (take 4 m @ bytes32 c @ drop 8 m)" for c using assms by simp
  ultimately show ?thesis using assms by (simp add: handle_command_def command_of_def Let_def)
qed

lemma vns_packet_fine:
  assumes "router_ok sr" and "frame_ok sr (drop 24 m)" and "known sr (drop 8 m)" and "24 \<le> length m"
  shows "fine sr (vns_packet t sr m)"
proof -
  have len: "42 \<le> length (drop 24 m)" using assms(2) by (simp add: frame_ok_def)
  obtain i where i: "interface_for sr (drop 8 m) = Some i" "name_ok 32 (drop 8 m)" using assms(3) by (rule knownE)
  have "\<exists>b. sr_arp_req_not_for_us sr (drop 24 m) (drop 8 m) = Inr b"
    using len by (simp add: sr_arp_req_not_for_us_def get_interface [OF router_okD(1) [OF assms(1)] i(2)] i(1) fields)
  then obtain b where "sr_arp_req_not_for_us sr (drop 24 m) (drop 8 m) = Inr b" ..
  then show ?thesis
    using handlepacket_fine [OF assms(1-3), of t] assms(1,4) by (cases b) (simp_all add: vns_packet_def fine_def)
qed

definition session_fine :: "session \<Rightarrow> session \<Rightarrow> bool" where
  "session_fine s s' \<longleftrightarrow> router_ok (router s') \<and> same_tables (router s) (router s')"

lemma session_fine_trans: "session_fine s s' \<Longrightarrow> session_fine s' s'' \<Longrightarrow> session_fine s s''"
  by (auto simp: session_fine_def intro: same_tables_trans)

lemma session_fine_refl: "router_ok (router s) \<Longrightarrow> session_fine s s"
  by (simp add: session_fine_def)

lemma handle_command_fine:
  assumes "router_ok (router s)" and "command_ok (router s) m"
  shows "\<exists>ret s'. handle_command w 0 m s = Inr (ret, s') \<and> session_fine s s'"
proof -
  have len: "8 \<le> length m" and c: "command_of m \<notin> {VNSHWINFO, VNS_RTABLE, VNS_AUTH_REQUEST, VNS_AUTH_STATUS}"
    using assms(2) by (simp_all add: command_ok_def message_wf_def)
  let ?buf = "take 4 m @ bytes32 (command_of m) @ drop 8 m"
  have d: "drop 24 ?buf = drop 24 m" "drop 8 ?buf = drop 8 m" using len by simp_all
  consider "command_of m = VNSPACKET" | "command_of m = VNSCLOSE" | "command_of m = VNSBANNER"
    | "command_of m \<notin> {VNSPACKET, VNSCLOSE, VNSBANNER}" by auto
  then show ?thesis
  proof cases
    case 1
    with assms(2) have f: "frame_ok (router s) (drop 24 m)" "known (router s) (drop 8 m)" by (simp_all add: command_ok_def)
    have "length ?buf = length m" using len by simp
    with f(1) have "24 \<le> length ?buf" by (simp only: frame_ok_def length_drop) linarith
    then have "fine (router s) (vns_packet (now s) (router s) ?buf)"
      by (intro vns_packet_fine assms(1)) (simp_all only: d f)
    then obtain sr where "vns_packet (now s) (router s) ?buf = Inr sr" "router_ok sr" "same_tables (router s) sr"
      by (auto simp: fine_def)
    with 1 show ?thesis by (simp add: handle_command_eq [OF len] Let_def session_fine_def)
  next
    case 2
    with assms show ?thesis
      by (simp add: handle_command_eq [OF len] Let_def command_ok_def strlen_def session_fine_refl command_defs)
  next
    case 3
    with assms show ?thesis
      by (simp add: handle_command_eq [OF len] Let_def command_ok_def strlen_def session_fine_refl command_defs)
  next
    case 4
    with assms(1) c show ?thesis by (simp add: handle_command_eq [OF len] Let_def session_fine_refl)
  qed
qed

section \<open>Any events\<close>

fun session_of :: "read_outcome \<Rightarrow> session" where
  "session_of (Got b evs s) = s"
| "session_of (Broken evs s) = s"
| "session_of (Blocked s) = s"

lemma thread_pass_fine:
  assumes "router_ok (router s)"
  shows "\<exists>s'. thread_pass t t' s = Inr s' \<and> session_fine s s'"
  using timeout_fine [OF assms, of t t'] assms by (auto simp: thread_pass_def session_fine_def fine_def)

lemma read_bytes_fine:
  assumes "router_ok (router s)" and "length got \<le> n"
  shows "\<exists>r. read_bytes n got evs s = Inr r \<and> session_fine s (session_of r) \<and>
    (\<forall>b evs' s'. r = Got b evs' s' \<longrightarrow> length b = n \<and> b @ stream evs' = got @ stream evs)"
  using assms
proof (induction evs arbitrary: got s)
  case Nil
  then show ?case by (cases "n \<le> length got") (auto simp: session_fine_refl)
next
  case (Cons ev evs)
  show ?case
  proof (cases "n \<le> length got")
    case True
    with Cons.prems show ?thesis by (simp add: session_fine_refl)
  next
    case False
    show ?thesis
    proof (cases ev)
      case (Data bs)
      show ?thesis
      proof (cases "length bs \<le> n - length got")
        case True
        with Cons.IH [of s "got @ bs"] Cons.prems False show ?thesis by (simp add: Data Let_def)
      next
        case F: False
        with Cons.prems False show ?thesis by (simp add: Data Let_def session_fine_refl)
      qed
    next
      case (Pass t t')
      obtain s1 where s1: "thread_pass t t' s = Inr s1" "session_fine s s1" using thread_pass_fine [OF Cons.prems(1)] by blast
      then obtain r where "read_bytes n got evs s1 = Inr r" "session_fine s1 (session_of r)"
        "\<forall>b evs' s'. r = Got b evs' s' \<longrightarrow> length b = n \<and> b @ stream evs' = got @ stream evs"
        using Cons.IH [of s1 got] Cons.prems(2) by (auto simp: session_fine_def)
      with False s1 show ?thesis by (simp add: Pass) (auto intro: session_fine_trans)
    next
      case (Elapsed t)
      have "session_fine s (s\<lparr>now := t\<rparr>)" using Cons.prems(1) by (simp add: session_fine_def)
      then show ?thesis using Cons.IH [of "s\<lparr>now := t\<rparr>" got] Cons.prems False
        by (auto simp: Elapsed intro: session_fine_trans)
    qed (use Cons False in \<open>auto simp: session_fine_refl\<close>)
  qed
qed

lemma command_ok_same:
  assumes "session_fine s s'"
  shows "command_ok (router s') = command_ok (router s)"
proof -
  have "same_tables (router s) (router s')" using assms by (simp add: session_fine_def)
  from same_tablesD [OF this] show ?thesis by (simp add: command_ok_def fun_eq_iff)
qed

lemma prefix_take:
  assumes "b @ r = t" and "prefix t (m @ ms)" and "length b \<le> length m"
  shows "b = take (length b) m" "prefix r (drop (length b) m @ ms)"
proof -
  obtain z where z: "m @ ms = b @ r @ z" using assms(1,2) by (auto simp: prefix_def)
  then have "take (length b) (m @ ms) = b" "drop (length b) (m @ ms) = r @ z" by simp_all
  then show "b = take (length b) m" "prefix r (drop (length b) m @ ms)" using assms(3) by simp_all
qed

lemma read_command_fine:
  assumes "router_ok (router s)" and "command_ok (router s) m" and "prefix (stream evs) (m @ ms)"
  shows "(\<exists>s'. sr_read_from_server w evs s = Inr (Waiting s') \<and> session_fine s s') \<or>
    (\<exists>ret evs' s'. sr_read_from_server w evs s = Inr (Returned ret evs' s') \<and> session_fine s s' \<and>
      (ret = 1 \<longrightarrow> prefix (stream evs') ms))"
proof -
  have wf: "message_wf m" using assms(2) by (simp add: command_ok_def)
  note m = message_wfD(4) [OF wf]
  obtain r where r: "read_bytes 4 [] evs s = Inr r" "session_fine s (session_of r)"
    "\<forall>b evs' s'. r = Got b evs' s' \<longrightarrow> length b = 4 \<and> b @ stream evs' = stream evs"
    using read_bytes_fine [OF assms(1), of "[]" 4 evs] by auto
  show ?thesis
  proof (cases r)
    case (Got b evs1 s1)
    with r have b: "length b = 4" "b @ stream evs1 = stream evs" and s1: "session_fine s s1" by simp_all
    have p1: "b = take 4 m" "prefix (stream evs1) (drop 4 m @ ms)"
      using prefix_take [OF b(2) assms(3)] b(1) m by simp_all
    note e = read_expect_Got [OF wf r(1) [unfolded Got p1(1)]]
    obtain r2 where r2: "read_bytes (length m - 4) [] evs1 s1 = Inr r2" "session_fine s1 (session_of r2)"
      "\<forall>b evs' s'. r2 = Got b evs' s' \<longrightarrow> length b = length m - 4 \<and> b @ stream evs' = stream evs1"
      using read_bytes_fine [of s1 "[]" "length m - 4" evs1] s1 by (auto simp: session_fine_def)
    show ?thesis
    proof (cases r2)
      case (Got body evs2 s2)
      with r2 have b2: "length body = length m - 4" "body @ stream evs2 = stream evs1" and s2: "session_fine s1 s2" by simp_all
      have p2: "body = drop 4 m" "prefix (stream evs2) ms"
        using prefix_take [OF b2(2) p1(2)] b2(1) by simp_all
      have f: "session_fine s s2" by (rule session_fine_trans [OF s1 s2])
      then have "router_ok (router s2)" "command_ok (router s2) m"
        using assms(2) command_ok_same [OF f] by (simp_all add: session_fine_def)
      then obtain ret s' where "handle_command w 0 m s2 = Inr (ret, s')" "session_fine s2 s'"
        using handle_command_fine by blast
      with f p2 show ?thesis by (simp add: sr_read_from_server_def e r2(1) Got) (auto intro: session_fine_trans)
    qed (use r2 s1 in \<open>auto simp: sr_read_from_server_def e intro: session_fine_trans\<close>)
  qed (use r in \<open>auto simp: sr_read_from_server_def sr_read_from_server_expect_def\<close>)
qed

lemma server_loop_fine:
  assumes "router_ok (router s)" and "Ball (set ms) (command_ok (router s))" and "prefix (stream evs) (concat ms)"
  shows "\<exists>r. server_loop w evs s = Inr r \<and> session_fine s (snd (outcome r))"
  using assms
proof (induction ms arbitrary: evs s)
  case Nil
  obtain r where r: "read_bytes 4 [] evs s = Inr r" "session_fine s (session_of r)"
    "\<forall>b evs' s'. r = Got b evs' s' \<longrightarrow> length b = 4 \<and> b @ stream evs' = stream evs"
    using read_bytes_fine [OF Nil(1), of "[]" 4 evs] by auto
  with Nil.prems(3) show ?case
    by (cases r) (auto simp: server_loop.simps [of w evs] sr_read_from_server_def sr_read_from_server_expect_def)
next
  case (Cons m ms)
  then have "command_ok (router s) m" "prefix (stream evs) (m @ concat ms)" by simp_all
  from read_command_fine [OF Cons.prems(1) this, of w] show ?case
  proof (elim disjE exE conjE)
    fix ret evs' s'
    assume r: "sr_read_from_server w evs s = Inr (Returned ret evs' s')" "session_fine s s'"
      "ret = 1 \<longrightarrow> prefix (stream evs') (concat ms)"
    show ?thesis
    proof (cases "ret = 1")
      case True
      have "command_ok (router s') = command_ok (router s)"
        by (rule command_ok_same [OF r(2)])
      then obtain q where "server_loop w evs' s' = Inr q" "session_fine s' (snd (outcome q))"
        using Cons.IH [of s' evs'] Cons.prems(2) r True by (auto simp: session_fine_def)
      with r True show ?thesis by (simp add: server_loop.simps [of w evs]) (auto intro: session_fine_trans)
    qed (use r in \<open>simp add: server_loop.simps [of w evs]\<close>)
  qed (simp add: server_loop.simps [of w evs])
qed

section \<open>Commands that set up the session\<close>

definition message :: "u32 \<Rightarrow> u8 list \<Rightarrow> u8 list" where
  "message c body = bytes32 (htonl (of_nat (8 + length body))) @ bytes32 (htonl c) @ body"

lemma message_parts:
  assumes "length body \<le> 9992"
  shows "message_wf (message c body)" "command_of (message c body) = c" "drop 8 (message c body) = body"
    "take 4 (message c body) = bytes32 (htonl (of_nat (8 + length body)))"
proof -
  obtain a b d e where l: "bytes32 (htonl (of_nat (8 + length body))) = [a, b, d, e]" by (simp add: bytes32_def)
  obtain a' b' d' e' where t: "bytes32 (htonl c) = [a', b', d', e']" by (simp add: bytes32_def)
  show "command_of (message c body) = c"
    using word32_bytes32 [of "htonl c"] unfolding command_of_def message_def l t by simp
  show "message_wf (message c body)" using assms by (simp add: message_wf_def message_def)
  show "drop 8 (message c body) = body" "take 4 (message c body) = bytes32 (htonl (of_nat (8 + length body)))"
    by (simp_all add: message_def)
qed

lemma handle_texts:
  assumes "length body \<le> 9992" and "0 \<in> set body"
  shows "handle_command w 0 (message VNSBANNER body) s = Inr (1, s)" "handle_command w 0 (message VNSCLOSE body) s = Inr (0, s)"
proof -
  have "8 \<le> length (message c body)" for c by (simp add: message_def)
  from handle_command_eq [OF this]
  show "handle_command w 0 (message VNSBANNER body) s = Inr (1, s)" "handle_command w 0 (message VNSCLOSE body) s = Inr (0, s)"
    using assms by (simp_all add: Let_def message_parts strlen_def command_defs)
qed

lemma handle_auth_request:
  assumes "read_key w s = Some key" and "length key = 65" and "length (Message_Block (sha1_memory w)) = 64"
    and "sr_user s = user @ 0 # u" and "0 \<notin> set user" and "length salt \<le> 9992"
  shows "handle_command w VNS_AUTH_REQUEST (message VNS_AUTH_REQUEST salt) s =
    Inr (1, send_message (bytes32 (htonl (of_nat (32 + length user))) @ bytes32 (htonl 256) @
      bytes32 (htonl (of_nat (length user))) @ user @ digest_bytes (fips_sha1 (salt @ take 64 key))) s)"
proof -
  have len: "8 \<le> length (message c body)" for c body by (simp add: message_def)
  have "sr_handle_auth_request (Some key) (user @ 0 # u) (sha1_memory w)
      (bytes32 (htonl (of_nat (8 + length salt))) @ bytes32 VNS_AUTH_REQUEST @ salt) =
    Inr (Some (bytes32 (htonl (of_nat (32 + length user))) @ bytes32 (htonl 256) @
      bytes32 (htonl (of_nat (length user))) @ user @ digest_bytes (fips_sha1 (salt @ take 64 key))), 1)"
    using assms by (intro auth_reply_digest [OF _ assms(2,3,5) refl]) (simp_all add: bytes32_def)
  then show ?thesis
    unfolding handle_command_eq [OF len] Let_def message_parts [OF assms(6)] auth_request_def assms(1,4)
    by (simp add: command_defs)
qed

lemma handle_auth_status:
  assumes "length txt \<le> 9991" and "0 \<in> set txt"
  shows "handle_command w VNS_AUTH_STATUS (message VNS_AUTH_STATUS (ok # txt)) s = Inr (if ok \<noteq> 0 then 1 else -1, s)"
proof -
  have len: "8 \<le> length (message c body)" for c body by (simp add: message_def)
  have body: "length (ok # txt) \<le> 9992" using assms(1) by simp
  have "ld8 (bytes32 l @ bytes32 t @ ok # txt) 8 = Inr ok" "drop 9 (bytes32 l @ bytes32 t @ ok # txt) = txt" for l t :: u32
    by (simp_all add: ld8_def arr_get_def nth_append)
  then have "sr_handle_auth_status (bytes32 l @ bytes32 t @ ok # txt) = Inr (uint ok)" for l t :: u32
    using assms(2) unfolding sr_handle_auth_status_def by (cases "ok = 0") (simp_all add: strlen_def)
  then show ?thesis
    unfolding handle_command_eq [OF len] Let_def message_parts [OF body]
    by (simp add: command_defs uint_0_iff)
qed

lemma expecting_quiet:
  assumes "message_wf m" and "list_all quiet evs" and "stream evs = m @ rest" and "handle_command w cmd m s = Inr (ret, s')"
  shows "\<exists>evs'. list_all quiet evs' \<and> stream evs' = rest \<and>
    expecting w cmd k (evs @ later) s = (if ret = 1 then k (evs' @ later) s' else Inr (Returned (-1) (evs' @ later) s'))"
  using read_expect_quiet [OF assms(1-3), of w cmd later s] by (auto simp: expecting_def assms(4))

lemma padded_Inr:
  assumes "n \<le> length x"
  shows "strncpy n x = Inr (padded n x)"
proof -
  have "name_ok n x" using assms by (simp add: name_ok_def)
  from strncpy_Inr [OF this] show ?thesis by (auto simp: padded_def)
qed

lemma handle_rtable:
  assumes "length fn < 32" and "0 \<notin> set fn" and "writable w (chars ''rtable.'' @ fn)" and "length out \<le> 9960"
  shows "handle_command w cmd (message VNS_RTABLE (fn @ replicate (32 - length fn) 0 @ out)) s =
    (if cmd = 0 \<or> cmd = VNS_RTABLE then Inr (1, s\<lparr>files := (files s)(chars ''rtable.'' @ fn := Some out)\<rparr>) else Inr (-1, s))"
proof -
  let ?body = "fn @ replicate (32 - length fn) 0 @ out"
  have len: "8 \<le> length (message c body)" for c body by (simp add: message_def)
  have body: "length ?body = 32 + length out" "length ?body \<le> 9992" using assms(1,4) by simp_all
  obtain m where m: "32 - length fn = Suc m" using assms(1) by (cases "32 - length fn") auto
  have tw: "takeWhile (\<lambda>c. c \<noteq> 0) ?body = fn" using assms(2) unfolding m replicate_Suc append_Cons
    by (subst takeWhile_append2) auto
  have l: "strlen ?body = Inr (length fn)" unfolding strlen_def tw by (simp add: m)
  let ?buf = "bytes32 (htonl (of_nat (8 + length ?body))) @ bytes32 VNS_RTABLE @ ?body"
  have b: "drop 8 ?buf = ?body" "drop 40 ?buf = out" "length ?buf = 40 + length out" using assms(1) by (simp_all add: bytes32_def)
  have ld: "ld32 ?buf 0 = Inr (htonl (of_nat (8 + length ?body)))" by (rule ld32_at_start [OF refl])
  have "of_nat (8 + length ?body) - 8 - of_nat IDSIZE = (of_nat (length out) :: u32)"
    unfolding body(1) IDSIZE_def by simp
  moreover have "unat (of_nat (length out) :: u32) = length out"
    using assms(4) by (simp only: unsigned_of_nat) (simp add: take_bit_nat_eq_self)
  ultimately have "unat (htonl (htonl (of_nat (8 + length ?body))) - 8 - of_nat IDSIZE) = length out" by (simp only: htonl_htonl)
  then have "sr_handle_rtable w ?buf s = Inr (1, s\<lparr>files := (files s)(chars ''rtable.'' @ fn := Some out)\<rparr>)"
    using assms(1,3) unfolding sr_handle_rtable_def b(1) l rbind_simps ld
    by (simp add: b(2,3) ldn_def IDSIZE_def Let_def)
  then show ?thesis
    unfolding handle_command_eq [OF len] Let_def message_parts [OF body(2)] by (simp add: command_defs)
qed

lemma connect_handshake:
  assumes "reachable_server w" and "read_key w s = Some key" and "length key = 65"
    and "length (Message_Block (sha1_memory w)) = 64"
    and "sr_user s = user @ 0 # u" and "0 \<notin> set user" and "length (sr_user s) = 32" and "length (sr_host s) = 32"
    and "sr_template s = 0 # t" and "length salt \<le> 9992" and "length txt \<le> 9991" and "0 \<in> set txt"
    and "list_all quiet evs"
    and "stream evs = message VNS_AUTH_REQUEST salt @ message VNS_AUTH_STATUS (ok # txt) @ rest"
    and "replied = send_message (bytes32 (htonl (of_nat (32 + length user))) @ bytes32 (htonl 256) @
        bytes32 (htonl (of_nat (length user))) @ user @ digest_bytes (fips_sha1 (salt @ take 64 key))) s"
  shows "\<exists>evs'. stream evs' = rest \<and> list_all quiet evs' \<and> sr_connect_to_server w (evs @ later) s = Inr (
    if ok \<noteq> 0 then Returned 0 (evs' @ later) (send_message (bytes32 (htonl 108) @ bytes32 (htonl VNSOPEN) @
        bytes16 (htons (sr_topo_id s)) @ [0, 0] @ padded 32 (sr_host s) @ padded 32 (sr_user s) @ replicate 32 0) replied)
    else Returned (-1) (evs' @ later) replied)"
proof -
  have f: "sr_template replied = 0 # t" "sr_host replied = sr_host s" "sr_user replied = sr_user s" "sr_topo_id replied = sr_topo_id s"
    by (simp_all add: assms(9,15) send_message_def)
  define k where "k = (\<lambda>evs s. rbind (strlen (sr_template s)) (\<lambda>l.
       rbind (if l > 0 then open_template_message s else open_message s) (\<lambda>m. let s = send_message m s in
       if l > 0 then expecting w VNS_RTABLE (\<lambda>evs s. Inr (Returned 0 evs s)) evs s
       else Inr (Returned 0 evs s))))"
  obtain evs1 where 1: "list_all quiet evs1" "stream evs1 = message VNS_AUTH_STATUS (ok # txt) @ rest"
    "expecting w VNS_AUTH_REQUEST (expecting w VNS_AUTH_STATUS k) (evs @ later) s = expecting w VNS_AUTH_STATUS k (evs1 @ later) replied"
    using expecting_quiet [OF message_parts(1) [OF assms(10)] assms(13,14) handle_auth_request [OF assms(2-6,10)],
        of "expecting w VNS_AUTH_STATUS k" later, folded assms(15)] by auto
  have "length (ok # txt) \<le> 9992" using assms(11) by simp
  from expecting_quiet [OF message_parts(1) [OF this] 1(1,2) handle_auth_status [OF assms(11,12)], of w k later]
  obtain evs2 where q: "list_all quiet evs2" and 2: "stream evs2 = rest" "expecting w VNS_AUTH_STATUS k (evs1 @ later) replied =
      (if ok \<noteq> 0 then k (evs2 @ later) replied else Inr (Returned (-1) (evs2 @ later) replied))" by (cases "ok = 0") auto
  have "sr_connect_to_server w (evs @ later) s = (if ok \<noteq> 0 then k (evs2 @ later) replied else Inr (Returned (-1) (evs2 @ later) replied))"
    using assms(1) by (simp only: sr_connect_to_server_def k_def [symmetric] 1(3) 2(2) not_True_eq_False if_False)
  moreover have "k (evs2 @ later) replied = Inr (Returned 0 (evs2 @ later) (send_message (bytes32 (htonl 108) @ bytes32 (htonl VNSOPEN) @
      bytes16 (htons (sr_topo_id s)) @ [0, 0] @ padded 32 (sr_host s) @ padded 32 (sr_user s) @ replicate 32 0) replied))"
    using assms(7,8) by (simp add: k_def f strlen_def open_message_def IDSIZE_def padded_Inr Let_def)
  ultimately show ?thesis using 2(1) q by (intro exI [of _ evs2]) (simp only: if_True if_False split: if_split, simp)
qed

definition example_session :: session where
  "example_session = \<lparr>router = ex_router, sr_user = [98] @ replicate 31 0, sr_host = replicate 32 0,
     sr_template = replicate 30 0, sr_topo_id = 0, files = [chars ''auth_key'' \<mapsto> replicate 64 7], now = 1, arp_thread = True\<rparr>"

definition example_world :: world where
  "example_world = \<lparr>node = (\<lambda>_. example_if 0), sha1_memory = ex_context, key_memory = replicate 65 0, writable = (\<lambda>_. True),
     reachable_server = True, pw_name = None\<rparr>"

definition example_banner :: "u8 list" where "example_banner = message VNSBANNER [104, 105, 0]"
definition example_close :: "u8 list" where "example_close = message VNSCLOSE [0]"
definition example_frame :: "u8 list" where
  "example_frame = message VNSPACKET (take 16 (if_name (example_if 1)) @ ex_packet)"

lemma example_commands: "Ball {example_banner, example_close, example_frame} (command_ok ex_router)"
proof -
  have texts: "command_ok ex_router example_banner" "command_ok ex_router example_close"
    by (simp_all add: command_ok_def example_banner_def example_close_def message_parts command_defs)
  have n: "length (if_name (example_if 1)) = 32" by (simp add: example_if_def)
  have "interface_for ex_router (take 16 (if_name (example_if 1)) @ ex_packet) = Some (example_if 1)" by code_simp
  moreover have "name_ok 32 (take 16 (if_name (example_if 1)) @ ex_packet)" by (simp add: name_ok_def n ex_packet_fields)
  ultimately have "command_ok ex_router example_frame"
    using message_parts [of "take 16 (if_name (example_if 1)) @ ex_packet" VNSPACKET] drop_drop [of 16 8 example_frame]
    by (simp add: command_ok_def example_frame_def ex_packet_fields n ex_packet_ok known_def command_defs)
  with texts show ?thesis by simp
qed

section \<open>Properties\<close>

text \<open>
  C36: The main loop sees the commands of the server, not the pieces in which their bytes arrive:
  however the stream is cut, and whatever calls are interrupted, the commands are handled one by one
  in their order until one ends the session. When they are all handled the program waits for later,
  also when the server has closed the connection, which it does not notice.
\<close>

theorem session_refines_commands:
  assumes "Ball (set ms) message_wf" and "list_all quiet evs" and "stream evs = concat ms"
  shows "rbind (server_loop w (evs @ replicate k (Data [])) s) (\<lambda>r. Inr (outcome r)) = serve w ms s"
proof -
  have s: "stream (evs @ replicate k (Data [])) = stream evs" for evs
    by (induction evs rule: stream.induct) (induction k, auto)
  have "list_all quiet (evs @ replicate k (Data []))" using assms(2) by (auto simp: list_all_iff split: if_splits)
  from server_loop_quiet [OF assms(1) this] show ?thesis by (simp add: s assms(3))
qed

theorem session_refines_commands_witness:
  "rbind (server_loop example_world ([Interrupted, Data (take 3 example_banner), Data (drop 3 example_banner @ example_close)]
       @ replicate 5 (Data [])) example_session) (\<lambda>r. Inr (outcome r)) =
     serve example_world [example_banner, example_close] example_session \<and>
   serve example_world [example_banner, example_close] example_session = Inr (Some 0, example_session)"
proof (intro conjI session_refines_commands)
  show "serve example_world [example_banner, example_close] example_session = Inr (Some 0, example_session)"
    by (simp add: example_banner_def example_close_def handle_texts)
qed (simp_all add: example_banner_def example_close_def message_parts)

text \<open>
  C35: The router never faults while it routes: from a state with the invariant, when the server
  sends good frames, banners and an end of the session, the main loop runs on without an access
  outside a buffer, whatever passes of the ARP thread, interrupted calls and errors of the connection
  come between or inside the commands, and wherever the stream breaks off; and the invariant holds
  when it waits or has ended.
\<close>

theorem session_never_faults:
  assumes "router_ok (router s)" and "Ball (set ms) (command_ok (router s))" and "prefix (stream evs) (concat ms)"
  shows "\<exists>r. server_loop w evs s = Inr r \<and> router_ok (router (snd (outcome r))) \<and>
    if_list (router (snd (outcome r))) = if_list (router s) \<and> routing_table (router (snd (outcome r))) = routing_table (router s)"
  using server_loop_fine [OF assms] by (auto simp: session_fine_def same_tables_def)

theorem session_never_faults_witness:
  "\<exists>r. server_loop example_world [Data (take 30 example_frame), Pass 3 3, Data (drop 30 example_frame), Failed] example_session = Inr r \<and>
    router_ok (router (snd (outcome r)))"
proof -
  have r: "router example_session = ex_router" by (simp add: example_session_def)
  have "router_ok (router example_session)" "Ball (set [example_frame]) (command_ok (router example_session))"
    using example_commands by (simp_all add: r ex_router_ok)
  moreover have "prefix (stream [Data (take 30 example_frame), Pass 3 3, Data (drop 30 example_frame), Failed]) (concat [example_frame])"
    by simp
  ultimately show ?thesis using session_never_faults [of example_session "[example_frame]"] by blast
qed

text \<open>
  C37: The handshake: when the server sends a request with a salt, the router answers with its name and
  the SHA-1 digest of the salt and its key. If the server accepts the reply, the router has sent after
  it the message that opens the topology for its host and user, and nothing else, and what follows on
  the stream is left to read; if the server rejects the reply, connecting fails and nothing more is sent.
\<close>

theorem handshake:
  assumes "reachable_server w" and "read_key w s = Some key" and "length key = 65"
    and "length (Message_Block (sha1_memory w)) = 64"
    and "sr_user s = user @ 0 # u" and "0 \<notin> set user" and "length (sr_user s) = 32" and "length (sr_host s) = 32"
    and "sr_template s = 0 # t" and "length salt \<le> 9992" and "length txt \<le> 9991" and "0 \<in> set txt"
    and "list_all quiet evs"
    and "stream evs = message VNS_AUTH_REQUEST salt @ message VNS_AUTH_STATUS (ok # txt) @ rest"
    and "replied = send_message (bytes32 (htonl (of_nat (32 + length user))) @ bytes32 (htonl 256) @
        bytes32 (htonl (of_nat (length user))) @ user @ digest_bytes (fips_sha1 (salt @ take 64 key))) s"
  shows "\<exists>evs'. stream evs' = rest \<and> list_all quiet evs' \<and> sr_connect_to_server w (evs @ later) s = Inr (
    if ok \<noteq> 0 then Returned 0 (evs' @ later) (send_message (bytes32 (htonl 108) @ bytes32 (htonl VNSOPEN) @
        bytes16 (htons (sr_topo_id s)) @ [0, 0] @ padded 32 (sr_host s) @ padded 32 (sr_user s) @ replicate 32 0) replied)
    else Returned (-1) (evs' @ later) replied)"
  by (rule connect_handshake [OF assms])

theorem handshake_witness:
  "\<exists>evs' s'. sr_connect_to_server example_world
      [Data (message VNS_AUTH_REQUEST [1, 2]), Interrupted, Data (message VNS_AUTH_STATUS [1, 0])] example_session =
    Inr (Returned 0 evs' s') \<and> stream evs' = [] \<and> length (sent (router s')) = 2"
proof -
  have "read_key example_world example_session = Some (replicate 64 7 @ [0])"
    by (simp add: read_key_def example_session_def example_world_def Let_def AUTH_KEY_LEN_def first_line_def takeWhile_replicate dropWhile_replicate)
  moreover have "sr_user example_session = [98] @ 0 # replicate 30 0" "length (sr_user example_session) = 32"
    "sr_template example_session = 0 # replicate 29 0" "length (sr_host example_session) = 32" "sent (router example_session) = []"
    by (simp_all add: example_session_def ex_router_def numeral_eq_Suc)
  moreover have "reachable_server example_world" "length (Message_Block (sha1_memory example_world)) = 64"
    by (simp_all add: example_world_def ex_context_def SHA1Reset_def)
  ultimately show ?thesis
    using handshake [of example_world example_session "replicate 64 7 @ [0]" "[98]" "replicate 30 0" "replicate 29 0" "[1, 2]" "[0]"
        "[Data (message VNS_AUTH_REQUEST [1, 2]), Interrupted, Data (message VNS_AUTH_STATUS [1, 0])]" 1 "[]" _ "[]"]
    by (auto simp: send_message_def)
qed

text \<open>
  A routing table that the server sends is the one the router uses: the command with the
  lines of the entries of a table, as they are printed, is written to a file named after the host,
  and loading that file gives the same routes.
\<close>

theorem rtable_received:
  assumes "Ball (set rt) entry_text_ok" and "rt \<noteq> []" and "print_entries rt = Inr out" and "length out \<le> 9960"
    and "length fn < 32" and "0 \<notin> set fn" and "writable w (chars ''rtable.'' @ fn)"
  shows "rbind (handle_command w VNS_RTABLE (message VNS_RTABLE (fn @ replicate (32 - length fn) 0 @ out)) s)
      (\<lambda>(ret, s). load_table (chars ''rtable.'' @ fn) s) =
    Inr (s\<lparr>files := (files s)(chars ''rtable.'' @ fn := Some out), router := (router s)\<lparr>routing_table := rt\<rparr>\<rparr>)"
proof -
  have "sr_load_rt_wrap (Some out) old = Inr rt" for old
    using load_lines_printed(1) [OF assms(1,2), of old] assms(3)
    by (simp add: sr_load_rt_wrap_def print_entries_lines [OF assms(1)] print_table_lines [OF assms(1,2)])
  then show ?thesis by (simp add: handle_rtable [OF assms(5,6,7,4)] load_table_def)
qed

theorem rtable_received_witness:
  "\<exists>out. print_entries example_rt = Inr out \<and>
    rbind (handle_command example_world VNS_RTABLE (message VNS_RTABLE (chars ''vrhost'' @ replicate 26 0 @ out)) example_session)
      (\<lambda>(ret, s). load_table (chars ''rtable.'' @ chars ''vrhost'') s) =
    Inr (example_session\<lparr>files := (files example_session)(chars ''rtable.'' @ chars ''vrhost'' := Some out),
      router := (router example_session)\<lparr>routing_table := example_rt\<rparr>\<rparr>)"
proof -
  have out: "print_entries example_rt = Inr (entry_line (hd example_rt))" "Ball (set example_rt) entry_text_ok"
    using print_entries_lines [OF example_rt_ok] example_rt_ok by (simp_all add: example_rt_def)
  have "length (entry_line (hd example_rt)) < BUFSIZ" using example_rt_ok entry_line_chars(3) by (simp add: example_rt_def)
  then have l: "length (entry_line (hd example_rt)) \<le> 9960" by (simp add: BUFSIZ_def)
  have n: "length (chars ''vrhost'') = 6" "0 \<notin> set (chars ''vrhost'')" "example_rt \<noteq> []"
    by (simp_all add: chars_def example_rt_def)
  have w: "writable example_world x" for x by (simp add: example_world_def)
  show ?thesis
    using rtable_received [OF out(2) n(3) out(1) l, of "chars ''vrhost''" example_world example_session] n w out(1)
    by simp
qed

end
