(* ===== verification/RouterMain.thy ===== *)
theory RouterMain
  imports Session
begin

text \<open>
  The whole run of the router: the routing table file, the handshake and the hardware description
  establish the invariant of the router, and it runs on with it.
\<close>

section \<open>Tables that fit\<close>

definition established :: "sr_if list \<Rightarrow> sr_rt list \<Rightarrow> u8 list list \<Rightarrow> sr_instance" where
  "established is rt ms = \<lparr>if_list = is, routing_table = rt, cache = sr_arpcache_init, sent = ms\<rparr>"

definition tables_fit :: "sr_if list \<Rightarrow> sr_rt list \<Rightarrow> bool" where
  "tables_fit is rt \<longleftrightarrow> is \<noteq> [] \<and> rt \<noteq> [] \<and>
     (\<forall>i \<in> set is. hw_if i \<and> sr_rt_lookup_ip rt (if_ip i) \<noteq> None) \<and>
     (\<forall>r \<in> set rt. name_ok 32 (rt_if r) \<and> (\<exists>i \<in> set is. cstr 32 (if_name i) = cstr 32 (rt_if r)))"

lemma established_simps [simp]:
  "if_list (established is rt ms) = is" "routing_table (established is rt ms) = rt"
  "cache (established is rt ms) = sr_arpcache_init" "sent (established is rt ms) = ms"
  by (simp_all add: established_def)

lemma hw_if_ok: "hw_if i \<Longrightarrow> if_ok i"
  by (simp add: hw_if_def hw_fits_def if_ok_def name_ok_def)

lemma fit_known:
  assumes "tables_fit is rt" and "r \<in> set rt"
  shows "known (established is rt ms) (rt_if r)"
  using assms by (auto simp: tables_fit_def known_def interface_for_def find_None_iff)

lemma established_ok:
  assumes "tables_fit is rt"
  shows "router_ok (established is rt ms)"
proof -
  have "ifs_ok (established is rt ms)" using assms by (auto simp: ifs_ok_def tables_fit_def hw_if_ok)
  moreover have "\<forall>i \<in> set is. routable (established is rt ms) (if_ip i)" using assms by (simp add: tables_fit_def routable_def)
  moreover have "routes_ok (established is rt ms)" using fit_known [OF assms] by (simp add: routes_ok_def)
  moreover have "requests sr_arpcache_init = []" by (simp add: sr_arpcache_init_def)
  ultimately show ?thesis by (simp add: router_ok_def arp_ok_init queues_def)
qed

lemma fit_verified:
  assumes "tables_fit is rt"
  shows "sr_verify_routing_table is rt = Inr 0"
proof (rule verify_ok)
  show "is \<noteq> []" "rt \<noteq> []" using assms by (simp_all add: tables_fit_def)
  have ok: "ifs_ok (established is rt [])" by (rule router_okD [OF established_ok [OF assms]])
  show "\<forall>r \<in> set rt. \<exists>i. sr_get_interface is (rt_if r) = Inr (Some i)"
    using fit_known [OF assms, of _ "[]"] get_interface [OF ok] by (fastforce simp: known_def)
qed

section \<open>The hardware description\<close>

lemma handle_hwinfo:
  assumes "tables_fit is rt" and "108 * length is \<le> 9992" and "router s = established [] rt ms"
  shows "handle_command w 0 (message VNSHWINFO (concat (map hw_block is))) s =
    Inr (1, s\<lparr>router := established is rt ms\<rparr>)"
proof -
  let ?body = "concat (map hw_block is)"
  have hw: "\<forall>i \<in> set is. hw_fits i" and named: "\<forall>i \<in> set is. named i"
    using assms(1) by (simp_all add: tables_fit_def hw_if_def)
  have len: "8 \<le> length (message c body)" for c body by (simp add: message_def)
  have body: "length ?body = 108 * length is" "length ?body \<le> 9992" using length_hw_blocks [OF hw] assms(2) by simp_all
  let ?buf = "bytes32 (htonl (of_nat (8 + length ?body))) @ bytes32 VNSHWINFO @ ?body"
  have "sr_handle_hwinfo (node w) ?buf [] =
    (if \<forall>i \<in> set ([] @ is). named i then Inr ([] @ is, 3 * int (length is)) else Inl OutOfBounds)"
  proof (rule hwinfo_read [OF hw])
    show "ld32 ?buf 0 = Inr (htonl (of_nat (8 + 108 * length is)))" unfolding body(1) by (rule ld32_at_start [OF refl])
  qed (use assms(2) in \<open>simp_all add: bytes32_def\<close>)
  then have "vns_hwinfo (node w) (router s) ?buf = Inr (established is rt ms, 1)"
    by (simp add: named vns_hwinfo_def assms(3) fit_verified [OF assms(1)])
  then show ?thesis
    unfolding handle_command_eq [OF len] Let_def message_parts [OF body(2)] by (simp add: command_defs)
qed

section \<open>The start\<close>

lemma load_table_printed:
  assumes "Ball (set rt) entry_text_ok" and "rt \<noteq> []" and "print_entries rt = Inr out" and "files s fn = Some out"
  shows "load_table fn s = Inr (s\<lparr>router := (router s)\<lparr>routing_table := rt\<rparr>\<rparr>)"
  using load_lines_printed(1) [OF assms(1,2)] assms(3,4)
  by (simp add: load_table_def sr_load_rt_wrap_def print_entries_lines [OF assms(1)] print_table_lines [OF assms(1,2)])

definition padded_name :: "u8 list \<Rightarrow> name" where
  "padded_name n = n @ replicate (32 - length n) 0"

lemma strncpy_name: "0 \<notin> set n \<Longrightarrow> length n < 32 \<Longrightarrow> strncpy 32 (n @ [0]) = Inr (padded_name n)"
  by (simp add: strncpy_string padded_name_def)

lemma prepare_default:
  assumes "Ball (set rt) entry_text_ok" and "rt \<noteq> []" and "print_entries rt = Inr out"
    and "files s (chars ''rtable'') = Some out" and "pw_name w = Some (user @ [0])" and "0 \<notin> set user" and "length user < 32"
  shows "prepare_session w default_options s = Inr (s\<lparr>router := (router s)\<lparr>if_list := [], routing_table := rt\<rparr>,
    sr_user := padded_name user, sr_host := padded_name (chars ''vrhost''), sr_template := (sr_template s)[0 := 0], sr_topo_id := 0\<rparr>)"
proof -
  let ?s = "(sr_init_instance s)\<lparr>sr_template := (sr_template (sr_init_instance s))[0 := 0]\<rparr>"
  have "files ?s (chars ''rtable'') = Some out" by (simp add: sr_init_instance_def assms(4))
  from load_table_printed [OF assms(1-3) this] have l:
    "load_table (chars ''rtable'') ?s = Inr (?s\<lparr>router := (router ?s)\<lparr>routing_table := rt\<rparr>\<rparr>)" .
  have h: "strncpy 32 (chars ''vrhost'' @ [0]) = Inr (padded_name (chars ''vrhost''))"
    by (rule strncpy_name) (simp_all add: chars_def)
  show ?thesis
    unfolding prepare_session_def Let_def default_options_def options.simps option.case l rbind_simps h
    using assms(5-7) by (simp add: sr_set_user_def strncpy_name) (simp add: sr_init_instance_def)
qed

lemma default_table: "opt_rtable default_options = chars ''rtable''" "opt_template default_options = None"
  by (simp_all add: default_options_def)

section \<open>Properties\<close>

text \<open>
  C5: The router as a whole: started without options, with the lines of a routing table in its file
  (without the header line that the program prints above them), it answers the server's request, opens
  the topology, takes over and prints the interfaces the server describes, whose names must have an
  end within their 32 bytes (\<open>hw_if\<close>; printing another one reads out of bounds), and from then on keeps
  its invariant: whatever good commands, passes of the ARP thread, interruptions and errors follow,
  and wherever the connection stops, the program never faults.
\<close>

theorem router_runs:
  assumes "Ball (set rt) entry_text_ok" and "print_entries rt = Inr out" and "files s (chars ''rtable'') = Some out"
    and "tables_fit is rt" and "108 * length is \<le> 9992"
    and "reachable_server w" and "pw_name w = Some (user @ [0])" and "0 \<notin> set user" and "length user < 32"
    and "read_key w s = Some key" and "length key = 65" and "length (Message_Block (sha1_memory w)) = 64"
    and "sr_template s \<noteq> []" and "length salt \<le> 9992" and "length txt \<le> 9991" and "0 \<in> set txt" and "ok \<noteq> 0"
    and "list_all quiet evs"
    and "stream evs = message VNS_AUTH_REQUEST salt @ message VNS_AUTH_STATUS (ok # txt) @
      message VNSHWINFO (concat (map hw_block is))"
    and "Ball (set ms) (command_ok (established is rt []))" and "prefix (stream later) (concat ms)"
  shows "\<exists>r. router_main w [] (evs @ later) s = Inr r \<and> router_ok (router (snd (outcome r))) \<and>
    if_list (router (snd (outcome r))) = is \<and> routing_table (router (snd (outcome r))) = rt"
proof -
  have rt: "rt \<noteq> []" using assms(4) by (simp add: tables_fit_def)
  define s1 where "s1 = s\<lparr>router := (router s)\<lparr>if_list := [], routing_table := rt\<rparr>, sr_user := padded_name user,
    sr_host := padded_name (chars ''vrhost''), sr_template := (sr_template s)[0 := 0], sr_topo_id := 0\<rparr>"
  have prep: "prepare_session w default_options s = Inr s1"
    unfolding s1_def by (rule prepare_default [OF assms(1) rt assms(2,3,7,8,9)])
  obtain m where m: "32 - length user = Suc m" using assms(9) by (cases "32 - length user") auto
  obtain t where t: "sr_template s1 = 0 # t" using assms(13) by (cases "sr_template s") (auto simp: s1_def)
  have u: "sr_user s1 = user @ 0 # replicate m 0" "length (sr_user s1) = 32" "length (sr_host s1) = 32"
    using assms(9) by (simp_all add: s1_def padded_name_def m chars_def) (use m in arith)
  have k: "read_key w s1 = Some key" using assms(10) by (simp add: read_key_def s1_def)
  let ?hw = "message VNSHWINFO (concat (map hw_block is))"
  obtain evs2 a b where h: "sr_connect_to_server w (evs @ later) s1 = Inr (Returned 0 (evs2 @ later) (send_message a (send_message b s1)))"
    "stream evs2 = ?hw" "list_all quiet evs2"
    using connect_handshake [OF assms(6) k assms(11,12) u(1) assms(8) u(2,3) t assms(14,15,16,18,19) refl, of later] assms(17)
    by auto
  define ms2 where "ms2 = sent (router s1) @ [b, a]"
  define s2 where "s2 = s1\<lparr>router := (router s1)\<lparr>sent := ms2\<rparr>\<rparr>"
  have "send_message a (send_message b s1) = s2" by (simp add: s2_def ms2_def send_message_def)
  with h have c: "sr_connect_to_server w (evs @ later) s1 = Inr (Returned 0 (evs2 @ later) s2)"
    "stream evs2 = ?hw" "list_all quiet evs2" "s2 = s1\<lparr>router := (router s1)\<lparr>sent := ms2\<rparr>\<rparr>"
    by (simp_all add: s2_def)
  have "files s2 (chars ''rtable'') = Some out" by (simp add: c(4) s1_def assms(3))
  from load_table_printed [OF assms(1) rt assms(2) this] have l:
    "load_table (chars ''rtable'') s2 = Inr (s2\<lparr>router := (router s2)\<lparr>routing_table := rt\<rparr>\<rparr>)" .
  let ?s3 = "sr_init (s2\<lparr>router := (router s2)\<lparr>routing_table := rt\<rparr>\<rparr>)"
  have s3: "router ?s3 = established [] rt ms2" by (simp add: sr_init_def c(4) s1_def established_def)
  note h = handle_hwinfo [OF assms(4,5) s3, of w]
  let ?s4 = "?s3\<lparr>router := established is rt ms2\<rparr>"
  have "length (concat (map hw_block is)) \<le> 9992"
    using length_hw_blocks [of "is"] assms(4,5) by (simp add: tables_fit_def hw_if_def)
  then have wf: "message_wf ?hw" by (rule message_parts(1))
  from read_expect_quiet [OF wf c(3), of "[]" w 0 later ?s3] c(2) h
  obtain evs3 where e: "stream evs3 = []" "list_all quiet evs3"
    "sr_read_from_server w (evs2 @ later) ?s3 = Inr (Returned 1 (evs3 @ later) ?s4)"
    by (auto simp: sr_read_from_server_def)
  have st: "stream (evs3 @ later) = stream later" using e(1) by (induction evs3 rule: stream.induct) auto
  have ok4: "router_ok (router ?s4)" by (simp add: established_ok [OF assms(4)])
  have "same_tables (established is rt []) (established is rt ms2)" by (simp add: same_tables_def)
  then have "command_ok (router ?s4) = command_ok (established is rt [])"
    using established_ok [OF assms(4)] command_ok_same [of "?s3\<lparr>router := established is rt []\<rparr>" ?s4] by (simp add: session_fine_def)
  with server_loop_fine [OF ok4, of ms "evs3 @ later" w] assms(20,21) obtain r where
    r: "server_loop w (evs3 @ later) ?s4 = Inr r" "session_fine ?s4 (snd (outcome r))" by (auto simp: st)
  have "server_loop w (evs2 @ later) ?s3 = Inr r" by (simp add: server_loop.simps [of w "evs2 @ later"] e(3) r(1))
  moreover have "router_ok (router (snd (outcome r)))" "if_list (router (snd (outcome r))) = is"
    "routing_table (router (snd (outcome r))) = rt"
    using r(2) by (simp_all add: session_fine_def same_tables_def)
  ultimately show ?thesis
    by (cases r) (simp_all add: router_main_def prep c(1) l default_table)
qed

definition start_world :: world where "start_world = example_world\<lparr>pw_name := Some [98, 0]\<rparr>"

definition start_session :: session where
  "start_session = example_session\<lparr>files := (files example_session)
     (chars ''rtable'' \<mapsto> concat (map entry_line (routing_table ex_router)))\<rparr>"

definition start_bytes :: "u8 list" where
  "start_bytes = message VNS_AUTH_REQUEST [1, 2] @ message VNS_AUTH_STATUS [1, 0] @
     message VNSHWINFO (concat (map hw_block (if_list ex_router)))"

lemma ex_router_established: "established (if_list ex_router) (routing_table ex_router) [] = ex_router"
  by (simp add: established_def ex_router_def)

lemma ex_tables_text: "Ball (set (routing_table ex_router)) entry_text_ok"
proof -
  have "entry_text_ok (hd (routing_table ex_router))"
    unfolding entry_text_ok_def
    by (rule exI [of _ "[101, 2]"]) (simp add: ex_router_def example_if_def is_space_def)
  then show ?thesis by (simp add: ex_router_def)
qed

lemma ex_tables_fit: "tables_fit (if_list ex_router) (routing_table ex_router)"
proof -
  have "\<forall>i \<in> set (if_list ex_router). hw_if i" by code_simp
  moreover have "\<forall>i \<in> set (if_list ex_router). routable ex_router (if_ip i)"
    "routes_ok ex_router" using ex_router_ok by (simp_all add: router_ok_def)
  moreover have "\<forall>r \<in> set (routing_table ex_router). name_ok 32 (rt_if r) \<and> rt_if r = if_name (example_if 2)"
    by (simp add: ex_router_def name_ok_def example_if_def)
  moreover have "if_list ex_router \<noteq> []" "routing_table ex_router \<noteq> []" "example_if 2 \<in> set (if_list ex_router)"
    by (simp_all add: ex_router_def)
  ultimately show ?thesis by (auto simp: tables_fit_def routable_def)
qed

theorem router_runs_witness:
  "\<exists>r. router_main start_world [] ([Data (take 13 start_bytes), Interrupted, Data (drop 13 start_bytes)] @
      [Data (take 30 example_frame), Pass 3 3, Data (drop 30 example_frame), Failed]) start_session = Inr r \<and>
    router_ok (router (snd (outcome r))) \<and> if_list (router (snd (outcome r))) = if_list ex_router \<and>
    routing_table (router (snd (outcome r))) = routing_table ex_router"
proof (rule router_runs [OF ex_tables_text _ _ ex_tables_fit])
  show "print_entries (routing_table ex_router) = Inr (concat (map entry_line (routing_table ex_router)))"
    by (rule print_entries_lines [OF ex_tables_text])
  have "chars ''rtable'' \<noteq> chars ''auth_key''" by (simp add: chars_def)
  then show "read_key start_world start_session = Some (replicate 64 7 @ [0])"
    by (simp add: read_key_def start_session_def start_world_def example_session_def example_world_def Let_def
        AUTH_KEY_LEN_def first_line_def takeWhile_replicate dropWhile_replicate)
  show "Ball (set [example_frame]) (command_ok (established (if_list ex_router) (routing_table ex_router) []))"
    using example_commands by (simp add: ex_router_established)
  have "stream [Data (take 13 start_bytes), Interrupted, Data (drop 13 start_bytes)] = start_bytes" by simp
  then show "stream [Data (take 13 start_bytes), Interrupted, Data (drop 13 start_bytes)] =
      message VNS_AUTH_REQUEST [1, 2] @ message VNS_AUTH_STATUS (1 # [0]) @
      message VNSHWINFO (concat (map hw_block (if_list ex_router)))"
    by (simp only: start_bytes_def)
  show "pw_name start_world = Some ([98] @ [0])" "(0::u8) \<notin> set [98]" by (simp_all add: start_world_def)
  show "prefix (stream [Data (take 30 example_frame), Pass 3 3, Data (drop 30 example_frame), Failed]) (concat [example_frame])"
    by simp
  show "list_all quiet [Data (take 13 start_bytes), Interrupted, Data (drop 13 start_bytes)]"
    by (simp add: start_bytes_def message_def bytes32_def)
qed (simp_all add: start_session_def start_world_def example_session_def example_world_def ex_router_def ex_context_def SHA1Reset_def)

end
