(* ===== verification/Print.thy ===== *)
theory Print
  imports RouterInvariant RouteFile
begin

text \<open>
  The texts that describe a packet (\<^verbatim>\<open>router/sr_utils.c\<close>), which the router prints for every packet it
  receives or sends: a pointer is the list of the bytes readable from it, the result what is written
  to \<^verbatim>\<open>stderr\<close>.
\<close>

section \<open>Parts\<close>

definition ethertype :: "u8 list \<Rightarrow> u16 res" where
  "ethertype buf = rbind (ld16 buf 12) (\<lambda>t. Inr (htons t))"

definition ip_protocol :: "u8 list \<Rightarrow> u8 res" where
  "ip_protocol buf = ld8 buf 9"

definition hex_digit :: "nat \<Rightarrow> u8" where
  "hex_digit d = of_nat (if d < 10 then 48 + d else 55 + d)"

definition hex2 :: "u8 \<Rightarrow> u8 list" where
  "hex2 b = [hex_digit (unat b div 16), hex_digit (unat b mod 16)]"

definition print_addr_eth :: "u8 list \<Rightarrow> u8 list res" where
  "print_addr_eth addr = rbind (ldn 6 addr 0) (\<lambda>a.
     Inr (hex2 (hd a) @ concat (map (\<lambda>b. chars '':'' @ hex2 b) (tl a)) @ [10]))"

definition print_addr_ip_int :: "u32 \<Rightarrow> u8 list" where
  "print_addr_ip_int ip = decimal (unat (drop_bit 24 ip)) @ chars ''.'' @ decimal (unat (drop_bit 24 (push_bit 8 ip))) @ chars ''.'' @
     decimal (unat (drop_bit 24 (push_bit 16 ip))) @ chars ''.'' @ decimal (unat (drop_bit 24 (push_bit 24 ip))) @ [10]"

text \<open>A line of the form \<^verbatim>\<open>\tlabel: %d\n\<close>.\<close>

definition field :: "string \<Rightarrow> 'a::len word \<Rightarrow> u8 list" where
  "field label v = [9] @ chars label @ chars '': '' @ decimal (unat v) @ [10]"

section \<open>Headers\<close>

definition print_hdr_eth :: "u8 list \<Rightarrow> u8 list res" where
  "print_hdr_eth buf =
    rbind (print_addr_eth buf) (\<lambda>dst. rbind (print_addr_eth (drop 6 buf)) (\<lambda>src. rbind (ld16 buf 12) (\<lambda>t.
    Inr (chars ''ETHERNET header:'' @ [10] @ [9] @ chars ''destination: '' @ dst @ [9] @ chars ''source: '' @ src @
      field ''type'' (htons t)))))"

definition print_hdr_ip :: "u8 list \<Rightarrow> u8 list res" where
  "print_hdr_ip buf =
    rbind (ld8 buf 0) (\<lambda>b. rbind (ld8 buf 1) (\<lambda>tos. rbind (ld16 buf 2) (\<lambda>len. rbind (ld16 buf 4) (\<lambda>i.
    rbind (ld16 buf 6) (\<lambda>off. rbind (ld8 buf 8) (\<lambda>ttl. rbind (ld8 buf 9) (\<lambda>p. rbind (ld16 buf 10) (\<lambda>s.
    rbind (ld32 buf 12) (\<lambda>src. rbind (ld32 buf 16) (\<lambda>dst.
    let off = htons off in
    Inr (chars ''IP header:'' @ [10] @ field ''version'' (drop_bit 4 b) @ field ''header length'' (b AND 0xf) @
      field ''type of service'' tos @ field ''length'' (htons len) @ field ''id'' (htons i) @
      (if off AND 0x4000 \<noteq> 0 then [9] @ chars ''fragment flag: DF'' @ [10]
       else if off AND 0x2000 \<noteq> 0 then [9] @ chars ''fragment flag: MF'' @ [10]
       else if off AND 0x8000 \<noteq> 0 then [9] @ chars ''fragment flag: R'' @ [10] else []) @
      field ''fragment offset'' (off AND 0x1fff) @ field ''TTL'' ttl @ field ''protocol'' p @ field ''checksum'' s @
      [9] @ chars ''source: '' @ print_addr_ip_int (htonl src) @
      [9] @ chars ''destination: '' @ print_addr_ip_int (htonl dst))))))))))))"

definition print_hdr_icmp :: "u8 list \<Rightarrow> u8 list res" where
  "print_hdr_icmp buf =
    rbind (ld8 buf 1) (\<lambda>code. rbind (ld8 buf 0) (\<lambda>ty. rbind (ld16 buf 2) (\<lambda>s.
    if code = 0 \<or> code = 8 then
      rbind (ld16 buf 4) (\<lambda>i. rbind (ld16 buf 6) (\<lambda>seq.
      Inr (chars ''ICMP Echo header:'' @ [10] @ field ''type'' ty @ field ''code'' code @ field ''checksum'' s @
        field ''identifier'' i @ field ''sequence number'' seq)))
    else Inr (chars ''ICMP header:'' @ [10] @ field ''type'' ty @ field ''code'' code @ field ''checksum'' s))))"

definition print_hdr_arp :: "u8 list \<Rightarrow> u8 list res" where
  "print_hdr_arp buf =
    rbind (ld16 buf 0) (\<lambda>hrd. rbind (ld16 buf 2) (\<lambda>pro. rbind (ld8 buf 4) (\<lambda>hln. rbind (ld8 buf 5) (\<lambda>pln.
    rbind (ld16 buf 6) (\<lambda>op. rbind (print_addr_eth (drop 8 buf)) (\<lambda>sha. rbind (ld32 buf 14) (\<lambda>sip.
    rbind (print_addr_eth (drop 18 buf)) (\<lambda>tha. rbind (ld32 buf 24) (\<lambda>tip.
    Inr (chars ''ARP header'' @ [10] @ field ''hardware type'' (htons hrd) @ field ''protocol type'' (htons pro) @
      field ''hardware address length'' hln @ field ''protocol address length'' pln @ field ''opcode'' (htons op) @
      [9] @ chars ''sender hardware address: '' @ sha @ [9] @ chars ''sender ip address: '' @ print_addr_ip_int (htonl sip) @
      [9] @ chars ''target hardware address: '' @ tha @ [9] @ chars ''target ip address: '' @ print_addr_ip_int (htonl tip)))))))))))"

definition print_hdrs :: "u8 list \<Rightarrow> u8 list res" where
  "print_hdrs buf =
    (if length buf < 14 then Inr (chars ''Failed to print ETHERNET header, insufficient length'' @ [10]) else
     rbind (ethertype buf) (\<lambda>ethtype. rbind (print_hdr_eth buf) (\<lambda>eth.
     rbind
       (if ethtype = ethertype_ip then
          if length buf < 34 then Inr (chars ''Failed to print IP header, insufficient length'' @ [10]) else
          rbind (print_hdr_ip (drop 14 buf)) (\<lambda>ip. rbind (ip_protocol (drop 14 buf)) (\<lambda>ip_proto.
          rbind (if ip_proto = ip_protocol_icmp then
              if length buf < 38 then Inr (chars ''Failed to print ICMP header, insufficient length'' @ [10])
              else print_hdr_icmp (drop 34 buf)
            else Inr []) (\<lambda>icmp. Inr (ip @ icmp))))
        else if ethtype = ethertype_arp then
          if length buf < 42 then Inr (chars ''Failed to print ARP header, insufficient length'' @ [10])
          else print_hdr_arp (drop 14 buf)
        else Inr (chars ''Unrecognized Ethernet Type: '' @ decimal (unat ethtype) @ [10])) (\<lambda>rest.
     Inr (eth @ rest)))))"

section \<open>Lemmas\<close>

lemma addr_ip_int_ntoa: "print_addr_ip_int (htonl a) = inet_ntoa a @ [10]"
proof -
  have z: "unat (ucast z :: u32) = unat z" for z :: u8
    by (simp only: unsigned_ucast_eq) (simp add: take_bit_nat_eq_self less_trans [OF unat_u8_less])
  have "drop_bit 24 (push_bit 24 x) = (ucast (ucast x :: u8) :: u32)"
    "drop_bit 24 (push_bit 16 x) = (ucast (ucast (drop_bit 8 x) :: u8) :: u32)"
    "drop_bit 24 (push_bit 8 x) = (ucast (ucast (drop_bit 16 x) :: u8) :: u32)"
    "drop_bit 24 x = (ucast (ucast (drop_bit 24 x) :: u8) :: u32)" for x :: u32
    by (rule bit_word_eqI; auto simp: bit_simps dest: bit_imp_le_length)+
  from this [THEN arg_cong [where f = unat]]
  have "map unat [drop_bit 24 x, drop_bit 24 (push_bit 8 x), drop_bit 24 (push_bit 16 x), drop_bit 24 (push_bit 24 x)] =
      map unat (rev (bytes32 x))" for x :: u32
    unfolding z by (simp only: bytes32_def rev.simps append.simps list.map)
  moreover obtain p q r s where b: "bytes32 a = [p, q, r, s]" by (simp add: bytes32_def)
  then have "bytes32 (htonl a) = [s, r, q, p]" by (simp add: htonl_def)
  ultimately have "map unat [drop_bit 24 (htonl a), drop_bit 24 (push_bit 8 (htonl a)), drop_bit 24 (push_bit 16 (htonl a)),
      drop_bit 24 (push_bit 24 (htonl a))] = map unat [p, q, r, s]" by simp
  then show ?thesis by (simp add: print_addr_ip_int_def inet_ntoa_def b chars_def)
qed

lemma print_eth_arp:
  "14 \<le> length p \<Longrightarrow> \<exists>t. print_hdr_eth p = Inr t" "28 \<le> length p \<Longrightarrow> \<exists>t. print_hdr_arp p = Inr t"
  by (simp_all add: print_hdr_eth_def print_hdr_arp_def print_addr_eth_def)

lemma print_ip:
  assumes "20 \<le> length p"
  shows "\<exists>t. print_hdr_ip p = Inr t"
proof -
  have "p \<noteq> []" using assms by auto
  with assms show ?thesis by (simp add: print_hdr_ip_def Let_def)
qed

lemma print_icmp:
  assumes "8 \<le> length p"
  shows "\<exists>t. print_hdr_icmp p = Inr t"
proof -
  have "p \<noteq> []" using assms by auto
  with assms show ?thesis by (simp add: print_hdr_icmp_def)
qed

text \<open>
  Printing never reads outside a packet that is too short for every header that is printed, or long
  enough for all; between, the echo header of an ICMP packet of 38 to 41 bytes is read to its end.
\<close>

theorem print_hdrs_safe:
  assumes "42 \<le> length p \<or> length p < 38"
  shows "\<exists>t. print_hdrs p = Inr t"
proof (cases "length p < 14")
  case False
  then obtain t e where t: "ethertype p = Inr t" "print_hdr_eth p = Inr e"
    using print_eth_arp(1) [of p] by (auto simp: ethertype_def ld16_Inr)
  have "\<exists>i. print_hdr_ip (drop 14 p) = Inr i \<and> (\<exists>r. ip_protocol (drop 14 p) = Inr r)" if "34 \<le> length p"
    using print_ip [of "drop 14 p"] that by (auto simp: ip_protocol_def ld8_Inr)
  moreover have "\<exists>t. print_hdr_icmp (drop 34 p) = Inr t" "\<exists>t. print_hdr_arp (drop 14 p) = Inr t" if "\<not> length p < 42"
    using that by (intro print_icmp print_eth_arp(2); simp)+
  ultimately show ?thesis
    using False assms by (cases "34 \<le> length p") (auto simp: print_hdrs_def t)
qed (simp add: print_hdrs_def)

theorem print_hdrs_overread:
  assumes "ethertype p = Inr ethertype_ip" and "ip_protocol (drop 14 p) = Inr ip_protocol_icmp"
    and "38 \<le> length p" and "length p < 42" and "p ! 35 = 0 \<or> p ! 35 = 8"
  shows "print_hdrs p = Inl OutOfBounds"
proof -
  obtain e i where "print_hdr_eth p = Inr e" "print_hdr_ip (drop 14 p) = Inr i"
    using print_eth_arp(1) [of p] print_ip [of "drop 14 p"] assms(3) by (force simp: le_diff_conv2)
  moreover have "print_hdr_icmp (drop 34 p) = Inl OutOfBounds"
  proof -
    have "ld8 (drop 34 p) 1 = Inr (p ! 35)" "\<exists>t. ld8 (drop 34 p) 0 = Inr t" "\<exists>t. ld16 (drop 34 p) 2 = Inr t"
      using assms(3) by (simp_all add: ld8_Inr ld16_Inr)
    moreover have "ld16 (drop 34 p) 4 = Inl OutOfBounds \<or> ld16 (drop 34 p) 6 = Inl OutOfBounds \<and> (\<exists>t. ld16 (drop 34 p) 4 = Inr t)"
      using assms(3,4) by (cases "length p < 40") (simp_all add: ld16_Inr, simp_all add: ld16_def ldn_def)
    ultimately show ?thesis using assms(5) by (auto simp: print_hdr_icmp_def)
  qed
  ultimately show ?thesis using assms(1-3) by (simp add: print_hdrs_def)
qed

end
