(* ===== verification/PrintState.thy ===== *)
theory PrintState
  imports Print SenderInvariant
begin

text \<open>
  The texts that describe the state of the programs: commands, frames and the send window of a host
  (\<^verbatim>\<open>tcp/src/util.c\<close>), the ARP cache of the router (\<^verbatim>\<open>router/sr_arpcache.c\<close>), addresses
  (\<^verbatim>\<open>router/sr_utils.c\<close>) and the usage of the router (\<^verbatim>\<open>router/sr_main.c\<close>). The result is what is
  written; reading a string without an end is a fault. The interfaces of the router are printed by the
  handler of the hardware description, in \<open>Routing\<close>.
\<close>

section \<open>Conversions\<close>

text \<open>A line \<^verbatim>\<open>label: %d\n\<close>.\<close>

definition labelled :: "string \<Rightarrow> nat \<Rightarrow> u8 list" where
  "labelled label v = chars label @ chars '': '' @ decimal v @ [10]"

section \<open>Commands, frames and windows\<close>

definition print_cmd :: "cmd \<Rightarrow> u8 list res" where
  "print_cmd c = rbind (string_arg (message c)) (\<lambda>m.
     Inr (chars ''src='' @ decimal (unat (cmd_src_id c)) @ chars '', dst='' @ decimal (unat (cmd_dst_id c)) @
       chars '', message='' @ m @ [10]))"

text \<open>Behind the data of a frame lies its checksum, behind that the end of the allocation.\<close>

definition print_frame :: "frame \<Rightarrow> u8 list res" where
  "print_frame f = rbind (string_arg (data f @ [checksum f])) (\<lambda>d.
     Inr (chars ''Frame bytes remaining '' @ decimal (unat (remaining_msg_bytes f)) @ [10] @
       labelled ''Frame dst_id'' (unat (dst_id f)) @ labelled ''Frame src_id'' (unat (src_id f)) @
       labelled ''Frame seq_num'' (unat (seq_num f)) @ chars ''Frame data: '' @ d @ [10]))"

definition print_slots :: "send_window_slot list \<Rightarrow> u8 list res" where
  "print_slots slots = rfold (\<lambda>s out. case sframe s of None \<Rightarrow> Inl NullDeref
     | Some f \<Rightarrow> rbind (print_frame f) (\<lambda>t. Inr (out @ t))) slots []"

definition print_window :: "env \<Rightarrow> nat \<Rightarrow> host \<Rightarrow> u8 list res" where
  "print_window e recv_id h = check_peer e recv_id
     (rbind (print_slots (map (\<lambda>i. cq_get_item_send e recv_id i h) [0..<cq_get_length_send recv_id h])) (\<lambda>frames.
     Inr (replicate 32 61 @ [10] @ chars ''Host '' @ decimal (hid h) @ chars '' send window '' @ decimal recv_id @
       chars '': length '' @ decimal (cq_get_length_send recv_id h) @ [10] @ frames @ replicate 32 61 @ [10])))"

section \<open>Addresses, interfaces and the ARP cache\<close>

definition print_addr_ip :: "u32 \<Rightarrow> u8 list" where
  \<comment> \<open>\<^verbatim>\<open>inet_ntop\<close> does not fail on an address of the known family\<close>
  "print_addr_ip address = inet_ntoa address @ [10]"

text \<open>One line of the table; \<open>ctime\<close> stands for the library's function of that name.\<close>

definition dump_entry :: "(int \<Rightarrow> u8 list) \<Rightarrow> sr_arpentry \<Rightarrow> u8 list res" where
  "dump_entry ctime cur = rbind (ldn 6 (ae_mac cur) 0) (\<lambda>mac.
     Inr (concat (map (\<lambda>b. hex_min 1 (unat b)) mac) @ chars ''   '' @ hex_min 8 (unat (htonl (ae_ip cur))) @ chars ''   '' @
       cstr 24 (ctime (ae_added cur)) @ chars ''   '' @ decimal (if ae_valid cur then 1 else 0) @ [10]))"

definition sr_arpcache_dump :: "(int \<Rightarrow> u8 list) \<Rightarrow> sr_arpcache \<Rightarrow> u8 list res" where
  "sr_arpcache_dump ctime c =
    rbind (rfold (\<lambda>cur out. rbind (dump_entry ctime cur) (\<lambda>t. Inr (out @ t))) (entries c) []) (\<lambda>rows.
    Inr ([10] @ chars ''MAC            IP         ADDED                      VALID'' @ [10] @ replicate 59 45 @ [10] @ rows @ [10]))"

definition DEFAULT_PORT :: nat where "DEFAULT_PORT = 8888"
definition DEFAULT_HOST :: "u8 list" where "DEFAULT_HOST = chars ''vrhost''"
definition DEFAULT_SERVER :: "u8 list" where "DEFAULT_SERVER = chars ''localhost''"

definition usage :: "u8 list \<Rightarrow> u8 list res" where
  "usage argv0 = rbind (string_arg argv0) (\<lambda>prog.
     Inr (chars ''Simple Router Client'' @ [10] @
       chars ''Format: '' @ prog @ chars '' [-h] [-v host] [-s server] [-p port] '' @ [10] @
       chars ''           [-T template_name] [-u username] '' @ [10] @
       chars ''           [-t topo id] [-r routing table] '' @ [10] @
       chars ''           [-l log file] '' @ [10] @
       chars ''   defaults server='' @ DEFAULT_SERVER @ chars '' port='' @ decimal DEFAULT_PORT @
       chars '' host='' @ DEFAULT_HOST @ chars ''  '' @ [10]))"

section \<open>Lemmas\<close>

text \<open>A loop that prints one item after the other.\<close>

lemma print_all:
  assumes "\<And>x. x \<in> set xs \<Longrightarrow> g x = Inr (t x)"
  shows "rfold (\<lambda>x out. rbind (g x) (\<lambda>l. Inr (out @ l))) xs s = Inr (s @ concat (map t xs))"
  using assms by (induction xs arbitrary: s) simp_all

lemma print_fails:
  assumes "x \<in> set xs" and "g x = Inl f" and "\<And>y f'. y \<in> set xs \<Longrightarrow> g y = Inl f' \<Longrightarrow> f' = f"
  shows "rfold (\<lambda>x out. rbind (g x) (\<lambda>l. Inr (out @ l))) xs s = Inl f"
  using assms
proof (induction xs arbitrary: s)
  case (Cons y ys)
  show ?case
  proof (cases "g y")
    case (Inl f')
    then show ?thesis using Cons.prems(3) [of y f'] by simp
  next
    case (Inr l)
    then have "x \<in> set ys" using Cons.prems(1,2) by auto
    then have "rfold (\<lambda>x out. rbind (g x) (\<lambda>l. Inr (out @ l))) ys (s @ l) = Inl f"
      by (rule Cons.IH [OF _ Cons.prems(2)]) (rule Cons.prems(3), simp_all)
    with Inr show ?thesis by simp
  qed
qed simp

definition ended :: "frame \<Rightarrow> bool" where
  "ended f \<longleftrightarrow> 0 \<in> set (data f @ [checksum f])"

definition frame_text :: "frame \<Rightarrow> u8 list" where
  "frame_text f = (case print_frame f of Inr t \<Rightarrow> t | Inl _ \<Rightarrow> [])"

lemma print_frame_text: "print_frame f = (if ended f then Inr (frame_text f) else Inl OutOfBounds)"
  by (auto simp: frame_text_def print_frame_def string_arg_def ended_def)

text \<open>
  The window is printed frame by frame, oldest first, and no slot of it is empty; but a frame whose
  message fills it has no end, and printing it reads behind the frame.
\<close>

theorem print_window_text:
  assumes "windows_ok e h" and "q < num_hosts e"
  shows "print_window e q h =
    (if \<forall>(f, t) \<in> set (send_items e q h). ended f then
       Inr (replicate 32 61 @ [10] @ chars ''Host '' @ decimal (hid h) @ chars '' send window '' @ decimal q @
         chars '': length '' @ decimal (length (send_items e q h)) @ [10] @
         concat (map (frame_text \<circ> fst) (send_items e q h)) @ replicate 32 61 @ [10])
     else Inl OutOfBounds)"
proof -
  let ?slots = "map (\<lambda>i. cq_get_item_send e q i h) [0..<cq_get_length_send q h]"
  have ok: "send_ok e q h" using assms by (simp add: windows_ok_def)
  have some: "s \<in> set ?slots \<Longrightarrow> sframe s \<noteq> None" for s using send_slots_in [OF ok] by auto
  have len: "length (send_items e q h) = cq_get_length_send q h" by simp
  have items: "send_items e q h = map slot_item ?slots"
    by (intro nth_equalityI) (simp_all add: send_items_nth)
  let ?g = "\<lambda>s. case sframe s of None \<Rightarrow> Inl NullDeref | Some f \<Rightarrow> print_frame f"
  have slots: "print_slots ?slots = rfold (\<lambda>s out. rbind (?g s) (\<lambda>t. Inr (out @ t))) ?slots []"
    unfolding print_slots_def by (rule arg_cong [where f = "\<lambda>f. rfold f ?slots []"]) (auto split: option.split)
  show ?thesis
  proof (cases "\<forall>(f, t) \<in> set (send_items e q h). ended f")
    case True
    have "?g s = Inr (frame_text (fst (slot_item s)))" if "s \<in> set ?slots" for s
      using True some [OF that] that by (auto simp: items print_frame_text slot_item_def)
    from print_all [of ?slots ?g, OF this] show ?thesis
      using True assms(2) unfolding print_window_def slots by (simp add: items comp_def)
  next
    case False
    then obtain s where s: "s \<in> set ?slots" "\<not> ended (fst (slot_item s))" unfolding items by (auto simp: split_def)
    have "rfold (\<lambda>s out. rbind (?g s) (\<lambda>t. Inr (out @ t))) ?slots [] = Inl OutOfBounds"
    proof (rule print_fails [OF s(1)])
      show "?g s = Inl OutOfBounds" using some [OF s(1)] s(2) by (auto simp: print_frame_text slot_item_def)
      show "f = OutOfBounds" if "y \<in> set ?slots" "?g y = Inl f" for y f
        using that some [OF that(1)] by (auto simp: print_frame_text split: if_splits)
    qed
    with False assms(2) show ?thesis unfolding print_window_def slots by simp
  qed
qed

lemma addr_ip_same: "print_addr_ip_int (htonl a) = print_addr_ip a"
  by (simp add: print_addr_ip_def addr_ip_int_ntoa)

lemma dump_safe:
  assumes "arp_ok c"
  shows "\<exists>t. sr_arpcache_dump ctime c = Inr t"
proof -
  have "\<exists>t. dump_entry ctime a = Inr t" if "a \<in> set (entries c)" for a
    using assms that by (simp add: arp_ok_def dump_entry_def ldn_def)
  then obtain t where "\<And>a. a \<in> set (entries c) \<Longrightarrow> dump_entry ctime a = Inr (t a)" by metis
  from print_all [of "entries c" "dump_entry ctime", OF this] show ?thesis by (simp add: sr_arpcache_dump_def)
qed

end
