(* ===== verification/Dump.thy ===== *)
theory Dump
  imports Routing
begin

text \<open>
  The log of packets in the format of tcpdump (\<^verbatim>\<open>router/sr_dumper.c\<close>, \<^verbatim>\<open>sr_log_packet\<close> of
  \<^verbatim>\<open>router/sr_vns_comm.c\<close>). A file is the list of its bytes; the time of day is an argument. Beside it
  stands a reader that follows the format, which the theorems compare the log with.
\<close>

section \<open>The code\<close>

definition PCAP_VERSION_MAJOR :: u16 where "PCAP_VERSION_MAJOR = 2"
definition PCAP_VERSION_MINOR :: u16 where "PCAP_VERSION_MINOR = 4"
definition TCPDUMP_MAGIC :: u32 where "TCPDUMP_MAGIC = 0xa1b2c3d4"
definition LINKTYPE_ETHERNET :: u32 where "LINKTYPE_ETHERNET = 1"
definition PACKET_DUMP_SIZE :: int where "PACKET_DUMP_SIZE = 1024"

definition sf_write_header :: "u8 list \<Rightarrow> u32 \<Rightarrow> u32 \<Rightarrow> u32 \<Rightarrow> u8 list" where
  "sf_write_header fp linktype thiszone snaplen =
    fp @ bytes32 TCPDUMP_MAGIC @ bytes16 PCAP_VERSION_MAJOR @ bytes16 PCAP_VERSION_MINOR @ bytes32 thiszone @
      bytes32 0 @ bytes32 snaplen @ bytes32 linktype"

definition sr_dump_open :: "u32 \<Rightarrow> u32 \<Rightarrow> u8 list" where
  \<comment> \<open>the contents of a file that could be opened\<close>
  "sr_dump_open thiszone snaplen = sf_write_header [] LINKTYPE_ETHERNET thiszone snaplen"

record pcap_pkthdr =
  ts_sec :: int
  ts_usec :: int
  caplen :: u32
  pkt_len :: u32

definition sr_dump :: "u8 list \<Rightarrow> pcap_pkthdr \<Rightarrow> u8 list \<Rightarrow> u8 list res" where
  "sr_dump fp h sp =
    rbind (ldn (unat (caplen h)) sp 0) (\<lambda>bs.
    Inr (fp @ bytes32 (word_of_int (ts_sec h)) @ bytes32 (word_of_int (ts_usec h)) @ bytes32 (caplen h) @ bytes32 (pkt_len h) @ bs))"

text \<open>\<open>None\<close> is the null pointer for no log file.\<close>

definition sr_log_packet :: "int \<times> int \<Rightarrow> u8 list option \<Rightarrow> u8 list \<Rightarrow> int \<Rightarrow> u8 list option res" where
  "sr_log_packet t logfile buf len =
    (case logfile of None \<Rightarrow> Inr None
     | Some fp \<Rightarrow>
       let size = (if PACKET_DUMP_SIZE < len then PACKET_DUMP_SIZE else len);
         h = \<lparr>ts_sec = fst t, ts_usec = snd t, caplen = word_of_int size,
           pkt_len = word_of_int (if size < PACKET_DUMP_SIZE then size else PACKET_DUMP_SIZE)\<rparr>
       in rbind (sr_dump fp h buf) (\<lambda>fp. Inr (Some fp)))"

definition log_packets :: "((int \<times> int) \<times> u8 list) list \<Rightarrow> u8 list option \<Rightarrow> u8 list option res" where
  "log_packets ps logfile = rfold (\<lambda>(t, p) l. sr_log_packet t l p (int (length p))) ps logfile"

section \<open>A reader of the format\<close>

type_synonym pcap_record = "u32 \<times> u32 \<times> u32 \<times> u8 list"

text \<open>Seconds, microseconds, length on the wire and bytes of each record.\<close>

definition pcap_word :: "u8 list \<Rightarrow> nat \<Rightarrow> u32" where
  "pcap_word s i = word32 (s ! i) (s ! (i + 1)) (s ! (i + 2)) (s ! (i + 3))"

function pcap_records :: "u8 list \<Rightarrow> pcap_record list option" where
  "pcap_records s =
    (if s = [] then Some []
     else if length s < 16 then None
     else if length s < 16 + unat (pcap_word s 8) then None
     else map_option ((#) (pcap_word s 0, pcap_word s 4, pcap_word s 12, take (unat (pcap_word s 8)) (drop 16 s)))
       (pcap_records (drop (16 + unat (pcap_word s 8)) s)))"
  by auto
termination
proof (relation "measure length")
  fix s :: "u8 list" assume "s \<noteq> []" "\<not> length s < 16"
  then have "length s - (16 + unat (pcap_word s 8)) < length s" by arith
  then show "(drop (16 + unat (pcap_word s 8)) s, s) \<in> measure length" by (simp only: in_measure length_drop)
qed simp

declare pcap_records.simps [simp del]

definition pcap_read :: "u8 list \<Rightarrow> pcap_record list option" where
  "pcap_read s = (if take 8 s = bytes32 TCPDUMP_MAGIC @ bytes16 2 @ bytes16 4 \<and> 24 \<le> length s then pcap_records (drop 24 s) else None)"

section \<open>The log is readable\<close>

definition record_of :: "(int \<times> int) \<times> u8 list \<Rightarrow> pcap_record" where
  "record_of = (\<lambda>((s, u), p). (word_of_int s, word_of_int u, of_nat (min 1024 (length p)), take 1024 p))"

definition record_bytes :: "(int \<times> int) \<times> u8 list \<Rightarrow> u8 list" where
  "record_bytes = (\<lambda>((s, u), p). bytes32 (word_of_int s) @ bytes32 (word_of_int u) @
     bytes32 (of_nat (min 1024 (length p))) @ bytes32 (of_nat (min 1024 (length p))) @ take 1024 p)"

lemma unat_min_1024: "unat (of_nat (min 1024 n) :: u32) = min 1024 n"
  by (simp only: unsigned_of_nat) (simp add: take_bit_nat_eq_self)

lemma unat_min_1024': "unat (of_nat (min n 1024) :: u32) = min n 1024"
  using unat_min_1024 [of n] by (simp only: min.commute)

lemma sr_log_packet_record:
  "sr_log_packet t (Some fp) p (int (length p)) = Inr (Some (fp @ record_bytes (t, p)))"
proof -
  have m: "int (min 1024 (length p)) = (if 1024 < int (length p) then 1024 else int (length p))" by auto
  have w: "word_of_int (if 1024 < int (length p) then 1024 else int (length p)) = (of_nat (min 1024 (length p)) :: u32)"
    unfolding m [symmetric] by simp
  have s: "(if (if 1024 < int (length p) then 1024 else int (length p)) < 1024
      then (if 1024 < int (length p) then 1024 else int (length p)) else 1024) =
    (if 1024 < int (length p) then 1024 else int (length p))" by auto
  have k: "take (min 1024 (length p)) p = take 1024 p" by (simp add: min_def)
  show ?thesis
    unfolding sr_log_packet_def option.case Let_def PACKET_DUMP_SIZE_def s w sr_dump_def
    by (cases t) (simp add: unat_min_1024 unat_min_1024' record_bytes_def k)
qed

lemma log_packets_records:
  "log_packets ps (Some fp) = Inr (Some (fp @ concat (map record_bytes ps)))"
proof (induction ps arbitrary: fp)
  case (Cons tp ps)
  then show ?case by (cases tp) (simp add: log_packets_def sr_log_packet_record)
qed (simp add: log_packets_def)

lemma pcap_records_Cons: "pcap_records (record_bytes tp @ s) = map_option ((#) (record_of tp)) (pcap_records s)"
proof -
  obtain a b p where tp: "tp = ((a, b), p)" by (cases tp) auto
  let ?n = "of_nat (min 1024 (length p)) :: u32"
  have w: "word32 (bytes32 x ! 0) (bytes32 x ! Suc 0) (bytes32 x ! 2) (bytes32 x ! 3) = x" for x by simp
  obtain a0 a1 a2 a3 b0 b1 b2 b3 n0 n1 n2 n3 where
    x: "bytes32 (word_of_int a) = [a0, a1, a2, a3]" "bytes32 (word_of_int b) = [b0, b1, b2, b3]" "bytes32 ?n = [n0, n1, n2, n3]"
    by (simp add: bytes32_def)
  have v: "word32 a0 a1 a2 a3 = word_of_int a" "word32 b0 b1 b2 b3 = word_of_int b" "word32 n0 n1 n2 n3 = ?n"
    using w [of "word_of_int a"] w [of "word_of_int b"] w [of ?n] unfolding x by simp_all
  define B where "B = take 1024 p"
  define H where "H = [a0, a1, a2, a3, b0, b1, b2, b3, n0, n1, n2, n3, n0, n1, n2, n3]"
  have e: "record_bytes tp @ s = H @ B @ s" unfolding record_bytes_def tp prod.case x B_def H_def by simp
  have l: "length H = 16" "length B = unat ?n" by (simp_all add: H_def B_def unat_min_1024 unat_min_1024')
  have f: "pcap_word (H @ B @ s) 0 = word_of_int a" "pcap_word (H @ B @ s) 4 = word_of_int b"
    "pcap_word (H @ B @ s) 8 = ?n" "pcap_word (H @ B @ s) 12 = ?n"
    by (simp_all add: pcap_word_def H_def v)
  have d: "take (unat ?n) (drop 16 (H @ B @ s)) = B" "drop (16 + unat ?n) (H @ B @ s) = s"
    "H @ B @ s \<noteq> []" "\<not> length (H @ B @ s) < 16" "\<not> length (H @ B @ s) < 16 + unat ?n"
    using l by auto
  have "record_of tp = (word_of_int a, word_of_int b, ?n, B)" by (simp add: record_of_def tp B_def)
  then show ?thesis
    unfolding e by (subst pcap_records.simps) (simp only: f d if_False)
qed

theorem dump_readable:
  "\<exists>fp. log_packets ps (Some (sr_dump_open zone snaplen)) = Inr (Some fp) \<and> pcap_read fp = Some (map record_of ps)"
proof -
  let ?h = "sr_dump_open zone snaplen"
  have h: "length ?h = 24" "take 8 ?h = bytes32 TCPDUMP_MAGIC @ bytes16 2 @ bytes16 4"
    by (simp_all add: sr_dump_open_def sf_write_header_def PCAP_VERSION_MAJOR_def PCAP_VERSION_MINOR_def)
  have "pcap_records (concat (map record_bytes ps)) = Some (map record_of ps)"
  proof (induction ps)
    case Nil
    show ?case by (subst pcap_records.simps) simp
  qed (simp add: pcap_records_Cons)
  then have "pcap_read (?h @ concat (map record_bytes ps)) = Some (map record_of ps)"
    by (simp add: pcap_read_def h)
  then show ?thesis by (simp add: log_packets_records)
qed

end
