(* ===== verification/Spec2Isabelle.thy ===== *)
theory Spec2Isabelle
  imports Finish FaultRun Interleave RouterMain PrintState Dump
begin

text \<open>
  Verification of the two programs of the network simulator: a simulator of hosts that exchange
  messages by a sliding-window protocol with congestion control (\<^verbatim>\<open>src/tcp\<close>), and a software router
  that talks to a virtual network server (\<^verbatim>\<open>src/router\<close>).

  \<^bold>\<open>The programs\<close>

  The simulator reads commands \<^verbatim>\<open>msg s r text\<close> and \<^verbatim>\<open>exit\<close> (\<^verbatim>\<open>input.c\<close>), and repeats rounds: all senders
  run (\<^verbatim>\<open>sender.c\<close>), the switch delivers data frames in a random order of the hosts and may damage
  them (\<^verbatim>\<open>switch.c\<close>), all receivers run (\<^verbatim>\<open>receiver.c\<close>), the switch delivers the acknowledgements. Hosts
  keep circular windows and linked lists (\<^verbatim>\<open>util.c\<close>, \<^verbatim>\<open>host.c\<close>, \<^verbatim>\<open>common.h\<close>).

  The router receives frames from the server (\<^verbatim>\<open>sr_vns_comm.c\<close>), answers ARP and ICMP echo requests,
  forwards IP packets by its routing table (\<^verbatim>\<open>sr_router.c\<close>, \<^verbatim>\<open>sr_rt.c\<close>, \<^verbatim>\<open>sr_if.c\<close>), keeps packets whose next
  hop is not resolved in the ARP cache, and a thread retries or gives up the requests
  (\<^verbatim>\<open>sr_arpcache.c\<close>). The server authenticates it by a SHA-1 digest (\<^verbatim>\<open>sha1.c\<close>), may send it a
  routing table, and then sends frames; the main program (\<^verbatim>\<open>sr_main.c\<close>) loads the table and reads
  commands until the session ends.

  \<^bold>\<open>Theories, the simulator\<close>

  \<^item> \<open>Prelude\<close>: machine integers as words, faults as values of a sum type, sequencing (\<open>rbind\<close>), loops
    over lists (\<open>rfold\<close>).
  \<^item> \<open>LinkedList\<close>: the circular doubly linked list of \<^verbatim>\<open>util.c\<close> on an explicit heap; the interface of a
    queue is the locale of that theory, interpreted on the heap operations, so that the other
    components use lists.
  \<^item> \<open>Frame\<close>, \<open>Util\<close>: the packed frame as bytes, the CRC, sequence numbers, times, doubles.
  \<^item> \<open>Host\<close>: the record of a host and the window operations of \<^verbatim>\<open>host.c\<close> and \<^verbatim>\<open>util.c\<close>.
  \<^item> \<open>Receiver\<close>, \<open>Sender\<close>, \<open>Switch\<close>: one definition per function, with one for each loop body;
    \<open>SenderInvariant\<close>, \<open>SwitchInvariant\<close> and \<open>Acks\<close> hold the lemmas on what they keep.
  \<^item> \<open>Simulation\<close>: the invariant of a connection between two hosts (\<open>net_inv\<close>) and the phases of a
    round; \<open>Rounds\<close>: reachable states (\<open>run\<close>) and the properties of the whole simulator; \<open>Lossless\<close>:
    rounds over a channel that neither drops nor damages frames; \<open>FaultRun\<close>: a run that faults.
  \<^item> \<open>Scan\<close>: lines, the conversions of \<^verbatim>\<open>sscanf\<close> and decimal notation, used by both programs; \<open>Input\<close>:
    \<^verbatim>\<open>getline\<close>, \<^verbatim>\<open>check_input\<close> and the main loop on the bytes of standard input.
  \<^item> \<open>Start\<close>: \<^verbatim>\<open>parse_args\<close>, \<^verbatim>\<open>run_config\<close> and the first half of \<^verbatim>\<open>main\<close>. The record \<open>env\<close> of \<open>Host\<close>
    is what the globals look like after it. \<open>Finish\<close>: the program from its command line to its exit
    (\<open>simulator\<close>).

  \<^bold>\<open>Theories, the router\<close>

  \<^item> \<open>Packet\<close>: loads and stores in buffers (an access outside is a fault), byte order, the checksum.
  \<^item> \<open>Routing\<close>: interfaces and their printing, routing table, longest-prefix lookup, the hardware
    description.
  \<^item> \<open>ArpCache\<close>: entries, requests and waiting packets; the laws of a neighbour table are the locale
    \<open>neighbour_table\<close>, interpreted on the code's cache.
  \<^item> \<open>Router\<close>: all handlers of \<^verbatim>\<open>sr_router.c\<close>, sending, and the pass of the ARP thread.
  \<^item> \<open>RouterInvariant\<close>, \<open>RouterSafety\<close>, \<open>RouterProperties\<close>: the invariant \<open>router_ok\<close>, its preservation by
    every event, and the properties of the handlers. \<open>Interleave\<close>: the handlers in steps (\<open>hstep\<close>), cut
    at the lock of the cache and at their writes, beside the passes of the thread (\<open>act\<close>).
  \<^item> \<open>Sha1\<close>, \<open>Auth\<close>: the hash with the definition of FIPS 180-4 beside it, and the reply to the
    authentication request.
  \<^item> \<open>RouteFile\<close>: dotted notation, \<^verbatim>\<open>sr_load_rt\<close> on the bytes of a file and the printed table.
  \<^item> \<open>Server\<close>: \<^verbatim>\<open>sr_read_from_server_expect\<close> on a connection that is a list of events, the dispatch of
    commands, \<^verbatim>\<open>sr_connect_to_server\<close>, the main loop and \<^verbatim>\<open>main\<close>; \<open>Session\<close>: the properties of
    reading, of the handshake and of the loop; \<open>RouterMain\<close>: the run of the whole program.
  \<^item> \<open>Print\<close>, \<open>PrintState\<close>, \<open>Dump\<close>: the texts printed for packets (\<^verbatim>\<open>sr_utils.c\<close>), those printed for
    hosts and for the ARP cache, and the log in the format of tcpdump (\<^verbatim>\<open>sr_dumper.c\<close>).

  \<^bold>\<open>What the lemmas show\<close>

  For the simulator: the queue refines a list; each handler keeps the invariant of its host; a
  frame damaged in one byte is recognised; the receiver refines an abstract receiver that
  accepts in order; acknowledgements move a window only over accepted frames; together, at the
  exit every commanded message has been printed once, whole, and in order. A round can stop in one way
  only (\<open>round_faults\<close>), a read of an uninitialised pointer that \<open>uninitialised_read_reached\<close> reaches in a
  run; over a lossless channel it never does, all messages arrive (\<open>lossless_delivers\<close>), and the program
  ends (\<open>program_finishes\<close>). For the router: no
  handler faults on frames of at least the header sizes; every frame sent carries an address of
  the router as source; forwarding, errors, ARP resolution and retries do what the protocols ask,
  as far as the theorems say (they also state where the code deviates: \<open>checksum_equivalence\<close>,
  \<open>echo_answered\<close>, \<open>lookup_longest_prefix\<close>). The session refines a loop over whole commands, whatever
  pieces they arrive in, and the invariant of the router carries over to it, with passes of the ARP
  thread, interruptions and errors at any point of the stream; \<open>router_runs\<close> starts it from the files
  and the server's messages, which establish that invariant. Passes that come in the middle of a
  handler are as safe (\<open>interleaving_safe\<close>) and, but for one race (\<open>reply_race\<close>), lead to the same as whole
  handlers and passes in some order (\<open>interleaving_is_sequence\<close>; \<open>steps_are_handlers\<close> ties the steps to the
  handlers), so the properties of whole handlers speak about the two threads. Texts are read back
  as what was written: command lines, options, the entry lines of routing tables (not the header line
  that is printed above them: \<open>rtable_roundtrip\<close>), hardware descriptions, dumps.

  \<^bold>\<open>Bounds\<close>

  No model uses fuel: loops are recursions over lists or have a measure. The end-to-end statement
  on the simulator assumes a window of at most 64 frames, so that sequence numbers of 8 bits
  distinguish the window and its predecessor, and messages of less than 65536 bytes, because
  the code keeps their remaining length in 16 bits, and commands between different hosts (a host
  that sends to itself makes \<^verbatim>\<open>frame_sanity_check\<close> of \<^verbatim>\<open>util.c\<close> end the program). \<open>start_checked\<close> says which
  of these conditions the program checks itself; the product of the window size and the number of
  hosts, an \<^verbatim>\<open>int\<close> in the code, is checked for overflow in \<open>init\<close>, before the hosts are set up with sizes
  that are natural numbers. A frame is damaged in at most one byte, as \<^verbatim>\<open>send_frame\<close>
  of \<^verbatim>\<open>switch.c\<close> does it. On the router, frames hold at least 42 bytes and have a source with a
  route (\<open>frame_ok\<close>); commands of the server have between 8 and 10000 bytes. The
  names of the interfaces that the server describes must end within their 32 bytes (\<open>hw_if\<close>), because
  they are printed.

  \<^bold>\<open>Assumptions of the model\<close>

  Allocations and writes to the socket succeed; the host is little-endian with 32-bit \<^verbatim>\<open>int\<close>; doubles are
  rationals with a rounding function as a parameter; time and random numbers are functions that
  are parameters. Between handler and ARP thread, a pass of the thread is atomic, because it holds
  the lock of the cache from its first to its last access, and so is each write to the socket.
  The frame of a window slot is read with \<open>the\<close> where the code follows the pointer (\<open>find_slot\<close>,
  \<open>retransmit_frame\<close>, \<open>window_on_ack\<close>, \<open>resend_slot\<close>): the invariant \<open>windows_ok\<close>, kept by every handler, gives
  every slot in a window a frame.

  \<^bold>\<open>Not modelled\<close>

  Diagnostics of the simulator on \<^verbatim>\<open>stderr\<close> and the creation of its directory (the rows of the diagnostics
  file are modelled), \<^verbatim>\<open>ll_destroy_node\<close> (it only frees), name lookup and sockets (one flag says that
  the server is reachable), \<^verbatim>\<open>getopt\<close> (its result, a list of options, is the argument of
  \<open>router_main\<close>), and the configuration library (a parameter); of the helpers that nothing calls, \<^verbatim>\<open>min\<close>
  and \<^verbatim>\<open>max\<close> on \<^verbatim>\<open>int\<close>; and the egress ports, which are set up and never used. What is printed of
  packets is modelled by itself and left out of the handlers: they print on every packet, and
  \<open>print_hdrs_safe\<close> shows that this reads nothing outside the packets the theorems on the handlers are
  about. The printing of the interfaces and of the routing table, whose texts are not checked before,
  is part of \<open>sr_handle_hwinfo\<close> and \<open>sr_load_rt_wrap\<close>. The log
  of packets is left out of the session likewise.
\<close>

end
